(* ===== verification/Go_Prelude.thy ===== *)
theory Go_Prelude
  imports Main "HOL-Library.Word" "HOL-Library.Monad_Syntax"
begin

unbundle bit_operations_syntax

text \<open>
  What the component theories share: bytes, array accesses that fail where Go panics, the bits of a
  byte from the most significant one down, and the collections of rewrite rules the component proofs
  use.

  A Go slice or array is a list. An index out of range panics in Go, so reads and writes go through
  \<open>idx\<close> and \<open>upd\<close>, whose result \<open>None\<close> is the panic.
\<close>

section \<open>Types and rule collections\<close>

type_synonym byte = "8 word"
type_synonym uint = "64 word"

named_theorems array_simps \<open>array accesses that are in range\<close>
named_theorems bits_simps \<open>bit lists of words and streams\<close>

section \<open>Arrays\<close>

definition idx :: "'a list \<Rightarrow> nat \<Rightarrow> 'a option" where
  "idx xs i = (if i < length xs then Some (xs ! i) else None)"

definition upd :: "'a list \<Rightarrow> nat \<Rightarrow> 'a \<Rightarrow> 'a list option" where
  "upd xs i v = (if i < length xs then Some (xs[i := v]) else None)"

lemma idx_in_range [array_simps]: "i < length xs \<Longrightarrow> idx xs i = Some (xs ! i)"
  by (simp add: idx_def)

lemma upd_in_range [array_simps]: "i < length xs \<Longrightarrow> upd xs i v = Some (xs[i := v])"
  by (simp add: upd_def)

lemma idx_eq_Some: "idx xs i = Some x \<longleftrightarrow> i < length xs \<and> xs ! i = x"
  by (simp add: idx_def)

lemma upd_eq_Some: "upd xs i v = Some ys \<longleftrightarrow> i < length xs \<and> ys = xs[i := v]"
  by (auto simp: upd_def)

text \<open>\<open>copy(xs[dst:], xs[lo:hi])\<close> within one slice; a slice expression out of range panics.\<close>

definition copy_within :: "'a list \<Rightarrow> nat \<Rightarrow> nat \<Rightarrow> nat \<Rightarrow> 'a list option" where
  "copy_within xs dst lo hi =
     (if dst \<le> length xs \<and> lo \<le> hi \<and> hi \<le> length xs then
        let m = min (length xs - dst) (hi - lo)
        in Some (take dst xs @ take m (drop lo xs) @ drop (dst + m) xs)
      else None)"

section \<open>Counting loops\<close>

text \<open>\<open>for i := a; i < b; i++\<close> is \<open>foldM body [a..<b]\<close>; a panic in the body ends the loop.\<close>

fun foldM :: "('i \<Rightarrow> 's \<Rightarrow> 's option) \<Rightarrow> 'i list \<Rightarrow> 's \<Rightarrow> 's option" where
  "foldM f [] s = Some s"
| "foldM f (i # is) s = do { s \<leftarrow> f i s; foldM f is s }"

lemma foldM_append: "foldM f (is @ js) s = do { s \<leftarrow> foldM f is s; foldM f js s }"
  by (induction "is" arbitrary: s) (auto split: Option.bind_split)

lemma foldM_invariant:
  assumes step: "\<And>i s. a \<le> i \<Longrightarrow> i < b \<Longrightarrow> I i s \<Longrightarrow> \<exists>s'. f i s = Some s' \<and> I (Suc i) s'"
    and "I a s" and "a \<le> b"
  shows "\<exists>s'. foldM f [a..<b] s = Some s' \<and> I b s'"
proof -
  have "\<exists>s'. foldM f [a..<a + n] s = Some s' \<and> I (a + n) s'" if "a + n \<le> b" for n
    using that
  proof (induction n)
    case 0
    then show ?case using assms(2) by simp
  next
    case (Suc n)
    then obtain s1 where 1: "foldM f [a..<a + n] s = Some s1" "I (a + n) s1" by auto
    then obtain s2 where "f (a + n) s1 = Some s2" "I (Suc (a + n)) s2"
      using step [of "a + n"] Suc.prems by auto
    then show ?case using 1 by (simp add: foldM_append)
  qed
  from this [of "b - a"] show ?thesis using assms(3) by simp
qed

lemma foldM_keeps:
  assumes "foldM f is s = Some s'" and "\<And>i s s'. f i s = Some s' \<Longrightarrow> g s' = g s"
  shows "g s' = g s"
  using assms(1)
proof (induction "is" arbitrary: s)
  case (Cons i "is")
  then obtain s1 where "f i s = Some s1" "foldM f is s1 = Some s'" by (auto simp: bind_eq_Some_conv)
  then show ?case using Cons.IH [of s1] assms(2) by auto
qed simp

section \<open>Bits of bytes, most significant first\<close>

definition byte_bits :: "byte \<Rightarrow> bool list" where
  "byte_bits b = [bit b 7, bit b 6, bit b 5, bit b 4, bit b 3, bit b 2, bit b 1, bit b 0]"

definition stream_bits :: "byte list \<Rightarrow> bool list" where
  "stream_bits bs = concat (map byte_bits bs)"

lemma length_byte_bits [simp]: "length (byte_bits b) = 8"
  by (simp add: byte_bits_def)

lemma stream_bits_Nil [simp]: "stream_bits [] = []"
  by (simp add: stream_bits_def)

lemma stream_bits_Cons [simp]: "stream_bits (b # bs) = byte_bits b @ stream_bits bs"
  by (simp add: stream_bits_def)

lemma stream_bits_append [simp]: "stream_bits (xs @ ys) = stream_bits xs @ stream_bits ys"
  by (simp add: stream_bits_def)

lemma length_stream_bits [simp]: "length (stream_bits bs) = 8 * length bs"
  by (induction bs) auto

lemma rev_byte_bits_nth: "n < 8 \<Longrightarrow> rev (byte_bits b) ! n = bit b n"
  by (auto simp: byte_bits_def less_Suc_eq numeral_eq_Suc)

section \<open>The first 256 numbers\<close>

text \<open>Tables over all byte values are compared entry by entry.\<close>

lemma upt_256: "[0..<256] = [
    0, 1, 2, 3, 4, 5, 6, 7, 8, 9, 10, 11, 12, 13, 14, 15, 16, 17, 18, 19, 20, 21, 22, 23, 24,
    25, 26, 27, 28, 29, 30, 31, 32, 33, 34, 35, 36, 37, 38, 39, 40, 41, 42, 43, 44, 45, 46,
    47, 48, 49, 50, 51, 52, 53, 54, 55, 56, 57, 58, 59, 60, 61, 62, 63, 64, 65, 66, 67, 68,
    69, 70, 71, 72, 73, 74, 75, 76, 77, 78, 79, 80, 81, 82, 83, 84, 85, 86, 87, 88, 89, 90,
    91, 92, 93, 94, 95, 96, 97, 98, 99, 100, 101, 102, 103, 104, 105, 106, 107, 108, 109, 110,
    111, 112, 113, 114, 115, 116, 117, 118, 119, 120, 121, 122, 123, 124, 125, 126, 127, 128,
    129, 130, 131, 132, 133, 134, 135, 136, 137, 138, 139, 140, 141, 142, 143, 144, 145, 146,
    147, 148, 149, 150, 151, 152, 153, 154, 155, 156, 157, 158, 159, 160, 161, 162, 163, 164,
    165, 166, 167, 168, 169, 170, 171, 172, 173, 174, 175, 176, 177, 178, 179, 180, 181, 182,
    183, 184, 185, 186, 187, 188, 189, 190, 191, 192, 193, 194, 195, 196, 197, 198, 199, 200,
    201, 202, 203, 204, 205, 206, 207, 208, 209, 210, 211, 212, 213, 214, 215, 216, 217, 218,
    219, 220, 221, 222, 223, 224, 225, 226, 227, 228, 229, 230, 231, 232, 233, 234, 235, 236,
    237, 238, 239, 240, 241, 242, 243, 244, 245, 246, 247, 248, 249, 250, 251, 252, 253, 254,
    255]"
  by (simp add: upt_rec [of 0] upt_rec [of "Suc 0"] upt_rec [of "Suc (Suc 0)"] flip: numeral_2_eq_2)

lemma bit_int_255 [bits_simps]: "bit (0xff :: int) n \<longleftrightarrow> n < 8"
proof -
  have "(0xff :: int) = mask 8" by (simp add: mask_eq_exp_minus_1)
  moreover have "bit (mask 8 :: int) n \<longleftrightarrow> n < 8"
    by (auto simp only: bit_mask_iff possible_bit_def) simp
  ultimately show ?thesis by (simp only:)
qed

section \<open>Little endian integers\<close>

text \<open>As \<^verbatim>\<open>encoding/binary\<close> reads and writes them.\<close>

definition le16 :: "16 word \<Rightarrow> byte list" where
  "le16 x = [ucast x, ucast (drop_bit 8 x)]"

definition le32 :: "32 word \<Rightarrow> byte list" where
  "le32 x = [ucast x, ucast (drop_bit 8 x), ucast (drop_bit 16 x), ucast (drop_bit 24 x)]"

definition of_le16 :: "byte list \<Rightarrow> 16 word" where
  "of_le16 bs = ucast (bs ! 0) OR push_bit 8 (ucast (bs ! 1))"

definition of_le32 :: "byte list \<Rightarrow> 32 word" where
  "of_le32 bs = ucast (bs ! 0) OR push_bit 8 (ucast (bs ! 1)) OR push_bit 16 (ucast (bs ! 2)) OR
     push_bit 24 (ucast (bs ! 3))"

lemma of_le16_le16: "of_le16 (le16 x) = x"
  by (rule bit_word_eqI) (auto simp: of_le16_def le16_def bit_simps)

lemma of_le32_le32: "of_le32 (le32 x) = x"
proof (rule bit_word_eqI)
  fix n assume "n < LENGTH(32)"
  then show "bit (of_le32 (le32 x)) n = bit x n"
    by (cases "n < 24"; cases "n < 16") (auto simp: of_le32_def le32_def bit_simps)
qed

lemma length_le [simp]: "length (le16 x) = 2" "length (le32 y) = 4"
  by (simp_all add: le16_def le32_def)

end
