(* ===== verification/Lzhuf_Crc.thy ===== *)
theory Lzhuf_Crc
  imports Go_Prelude
begin

unbundle bit_operations_syntax

text \<open>
  The checksum of the B2 format (\<^verbatim>\<open>src/lzhuf/crc.go\<close>): a table-driven CRC-16 with the polynomial
  \<^verbatim>\<open>0x1021\<close>, fed byte by byte (\<open>udpCRC16\<close>), kept by the reader in a \<open>crcWriter\<close> and computed in
  one go by the writer (\<open>crc\<close>). The theorems relate the table to bitwise polynomial division, the two
  ways of computing the checksum to each other, and show that a change of one byte is detected.
\<close>

section \<open>The program\<close>

type_synonym crc16 = "16 word"

record crcWriter =
  crcw_sum :: crc16

definition crc16tab :: "crc16 list" where
  "crc16tab = [
     0x0000, 0x1021, 0x2042, 0x3063, 0x4084, 0x50a5, 0x60c6, 0x70e7,
     0x8108, 0x9129, 0xa14a, 0xb16b, 0xc18c, 0xd1ad, 0xe1ce, 0xf1ef,
     0x1231, 0x0210, 0x3273, 0x2252, 0x52b5, 0x4294, 0x72f7, 0x62d6,
     0x9339, 0x8318, 0xb37b, 0xa35a, 0xd3bd, 0xc39c, 0xf3ff, 0xe3de,
     0x2462, 0x3443, 0x0420, 0x1401, 0x64e6, 0x74c7, 0x44a4, 0x5485,
     0xa56a, 0xb54b, 0x8528, 0x9509, 0xe5ee, 0xf5cf, 0xc5ac, 0xd58d,
     0x3653, 0x2672, 0x1611, 0x0630, 0x76d7, 0x66f6, 0x5695, 0x46b4,
     0xb75b, 0xa77a, 0x9719, 0x8738, 0xf7df, 0xe7fe, 0xd79d, 0xc7bc,
     0x48c4, 0x58e5, 0x6886, 0x78a7, 0x0840, 0x1861, 0x2802, 0x3823,
     0xc9cc, 0xd9ed, 0xe98e, 0xf9af, 0x8948, 0x9969, 0xa90a, 0xb92b,
     0x5af5, 0x4ad4, 0x7ab7, 0x6a96, 0x1a71, 0x0a50, 0x3a33, 0x2a12,
     0xdbfd, 0xcbdc, 0xfbbf, 0xeb9e, 0x9b79, 0x8b58, 0xbb3b, 0xab1a,
     0x6ca6, 0x7c87, 0x4ce4, 0x5cc5, 0x2c22, 0x3c03, 0x0c60, 0x1c41,
     0xedae, 0xfd8f, 0xcdec, 0xddcd, 0xad2a, 0xbd0b, 0x8d68, 0x9d49,
     0x7e97, 0x6eb6, 0x5ed5, 0x4ef4, 0x3e13, 0x2e32, 0x1e51, 0x0e70,
     0xff9f, 0xefbe, 0xdfdd, 0xcffc, 0xbf1b, 0xaf3a, 0x9f59, 0x8f78,
     0x9188, 0x81a9, 0xb1ca, 0xa1eb, 0xd10c, 0xc12d, 0xf14e, 0xe16f,
     0x1080, 0x00a1, 0x30c2, 0x20e3, 0x5004, 0x4025, 0x7046, 0x6067,
     0x83b9, 0x9398, 0xa3fb, 0xb3da, 0xc33d, 0xd31c, 0xe37f, 0xf35e,
     0x02b1, 0x1290, 0x22f3, 0x32d2, 0x4235, 0x5214, 0x6277, 0x7256,
     0xb5ea, 0xa5cb, 0x95a8, 0x8589, 0xf56e, 0xe54f, 0xd52c, 0xc50d,
     0x34e2, 0x24c3, 0x14a0, 0x0481, 0x7466, 0x6447, 0x5424, 0x4405,
     0xa7db, 0xb7fa, 0x8799, 0x97b8, 0xe75f, 0xf77e, 0xc71d, 0xd73c,
     0x26d3, 0x36f2, 0x0691, 0x16b0, 0x6657, 0x7676, 0x4615, 0x5634,
     0xd94c, 0xc96d, 0xf90e, 0xe92f, 0x99c8, 0x89e9, 0xb98a, 0xa9ab,
     0x5844, 0x4865, 0x7806, 0x6827, 0x18c0, 0x08e1, 0x3882, 0x28a3,
     0xcb7d, 0xdb5c, 0xeb3f, 0xfb1e, 0x8bf9, 0x9bd8, 0xabbb, 0xbb9a,
     0x4a75, 0x5a54, 0x6a37, 0x7a16, 0x0af1, 0x1ad0, 0x2ab3, 0x3a92,
     0xfd2e, 0xed0f, 0xdd6c, 0xcd4d, 0xbdaa, 0xad8b, 0x9de8, 0x8dc9,
     0x7c26, 0x6c07, 0x5c64, 0x4c45, 0x3ca2, 0x2c83, 0x1ce0, 0x0cc1,
     0xef1f, 0xff3e, 0xcf5d, 0xdf7c, 0xaf9b, 0xbfba, 0x8fd9, 0x9ff8,
     0x6e17, 0x7e36, 0x4e55, 0x5e74, 0x2e93, 0x3eb2, 0x0ed1, 0x1ef0]"

definition udpCRC16 :: "int \<Rightarrow> crc16 \<Rightarrow> crc16" where
  "udpCRC16 cp sm =
     ((push_bit 8 sm AND 0xff00) XOR (crc16tab ! unat (drop_bit 8 sm AND 0xff))) XOR word_of_int cp"

definition newCRCWriter :: crcWriter where
  "newCRCWriter = \<lparr>crcw_sum = 0\<rparr>"

definition crcw_Write :: "byte list \<Rightarrow> crcWriter \<Rightarrow> crcWriter" where
  "crcw_Write p w = fold (\<lambda>c w. w\<lparr>crcw_sum := udpCRC16 (uint c) (crcw_sum w)\<rparr>) p w"

definition crcw_Sum :: "crcWriter \<Rightarrow> crc16" where
  "crcw_Sum w = fold (\<lambda>c sm. udpCRC16 (uint c) sm) [0, 0 :: byte] (crcw_sum w)"

definition crc :: "byte list \<Rightarrow> crc16" where
  "crc p = fold (\<lambda>c sm. udpCRC16 (uint c) sm) (p @ [0, 0]) 0"

section \<open>Reference: division by the polynomial, bit by bit\<close>

text \<open>One step of the long division: shift the next message bit in, subtract the polynomial
  when a one is shifted out.\<close>

definition shift_in :: "bool \<Rightarrow> crc16 \<Rightarrow> crc16" where
  "shift_in b s = push_bit 1 s XOR of_bool b"

definition crc_bit :: "bool \<Rightarrow> crc16 \<Rightarrow> crc16" where
  "crc_bit b s = shift_in b s XOR (if bit s 15 then 0x1021 else 0)"

lemma bit_shift_in: "bit (shift_in b s) i \<longleftrightarrow> (if i = 0 then b else i < 16 \<and> bit s (i - 1))"
  by (auto simp: shift_in_def bit_simps simp del: push_bit_Suc)

definition crc_ref :: "bool list \<Rightarrow> crc16 \<Rightarrow> crc16" where
  "crc_ref bs s = fold crc_bit bs s"

section \<open>The table computes eight division steps\<close>

lemma crc_bit_xor: "crc_bit (b = (\<not> c)) (s XOR t) = crc_bit b s XOR crc_bit c t"
  by (rule bit_word_eqI) (auto simp: crc_bit_def bit_shift_in bit_simps)

lemma crc_ref_xor:
  "length bs = length cs \<Longrightarrow>
    crc_ref (map2 (\<lambda>x y. x = (\<not> y)) bs cs) (s XOR t) = crc_ref bs s XOR crc_ref cs t"
proof (induction bs cs arbitrary: s t rule: list_induct2)
  case Nil
  then show ?case by (simp add: crc_ref_def)
next
  case (Cons b bs c cs)
  then show ?case by (simp add: crc_ref_def crc_bit_xor)
qed

lemma crc_ref_append: "crc_ref (xs @ ys) s = crc_ref ys (crc_ref xs s)"
  by (simp add: crc_ref_def)

lemma crc16tab_length: "length crc16tab = 256"
  by (simp add: crc16tab_def)

text \<open>While the register's top bits are clear nothing is shifted out, and the steps only move the
  message bits in.\<close>

definition crc_shift :: "bool list \<Rightarrow> crc16 \<Rightarrow> crc16" where
  "crc_shift bs s = fold shift_in bs s"

lemma crc_ref_no_feedback:
  assumes "length bs \<le> 16" and "\<And>i. 16 - length bs \<le> i \<Longrightarrow> \<not> bit s i"
  shows "crc_ref bs s = crc_shift bs s"
  using assms
proof (induction bs arbitrary: s)
  case Nil
  then show ?case by (simp add: crc_ref_def crc_shift_def)
next
  case (Cons b bs)
  have "\<not> bit s 15" using Cons.prems(2) [of 15] by simp
  then have eq: "crc_bit b s = shift_in b s"
    by (simp add: crc_bit_def)
  have "\<not> bit (shift_in b s) i" if "16 - length bs \<le> i" for i
    using that Cons.prems(1) Cons.prems(2) [of "i - 1"] by (auto simp: bit_shift_in)
  then show ?case using Cons.IH [of "shift_in b s"] Cons.prems(1)
    by (simp add: crc_ref_def crc_shift_def eq)
qed

lemma bit_crc_shift:
  "bit (crc_shift bs s) n \<longleftrightarrow>
     n < 16 \<and> (if n < length bs then rev bs ! n else bit s (n - length bs))"
proof (induction bs arbitrary: s)
  case Nil
  then show ?case by (auto simp: crc_shift_def dest: bit_imp_le_length)
next
  case (Cons b bs)
  have "crc_shift (b # bs) s = crc_shift bs (shift_in b s)"
    by (simp add: crc_shift_def)
  then show ?case
    using Cons.IH [of "shift_in b s"] by (auto simp: bit_shift_in nth_append not_less)
qed

lemma crc_shift_byte: "crc_shift (byte_bits c) s = push_bit 8 s XOR ucast c"
proof (rule bit_word_eqI)
  fix n :: nat
  assume n: "n < LENGTH(16)"
  show "bit (crc_shift (byte_bits c) s) n = bit (push_bit 8 s XOR ucast c) n"
  proof (cases "n < 8")
    case True
    then show ?thesis by (simp add: bit_crc_shift rev_byte_bits_nth bit_xor_iff bit_push_bit_iff bit_ucast_iff)
  next
    case False
    then have "\<not> bit c n" by (auto dest: bit_imp_le_length)
    with False n show ?thesis
      by (simp add: bit_crc_shift bit_xor_iff bit_push_bit_iff bit_ucast_iff)
  qed
qed

definition tab_entry :: "nat \<Rightarrow> crc16" where
  "tab_entry h = crc_ref (byte_bits 0) (push_bit 8 (word_of_nat h))"

lemma tab_entry_table:
  "map tab_entry [
    0, 1, 2, 3, 4, 5, 6, 7, 8, 9, 10, 11, 12, 13, 14, 15, 16, 17, 18, 19, 20, 21, 22, 23, 24,
    25, 26, 27, 28, 29, 30, 31, 32, 33, 34, 35, 36, 37, 38, 39, 40, 41, 42, 43, 44, 45, 46,
    47, 48, 49, 50, 51, 52, 53, 54, 55, 56, 57, 58, 59, 60, 61, 62, 63, 64, 65, 66, 67, 68,
    69, 70, 71, 72, 73, 74, 75, 76, 77, 78, 79, 80, 81, 82, 83, 84, 85, 86, 87, 88, 89, 90,
    91, 92, 93, 94, 95, 96, 97, 98, 99, 100, 101, 102, 103, 104, 105, 106, 107, 108, 109, 110,
    111, 112, 113, 114, 115, 116, 117, 118, 119, 120, 121, 122, 123, 124, 125, 126, 127, 128,
    129, 130, 131, 132, 133, 134, 135, 136, 137, 138, 139, 140, 141, 142, 143, 144, 145, 146,
    147, 148, 149, 150, 151, 152, 153, 154, 155, 156, 157, 158, 159, 160, 161, 162, 163, 164,
    165, 166, 167, 168, 169, 170, 171, 172, 173, 174, 175, 176, 177, 178, 179, 180, 181, 182,
    183, 184, 185, 186, 187, 188, 189, 190, 191, 192, 193, 194, 195, 196, 197, 198, 199, 200,
    201, 202, 203, 204, 205, 206, 207, 208, 209, 210, 211, 212, 213, 214, 215, 216, 217, 218,
    219, 220, 221, 222, 223, 224, 225, 226, 227, 228, 229, 230, 231, 232, 233, 234, 235, 236,
    237, 238, 239, 240, 241, 242, 243, 244, 245, 246, 247, 248, 249, 250, 251, 252, 253, 254,
    255] = crc16tab"
  unfolding list.map crc16tab_def
  by (simp add: tab_entry_def crc_ref_def crc_bit_def shift_in_def byte_bits_def)

lemma crc16tab_nth: "h < 256 \<Longrightarrow> crc16tab ! h = tab_entry h"
  using tab_entry_table unfolding upt_256 [symmetric]
  by (metis add_0 diff_zero length_upt nth_map nth_upt)

text \<open>Splitting the register into its high byte, which the table takes, and its low byte.\<close>

lemma register_split: "(s :: crc16) = push_bit 8 (drop_bit 8 s) XOR (s AND 0xff)"
  by (rule bit_word_eqI) (auto simp: bit_simps bits_simps)

lemma drop_bit_8_and: "drop_bit 8 (s :: crc16) AND 0xff = drop_bit 8 s"
  by (rule bit_word_eqI) (auto simp: bit_simps bits_simps dest: bit_imp_le_length)

lemma udpCRC16_division: "udpCRC16 (uint c) s = crc_ref (byte_bits c) s"
proof -
  let ?h = "drop_bit 8 s" and ?l = "s AND 0xff"
  have h: "unat ?h < 256"
    using unsigned_less [of s, where 'a = nat] by (simp add: drop_bit_eq_div unat_div)
  have tab: "crc16tab ! unat ?h = crc_ref (byte_bits 0) (push_bit 8 ?h)"
    using h by (simp add: crc16tab_nth tab_entry_def)
  have low: "crc_ref (byte_bits c) ?l = push_bit 8 ?l XOR ucast c"
    by (subst crc_ref_no_feedback) (auto simp: bit_simps bits_simps crc_shift_byte)
  have "map2 (\<lambda>x y. x = (\<not> y)) (byte_bits 0) (byte_bits c) = byte_bits c"
    by (simp add: byte_bits_def)
  then have "crc_ref (byte_bits c) s =
      crc_ref (byte_bits 0) (push_bit 8 ?h) XOR crc_ref (byte_bits c) ?l"
    using crc_ref_xor [of "byte_bits 0" "byte_bits c" "push_bit 8 ?h" ?l]
    by (simp flip: register_split)
  moreover have "push_bit 8 ?l = push_bit 8 s AND 0xff00"
    by (rule bit_word_eqI) (auto simp: bit_simps bits_simps)
  ultimately show ?thesis
    unfolding udpCRC16_def by (simp add: drop_bit_8_and tab low ac_simps)
qed

lemma fold_udpCRC16: "fold (\<lambda>c sm. udpCRC16 (uint c) sm) p s = crc_ref (stream_bits p) s"
  by (induction p arbitrary: s) (simp_all add: udpCRC16_division crc_ref_append crc_ref_def)

text \<open>
  C31. The table-driven checksum of the B2 header is the remainder of the message, followed by sixteen
  zero bits, under bitwise division by the polynomial 0x1021: \<open>crc\<close> folds \<open>udpCRC16\<close> over the bytes
  and agrees with feeding the message bits one at a time through the division register.
\<close>

theorem crc_division: "crc p = crc_ref (stream_bits (p @ [0, 0])) 0"
  by (simp only: crc_def fold_udpCRC16)

section \<open>The incremental checksum of the reader\<close>

lemma crcw_Write_sum: "crcw_sum (crcw_Write p w) = crc_ref (stream_bits p) (crcw_sum w)"
  by (induction p arbitrary: w) (simp_all add: crcw_Write_def udpCRC16_division crc_ref_append crc_ref_def)

lemma crcw_fold_sum:
  "crcw_sum (fold crcw_Write ps w) = crc_ref (stream_bits (concat ps)) (crcw_sum w)"
  by (induction ps arbitrary: w) (simp_all add: crcw_Write_sum crc_ref_append crc_ref_def)

text \<open>
  The checksum the reader accumulates does not depend on how the compressed stream was cut into
  reads: writing the pieces one after the other to a fresh \<open>crcWriter\<close> and asking for \<open>Sum\<close> gives
  the \<open>crc\<close> the writer computes over the whole stream at once.
\<close>

theorem crcWriter_chunks: "crcw_Sum (fold crcw_Write ps newCRCWriter) = crc (concat ps)"
proof -
  have "crcw_Sum (fold crcw_Write ps newCRCWriter) =
      crc_ref (stream_bits [0, 0]) (crcw_sum (fold crcw_Write ps newCRCWriter))"
    unfolding crcw_Sum_def fold_udpCRC16 ..
  also have "\<dots> = crc_ref (stream_bits (concat ps @ [0, 0])) 0"
    by (simp only: crcw_fold_sum crc_ref_append stream_bits_append) (simp add: newCRCWriter_def)
  finally show ?thesis by (simp only: crc_division)
qed

section \<open>Error detection\<close>

lemma bit_poly_0: "bit (0x1021 :: crc16) 0"
  by simp

lemma crc_bit_inj: "crc_bit b s = crc_bit b t \<Longrightarrow> s = t"
proof -
  assume eq: "crc_bit b s = crc_bit b t"
  have top: "bit s 15 = bit t 15"
    using arg_cong [OF eq, of "\<lambda>w. bit w 0"] by (auto simp: crc_bit_def bit_shift_in bit_xor_iff split: if_splits)
  show "s = t"
  proof (rule bit_word_eqI)
    fix n :: nat
    assume "n < LENGTH(16)"
    show "bit s n = bit t n"
    proof (cases "n = 15")
      case True
      with top show ?thesis by simp
    next
      case False
      with \<open>n < LENGTH(16)\<close> have "n + 1 < 16" by simp
      then show ?thesis
        using arg_cong [OF eq, of "\<lambda>w. bit w (n + 1)"] top
        by (auto simp: crc_bit_def bit_shift_in bit_xor_iff)
    qed
  qed
qed

lemma crc_ref_inj: "crc_ref bs s = crc_ref bs t \<Longrightarrow> s = t"
  by (induction bs arbitrary: s t) (auto simp: crc_ref_def dest: crc_bit_inj)

lemma crc_ref_window:
  assumes "length e = length e'" and "length e \<le> 16" and "crc_ref e s = crc_ref e' s"
  shows "e = e'"
proof -
  let ?d = "map2 (\<lambda>x y. x = (\<not> y)) e e'"
  have "crc_shift ?d 0 = crc_ref ?d 0"
    using assms(1,2) by (subst crc_ref_no_feedback) simp_all
  also have "\<dots> = crc_ref e s XOR crc_ref e' s"
    using crc_ref_xor [OF assms(1), of s s] by simp
  finally have zero: "crc_shift ?d 0 = 0" using assms(3) by simp
  show ?thesis
  proof (rule nth_equalityI)
    show "length e = length e'" by (fact assms(1))
    fix i assume i: "i < length e"
    let ?n = "length e - 1 - i"
    have n: "?n < length ?d" "?n < 16" using i assms(1,2) by auto
    have "\<not> bit (crc_shift ?d 0) ?n" by (simp only: zero) simp
    then have "\<not> rev ?d ! ?n" using n by (simp only: bit_crc_shift if_True) simp
    then show "e ! i = e' ! i" using i assms(1) by (simp add: rev_nth)
  qed
qed

text \<open>
  C29. The checksum detects every error burst of at most sixteen bits: two messages whose bit streams
  agree outside one window of that width, and differ inside it, have different checksums.
\<close>

theorem crc_detects_bursts:
  assumes "stream_bits p = u @ e @ v" and "stream_bits q = u @ e' @ v"
    and "length e = length e'" and "length e \<le> 16" and "e \<noteq> e'"
  shows "crc p \<noteq> crc q"
proof
  assume "crc p = crc q"
  then have "crc_ref (e @ v @ stream_bits [0, 0]) (crc_ref u 0) =
      crc_ref (e' @ v @ stream_bits [0, 0]) (crc_ref u 0)"
    using assms(1,2) by (simp only: crc_division stream_bits_append append_assoc flip: crc_ref_append)
  then have "crc_ref e (crc_ref u 0) = crc_ref e' (crc_ref u 0)"
    by (simp only: crc_ref_append [of e] crc_ref_append [of e']) (rule crc_ref_inj)
  then have "e = e'" by (rule crc_ref_window [OF assms(3,4)])
  with assms(5) show False ..
qed

theorem crc_detects_bursts_witness:
  "stream_bits [0x41, 0x42] = [] @ byte_bits 0x41 @ byte_bits 0x42 \<and>
   crc [0x41, 0x42] \<noteq> crc [0x43, 0x42]"
proof -
  have "crc [0x41, 0x42] \<noteq> crc [0x43, 0x42]"
    by (rule crc_detects_bursts [of _ "[]" "byte_bits 0x41" "byte_bits 0x42" _ "byte_bits 0x43"])
      (simp_all add: byte_bits_def)
  then show ?thesis by simp
qed

end
