(* ===== verification/Lzhuf_Bits.thy ===== *)
theory Lzhuf_Bits
  imports Lzhuf_Crc
begin

unbundle bit_operations_syntax

text \<open>
  The bit level of the compressor: the writer's \<open>putCode\<close> and \<open>encodeEnd\<close>
  (\<^verbatim>\<open>src/lzhuf/writer.go\<close>), the \<open>bitReader\<close> of \<^verbatim>\<open>src/lzhuf/bit_reader.go\<close> over a buffered reader that
  copies every chunk into the checksum writer, and the fixed code of match positions (tables of
  \<^verbatim>\<open>src/lzhuf/lzhuf.go\<close>, \<open>encodePosition\<close>, \<open>decodePosition\<close>).

  Both sides are related to one abstract object, the list of bits: \<open>out_bits\<close> is what the writer
  has emitted so far, \<open>in_bits\<close> what the reader has still to deliver.
\<close>

section \<open>Writing bits\<close>

text \<open>The fields of the writer that \<open>putCode\<close> uses. The destination is a \<^verbatim>\<open>bytes.Buffer\<close>, whose
  \<open>WriteByte\<close> never fails.\<close>

datatype io_err = EOF | ErrUnexpectedEOF | ErrIO string

record bitWriter =
  wbuf :: "byte list"
  putbuf :: uint
  putlen :: "8 word"
  werr :: "io_err option"

definition WriteByte :: "byte \<Rightarrow> 'a bitWriter_scheme \<Rightarrow> 'a bitWriter_scheme" where
  "WriteByte b w = w\<lparr>wbuf := wbuf w @ [b], werr := None\<rparr>"

definition putCode :: "nat \<Rightarrow> uint \<Rightarrow> 'a bitWriter_scheme \<Rightarrow> 'a bitWriter_scheme" where
  "putCode l c w =
     (if werr w \<noteq> None then w
      else
        let w = w\<lparr>putbuf := putbuf w OR drop_bit (unat (putlen w)) c\<rparr>;
            w = w\<lparr>putlen := putlen w + of_nat l\<rparr>
        in if putlen w < 8 then w
           else
             let w = WriteByte (ucast (drop_bit 8 (putbuf w))) w;
                 w = w\<lparr>putlen := putlen w - 8\<rparr>
             in if 8 \<le> putlen w then
                  let w = WriteByte (ucast (putbuf w)) w;
                      w = w\<lparr>putlen := putlen w - 8\<rparr>
                  in w\<lparr>putbuf := (if l < unat (putlen w) then 0
                                else push_bit (l - unat (putlen w)) c)\<rparr>
                else w\<lparr>putbuf := push_bit 8 (putbuf w)\<rparr>)"

definition encodeEnd :: "'a bitWriter_scheme \<Rightarrow> 'a bitWriter_scheme" where
  "encodeEnd w =
     (if putlen w = 0 then w else WriteByte (ucast (drop_bit 8 (putbuf w))) w)"

section \<open>Reading bits\<close>

text \<open>The byte source: \<^verbatim>\<open>bufio.NewReader\<close> over \<^verbatim>\<open>io.TeeReader(r, d.crcw)\<close>. A fill takes up to 4096
  bytes of the underlying reader and feeds them to the checksum writer; at its end the underlying
  reader reports \<open>tee_end\<close>.\<close>

record teeReader =
  tee_buf :: "byte list"
  tee_src :: "byte list"
  tee_end :: io_err
  tee_crcw :: crcWriter

definition bufio_size :: nat where
  "bufio_size = 4096"

definition ReadByte :: "teeReader \<Rightarrow> (io_err + byte) \<times> teeReader" where
  "ReadByte r =
     (case tee_buf r of
        b # bs \<Rightarrow> (Inr b, r\<lparr>tee_buf := bs\<rparr>)
      | [] \<Rightarrow>
          (case take bufio_size (tee_src r) of
             [] \<Rightarrow> (Inl (tee_end r), r)
           | b # bs \<Rightarrow>
               (Inr b, r\<lparr>tee_buf := bs, tee_src := drop bufio_size (tee_src r),
                        tee_crcw := crcw_Write (b # bs) (tee_crcw r)\<rparr>)))"

record bitReader =
  br_r :: teeReader
  br_n :: uint
  br_bits :: nat
  br_err :: "io_err option"

definition newBitReader :: "teeReader \<Rightarrow> bitReader" where
  "newBitReader r = \<lparr>br_r = r, br_n = 0, br_bits = 0, br_err = None\<rparr>"

function fillBits :: "nat \<Rightarrow> bitReader \<Rightarrow> bool \<times> bitReader" where
  "fillBits bits br =
     (if br_bits br < bits then
        case ReadByte (br_r br) of
          (Inl e, r) \<Rightarrow>
            (False, br\<lparr>br_r := r, br_err := Some (if e = EOF then ErrUnexpectedEOF else e)\<rparr>)
        | (Inr b, r) \<Rightarrow>
            fillBits bits (br\<lparr>br_r := r, br_n := push_bit 8 (br_n br) OR ucast b,
                             br_bits := br_bits br + 8\<rparr>)
      else (True, br))"
  by pat_completeness auto
termination
  by (relation "measure (\<lambda>(bits, br). bits - br_bits br)") auto

declare fillBits.simps [simp del]

definition ReadBits64 :: "nat \<Rightarrow> bitReader \<Rightarrow> uint \<times> bitReader" where
  "ReadBits64 bits br =
     (case fillBits bits br of
        (False, br) \<Rightarrow> (0, br)
      | (True, br) \<Rightarrow>
          (drop_bit (br_bits br - bits) (br_n br) AND (push_bit bits 1 - 1),
           br\<lparr>br_bits := br_bits br - bits\<rparr>))"

definition ReadBits :: "nat \<Rightarrow> bitReader \<Rightarrow> nat \<times> bitReader" where
  "ReadBits bits br = (case ReadBits64 bits br of (n64, br) \<Rightarrow> (unat n64, br))"

definition ReadBit :: "bitReader \<Rightarrow> bool \<times> bitReader" where
  "ReadBit br = (case ReadBits 1 br of (n, br) \<Rightarrow> (n \<noteq> 0, br))"

definition getBit :: "bitReader \<Rightarrow> nat \<times> bitReader" where
  "getBit br = ReadBits 1 br"

definition getByte :: "bitReader \<Rightarrow> nat \<times> bitReader" where
  "getByte br = ReadBits 8 br"

section \<open>The code of match positions\<close>

definition pCode :: "nat list" where
  "pCode = [
     0x00, 0x20, 0x30, 0x40, 0x50, 0x58, 0x60, 0x68, 0x70, 0x78, 0x80, 0x88, 0x90, 0x94, 0x98, 0x9C,
     0xA0, 0xA4, 0xA8, 0xAC, 0xB0, 0xB4, 0xB8, 0xBC, 0xC0, 0xC2, 0xC4, 0xC6, 0xC8, 0xCA, 0xCC, 0xCE,
     0xD0, 0xD2, 0xD4, 0xD6, 0xD8, 0xDA, 0xDC, 0xDE, 0xE0, 0xE2, 0xE4, 0xE6, 0xE8, 0xEA, 0xEC, 0xEE,
     0xF0, 0xF1, 0xF2, 0xF3, 0xF4, 0xF5, 0xF6, 0xF7, 0xF8, 0xF9, 0xFA, 0xFB, 0xFC, 0xFD, 0xFE, 0xFF]"

definition pLen :: "nat list" where
  "pLen = [
     0x03, 0x04, 0x04, 0x04, 0x05, 0x05, 0x05, 0x05, 0x05, 0x05, 0x05, 0x05, 0x06, 0x06, 0x06, 0x06,
     0x06, 0x06, 0x06, 0x06, 0x06, 0x06, 0x06, 0x06, 0x07, 0x07, 0x07, 0x07, 0x07, 0x07, 0x07, 0x07,
     0x07, 0x07, 0x07, 0x07, 0x07, 0x07, 0x07, 0x07, 0x07, 0x07, 0x07, 0x07, 0x07, 0x07, 0x07, 0x07,
     0x08, 0x08, 0x08, 0x08, 0x08, 0x08, 0x08, 0x08, 0x08, 0x08, 0x08, 0x08, 0x08, 0x08, 0x08, 0x08]"

definition dCode :: "nat list" where
  "dCode = [
     0x00, 0x00, 0x00, 0x00, 0x00, 0x00, 0x00, 0x00, 0x00, 0x00, 0x00, 0x00, 0x00, 0x00, 0x00, 0x00,
     0x00, 0x00, 0x00, 0x00, 0x00, 0x00, 0x00, 0x00, 0x00, 0x00, 0x00, 0x00, 0x00, 0x00, 0x00, 0x00,
     0x01, 0x01, 0x01, 0x01, 0x01, 0x01, 0x01, 0x01, 0x01, 0x01, 0x01, 0x01, 0x01, 0x01, 0x01, 0x01,
     0x02, 0x02, 0x02, 0x02, 0x02, 0x02, 0x02, 0x02, 0x02, 0x02, 0x02, 0x02, 0x02, 0x02, 0x02, 0x02,
     0x03, 0x03, 0x03, 0x03, 0x03, 0x03, 0x03, 0x03, 0x03, 0x03, 0x03, 0x03, 0x03, 0x03, 0x03, 0x03,
     0x04, 0x04, 0x04, 0x04, 0x04, 0x04, 0x04, 0x04, 0x05, 0x05, 0x05, 0x05, 0x05, 0x05, 0x05, 0x05,
     0x06, 0x06, 0x06, 0x06, 0x06, 0x06, 0x06, 0x06, 0x07, 0x07, 0x07, 0x07, 0x07, 0x07, 0x07, 0x07,
     0x08, 0x08, 0x08, 0x08, 0x08, 0x08, 0x08, 0x08, 0x09, 0x09, 0x09, 0x09, 0x09, 0x09, 0x09, 0x09,
     0x0A, 0x0A, 0x0A, 0x0A, 0x0A, 0x0A, 0x0A, 0x0A, 0x0B, 0x0B, 0x0B, 0x0B, 0x0B, 0x0B, 0x0B, 0x0B,
     0x0C, 0x0C, 0x0C, 0x0C, 0x0D, 0x0D, 0x0D, 0x0D, 0x0E, 0x0E, 0x0E, 0x0E, 0x0F, 0x0F, 0x0F, 0x0F,
     0x10, 0x10, 0x10, 0x10, 0x11, 0x11, 0x11, 0x11, 0x12, 0x12, 0x12, 0x12, 0x13, 0x13, 0x13, 0x13,
     0x14, 0x14, 0x14, 0x14, 0x15, 0x15, 0x15, 0x15, 0x16, 0x16, 0x16, 0x16, 0x17, 0x17, 0x17, 0x17,
     0x18, 0x18, 0x19, 0x19, 0x1A, 0x1A, 0x1B, 0x1B, 0x1C, 0x1C, 0x1D, 0x1D, 0x1E, 0x1E, 0x1F, 0x1F,
     0x20, 0x20, 0x21, 0x21, 0x22, 0x22, 0x23, 0x23, 0x24, 0x24, 0x25, 0x25, 0x26, 0x26, 0x27, 0x27,
     0x28, 0x28, 0x29, 0x29, 0x2A, 0x2A, 0x2B, 0x2B, 0x2C, 0x2C, 0x2D, 0x2D, 0x2E, 0x2E, 0x2F, 0x2F,
     0x30, 0x31, 0x32, 0x33, 0x34, 0x35, 0x36, 0x37, 0x38, 0x39, 0x3A, 0x3B, 0x3C, 0x3D, 0x3E, 0x3F]"

definition dLen :: "nat list" where
  "dLen = [
     0x03, 0x03, 0x03, 0x03, 0x03, 0x03, 0x03, 0x03, 0x03, 0x03, 0x03, 0x03, 0x03, 0x03, 0x03, 0x03,
     0x03, 0x03, 0x03, 0x03, 0x03, 0x03, 0x03, 0x03, 0x03, 0x03, 0x03, 0x03, 0x03, 0x03, 0x03, 0x03,
     0x04, 0x04, 0x04, 0x04, 0x04, 0x04, 0x04, 0x04, 0x04, 0x04, 0x04, 0x04, 0x04, 0x04, 0x04, 0x04,
     0x04, 0x04, 0x04, 0x04, 0x04, 0x04, 0x04, 0x04, 0x04, 0x04, 0x04, 0x04, 0x04, 0x04, 0x04, 0x04,
     0x04, 0x04, 0x04, 0x04, 0x04, 0x04, 0x04, 0x04, 0x04, 0x04, 0x04, 0x04, 0x04, 0x04, 0x04, 0x04,
     0x05, 0x05, 0x05, 0x05, 0x05, 0x05, 0x05, 0x05, 0x05, 0x05, 0x05, 0x05, 0x05, 0x05, 0x05, 0x05,
     0x05, 0x05, 0x05, 0x05, 0x05, 0x05, 0x05, 0x05, 0x05, 0x05, 0x05, 0x05, 0x05, 0x05, 0x05, 0x05,
     0x05, 0x05, 0x05, 0x05, 0x05, 0x05, 0x05, 0x05, 0x05, 0x05, 0x05, 0x05, 0x05, 0x05, 0x05, 0x05,
     0x05, 0x05, 0x05, 0x05, 0x05, 0x05, 0x05, 0x05, 0x05, 0x05, 0x05, 0x05, 0x05, 0x05, 0x05, 0x05,
     0x06, 0x06, 0x06, 0x06, 0x06, 0x06, 0x06, 0x06, 0x06, 0x06, 0x06, 0x06, 0x06, 0x06, 0x06, 0x06,
     0x06, 0x06, 0x06, 0x06, 0x06, 0x06, 0x06, 0x06, 0x06, 0x06, 0x06, 0x06, 0x06, 0x06, 0x06, 0x06,
     0x06, 0x06, 0x06, 0x06, 0x06, 0x06, 0x06, 0x06, 0x06, 0x06, 0x06, 0x06, 0x06, 0x06, 0x06, 0x06,
     0x07, 0x07, 0x07, 0x07, 0x07, 0x07, 0x07, 0x07, 0x07, 0x07, 0x07, 0x07, 0x07, 0x07, 0x07, 0x07,
     0x07, 0x07, 0x07, 0x07, 0x07, 0x07, 0x07, 0x07, 0x07, 0x07, 0x07, 0x07, 0x07, 0x07, 0x07, 0x07,
     0x07, 0x07, 0x07, 0x07, 0x07, 0x07, 0x07, 0x07, 0x07, 0x07, 0x07, 0x07, 0x07, 0x07, 0x07, 0x07,
     0x08, 0x08, 0x08, 0x08, 0x08, 0x08, 0x08, 0x08, 0x08, 0x08, 0x08, 0x08, 0x08, 0x08, 0x08, 0x08]"

definition encodePosition :: "nat \<Rightarrow> 'a bitWriter_scheme \<Rightarrow> 'a bitWriter_scheme option" where
  "encodePosition c w = do {
     let i = drop_bit 6 c;
     len \<leftarrow> idx pLen i;
     code \<leftarrow> idx pCode i;
     let w = putCode len (push_bit 8 (of_nat code)) w;
     Some (putCode 6 (push_bit 10 (of_nat (c AND 0x3f))) w)
   }"

fun decodeLow :: "nat \<Rightarrow> nat \<Rightarrow> bitReader \<Rightarrow> nat \<times> bitReader" where
  "decodeLow 0 i br = (i, br)"
| "decodeLow (Suc j) i br = (case getBit br of (b, br) \<Rightarrow> decodeLow j (push_bit 1 i + b) br)"

definition decodePosition :: "bitReader \<Rightarrow> nat \<times> bitReader" where
  "decodePosition br =
     (case getByte br of (i, br) \<Rightarrow>
        let c = push_bit 6 (dCode ! i);
            j = dLen ! i
        in case decodeLow (j - 2) i br of (i, br) \<Rightarrow> (c OR (i AND 0x3f), br))"

section \<open>Writing appends to the list of bits\<close>

text \<open>The first \<open>l\<close> bits of a code kept in the upper end of a sixteen bit window.\<close>

definition code_bits :: "nat \<Rightarrow> uint \<Rightarrow> bool list" where
  "code_bits l c = map (\<lambda>i. bit c (15 - i)) [0..<l]"

definition out_bits :: "'a bitWriter_scheme \<Rightarrow> bool list" where
  "out_bits w = stream_bits (wbuf w) @ code_bits (unat (putlen w)) (putbuf w)"

definition wf_out :: "'a bitWriter_scheme \<Rightarrow> bool" where
  "wf_out w \<longleftrightarrow> putlen w < 8 \<and> werr w = None \<and>
     (\<forall>i < 16 - unat (putlen w). \<not> bit (putbuf w) i)"

text \<open>A code of \<open>l\<close> bits: nothing below its last bit, nothing above the window.\<close>

definition is_code :: "nat \<Rightarrow> uint \<Rightarrow> bool" where
  "is_code l c \<longleftrightarrow> l \<le> 16 \<and> (\<forall>i. bit c i \<longrightarrow> 16 - l \<le> i \<and> i < 16)"

lemma length_code_bits [simp]: "length (code_bits l c) = l"
  by (simp add: code_bits_def)

lemma code_bits_nth [simp]: "i < l \<Longrightarrow> code_bits l c ! i = bit c (15 - i)"
  by (simp add: code_bits_def)

lemma byte_bits_nth: "i < 8 \<Longrightarrow> byte_bits b ! i = bit b (7 - i)"
  by (auto simp: byte_bits_def less_Suc_eq numeral_eq_Suc)

lemma byte_bits_high: "byte_bits (ucast (drop_bit 8 (c :: uint))) = code_bits 8 c"
  by (rule nth_equalityI) (auto simp: byte_bits_nth bit_ucast_iff bit_drop_bit_eq)

lemma byte_bits_low: "byte_bits (ucast (c :: uint)) = code_bits 8 (push_bit 8 c)"
  by (rule nth_equalityI) (auto simp: byte_bits_nth bit_ucast_iff bit_push_bit_iff)

lemma code_bits_append: "l + m \<le> 16 \<Longrightarrow> code_bits l c @ code_bits m (push_bit l c) = code_bits (l + m) c"
  by (rule nth_equalityI) (auto simp: nth_append bit_push_bit_iff not_less)

text \<open>The window after the new code has been put behind the pending bits.\<close>

lemma code_bits_or:
  assumes "\<forall>i < 16 - p. \<not> bit b i" and "p \<le> 8" and "\<forall>i. bit c i \<longrightarrow> i < 16" and "p \<le> k" and "k \<le> 16"
  shows "code_bits k (b OR drop_bit p c) = code_bits p b @ code_bits (k - p) c"
proof (rule nth_equalityI)
  show "length (code_bits k (b OR drop_bit p c)) = length (code_bits p b @ code_bits (k - p) c)"
    using assms(4) by simp
  fix i assume "i < length (code_bits k (b OR drop_bit p c))"
  then have i: "i < k" by simp
  show "code_bits k (b OR drop_bit p c) ! i = (code_bits p b @ code_bits (k - p) c) ! i"
  proof (cases "i < p")
    case True
    then have "\<not> bit c (p + (15 - i))" using assms(2,3) by fastforce
    with True i show ?thesis by (simp add: nth_append bit_or_iff bit_drop_bit_eq)
  next
    case False
    then have "\<not> bit b (15 - i)" using i assms(1,5) by auto
    moreover have "p + (15 - i) = 15 - (i - p)" using False i assms(5) by simp
    ultimately show ?thesis using False i by (simp add: nth_append bit_or_iff bit_drop_bit_eq)
  qed
qed

lemma putCode_out:
  assumes "wf_out w" and "is_code l c"
  shows "wf_out (putCode l c w) \<and> out_bits (putCode l c w) = out_bits w @ code_bits l c"
proof -
  let ?p = "unat (putlen w)"
  define P where "P = putbuf w OR drop_bit ?p c"
  have p: "?p < 8" and low: "\<forall>i < 16 - ?p. \<not> bit (putbuf w) i" and err: "werr w = None"
    using assms(1) by (auto simp: wf_out_def word_less_nat_alt)
  have l: "l \<le> 16" and c: "\<forall>i. bit c i \<longrightarrow> i < 16" and c': "\<And>i. bit c i \<Longrightarrow> 16 - l \<le> i"
    using assms(2) by (auto simp: is_code_def)
  have len: "unat (putlen w + of_nat l) = ?p + l"
    using p l by (simp add: unat_word_ariths unat_of_nat)
  have P: "code_bits k P = code_bits ?p (putbuf w) @ code_bits (k - ?p) c" if "?p \<le> k" "k \<le> 16" for k
    using code_bits_or [OF low _ c that] p by (simp add: P_def)
  have Plow: "\<not> bit P i" if "i < 16 - (?p + l)" for i
    using that low c' [of "?p + i"] by (auto simp: P_def bit_or_iff bit_drop_bit_eq)
  consider "?p + l < 8" | "8 \<le> ?p + l" "?p + l < 16" | "16 \<le> ?p + l" by linarith
  then show ?thesis
  proof cases
    case 1
    then have "putCode l c w = w\<lparr>putbuf := P, putlen := putlen w + of_nat l\<rparr>"
      by (simp add: P_def putCode_def err word_less_nat_alt len)
    then show ?thesis
      using 1 P [of "?p + l"] Plow by (simp add: wf_out_def out_bits_def err len word_less_nat_alt)
  next
    case 2
    have len2: "unat (putlen w + of_nat l - 8) = ?p + l - 8"
      using 2 len by (simp add: unat_sub word_le_nat_alt)
    have eq: "putCode l c w =
        w\<lparr>wbuf := wbuf w @ [ucast (drop_bit 8 P)], werr := None, putbuf := push_bit 8 P, putlen := putlen w + of_nat l - 8\<rparr>"
      using 2 by (simp add: P_def putCode_def WriteByte_def Let_def err word_less_nat_alt word_le_nat_alt len len2)
    have "code_bits 8 P @ code_bits (?p + l - 8) (push_bit 8 P) = code_bits (?p + l) P"
      using 2 by (subst code_bits_append) auto
    then show ?thesis
      using 2 p P [of "?p + l"] Plow
      by (simp add: eq wf_out_def out_bits_def err len2 word_less_nat_alt byte_bits_high bit_push_bit_iff)
  next
    case 3
    have len2: "unat (putlen w + of_nat l - 8) = ?p + l - 8"
      using 3 len by (simp add: unat_sub word_le_nat_alt)
    have len3: "unat (putlen w + of_nat l - 16) = ?p + l - 16"
      using 3 len by (simp add: unat_sub word_le_nat_alt)
    have eq: "putCode l c w =
        w\<lparr>wbuf := wbuf w @ [ucast (drop_bit 8 P), ucast P], werr := None, putbuf := push_bit (16 - ?p) c,
          putlen := putlen w + of_nat l - 16\<rparr>"
      using 3 p l by (simp add: P_def putCode_def WriteByte_def Let_def err word_less_nat_alt word_le_nat_alt len len2 len3)
    have 1: "code_bits 8 P @ code_bits 8 (push_bit 8 P) = code_bits ?p (putbuf w) @ code_bits (16 - ?p) c"
      using P [of 16] p by (subst code_bits_append) auto
    have 2: "code_bits (16 - ?p) c @ code_bits (?p + l - 16) (push_bit (16 - ?p) c) = code_bits l c"
      using 3 p l by (subst code_bits_append) auto
    have 4: "\<not> bit (push_bit (16 - ?p) c) i" if "i < 32 - (?p + l)" for i
      using that 3 p c' [of "i - (16 - ?p)"] by (auto simp: bit_push_bit_iff)
    have "code_bits 8 P @ code_bits 8 (push_bit 8 P) @ code_bits (?p + l - 16) (push_bit (16 - ?p) c) =
        code_bits ?p (putbuf w) @ code_bits l c"
      using 1 2 by (metis append_assoc)
    moreover have "?p + l - 16 < 8" using p l by linarith
    ultimately show ?thesis
      using 3 4 by (simp add: eq wf_out_def out_bits_def len3 word_less_nat_alt byte_bits_high byte_bits_low [of P])
  qed
qed

text \<open>Flushing pads the last byte with zero bits.\<close>

lemma encodeEnd_out:
  assumes "wf_out w"
  shows "\<exists>k < 8. stream_bits (wbuf (encodeEnd w)) = out_bits w @ replicate k False"
proof (cases "putlen w = 0")
  case True
  then show ?thesis by (intro exI [of _ 0]) (simp add: encodeEnd_def out_bits_def code_bits_def)
next
  case False
  let ?p = "unat (putlen w)"
  have p: "?p < 8" "0 < ?p" and low: "\<forall>i < 16 - ?p. \<not> bit (putbuf w) i"
    using assms False by (auto simp: wf_out_def word_less_nat_alt unat_gt_0)
  have "code_bits 8 (putbuf w) = code_bits ?p (putbuf w) @ replicate (8 - ?p) False"
    using p low by (intro nth_equalityI) (auto simp: nth_append)
  then show ?thesis
    using False p by (intro exI [of _ "8 - ?p"]) (simp add: encodeEnd_def WriteByte_def out_bits_def byte_bits_high)
qed

section \<open>Reading consumes the list of bits\<close>

definition low_bits :: "uint \<Rightarrow> nat \<Rightarrow> bool list" where
  "low_bits n k = rev (map (bit n) [0..<k])"

text \<open>The number a list of bits stands for, most significant bit first.\<close>

definition bits_val :: "bool list \<Rightarrow> nat" where
  "bits_val bs = horner_sum of_bool 2 (rev bs)"

definition in_bits :: "bitReader \<Rightarrow> bool list" where
  "in_bits br = low_bits (br_n br) (br_bits br) @ stream_bits (tee_buf (br_r br) @ tee_src (br_r br))"

definition wf_in :: "bitReader \<Rightarrow> bool" where
  "wf_in br \<longleftrightarrow> br_bits br < 8 \<and> br_err br = None"

lemma length_low_bits [simp]: "length (low_bits n k) = k"
  by (simp add: low_bits_def)

lemma low_bits_nth: "i < k \<Longrightarrow> low_bits n k ! i = bit n (k - 1 - i)"
  by (simp add: low_bits_def rev_nth)

lemma low_bits_push:
  assumes "k + 8 \<le> 64"
  shows "low_bits (push_bit 8 n OR ucast (b :: byte)) (k + 8) = low_bits n k @ byte_bits b"
proof (rule nth_equalityI)
  fix i assume "i < length (low_bits (push_bit 8 n OR ucast b) (k + 8))"
  then have i: "i < k + 8" by simp
  show "low_bits (push_bit 8 n OR ucast b) (k + 8) ! i = (low_bits n k @ byte_bits b) ! i"
  proof (cases "i < k")
    case True
    have "\<not> bit b (7 + k - i)" using True by (auto dest: bit_imp_le_length)
    moreover have "8 \<le> 7 + k - i" "7 + k - i < 64" using True assms by auto
    ultimately show ?thesis using True
      by (simp add: low_bits_nth nth_append bit_or_iff bit_push_bit_iff bit_ucast_iff)
  next
    case False
    then show ?thesis using i assms
      by (auto simp: low_bits_nth nth_append byte_bits_nth bit_or_iff bit_push_bit_iff bit_ucast_iff)
  qed
qed simp

lemma low_bits_drop: "j \<le> k \<Longrightarrow> drop (k - j) (low_bits n k) = low_bits n j"
  by (rule nth_equalityI) (auto simp: low_bits_nth)

lemma low_bits_take: "j \<le> k \<Longrightarrow> take j (low_bits n k) = low_bits (drop_bit (k - j) n) j"
  by (rule nth_equalityI) (auto simp: low_bits_nth bit_drop_bit_eq)

lemma bits_val_low_bits: "bits_val (low_bits n k) = unat (take_bit k n)"
proof -
  have "bit n = bit (unat n)" by (rule ext) (simp add: bit_unsigned_iff)
  then have "bits_val (low_bits n k) = horner_sum of_bool 2 (map (bit (unat n)) [0..<k])"
    by (simp add: bits_val_def low_bits_def)
  then show ?thesis by (simp add: horner_sum_bit_eq_take_bit unsigned_take_bit_eq)
qed

lemma ReadByte_Inr:
  assumes "tee_buf r @ tee_src r = b # rest"
  shows "\<exists>r'. ReadByte r = (Inr b, r') \<and> tee_buf r' @ tee_src r' = rest \<and> tee_end r' = tee_end r"
proof (cases "tee_buf r")
  case Nil
  with assms have "take bufio_size (tee_src r) @ drop bufio_size (tee_src r) = b # rest" by simp
  then obtain bs where "take bufio_size (tee_src r) = b # bs" "rest = bs @ drop bufio_size (tee_src r)"
    using assms Nil by (cases "tee_src r") (auto simp: bufio_size_def)
  with Nil show ?thesis by (simp add: ReadByte_def)
next
  case (Cons c cs)
  with assms show ?thesis by (simp add: ReadByte_def)
qed

lemma ReadByte_Inl:
  "tee_buf r @ tee_src r = [] \<Longrightarrow> ReadByte r = (Inl (tee_end r), r)"
  by (simp add: ReadByte_def)

lemma fillBits_done: "k \<le> br_bits br \<Longrightarrow> fillBits k br = (True, br)"
  by (simp add: fillBits.simps)

lemma fillBits_step:
  assumes "br_bits br < k" and "k \<le> br_bits br + 8" and "k \<le> length (in_bits br)"
    and "br_bits br + 8 \<le> 64"
  shows "\<exists>br'. fillBits k br = (True, br') \<and> in_bits br' = in_bits br \<and>
    br_bits br' = br_bits br + 8 \<and> br_err br' = br_err br"
proof -
  obtain b rest where eq: "tee_buf (br_r br) @ tee_src (br_r br) = b # rest"
    using assms(1,3) by (cases "tee_buf (br_r br) @ tee_src (br_r br)") (auto simp: in_bits_def)
  then obtain r' where r': "ReadByte (br_r br) = (Inr b, r')" "tee_buf r' @ tee_src r' = rest"
    using ReadByte_Inr by blast
  let ?br = "br\<lparr>br_r := r', br_n := push_bit 8 (br_n br) OR ucast b, br_bits := br_bits br + 8\<rparr>"
  have "fillBits k br = fillBits k ?br"
    using assms(1) r' by (subst fillBits.simps) simp
  moreover have "fillBits k ?br = (True, ?br)" using assms(2) by (intro fillBits_done) simp
  moreover have "in_bits ?br = in_bits br"
    using assms(4) eq r' by (simp add: in_bits_def low_bits_push del: stream_bits_append)
  ultimately show ?thesis by (intro exI [of _ ?br]) simp
qed

lemma fillBits_eof:
  assumes "br_bits br < k" and "tee_buf (br_r br) @ tee_src (br_r br) = []"
  shows "fillBits k br = (False, br\<lparr>br_err :=
     Some (if tee_end (br_r br) = EOF then ErrUnexpectedEOF else tee_end (br_r br))\<rparr>)"
  using assms ReadByte_Inl [OF assms(2)] by (simp add: fillBits.simps [of k br])

text \<open>Reading \<open>k\<close> bits takes the first \<open>k\<close> bits of the stream.\<close>

lemma ReadBits_val:
  assumes "k \<le> br_bits br" and "br_bits br \<le> 64"
  shows "unat (drop_bit (br_bits br - k) (br_n br) AND (push_bit k 1 - 1)) = bits_val (take k (in_bits br))"
proof -
  have "push_bit k 1 - 1 = (mask k :: uint)"
    by (simp add: mask_eq_exp_minus_1 push_bit_eq_mult)
  then have "drop_bit (br_bits br - k) (br_n br) AND (push_bit k 1 - 1) =
      take_bit k (drop_bit (br_bits br - k) (br_n br))"
    by (simp only: take_bit_eq_mask)
  then show ?thesis
    using assms(1) by (simp only: in_bits_def) (simp add: low_bits_take bits_val_low_bits)
qed

lemma ReadBits_filled:
  assumes "fillBits k br = (True, br')" and "k \<le> br_bits br'" and "br_bits br' \<le> 64"
  shows "ReadBits k br = (bits_val (take k (in_bits br')), br'\<lparr>br_bits := br_bits br' - k\<rparr>) \<and>
    in_bits (br'\<lparr>br_bits := br_bits br' - k\<rparr>) = drop k (in_bits br')"
proof -
  have "drop k (low_bits (br_n br') (br_bits br')) = low_bits (br_n br') (br_bits br' - k)"
    using low_bits_drop [of "br_bits br' - k" "br_bits br'" "br_n br'"] assms(2) by simp
  then show ?thesis
    using ReadBits_val [OF assms(2,3)] assms(1,2)
    by (simp add: ReadBits_def ReadBits64_def in_bits_def)
qed

lemma ReadBits_ok:
  assumes "wf_in br" and "k \<le> 8" and "k \<le> length (in_bits br)"
  shows "\<exists>br'. ReadBits k br = (bits_val (take k (in_bits br)), br') \<and> wf_in br' \<and>
    in_bits br' = drop k (in_bits br)"
proof (cases "k \<le> br_bits br")
  case True
  then show ?thesis
    using assms(1) ReadBits_filled [OF fillBits_done [OF True]] by (auto simp: wf_in_def)
next
  case False
  have "br_bits br < k" "k \<le> br_bits br + 8" "br_bits br + 8 \<le> 64"
    using False assms(1,2) by (auto simp: wf_in_def)
  from fillBits_step [OF this(1,2) assms(3) this(3)] obtain br' where
    br': "fillBits k br = (True, br')" "in_bits br' = in_bits br" "br_bits br' = br_bits br + 8"
      "br_err br' = br_err br" by blast
  have "k \<le> br_bits br'" "br_bits br' \<le> 64"
    using br'(3) False assms(1,2) by (auto simp: wf_in_def)
  from ReadBits_filled [OF br'(1) this] show ?thesis
    using br' False assms(1) by (auto simp: wf_in_def)
qed

lemma ReadBits_eof:
  assumes "wf_in br" and "k \<le> 8" and "length (in_bits br) < k"
  shows "\<exists>br'. ReadBits k br = (0, br') \<and> br_err br' \<noteq> None"
proof -
  have "br_bits br < k" using assms(3) by (simp add: in_bits_def)
  moreover have "8 * length (tee_buf (br_r br) @ tee_src (br_r br)) < 8"
    using assms(2,3) by (simp add: in_bits_def)
  then have "tee_buf (br_r br) @ tee_src (br_r br) = []"
    by (cases "tee_buf (br_r br) @ tee_src (br_r br)") (simp_all del: append_is_Nil_conv)
  ultimately have "br_bits br < k" "tee_buf (br_r br) @ tee_src (br_r br) = []" by blast+
  from fillBits_eof [OF this] show ?thesis
    by (simp add: ReadBits_def ReadBits64_def)
qed

section \<open>The position tables\<close>

text \<open>The tables describe one canonical prefix code: the codes are consecutive blocks of byte values,
  and every byte that starts with a code decodes to its index.\<close>

fun code_starts :: "nat \<Rightarrow> nat list \<Rightarrow> nat list" where
  "code_starts off [] = []"
| "code_starts off (l # ls) = off # code_starts (off + 2 ^ (8 - l)) ls"

fun code_blocks :: "nat \<Rightarrow> nat list \<Rightarrow> nat list" where
  "code_blocks u [] = []"
| "code_blocks u (l # ls) = replicate (2 ^ (8 - l)) u @ code_blocks (u + 1) ls"

fun len_blocks :: "nat list \<Rightarrow> nat list" where
  "len_blocks [] = []"
| "len_blocks (l # ls) = replicate (2 ^ (8 - l)) l @ len_blocks ls"

lemma replicate_numeral_unfold: "replicate (numeral k) x = x # replicate (pred_numeral k) x"
  by (simp add: numeral_eq_Suc)

lemma pCode_starts: "pCode = code_starts 0 pLen"
  by (simp add: pCode_def pLen_def)

lemma dCode_blocks: "dCode = code_blocks 0 pLen"
  by (simp add: dCode_def pLen_def replicate_numeral_unfold)

lemma dLen_blocks: "dLen = len_blocks pLen"
  by (simp add: dLen_def pLen_def replicate_numeral_unfold)

section \<open>Round trip of the position code\<close>

lemma bits_val_append: "bits_val (xs @ ys) = bits_val xs * 2 ^ length ys + bits_val ys"
  by (simp add: bits_val_def horner_sum_append)

lemma bits_val_less: "bits_val bs < 2 ^ length bs"
  by (induction bs rule: rev_induct) (auto simp: bits_val_def)

lemma bits_val_Nil [simp]: "bits_val [] = 0"
  by (simp add: bits_val_def)

lemma bits_val_single [simp]: "bits_val [b] = of_bool b"
  by (simp add: bits_val_def)

lemma code_bits_low_bits: "l \<le> 16 \<Longrightarrow> code_bits l c = low_bits (drop_bit (16 - l) c) l"
  by (rule nth_equalityI) (auto simp: low_bits_nth bit_drop_bit_eq)

lemma bits_val_code_bits: "l \<le> 16 \<Longrightarrow> bits_val (code_bits l c) = unat (take_bit l (drop_bit (16 - l) c))"
  by (simp add: code_bits_low_bits bits_val_low_bits)

lemma pos_tables:
  "list_all2 (\<lambda>p l. p mod 2 ^ (8 - l) = 0 \<and> p < 256 \<and> 3 \<le> l \<and> l \<le> 8) pCode pLen"
  by (simp add: pCode_def pLen_def)

lemma pos_table_nth:
  assumes "u < 64"
  shows "pCode ! u mod 2 ^ (8 - pLen ! u) = 0" "pCode ! u < 256" "3 \<le> pLen ! u" "pLen ! u \<le> 8"
  using list_all2_nthD2 [OF pos_tables, of u] assms by (auto simp: pLen_def)

lemma code_blocks_nth:
  "u < length ls \<Longrightarrow> k < 2 ^ (8 - ls ! u) \<Longrightarrow> off \<le> code_starts off ls ! u \<and>
     code_blocks v ls ! (code_starts off ls ! u + k - off) = v + u \<and>
     len_blocks ls ! (code_starts off ls ! u + k - off) = ls ! u"
proof (induction ls arbitrary: u v off)
  case Nil
  then show ?case by simp
next
  case (Cons l ls)
  show ?case
  proof (cases u)
    case 0
    then show ?thesis using Cons.prems by (simp add: nth_append)
  next
    case (Suc u')
    let ?b = "(2::nat) ^ (8 - l)" let ?s = "code_starts (off + ?b) ls ! u'"
    have IH: "off + ?b \<le> ?s" "code_blocks (v + 1) ls ! (?s + k - (off + ?b)) = v + 1 + u'"
      "len_blocks ls ! (?s + k - (off + ?b)) = ls ! u'"
      using Cons.IH [of u' "off + ?b" "v + 1"] Cons.prems Suc by auto
    have "\<not> ?s + k - off < ?b" "?s + k - off - ?b = ?s + k - (off + ?b)" using IH(1) by auto
    then show ?thesis using IH Suc by (simp add: nth_append)
  qed
qed

lemma decode_tables:
  assumes "u < 64" and "k < 2 ^ (8 - pLen ! u)"
  shows "dCode ! (pCode ! u + k) = u" and "dLen ! (pCode ! u + k) = pLen ! u"
  using code_blocks_nth [of u pLen k 0 0] assms
  by (auto simp: dCode_blocks dLen_blocks simp flip: pCode_starts) (auto simp: pLen_def)

text \<open>The bits of a position: its table code, then its low six bits.\<close>

definition pos_bits :: "nat \<Rightarrow> bool list" where
  "pos_bits c = code_bits (pLen ! drop_bit 6 c) (push_bit 8 (of_nat (pCode ! drop_bit 6 c))) @
     code_bits 6 (push_bit 10 (of_nat (c AND 0x3f)))"

lemma and_63: "(c::nat) AND 0x3f = c mod 64"
proof -
  have "(63::nat) = mask 6" by (simp add: mask_eq_exp_minus_1)
  then show ?thesis by (simp only: take_bit_eq_mask [symmetric] take_bit_eq_mod) simp
qed

lemma code_bits_push:
  "l \<le> k \<Longrightarrow> k \<le> 16 \<Longrightarrow> code_bits l (push_bit (16 - k) c) = low_bits (drop_bit (k - l) c) l"
  by (rule nth_equalityI) (auto simp: low_bits_nth bit_drop_bit_eq bit_push_bit_iff)

lemma bits_val_push:
  assumes "p < 2 ^ k" and "l \<le> k" and "k \<le> 16"
  shows "bits_val (code_bits l (push_bit (16 - k) (of_nat p))) = p div 2 ^ (k - l)"
proof -
  have "(2::nat) ^ k \<le> 2 ^ 16" using assms(3) by (intro power_increasing) auto
  then have p: "take_bit 64 p = p" "p mod 18446744073709551616 = p"
    using assms(1) by (simp_all add: take_bit_eq_mod)
  have "p div 2 ^ (k - l) < 2 ^ l"
    using assms(1,2) by (simp add: less_mult_imp_div_less flip: power_add)
  then have "take_bit l (p div 2 ^ (k - l)) = p div 2 ^ (k - l)"
    by (simp add: take_bit_nat_eq_self)
  then show ?thesis
    using assms(2,3) p drop_bit_eq_div [of "k - l" p]
    by (simp add: code_bits_push bits_val_low_bits unsigned_take_bit_eq unsigned_drop_bit_eq unat_of_nat)
qed

lemma is_code_push:
  assumes "p < 2 ^ k" and "p mod 2 ^ (k - l) = 0" and "l \<le> k" and "k \<le> 16"
  shows "is_code l (push_bit (16 - k) (of_nat p))"
proof -
  have "16 - l \<le> i \<and> i < 16" if "16 - k \<le> i" "bit p (i - (16 - k))" for i
  proof -
    have "i - (16 - k) < k" using that(2) assms(1) take_bit_nat_eq_self [of p k] bit_take_bit_iff [of k p "i - (16 - k)"] by simp
    moreover have "k - l \<le> i - (16 - k)"
      using that(2) assms(2) take_bit_eq_mod [of "k - l" p] bit_take_bit_iff [of "k - l" p "i - (16 - k)"] by (cases "k - l \<le> i - (16 - k)") auto
    ultimately show ?thesis using that(1) assms(3,4) by linarith
  qed
  then show ?thesis
    using assms(3,4) by (auto simp: is_code_def bit_push_bit_iff bit_of_nat_iff)
qed

lemma encodePosition_out:
  assumes "wf_out w" and "c < 4096"
  shows "\<exists>w'. encodePosition c w = Some w' \<and> wf_out w' \<and> out_bits w' = out_bits w @ pos_bits c"
proof -
  let ?u = "drop_bit 6 c"
  have u: "?u < 64" using assms(2) by (simp add: drop_bit_eq_div)
  have len: "?u < length pLen" "?u < length pCode" using u by (auto simp: pLen_def pCode_def)
  have "is_code (pLen ! ?u) (push_bit 8 (of_nat (pCode ! ?u)))"
    using is_code_push [of "pCode ! ?u" 8 "pLen ! ?u"] pos_table_nth [OF u] by simp
  note 1 = putCode_out [OF assms(1) this]
  have "is_code 6 (push_bit 10 (of_nat (c AND 0x3f)))"
    using is_code_push [of "c mod 64" 6 6] by (simp add: and_63)
  note 2 = putCode_out [OF conjunct1 [OF 1] this]
  show ?thesis
    using 1 2 by (simp add: encodePosition_def Let_def array_simps len pos_bits_def)
qed

lemma decodeLow_ok:
  "wf_in br \<Longrightarrow> j \<le> length (in_bits br) \<Longrightarrow>
   \<exists>br'. decodeLow j i br = (i * 2 ^ j + bits_val (take j (in_bits br)), br') \<and> wf_in br' \<and>
     in_bits br' = drop j (in_bits br)"
proof (induction j arbitrary: i br)
  case 0
  then show ?case by simp
next
  case (Suc j)
  obtain b bs where eq: "in_bits br = b # bs" using Suc.prems(2) by (cases "in_bits br") auto
  obtain br1 where 1: "ReadBits 1 br = (of_bool b, br1)" "wf_in br1" "in_bits br1 = bs"
    using ReadBits_ok [of br 1] Suc.prems eq by auto
  obtain br2 where "decodeLow j (2 * i + of_bool b) br1 =
      ((2 * i + of_bool b) * 2 ^ j + bits_val (take j bs), br2)" "wf_in br2" "in_bits br2 = drop j bs"
    using Suc.IH [of br1 "2 * i + of_bool b"] 1 Suc.prems eq by auto
  moreover have "(2 * i + of_bool b) * 2 ^ j + bits_val (take j bs) = i * 2 ^ Suc j + bits_val (b # take j bs)"
    using bits_val_append [of "[b]" "take j bs"] Suc.prems(2) eq by (simp add: algebra_simps)
  moreover have "decodeLow (Suc j) i br = decodeLow j (2 * i + of_bool b) br1"
    using 1 by (simp add: getBit_def push_bit_eq_mult mult.commute)
  ultimately show ?case using eq by simp
qed

lemma decodePosition_ok:
  assumes "wf_in br" and "c < 4096" and "in_bits br = pos_bits c @ rest"
  shows "\<exists>br'. decodePosition br = (c, br') \<and> wf_in br' \<and> in_bits br' = rest"
proof -
  let ?u = "drop_bit 6 c"
  define p l where "p = pCode ! ?u" and "l = pLen ! ?u"
  define low where "low = code_bits 6 (push_bit 10 (of_nat (c AND 0x3f)))"
  define k m where "k = bits_val (take (8 - l) low)" and "m = bits_val (drop (8 - l) low)"
  have u: "?u < 64" using assms(2) by (simp add: drop_bit_eq_div)
  have l: "3 \<le> l" "l \<le> 8" and p: "p < 256" "p mod 2 ^ (8 - l) = 0"
    using pos_table_nth [OF u] by (auto simp: p_def l_def)
  have k: "k < 2 ^ (8 - l)" using bits_val_less [of "take (8 - l) low"] l by (simp add: k_def low_def)
  have bits: "in_bits br = code_bits l (push_bit 8 (of_nat p)) @ take (8 - l) low @ drop (8 - l) low @ rest"
    using assms(3) by (simp add: pos_bits_def p_def l_def low_def)
  have low: "length low = 6" by (simp add: low_def)
  have i: "bits_val (take 8 (in_bits br)) = p + k"
  proof -
    have "take 8 (in_bits br) = code_bits l (push_bit 8 (of_nat p)) @ take (8 - l) low"
      using l low by (simp add: bits)
    then show ?thesis
      using bits_val_push [of p 8 l] l p low
      by (simp add: bits_val_append k_def) (simp add: mod_eq_0_iff_dvd min_absorb2)
  qed
  have "length (in_bits br) \<ge> 8" using l low by (simp add: bits)
  then obtain br1 where 1: "ReadBits 8 br = (p + k, br1)" "wf_in br1"
      "in_bits br1 = drop (8 - l) low @ rest"
    using ReadBits_ok [OF assms(1), of 8] l low i by (auto simp: bits)
  have d: "dCode ! (p + k) = ?u" "dLen ! (p + k) = l"
    using decode_tables [OF u] k by (auto simp: p_def l_def)
  have "length (drop (8 - l) low) = l - 2" using l low by simp
  then obtain br2 where 2: "decodeLow (l - 2) (p + k) br1 = ((p + k) * 2 ^ (l - 2) + m, br2)"
      "wf_in br2" "in_bits br2 = rest"
    using decodeLow_ok [OF 1(2), of "l - 2" "p + k"] 1(3) by (auto simp: m_def)
  have "p * 2 ^ (l - 2) mod 64 = 0"
  proof -
    obtain q where "p = 2 ^ (8 - l) * q" using p(2) by (auto simp: mod_eq_0_iff_dvd)
    then have "p * 2 ^ (l - 2) = 2 ^ ((8 - l) + (l - 2)) * q" by (simp add: power_add)
    then show ?thesis using l by simp
  qed
  moreover have "k * 2 ^ (l - 2) + m = c mod 64"
    using bits_val_append [of "take (8 - l) low" "drop (8 - l) low"] bits_val_push [of "c mod 64" 6 6] low l
    by (simp add: k_def m_def and_63 low_def)
  moreover have "(p + k) * 2 ^ (l - 2) + m = p * 2 ^ (l - 2) + (k * 2 ^ (l - 2) + m)"
    by (simp add: add_mult_distrib)
  ultimately have "((p + k) * 2 ^ (l - 2) + m) mod 64 = c mod 64"
    using mod_add_left_eq [of "p * 2 ^ (l - 2)" 64 "k * 2 ^ (l - 2) + m"] by simp
  then have "((p + k) * 2 ^ (l - 2) + m) AND 0x3f = take_bit 6 c"
    by (simp only: and_63 take_bit_eq_mod) simp
  moreover have "push_bit 6 (drop_bit 6 c) OR take_bit 6 c = c"
    by (rule bit_eqI) (auto simp: bit_or_iff bit_push_bit_iff bit_drop_bit_eq bit_take_bit_iff)
  ultimately have "decodePosition br = (c, br2)"
    using 1 2 d by (simp add: decodePosition_def getByte_def)
  then show ?thesis using 2 by simp
qed

end
