(* ===== verification/Lzhuf_Tree.thy ===== *)
theory Lzhuf_Tree
  imports Lzhuf_Bits
begin

unbundle bit_operations_syntax

text \<open>
  The adaptive Huffman tree of \<^verbatim>\<open>src/lzhuf/lzhuf.go\<close>: \<open>newLZHUFF\<close>, \<open>reconst\<close> and \<open>update\<close> on the
  arrays \<open>freq\<close>, \<open>prnt\<close> and \<open>son\<close>. The counters stay below \<open>2 ^ 17\<close> (part of the invariant), so they
  are natural numbers here. \<open>update\<close> follows parent pointers; on arrays with a cycle it would not
  end, so it is a partial function, and that it returns is a theorem.
\<close>

section \<open>Constants and state\<close>

definition lz_N :: nat where "lz_N = 2048"
definition lz_F :: nat where "lz_F = 60"
definition lz_NIL :: nat where "lz_NIL = 2048"
definition lz_Threshold :: nat where "lz_Threshold = 2"
definition lz_NumChar :: nat where "lz_NumChar = 314"
definition lz_T :: nat where "lz_T = 627"
definition lz_R :: nat where "lz_R = 626"
definition lz_MaxFreq :: nat where "lz_MaxFreq = 0x8000"

lemmas lz_consts = lz_N_def lz_F_def lz_NIL_def lz_Threshold_def lz_NumChar_def lz_T_def lz_R_def
  lz_MaxFreq_def

record lzhuf =
  freq :: "nat list"
  prnt :: "nat list"
  son :: "nat list"
  dad :: "nat list"
  lson :: "nat list"
  rson :: "nat list"
  textBuf :: "byte list"
  matchLength :: nat
  matchPosition :: int

section \<open>Building and rebuilding the tree\<close>

text \<open>The bodies of the two loops of \<open>newLZHUFF\<close>; the second loop steps \<open>i\<close> and \<open>j\<close> together.\<close>

definition init_leaf :: "nat \<Rightarrow> lzhuf \<Rightarrow> lzhuf option" where
  "init_leaf i z = do {
     f \<leftarrow> upd (freq z) i 1;
     s \<leftarrow> upd (son z) i (i + lz_T);
     p \<leftarrow> upd (prnt z) (i + lz_T) i;
     Some (z\<lparr>freq := f, son := s, prnt := p\<rparr>)
   }"

definition init_node :: "nat \<Rightarrow> nat \<times> lzhuf \<Rightarrow> (nat \<times> lzhuf) option" where
  "init_node j = (\<lambda>(i, z). do {
     f0 \<leftarrow> idx (freq z) i;
     f1 \<leftarrow> idx (freq z) (i + 1);
     f \<leftarrow> upd (freq z) j (f0 + f1);
     s \<leftarrow> upd (son z) j i;
     p \<leftarrow> upd (prnt z) i j;
     p \<leftarrow> upd p (i + 1) j;
     Some (i + 2, z\<lparr>freq := f, son := s, prnt := p\<rparr>)
   })"

definition zero_lzhuf :: lzhuf where
  "zero_lzhuf =
     \<lparr>freq = replicate (lz_T + 1) 0, prnt = replicate (lz_T + lz_NumChar) 0, son = replicate lz_T 0,
      dad = replicate (lz_N + 1) 0, lson = replicate (lz_N + 1) 0, rson = replicate (lz_N + 257) 0,
      textBuf = replicate (lz_N + lz_F - 1) 0, matchLength = 0, matchPosition = 0\<rparr>"

definition newLZHUFF :: "lzhuf option" where
  "newLZHUFF = do {
     z \<leftarrow> foldM init_leaf [0..<lz_NumChar] zero_lzhuf;
     (i, z) \<leftarrow> foldM init_node [lz_NumChar..<lz_R + 1] (0, z);
     f \<leftarrow> upd (freq z) lz_T 0xffff;
     p \<leftarrow> upd (prnt z) lz_R 0;
     Some (z\<lparr>freq := f, prnt := p\<rparr>)
   }"

text \<open>The search of \<open>reconst\<close> for the place of a new node, from \<open>k\<close> downwards.\<close>

fun insertPoint :: "nat list \<Rightarrow> nat \<Rightarrow> nat \<Rightarrow> nat option" where
  "insertPoint fs first 0 = None"
| "insertPoint fs first (Suc k) = do {
     f \<leftarrow> idx fs k;
     if first < f then insertPoint fs first k else Some (Suc k)
   }"

text \<open>The bodies of the three loops: collecting the leaves, connecting children, connecting parents.\<close>

definition reconst_collect :: "nat \<Rightarrow> nat \<times> lzhuf \<Rightarrow> (nat \<times> lzhuf) option" where
  "reconst_collect i = (\<lambda>(j, z). do {
     s \<leftarrow> idx (son z) i;
     if lz_T \<le> s then do {
       f \<leftarrow> idx (freq z) i;
       f \<leftarrow> upd (freq z) j ((f + 1) div 2);
       s \<leftarrow> upd (son z) j s;
       Some (j + 1, z\<lparr>freq := f, son := s\<rparr>)
     } else Some (j, z)
   })"

definition reconst_connect :: "nat \<Rightarrow> nat \<times> lzhuf \<Rightarrow> (nat \<times> lzhuf) option" where
  "reconst_connect j = (\<lambda>(i, z). do {
     f0 \<leftarrow> idx (freq z) i;
     f1 \<leftarrow> idx (freq z) (i + 1);
     f \<leftarrow> upd (freq z) j (f0 + f1);
     first \<leftarrow> idx f j;
     k \<leftarrow> insertPoint f first j;
     f \<leftarrow> copy_within f (k + 1) k j;
     f \<leftarrow> upd f k first;
     s \<leftarrow> copy_within (son z) (k + 1) k j;
     s \<leftarrow> upd s k i;
     Some (i + 2, z\<lparr>freq := f, son := s\<rparr>)
   })"

definition reconst_parents :: "nat \<Rightarrow> lzhuf \<Rightarrow> lzhuf option" where
  "reconst_parents i z = do {
     k \<leftarrow> idx (son z) i;
     if lz_T \<le> k then do {
       p \<leftarrow> upd (prnt z) k i;
       Some (z\<lparr>prnt := p\<rparr>)
     } else do {
       p \<leftarrow> upd (prnt z) (k + 1) i;
       p \<leftarrow> upd p k i;
       Some (z\<lparr>prnt := p\<rparr>)
     }
   }"

definition reconst :: "lzhuf \<Rightarrow> lzhuf option" where
  "reconst z = do {
     (j, z) \<leftarrow> foldM reconst_collect [0..<lz_T] (0, z);
     (i, z) \<leftarrow> foldM reconst_connect [lz_NumChar..<lz_T] (0, z);
     foldM reconst_parents [0..<lz_T] z
   }"

section \<open>Updating the tree\<close>

text \<open>The search for the last node whose counter is below \<open>k\<close>.\<close>

function swapPoint :: "nat list \<Rightarrow> nat \<Rightarrow> nat \<Rightarrow> nat option" where
  "swapPoint fs k l = do {
     f \<leftarrow> idx fs (l + 1);
     if f < k then swapPoint fs k (l + 1) else Some l
   }"
  by pat_completeness auto
termination
  by (relation "measure (\<lambda>(fs, k, l). length fs - l)") (auto simp: idx_def split: if_splits)

declare swapPoint.simps [simp del]

definition swapNodes :: "nat \<Rightarrow> nat \<Rightarrow> nat \<Rightarrow> lzhuf \<Rightarrow> lzhuf option" where
  "swapNodes c l k z = do {
     fl \<leftarrow> idx (freq z) l;
     f \<leftarrow> upd (freq z) c fl;
     f \<leftarrow> upd f l k;
     i \<leftarrow> idx (son z) c;
     p \<leftarrow> upd (prnt z) i l;
     p \<leftarrow> (if i < lz_T then upd p (i + 1) l else Some p);
     j \<leftarrow> idx (son z) l;
     s \<leftarrow> upd (son z) l i;
     p \<leftarrow> upd p j c;
     p \<leftarrow> (if j < lz_T then upd p (j + 1) c else Some p);
     s \<leftarrow> upd s c j;
     Some (z\<lparr>freq := f, prnt := p, son := s\<rparr>)
   }"

text \<open>One pass of the loop: the new state and the next node, 0 at the end.\<close>

definition update_step :: "nat \<Rightarrow> lzhuf \<Rightarrow> (nat \<times> lzhuf) option" where
  "update_step c z = do {
     f0 \<leftarrow> idx (freq z) c;
     f \<leftarrow> upd (freq z) c (f0 + 1);
     let z = z\<lparr>freq := f\<rparr>;
     fc \<leftarrow> idx (freq z) c;
     fc1 \<leftarrow> idx (freq z) (c + 1);
     if fc \<le> fc1 \<or> length (freq z) \<le> c + 2 then do {
       c \<leftarrow> idx (prnt z) c;
       Some (c, z)
     } else do {
       l \<leftarrow> swapPoint (freq z) fc (c + 1);
       z \<leftarrow> swapNodes c l fc z;
       c \<leftarrow> idx (prnt z) l;
       Some (c, z)
     }
   }"

partial_function (option) update_loop :: "nat \<Rightarrow> lzhuf \<Rightarrow> lzhuf option" where
  [code]: "update_loop c z = do {
     (c, z) \<leftarrow> update_step c z;
     if c = 0 then Some z else update_loop c z
   }"

definition update :: "nat \<Rightarrow> lzhuf \<Rightarrow> lzhuf option" where
  "update c z = do {
     fR \<leftarrow> idx (freq z) lz_R;
     z \<leftarrow> (if fR = lz_MaxFreq then reconst z else Some z);
     c \<leftarrow> idx (prnt z) (c + lz_T);
     update_loop c z
   }"

section \<open>The tree invariant\<close>

text \<open>\<open>child z i x\<close>: \<open>x\<close> is below node \<open>i\<close>, as one of its two nodes or as the character of a leaf.
  The slots are what has a parent: every node but the root, and every character.\<close>

definition child :: "lzhuf \<Rightarrow> nat \<Rightarrow> nat \<Rightarrow> bool" where
  "child z i x \<longleftrightarrow> x = son z ! i \<or> (son z ! i < lz_T \<and> x = son z ! i + 1)"

definition slot :: "nat \<Rightarrow> bool" where
  "slot x \<longleftrightarrow> x < lz_R \<or> (lz_T \<le> x \<and> x < lz_T + lz_NumChar)"

text \<open>A node is a leaf, or it has two adjacent nodes below itself. Parent and child pointers agree.\<close>

definition tree_shape :: "lzhuf \<Rightarrow> bool" where
  "tree_shape z \<longleftrightarrow>
     length (freq z) = lz_T + 1 \<and> length (prnt z) = lz_T + lz_NumChar \<and> length (son z) = lz_T \<and>
     (\<forall>i < lz_T. (lz_T \<le> son z ! i \<and> son z ! i < lz_T + lz_NumChar) \<or>
                (even (son z ! i) \<and> son z ! i + 1 < i)) \<and>
     (\<forall>x. slot x \<longrightarrow> prnt z ! x < lz_T \<and> (\<forall>i < lz_T. child z i x \<longleftrightarrow> prnt z ! x = i)) \<and>
     prnt z ! lz_R = 0"

text \<open>The counters are positive and ascending, and end with the sentinel.\<close>

definition freq_order :: "lzhuf \<Rightarrow> bool" where
  "freq_order z \<longleftrightarrow>
     (\<forall>i < lz_T. 0 < freq z ! i) \<and> (\<forall>i < lz_R. freq z ! i \<le> freq z ! (i + 1)) \<and>
     freq z ! lz_T = 0xffff"

text \<open>The counter of an inner node is the sum below it, at node \<open>c\<close> with a pending increment.\<close>

definition freq_sums :: "lzhuf \<Rightarrow> bool" where
  "freq_sums z \<longleftrightarrow>
     (\<forall>i < lz_T. son z ! i < lz_T \<longrightarrow> freq z ! i = freq z ! (son z ! i) + freq z ! (son z ! i + 1))"

definition pending_sums :: "nat \<Rightarrow> lzhuf \<Rightarrow> bool" where
  "pending_sums c z \<longleftrightarrow>
     (\<forall>i < lz_T. son z ! i < lz_T \<longrightarrow>
        freq z ! i + of_bool (i = c) = freq z ! (son z ! i) + freq z ! (son z ! i + 1))"

text \<open>The weight of a character is the counter of its leaf; the root counts all of them.\<close>

definition weight :: "lzhuf \<Rightarrow> nat \<Rightarrow> nat" where
  "weight z d = freq z ! (prnt z ! (d + lz_T))"

definition tree_inv :: "lzhuf \<Rightarrow> bool" where
  "tree_inv z \<longleftrightarrow> tree_shape z \<and> freq_order z \<and> freq_sums z \<and> freq z ! lz_R \<le> lz_MaxFreq \<and>
     freq z ! lz_R = (\<Sum>d < lz_NumChar. weight z d)"

subsection \<open>Consequences\<close>

lemma tree_shape_lengths:
  assumes "tree_shape z"
  shows "length (freq z) = lz_T + 1" "length (prnt z) = lz_T + lz_NumChar" "length (son z) = lz_T"
  using assms by (auto simp: tree_shape_def)

lemma son_cases:
  assumes "tree_shape z" and "i < lz_T"
  obtains "lz_T \<le> son z ! i" "son z ! i < lz_T + lz_NumChar" | "even (son z ! i)" "son z ! i + 1 < i"
  using assms by (auto simp: tree_shape_def)

lemma child_slot:
  assumes "tree_shape z" and "i < lz_T" and "child z i x"
  shows "slot x"
  by (cases rule: son_cases [OF assms(1,2)]; use assms(2,3) in \<open>auto simp: child_def slot_def lz_consts\<close>)

lemma prnt_child:
  assumes "tree_shape z" and "slot x"
  shows "prnt z ! x < lz_T" and "i < lz_T \<Longrightarrow> child z i x \<longleftrightarrow> prnt z ! x = i"
  using assms by (auto simp: tree_shape_def)

lemma prnt_greater:
  assumes "tree_shape z" and "x < lz_R"
  shows "x < prnt z ! x" and "prnt z ! x < lz_T" and "son z ! (prnt z ! x) < lz_T"
    and "x = son z ! (prnt z ! x) + of_bool (odd x)"
proof -
  have "slot x" using assms(2) by (simp add: slot_def)
  note p = prnt_child [OF assms(1) this]
  then show 1: "prnt z ! x < lz_T" by simp
  with p have ch: "child z (prnt z ! x) x" by simp
  show "x < prnt z ! x" "son z ! (prnt z ! x) < lz_T" "x = son z ! (prnt z ! x) + of_bool (odd x)"
    by (cases rule: son_cases [OF assms(1) 1]; use ch assms(2) in \<open>auto simp: child_def lz_consts\<close>)+
qed

lemma prnt_leaf:
  assumes "tree_shape z" and "c < lz_NumChar"
  shows "prnt z ! (c + lz_T) < lz_R" and "son z ! (prnt z ! (c + lz_T)) = c + lz_T"
proof -
  have "slot (c + lz_T)" using assms(2) by (simp add: slot_def)
  note p = prnt_child [OF assms(1) this]
  then have ch: "child z (prnt z ! (c + lz_T)) (c + lz_T)" by simp
  show eq: "son z ! (prnt z ! (c + lz_T)) = c + lz_T"
    by (cases rule: son_cases [OF assms(1) p(1)]; use ch p(1) in \<open>auto simp: child_def lz_consts\<close>)
  have "prnt z ! (lz_R - 1) = lz_R" "son z ! (prnt z ! (lz_R - 1)) < lz_T"
    using prnt_greater [OF assms(1), of "lz_R - 1"] by (auto simp: lz_consts)
  then show "prnt z ! (c + lz_T) < lz_R"
    using p(1) eq by (cases "prnt z ! (c + lz_T) = lz_R") (auto simp: lz_consts)
qed

lemma freq_mono:
  assumes "freq_order z" and "i \<le> j" and "j \<le> lz_R"
  shows "freq z ! i \<le> freq z ! j"
  using assms(2,3)
proof (induction rule: dec_induct)
  case (step n)
  then have "freq z ! n \<le> freq z ! Suc n" using assms(1) by (auto simp: freq_order_def)
  then show ?case using step by auto
qed simp

lemma slot_bounds: "slot x \<Longrightarrow> x < lz_T + lz_NumChar \<and> x \<noteq> lz_R"
  by (auto simp: slot_def lz_consts)

subsection \<open>Exchanging two nodes\<close>

definition swp :: "nat \<Rightarrow> nat \<Rightarrow> nat \<Rightarrow> nat" where
  "swp c l i = (if i = c then l else if i = l then c else i)"

lemma swp_swp [simp]: "swp c l (swp c l i) = i"
  by (simp add: swp_def)

lemma swp_eq_iff: "swp c l i = j \<longleftrightarrow> i = swp c l j"
  by (auto simp: swp_def)

lemma swp_less: "c < n \<Longrightarrow> l < n \<Longrightarrow> i < n \<Longrightarrow> swp c l i < n"
  by (simp add: swp_def)

definition set_parent :: "nat list \<Rightarrow> nat \<Rightarrow> nat \<Rightarrow> nat list" where
  "set_parent p s c = (if s < lz_T then p[s := c, s + 1 := c] else p[s := c])"

lemma set_parent_nth:
  "x < length p \<Longrightarrow> s + of_bool (s < lz_T) < length p \<Longrightarrow>
   set_parent p s c ! x = (if x = s \<or> (s < lz_T \<and> x = s + 1) then c else p ! x)"
  by (auto simp: set_parent_def nth_list_update)

lemma length_set_parent [simp]: "length (set_parent p s c) = length p"
  by (simp add: set_parent_def)

lemma son_length:
  assumes "tree_shape z" and "i < lz_T"
  shows "son z ! i + of_bool (son z ! i < lz_T) < length (prnt z)"
  by (cases rule: son_cases [OF assms]; use assms in \<open>auto simp: tree_shape_lengths lz_consts\<close>)

lemma swapNodes_ok:
  assumes z: "tree_shape z" and c: "c < lz_T" and l: "l < lz_T"
  shows "\<exists>p. swapNodes c l k z = Some (z\<lparr>freq := (freq z)[c := freq z ! l, l := k], prnt := p,
      son := (son z)[l := son z ! c, c := son z ! l]\<rparr>) \<and>
    length p = length (prnt z) \<and> p ! lz_R = prnt z ! lz_R \<and>
    (c \<noteq> l \<longrightarrow> (\<forall>x. slot x \<longrightarrow> p ! x = swp c l (prnt z ! x)))"
proof -
  define p where "p = set_parent (set_parent (prnt z) (son z ! c) l) (son z ! l) c"
  note len = tree_shape_lengths [OF z] and sc = son_length [OF z c] and sl = son_length [OF z l]
  have "swapNodes c l k z = Some (z\<lparr>freq := (freq z)[c := freq z ! l, l := k], prnt := p,
      son := (son z)[l := son z ! c, c := son z ! l]\<rparr>)"
    using c l len sc sl
    by (cases "son z ! c < lz_T"; cases "son z ! l < lz_T") (simp_all add: swapNodes_def array_simps p_def set_parent_def)
  moreover have px: "p ! x = (if child z l x then c else if child z c x then l else prnt z ! x)"
    if "x < length (prnt z)" for x
    unfolding p_def child_def
    by (subst set_parent_nth, use that sl in simp, use sl in simp, subst set_parent_nth [OF that sc]) (rule refl)
  moreover have "p ! lz_R = prnt z ! lz_R"
    using px [of lz_R] child_slot [OF z c] child_slot [OF z l] slot_bounds len by (auto simp: lz_consts)
  moreover have "p ! x = swp c l (prnt z ! x)" if "slot x" "c \<noteq> l" for x
    using px [of x] prnt_child [OF z that(1)] c l slot_bounds [OF that(1)] len that(2) by (auto simp: swp_def)
  ultimately show ?thesis by (auto simp: p_def)
qed

lemma swap_shape:
  assumes z: "tree_shape z" and "c < l" and "l < lz_R"
    and below: "son z ! l < lz_T \<Longrightarrow> son z ! l + 1 < c"
    and s: "son z' = (son z)[l := son z ! c, c := son z ! l]"
    and len: "length (freq z') = lz_T + 1" "length (prnt z') = length (prnt z)"
    and p: "\<And>x. slot x \<Longrightarrow> prnt z' ! x = swp c l (prnt z ! x)" "prnt z' ! lz_R = prnt z ! lz_R"
  shows "tree_shape z'"
proof -
  have lT: "l < lz_T" and cT: "c < lz_T" using assms(2,3) by (auto simp: lz_consts)
  note lens = tree_shape_lengths [OF z]
  have son: "son z' ! i = son z ! swp c l i" if "i < lz_T" for i
    using that lT cT assms(2) lens by (auto simp: s swp_def nth_list_update)
  have "(lz_T \<le> son z' ! i \<and> son z' ! i < lz_T + lz_NumChar) \<or> (even (son z' ! i) \<and> son z' ! i + 1 < i)"
    if "i < lz_T" for i
  proof -
    have "swp c l i < lz_T" using that lT cT by (simp add: swp_less)
    then show ?thesis
      using son [OF that] below assms(2) that
      by (cases rule: son_cases [OF z, of "swp c l i"]) (auto simp: swp_def split: if_splits)
  qed
  moreover have "child z' i x \<longleftrightarrow> prnt z' ! x = i" if "slot x" "i < lz_T" for i x
  proof -
    have "child z' i x \<longleftrightarrow> child z (swp c l i) x" using son [OF that(2)] by (simp add: child_def)
    also have "\<dots> \<longleftrightarrow> prnt z ! x = swp c l i"
      using prnt_child [OF z that(1)] swp_less [OF cT lT that(2)] by simp
    finally show ?thesis using p(1) [OF that(1)] by (auto simp: swp_eq_iff)
  qed
  moreover have "prnt z' ! x < lz_T" if "slot x" for x
    using p(1) [OF that] prnt_child(1) [OF z that] swp_less [OF cT lT] by simp
  moreover have "prnt z' ! lz_R = 0" using z p(2) by (simp add: tree_shape_def)
  ultimately show ?thesis using lens len by (simp add: tree_shape_def s)
qed

subsection \<open>One pass of the update loop\<close>

definition pending_inv :: "nat \<Rightarrow> lzhuf \<Rightarrow> bool" where
  "pending_inv c z \<longleftrightarrow> tree_shape z \<and> freq_order z \<and> pending_sums c z \<and> c < lz_T \<and> freq z ! lz_R < lz_MaxFreq"

lemma swapPoint_ok:
  assumes "l + 1 < length fs" and "k \<le> last fs"
  shows "\<exists>l'. swapPoint fs k l = Some l' \<and> l \<le> l' \<and> l' + 1 < length fs \<and> k \<le> fs ! (l' + 1) \<and>
    (\<forall>m. l < m \<and> m \<le> l' \<longrightarrow> fs ! m < k)"
  using assms
proof (induction fs k l rule: swapPoint.induct)
  case (1 fs k l)
  show ?case
  proof (cases "fs ! (l + 1) < k")
    case True
    have "l + 2 < length fs"
    proof (rule ccontr)
      assume "\<not> l + 2 < length fs"
      then have "length fs = l + 2" using 1 by simp
      then have "last fs = fs ! (l + 1)" by (subst last_conv_nth) auto
      then show False using True 1 by simp
    qed
    then obtain l' where l': "swapPoint fs k (l + 1) = Some l'" "l + 1 \<le> l'" "l' + 1 < length fs"
        "k \<le> fs ! (l' + 1)" "\<forall>m. l + 1 < m \<and> m \<le> l' \<longrightarrow> fs ! m < k"
      using 1 True by (auto simp: array_simps)
    have "fs ! m < k" if "l < m" "m \<le> l'" for m
      using that l'(5) True by (cases "m = l + 1") auto
    then show ?thesis using l' True 1 by (simp add: swapPoint.simps [of fs k l] array_simps)
  next
    case False
    then show ?thesis using 1 by (simp add: swapPoint.simps [of fs k l] array_simps)
  qed
qed

lemma freq_pos: "freq_order z \<Longrightarrow> i < lz_T \<Longrightarrow> 0 < freq z ! i"
  by (simp add: freq_order_def)

lemma pending_sumsD:
  "pending_sums c z \<Longrightarrow> i < lz_T \<Longrightarrow> son z ! i < lz_T \<Longrightarrow>
   freq z ! i + of_bool (i = c) = freq z ! (son z ! i) + freq z ! (son z ! i + 1)"
  by (simp add: pending_sums_def)

text \<open>A node counts less than its parent.\<close>

lemma freq_parent:
  assumes "tree_shape z" and "freq_order z" and "pending_sums c z" and "x < lz_R" and "prnt z ! x \<noteq> c"
  shows "freq z ! x < freq z ! (prnt z ! x)"
proof -
  let ?p = "prnt z ! x" let ?s = "son z ! ?p"
  note g = prnt_greater [OF assms(1,4)]
  have sum: "freq z ! ?p = freq z ! ?s + freq z ! (?s + 1)"
    using pending_sumsD [OF assms(3) g(2,3)] assms(5) by simp
  have "?s + 1 < ?p" by (cases rule: son_cases [OF assms(1) g(2)]) (use g(3) in auto)
  then have "0 < freq z ! ?s" "0 < freq z ! (?s + 1)"
    using freq_pos [OF assms(2)] g(2) by auto
  then show ?thesis using sum g(4) by (cases "odd x") auto
qed

lemma pending_sums_move:
  assumes z: "tree_shape z" and z': "tree_shape z'" and sums: "pending_sums c z"
    and cl: "c < lz_T" "l < lz_R"
    and son: "\<And>i. i < lz_T \<Longrightarrow> son z' ! i = son z ! swp c l i"
    and fr: "\<And>i. i < lz_T \<Longrightarrow> freq z' ! swp c l i = freq z ! i + of_bool (i = c)"
    and fr': "\<And>i. i < lz_T \<Longrightarrow> freq z' ! i = freq z ! i + of_bool (i = l)"
  shows "pending_sums (prnt z' ! l) z'"
  unfolding pending_sums_def
proof (intro allI impI)
  fix i assume i: "i < lz_T" "son z' ! i < lz_T"
  let ?s = "son z' ! i"
  have lT: "l < lz_T" using cl by (simp add: lz_consts)
  have s: "?s + 1 < i" by (cases rule: son_cases [OF z' i(1)]) (use i in auto)
  have i': "swp c l i < lz_T" using swp_less [OF cl(1) lT i(1)] .
  have "slot l" using cl by (simp add: slot_def)
  then have ch: "child z' i l \<longleftrightarrow> prnt z' ! l = i" using prnt_child [OF z'] i(1) by simp
  have "freq z' ! i = freq z ! swp c l i + of_bool (swp c l i = c)" using fr [OF i'] by simp
  also have "\<dots> = freq z ! ?s + freq z ! (?s + 1)"
    using pending_sumsD [OF sums i'] i(2) son [OF i(1)] by simp
  also have "\<dots> + of_bool (i = prnt z' ! l) = freq z' ! ?s + freq z' ! (?s + 1)"
    using ch fr' [of ?s] fr' [of "?s + 1"] s i by (auto simp: child_def)
  finally show "freq z' ! i + of_bool (i = prnt z' ! l) = freq z' ! ?s + freq z' ! (?s + 1)" .
qed

lemma weight_move:
  assumes "tree_shape z" and "d < lz_NumChar" and "prnt z' ! (d + lz_T) = swp c l (prnt z ! (d + lz_T))"
    and "\<And>i. i < lz_T \<Longrightarrow> freq z' ! swp c l i = freq z ! i + of_bool (i = c)"
  shows "weight z' d = weight z d + of_bool (prnt z ! (d + lz_T) = c)"
  using assms prnt_child(1) [OF assms(1), of "d + lz_T"] by (simp add: weight_def slot_def)

lemma update_step_keep:
  assumes inv: "pending_inv c z" and keep: "c = lz_R \<or> freq z ! c + 1 \<le> freq z ! (c + 1)"
  shows "\<exists>z'. update_step c z = Some (prnt z ! c, z') \<and> tree_shape z' \<and> freq_order z' \<and>
    freq z' ! lz_R = freq z ! lz_R + of_bool (c = lz_R) \<and>
    (if c = lz_R then freq_sums z' else pending_sums (prnt z ! c) z') \<and>
    (\<forall>d < lz_NumChar. weight z' d = weight z d + of_bool (prnt z ! (d + lz_T) = c))"
proof -
  have z: "tree_shape z" and order: "freq_order z" and sums: "pending_sums c z" and c: "c < lz_T"
    and R: "freq z ! lz_R < lz_MaxFreq" using inv by (auto simp: pending_inv_def)
  note len = tree_shape_lengths [OF z]
  define z' where "z' = z\<lparr>freq := (freq z)[c := freq z ! c + 1]\<rparr>"
  have fr: "freq z' ! i = freq z ! i + of_bool (i = c)" if "i < lz_T" for i
    using that len by (simp add: z'_def nth_list_update)
  have "freq z ! c + 1 \<le> freq z ! (c + 1) \<or> lz_T + 1 \<le> c + 2" using keep by (auto simp: lz_consts)
  then have "update_step c z = Some (prnt z ! c, z')"
    using c len by (simp add: update_step_def array_simps z'_def)
  moreover have z': "tree_shape z'" using z by (simp add: tree_shape_def child_def z'_def)
  moreover have "freq_order z'"
  proof -
    have "freq z' ! i \<le> freq z' ! (i + 1)" if "i < lz_R" for i
      using that order keep fr [of i] fr [of "i + 1"] by (auto simp: freq_order_def lz_consts)
    moreover have "freq z' ! lz_T = 0xffff" using order c by (simp add: z'_def freq_order_def)
    ultimately show ?thesis using order fr by (auto simp: freq_order_def)
  qed
  moreover have "freq z' ! lz_R = freq z ! lz_R + of_bool (c = lz_R)" using fr [of lz_R] by (auto simp: lz_consts)
  moreover have "if c = lz_R then freq_sums z' else pending_sums (prnt z ! c) z'"
  proof (cases "c = lz_R")
    case True
    have "freq z' ! i = freq z' ! (son z' ! i) + freq z' ! (son z' ! i + 1)"
      if i: "i < lz_T" "son z' ! i < lz_T" for i
    proof -
      have s: "son z' ! i + 1 < i" by (cases rule: son_cases [OF z' i(1)]) (use i in auto)
      then show ?thesis
        using pending_sumsD [OF sums i(1)] i fr [of i] fr [of "son z' ! i"] fr [of "son z' ! i + 1"] True
        by (simp add: z'_def lz_consts)
    qed
    then show ?thesis using True by (simp add: freq_sums_def)
  next
    case False
    then have "c < lz_R" using c by (simp add: lz_consts)
    then have "pending_sums (prnt z' ! c) z'"
      using fr c by (intro pending_sums_move [OF z z' sums, of c]) (auto simp: z'_def swp_def)
    then show ?thesis using False by (simp add: z'_def)
  qed
  moreover have "weight z' d = weight z d + of_bool (prnt z ! (d + lz_T) = c)" if "d < lz_NumChar" for d
    using fr that by (intro weight_move [OF z, of d z' c c]) (auto simp: z'_def swp_def)
  ultimately show ?thesis by blast
qed

lemma update_step_swap:
  assumes inv: "pending_inv c z" and swap: "c < lz_R" "freq z ! (c + 1) < freq z ! c + 1"
  shows "\<exists>l z'. update_step c z = Some (prnt z' ! l, z') \<and> c < l \<and> l < lz_R \<and> tree_shape z' \<and> freq_order z' \<and>
    freq z' ! lz_R = freq z ! lz_R \<and> pending_sums (prnt z' ! l) z' \<and>
    (\<forall>d < lz_NumChar. weight z' d = weight z d + of_bool (prnt z ! (d + lz_T) = c))"
proof -
  have z: "tree_shape z" and order: "freq_order z" and sums: "pending_sums c z" and c: "c < lz_T"
    and R: "freq z ! lz_R < lz_MaxFreq" using inv by (auto simp: pending_inv_def)
  note len = tree_shape_lengths [OF z]
  let ?k = "freq z ! c + 1"
  let ?fs = "(freq z)[c := ?k]"
  have kT: "?k \<le> last ?fs"
    using len c swap order freq_mono [OF order, of c lz_R] R
    by (subst last_conv_nth) (auto simp: freq_order_def lz_consts)
  obtain l where l: "swapPoint ?fs ?k (c + 1) = Some l" "c + 1 \<le> l" "l + 1 < lz_T + 1"
      "?k \<le> ?fs ! (l + 1)" and below: "\<And>m. c + 1 < m \<Longrightarrow> m \<le> l \<Longrightarrow> ?fs ! m < ?k"
    using swapPoint_ok [of "c + 1" ?fs ?k] kT swap len by (auto simp: lz_consts)
  have fl: "freq z ! l = freq z ! c"
  proof -
    have "freq z ! l < ?k" using below [of l] l(2) swap by (cases "l = c + 1") auto
    moreover have "freq z ! c \<le> freq z ! l" using freq_mono [OF order, of c l] l by (simp add: lz_consts)
    ultimately show ?thesis by simp
  qed
  have lR: "l < lz_R"
  proof -
    have "freq z ! l < freq z ! (prnt z ! c)"
      using freq_parent [OF z order sums swap(1)] prnt_greater(1) [OF z swap(1)] fl by simp
    also have "\<dots> \<le> freq z ! lz_R"
      using freq_mono [OF order, of "prnt z ! c" lz_R] prnt_greater(2) [OF z swap(1)] by (simp add: lz_consts)
    finally have "l \<noteq> lz_R" by auto
    then show ?thesis using l(3) by (simp add: lz_consts)
  qed
  have lT: "l < lz_T" using l by simp
  have sl: "son z ! l + 1 < c" if "son z ! l < lz_T"
  proof (rule ccontr)
    assume "\<not> son z ! l + 1 < c"
    then have "freq z ! c \<le> freq z ! (son z ! l + 1)"
      using freq_mono [OF order, of c "son z ! l + 1"] that lT
      by (cases rule: son_cases [OF z lT]) (auto simp: lz_consts)
    moreover have "0 < freq z ! (son z ! l)" using freq_pos [OF order that] .
    ultimately show False using pending_sumsD [OF sums lT that] fl l(2) by simp
  qed
  have c1: "c < l" using l by simp
  obtain p where sw: "swapNodes c l ?k (z\<lparr>freq := ?fs\<rparr>) = Some (z\<lparr>freq := ?fs[c := ?fs ! l, l := ?k], prnt := p,
      son := (son z)[l := son z ! c, c := son z ! l]\<rparr>)"
    and p: "length p = length (prnt z)" "p ! lz_R = prnt z ! lz_R" "\<And>x. slot x \<Longrightarrow> p ! x = swp c l (prnt z ! x)"
    using swapNodes_ok [of "z\<lparr>freq := ?fs\<rparr>" c l ?k] z c1 c lT
    by (auto simp: tree_shape_def child_def)
  define z' where "z' = z\<lparr>freq := ?fs[c := ?fs ! l, l := ?k], prnt := p,
      son := (son z)[l := son z ! c, c := son z ! l]\<rparr>"
  have step: "update_step c z = Some (prnt z' ! l, z')"
    using c swap l len lR p(1) sw by (simp add: update_step_def array_simps z'_def lz_consts)
  have z': "tree_shape z'"
    using sl p len by (intro swap_shape [OF z c1 lR]) (auto simp: z'_def)
  have fr': "freq z' ! i = freq z ! i + of_bool (i = l)" if "i < lz_T" for i
    using that fl len c1 lT by (auto simp: z'_def nth_list_update)
  have fr: "freq z' ! swp c l i = freq z ! i + of_bool (i = c)" if "i < lz_T" for i
    using that fl fr' [of "swp c l i"] swp_less [OF c lT that] c1 by (auto simp: swp_def)
  have "freq_order z'"
  proof -
    have "freq z' ! i \<le> freq z' ! (i + 1)" if "i < lz_R" for i
      using that order l(4) fl lR c1 fr' [of i] fr' [of "i + 1"] by (auto simp: freq_order_def lz_consts)
    moreover have "freq z' ! lz_T = 0xffff" using order lT c1 by (simp add: z'_def freq_order_def)
    ultimately show ?thesis using order fr' by (auto simp: freq_order_def)
  qed
  moreover have "freq z' ! lz_R = freq z ! lz_R" using fr' [of lz_R] lR by (simp add: lz_consts)
  moreover have "pending_sums (prnt z' ! l) z'"
    using fr fr' len c lT c1
    by (intro pending_sums_move [OF z z' sums c lR]) (auto simp: z'_def swp_def nth_list_update)
  moreover have "weight z' d = weight z d + of_bool (prnt z ! (d + lz_T) = c)" if "d < lz_NumChar" for d
    using fr that p(3) by (intro weight_move [OF z, of d z' c l]) (auto simp: z'_def slot_def)
  ultimately show ?thesis using step z' c1 lR by blast
qed

subsection \<open>The whole update without rebuilding\<close>

lemma update_loop_ok:
  assumes "pending_inv c z"
  shows "\<exists>z'. update_loop c z = Some z' \<and> tree_shape z' \<and> freq_order z' \<and> freq_sums z' \<and>
    freq z' ! lz_R = freq z ! lz_R + 1 \<and>
    (\<forall>d < lz_NumChar. weight z' d = weight z d + of_bool (prnt z ! (d + lz_T) = c))"
  using assms
proof (induction "lz_T - c" arbitrary: c z rule: less_induct)
  case less
  have z: "tree_shape z" and cT: "c < lz_T" and R: "freq z ! lz_R < lz_MaxFreq"
    using less.prems by (auto simp: pending_inv_def)
  have next_ok: ?case
    if step: "update_step c z = Some (x', z')" and x: "c < x'" "son z' ! x' < lz_T"
      and inv: "pending_inv x' z'" and R': "freq z' ! lz_R = freq z ! lz_R"
      and w: "\<forall>d < lz_NumChar. weight z' d = weight z d + of_bool (prnt z ! (d + lz_T) = c)" for x' z'
  proof -
    have "lz_T - x' < lz_T - c" using x(1) inv cT by (auto simp: pending_inv_def)
    then obtain z'' where "update_loop x' z' =  Some z''" "tree_shape z''" "freq_order z''" "freq_sums z''" "freq z'' ! lz_R = freq z' ! lz_R + 1"
        "\<forall>d < lz_NumChar. weight z'' d = weight z' d + of_bool (prnt z' ! (d + lz_T) = x')"
      using less.hyps inv by blast
    moreover have "prnt z' ! (d + lz_T) \<noteq> x'" if "d < lz_NumChar" for d
      using prnt_leaf(2) [of z' d] that x(2) inv by (auto simp: pending_inv_def)
    ultimately show ?thesis
      using step x(1) w R' by (simp add: update_loop.simps [of c z])
  qed
  consider "c = lz_R" | "c < lz_R" "freq z ! c + 1 \<le> freq z ! (c + 1)"
    | "c < lz_R" "freq z ! (c + 1) < freq z ! c + 1"
    using cT unfolding lz_consts by linarith
  then show ?case
  proof cases
    case 1
    then obtain z' where "update_step c z = Some (prnt z ! c, z')" "tree_shape z'" "freq_order z'" "freq_sums z'"
        "freq z' ! lz_R = freq z ! lz_R + 1"
        "\<forall>d < lz_NumChar. weight z' d = weight z d + of_bool (prnt z ! (d + lz_T) = c)"
      using update_step_keep [OF less.prems] by auto
    moreover have "prnt z ! c = 0" using z 1 by (simp add: tree_shape_def)
    ultimately show ?thesis using R by (simp add: update_loop.simps [of c z])
  next
    case 2
    then obtain z' where step: "update_step c z = Some (prnt z ! c, z')" "tree_shape z'" "freq_order z'"
        "pending_sums (prnt z ! c) z'" "freq z' ! lz_R = freq z ! lz_R"
        "\<forall>d < lz_NumChar. weight z' d = weight z d + of_bool (prnt z ! (d + lz_T) = c)"
      using update_step_keep [OF less.prems] by auto
    have "z' = z\<lparr>freq := freq z'\<rparr>"
      using step(1) 2 cT tree_shape_lengths [OF z] by (auto simp: update_step_def array_simps)
    then have "son z' = son z" by (metis lzhuf.select_convs(3) lzhuf.surjective lzhuf.update_convs(1))
    then show ?thesis
      using next_ok [OF step(1)] step prnt_greater [OF z 2(1)] R by (simp add: pending_inv_def)
  next
    case 3
    then obtain l z' where step: "update_step c z = Some (prnt z' ! l, z')" "c < l" "l < lz_R" "tree_shape z'"
        "freq_order z'" "freq z' ! lz_R = freq z ! lz_R" "pending_sums (prnt z' ! l) z'"
        "\<forall>d < lz_NumChar. weight z' d = weight z d + of_bool (prnt z ! (d + lz_T) = c)"
      using update_step_swap [OF less.prems] by blast
    then show ?thesis
      using next_ok [OF step(1)] prnt_greater [OF step(4,3)] R by (simp add: pending_inv_def)
  qed
qed

subsection \<open>Building a tree from its leaves\<close>

text \<open>The state of the construction when \<open>j\<close> nodes exist and the first \<open>i\<close> of them have a parent:
  \<open>par\<close> maps a slot that has a parent to it, \<open>w\<close> gives the weights of the characters.\<close>

definition linked :: "nat \<Rightarrow> nat \<Rightarrow> bool" where
  "linked i s \<longleftrightarrow> s < i \<or> (lz_T \<le> s \<and> s < lz_T + lz_NumChar)"

definition forest :: "(nat \<Rightarrow> nat) \<Rightarrow> (nat \<Rightarrow> nat) \<Rightarrow> nat \<Rightarrow> nat \<Rightarrow> lzhuf \<Rightarrow> bool" where
  "forest par w i j z \<longleftrightarrow>
     i = 2 * (j - lz_NumChar) \<and> lz_NumChar \<le> j \<and> j \<le> lz_T \<and>
     length (freq z) = lz_T + 1 \<and> length (son z) = lz_T \<and>
     (\<forall>x < j. 0 < freq z ! x) \<and> (\<forall>x. x + 1 < j \<longrightarrow> freq z ! x \<le> freq z ! (x + 1)) \<and>
     (\<forall>x < j. (lz_T \<le> son z ! x \<and> son z ! x < lz_T + lz_NumChar) \<or>
        (even (son z ! x) \<and> son z ! x + 1 < x \<and> son z ! x + 1 < i \<and>
         freq z ! x = freq z ! (son z ! x) + freq z ! (son z ! x + 1))) \<and>
     (\<forall>s. linked i s \<longrightarrow> par s < j \<and> (\<forall>x < j. child z x s \<longleftrightarrow> par s = x)) \<and>
     (\<forall>d < lz_NumChar. freq z ! par (d + lz_T) = w d) \<and>
     sum_list (take j (freq z)) = (\<Sum>d < lz_NumChar. w d) + sum_list (take i (freq z))"

text \<open>Putting a new element before position \<open>k\<close> of the first \<open>j\<close>, over the element at \<open>j\<close>.\<close>

definition ins_at :: "nat \<Rightarrow> nat \<Rightarrow> 'a \<Rightarrow> 'a list \<Rightarrow> 'a list" where
  "ins_at k j v xs = take k xs @ v # drop k (take j xs) @ drop (j + 1) xs"

definition shift :: "nat \<Rightarrow> nat \<Rightarrow> nat" where
  "shift k x = (if x < k then x else x + 1)"

lemma ins_at_nth:
  assumes "k \<le> j" and "j < length xs" and "x < length xs"
  shows "ins_at k j v xs ! x = (if x < k then xs ! x else if x = k then v else if x \<le> j then xs ! (x - 1) else xs ! x)"
  using assms by (auto simp: ins_at_def nth_append nth_Cons' min_def)

lemma length_ins_at [simp]: "k \<le> j \<Longrightarrow> j < length xs \<Longrightarrow> length (ins_at k j v xs) = length xs"
  by (simp add: ins_at_def)

lemma copy_within_ins_at:
  assumes "k \<le> j" and "j < length xs"
  shows "do { ys \<leftarrow> copy_within xs (k + 1) k j; upd ys k v } = Some (ins_at k j v xs)"
proof -
  have "take (Suc k) xs = take k xs @ [xs ! k]" using assms by (simp add: take_Suc_conv_app_nth)
  moreover have "min (length xs - Suc k) (j - k) = j - k" using assms by simp
  ultimately show ?thesis
    using assms by (simp add: copy_within_def Let_def upd_def ins_at_def list_update_append take_drop)
qed

lemma sum_ins_at:
  assumes "k \<le> j" and "j < length (xs :: nat list)"
  shows "sum_list (take (j + 1) (ins_at k j v xs)) = sum_list (take j xs) + v"
proof -
  have "take (j + 1) (ins_at k j v xs) = take k xs @ v # drop k (take j xs)"
    using assms by (simp add: ins_at_def Suc_diff_le)
  moreover have "sum_list (take j xs) = sum_list (take k xs) + sum_list (drop k (take j xs))"
    using assms by (metis append_take_drop_id sum_list_append take_take min.absorb2 min.commute)
  ultimately show ?thesis by simp
qed

lemma insertPoint_ok:
  assumes "lo < j" and "j \<le> length fs" and "fs ! lo \<le> first"
  shows "\<exists>k. insertPoint fs first j = Some k \<and> lo < k \<and> k \<le> j \<and> fs ! (k - 1) \<le> first \<and>
    (\<forall>m. k \<le> m \<and> m < j \<longrightarrow> first < fs ! m)"
  using assms
proof (induction j)
  case (Suc j)
  show ?case
  proof (cases "first < fs ! j")
    case True
    then have "lo < j" using Suc.prems by (cases "lo = j") auto
    then obtain k where k: "insertPoint fs first j = Some k" "lo < k" "k \<le> j" "fs ! (k - 1) \<le> first"
        "\<forall>m. k \<le> m \<and> m < j \<longrightarrow> first < fs ! m"
      using Suc by auto
    have "first < fs ! m" if "k \<le> m" "m < Suc j" for m using that k(5) True by (cases "m = j") auto
    then show ?thesis using k True Suc.prems by (intro exI [of _ k]) (simp add: array_simps)
  next
    case False
    then show ?thesis using Suc.prems by (simp add: array_simps)
  qed
qed simp

lemma shift_cases:
  assumes "y < j + 1" and "k \<le> j"
  obtains "y = k" | x where "x < j" "y = shift k x"
proof -
  consider "y < k" | "y = k" | "k < y" by linarith
  then show ?thesis
    by cases (use assms that(1) that(2) [of y] that(2) [of "y - 1"] in \<open>auto simp: shift_def\<close>)
qed

lemma forest_step:
  assumes f: "forest par w i j z" and j: "j < lz_T" and k: "i + 2 \<le> k" "k \<le> j"
    and first: "first = freq z ! i + freq z ! (i + 1)" "freq z ! (k - 1) \<le> first"
      "\<And>m. k \<le> m \<Longrightarrow> m < j \<Longrightarrow> first < freq z ! m"
    and z': "freq z' = ins_at k j first (freq z)" "son z' = ins_at k j i (son z)"
  shows "forest (\<lambda>s. if s = i \<or> s = i + 1 then k else shift k (par s)) w (i + 2) (j + 1) z'"
proof -
  note F = f [unfolded forest_def]
  have len: "length (freq z) = lz_T + 1" "length (son z) = lz_T" and ij: "i = 2 * (j - lz_NumChar)" "lz_NumChar \<le> j"
    using F by auto
  have fr: "freq z' ! shift k x = freq z ! x" and so: "son z' ! shift k x = son z ! x" if "x < j" for x
    using that k j len by (auto simp: z' ins_at_nth shift_def)
  have frk: "freq z' ! k = first" "son z' ! k = i" using k j len by (auto simp: z' ins_at_nth)
  have low: "freq z' ! x = freq z ! x" if "x < k" for x using that k j len by (simp add: z' ins_at_nth)
  have pos: "0 < freq z ! x" if "x < j" for x using F that by blast
  have mono: "freq z ! x \<le> freq z ! (x + 1)" if "x + 1 < j" for x using F that by blast
  have shape: "(lz_T \<le> son z ! x \<and> son z ! x < lz_T + lz_NumChar) \<or>
        (even (son z ! x) \<and> son z ! x + 1 < x \<and> son z ! x + 1 < i \<and>
         freq z ! x = freq z ! (son z ! x) + freq z ! (son z ! x + 1))" if "x < j" for x
    using F that by blast
  have par: "par s < j" "x < j \<Longrightarrow> child z x s \<longleftrightarrow> par s = x" if "linked i s" for s x using F that by blast+
  have iT: "i + 1 < lz_T" using ij k j by (simp add: lz_consts)
  have 1: "0 < freq z' ! x" if "x < j + 1" for x
    using that k(2) by (cases rule: shift_cases) (use fr frk pos pos [of i] k first(1) in auto)
  have 2: "freq z' ! x \<le> freq z' ! (x + 1)" if "x + 1 < j + 1" for x
  proof -
    consider "x + 1 < k" | "x + 1 = k" | "x = k" | "k < x" by linarith
    then show ?thesis
    proof cases
      case 1 then show ?thesis using low [of x] low [of "x + 1"] mono k by auto
    next
      case 2 then show ?thesis using low [of x] frk first(2) by auto
    next
      case 3 then show ?thesis using fr [of k] frk first(3) [of k] that by (auto simp: shift_def)
    next
      case 4
      then have "shift k (x - 1) = x" "shift k x = x + 1" by (auto simp: shift_def)
      then show ?thesis using 4 fr [of x] fr [of "x - 1"] mono [of "x - 1"] that by auto
    qed
  qed
  have 3: "(lz_T \<le> son z' ! y \<and> son z' ! y < lz_T + lz_NumChar) \<or>
        (even (son z' ! y) \<and> son z' ! y + 1 < y \<and> son z' ! y + 1 < i + 2 \<and>
         freq z' ! y = freq z' ! (son z' ! y) + freq z' ! (son z' ! y + 1))" if "y < j + 1" for y
    using that k(2)
  proof (cases rule: shift_cases)
    case 1
    then show ?thesis using frk first(1) low [of i] low [of "i + 1"] k ij by simp
  next
    case (2 x)
    have "x \<le> shift k x" by (simp add: shift_def)
    then show ?thesis
      using 2 fr so shape [OF 2(1)] k low [of "son z ! x"] low [of "son z ! x + 1"] by auto
  qed
  have 4: "(if s = i \<or> s = i + 1 then k else shift k (par s)) < j + 1 \<and>
      (\<forall>y < j + 1. child z' y s \<longleftrightarrow> (if s = i \<or> s = i + 1 then k else shift k (par s)) = y)"
    if s: "linked (i + 2) s" for s
  proof (cases "s = i \<or> s = i + 1")
    case True
    have "child z' y s \<longleftrightarrow> k = y" if "y < j + 1" for y
      using that k(2)
    proof (cases rule: shift_cases)
      case 1
      then show ?thesis using frk True iT by (auto simp: child_def)
    next
      case (2 x)
      have "\<not> child z x s" using shape [OF 2(1)] True iT by (auto simp: child_def)
      then show ?thesis using 2 so by (auto simp: child_def shift_def)
    qed
    then show ?thesis using True k by auto
  next
    case False
    then have s': "linked i s" using s by (auto simp: linked_def)
    have "child z' y s \<longleftrightarrow> shift k (par s) = y" if "y < j + 1" for y
      using that k(2)
    proof (cases rule: shift_cases)
      case 1
      then show ?thesis using frk False by (auto simp: child_def shift_def)
    next
      case (2 x)
      have "child z' y s \<longleftrightarrow> child z x s" using 2 so by (simp add: child_def)
      then show ?thesis using 2 par(2) [OF s' 2(1)] by (auto simp: shift_def)
    qed
    then show ?thesis using False par(1) [OF s'] by (auto simp: shift_def)
  qed
  have 5: "freq z' ! (if d + lz_T = i \<or> d + lz_T = i + 1 then k else shift k (par (d + lz_T))) = w d"
    if "d < lz_NumChar" for d
  proof -
    have "linked i (d + lz_T)" using that by (simp add: linked_def)
    then show ?thesis using fr par(1) F that iT by auto
  qed
  have 6: "sum_list (take (j + 1) (freq z')) = (\<Sum>d < lz_NumChar. w d) + sum_list (take (i + 2) (freq z'))"
  proof -
    have "take (i + 2) (freq z') = take (i + 2) (freq z)"
      using k j len by (simp add: z' ins_at_def min_def)
    also have "\<dots> = take i (freq z) @ [freq z ! i, freq z ! (i + 1)]"
      using iT len by (simp add: take_Suc_conv_app_nth)
    finally show ?thesis using sum_ins_at [of k j "freq z" first] k j len F z' first(1) by simp
  qed
  show ?thesis
    unfolding forest_def using 1 2 3 4 5 6 ij j k len z' by (intro conjI) auto
qed

lemma reconst_connect_step:
  assumes f: "forest par w i j y" and j: "j < lz_T"
  shows "\<exists>y' par'. reconst_connect j (i, y) = Some (i + 2, y') \<and> forest par' w (i + 2) (j + 1) y' \<and>
    prnt y' = prnt y \<and> freq y' ! lz_T = freq y ! lz_T"
proof -
  have len: "length (freq y) = lz_T + 1" "length (son y) = lz_T" and i: "i = 2 * (j - lz_NumChar)" "lz_NumChar \<le> j"
    using f by (auto simp: forest_def)
  then have i2: "i + 2 \<le> j" using j by (simp add: lz_consts)
  let ?first = "freq y ! i + freq y ! (i + 1)" and ?fs = "(freq y)[j := freq y ! i + freq y ! (i + 1)]"
  obtain k where k: "insertPoint ?fs ?first j = Some k" "i + 1 < k" "k \<le> j" "?fs ! (k - 1) \<le> ?first"
      "\<forall>m. k \<le> m \<and> m < j \<longrightarrow> ?first < ?fs ! m"
    using insertPoint_ok [of "i + 1" j ?fs ?first] i2 len j by auto
  define y' where "y' = y\<lparr>freq := ins_at k j ?first (freq y), son := ins_at k j i (son y)\<rparr>"
  have "ins_at k j ?first ?fs = ins_at k j ?first (freq y)"
    using k(3) j len by (simp add: ins_at_def)
  then have "do { ys \<leftarrow> copy_within ?fs (k + 1) k j; upd ys k ?first } = Some (freq y')"
    using copy_within_ins_at [of k j ?fs ?first] k(3) j len by (simp add: y'_def)
  moreover have "do { ys \<leftarrow> copy_within (son y) (k + 1) k j; upd ys k i } = Some (son y')"
    using copy_within_ins_at [of k j "son y" i] k(3) j len by (simp add: y'_def)
  ultimately have "reconst_connect j (i, y) = Some (i + 2, y')"
    using k(1) i2 j len by (auto simp: reconst_connect_def array_simps y'_def bind_eq_Some_conv)
  moreover have "forest (\<lambda>s. if s = i \<or> s = i + 1 then k else shift k (par s)) w (i + 2) (j + 1) y'"
    using f j k by (intro forest_step [where z = y and first = ?first]) (auto simp: y'_def)
  ultimately show ?thesis
    using k(3) j len by (intro exI [of _ y'] exI conjI) (assumption | simp add: y'_def ins_at_nth)+
qed

lemma reconst_connect_ok:
  assumes "forest par w 0 lz_NumChar z"
  shows "\<exists>z' par'. foldM reconst_connect [lz_NumChar..<lz_T] (0, z) = Some (lz_R, z') \<and>
    forest par' w lz_R lz_T z' \<and> prnt z' = prnt z \<and> freq z' ! lz_T = freq z ! lz_T"
proof -
  define I where "I j s \<longleftrightarrow> (case s of (i, y) \<Rightarrow> (\<exists>par. forest par w i j y) \<and> prnt y = prnt z \<and>
    freq y ! lz_T = freq z ! lz_T)" for j s
  have "\<exists>s'. reconst_connect j s = Some s' \<and> I (Suc j) s'" if "lz_NumChar \<le> j" "j < lz_T" "I j s" for j s
    using that reconst_connect_step [of _ w "fst s" j "snd s"] by (fastforce simp: I_def split: prod.splits)
  moreover have "I lz_NumChar (0, z)" using assms by (auto simp: I_def)
  moreover have "lz_NumChar \<le> lz_T" by (simp add: lz_consts)
  ultimately obtain s' where "foldM reconst_connect [lz_NumChar..<lz_T] (0, z) = Some s'" "I lz_T s'"
    using foldM_invariant [where I = I and f = reconst_connect] by blast
  moreover have "i = lz_R" if "forest par w i lz_T y" for par i y
    using that by (simp add: forest_def lz_consts)
  ultimately show ?thesis by (cases s') (auto simp: I_def)
qed

lemma forest_child_slot:
  assumes "forest par w lz_R lz_T z" and "x < lz_T" and "child z x s"
  shows "slot s"
proof -
  have "(lz_T \<le> son z ! x \<and> son z ! x < lz_T + lz_NumChar) \<or> (even (son z ! x) \<and> son z ! x + 1 < lz_R)"
    using assms(1,2) by (auto simp: forest_def)
  then show ?thesis using assms(3) by (auto simp: child_def slot_def lz_consts)
qed

lemma forest_par:
  assumes "forest par w lz_R lz_T z" and "slot s"
  shows "par s < lz_T" and "x < lz_T \<Longrightarrow> child z x s \<longleftrightarrow> par s = x"
  using assms by (auto simp: forest_def slot_def linked_def)

lemma reconst_parents_ok:
  assumes f: "forest par w lz_R lz_T z" and len: "length (prnt z) = lz_T + lz_NumChar"
  shows "\<exists>z'. foldM reconst_parents [0..<lz_T] z = Some z' \<and> freq z' = freq z \<and> son z' = son z \<and>
    length (prnt z') = lz_T + lz_NumChar \<and> prnt z' ! lz_R = prnt z ! lz_R \<and> (\<forall>s. slot s \<longrightarrow> prnt z' ! s = par s)"
proof -
  define I :: "nat \<Rightarrow> lzhuf \<Rightarrow> bool" where "I i y \<longleftrightarrow> freq y = freq z \<and> son y = son z \<and>
    length (prnt y) = lz_T + lz_NumChar \<and> prnt y ! lz_R = prnt z ! lz_R \<and> (\<forall>s. slot s \<and> par s < i \<longrightarrow> prnt y ! s = par s)"
    for i y
  have step: "\<exists>y'. reconst_parents i y = Some y' \<and> I (Suc i) y'" if i: "0 \<le> i" "i < lz_T" and I: "I i y" for i y
  proof -
    let ?k = "son z ! i"
    have ch: "slot s" if "child z i s" for s using forest_child_slot [OF f i(2) that] .
    have bound: "?k + of_bool (?k < lz_T) < lz_T + lz_NumChar"
      using ch [of ?k] ch [of "?k + 1"] slot_bounds [of ?k] slot_bounds [of "?k + 1"] by (auto simp: child_def)
    define y' where "y' = y\<lparr>prnt := set_parent (prnt y) ?k i\<rparr>"
    have "length (son z) = lz_T" using f by (simp add: forest_def)
    then have "reconst_parents i y = Some y'"
      using I i bound list_update_swap [of ?k "?k + 1" "prnt y" i i]
      by (cases "?k < lz_T") (simp_all add: reconst_parents_def I_def array_simps y'_def set_parent_def)
    moreover have p: "prnt y' ! s = (if child z i s then i else prnt y ! s)" if "s < lz_T + lz_NumChar" for s
      using that I bound set_parent_nth [of s "prnt y" ?k i] by (simp add: y'_def child_def I_def)
    have "prnt y' ! s = par s" if s: "slot s" "par s < Suc i" for s
      using p [of s] slot_bounds [OF s(1)] forest_par(2) [OF f s(1) i(2)] I s by (auto simp: I_def)
    moreover have "\<not> child z i lz_R" using ch slot_bounds by blast
    then have "prnt y' ! lz_R = prnt z ! lz_R" using p [of lz_R] I by (simp add: I_def lz_consts)
    ultimately show ?thesis using I by (simp add: I_def y'_def)
  qed
  have "I 0 z" using len by (simp add: I_def)
  then obtain z' where "foldM reconst_parents [0..<lz_T] z = Some z'" "I lz_T z'"
    using foldM_invariant [where I = I and f = reconst_parents and a = 0 and b = lz_T, OF step] by auto
  then show ?thesis using forest_par(1) [OF f] by (auto simp: I_def)
qed

lemma forest_tree_inv:
  assumes f: "forest par w lz_R lz_T z" and "freq z ! lz_T = 0xffff"
    and p: "length (prnt z) = lz_T + lz_NumChar" "prnt z ! lz_R = 0" "\<And>s. slot s \<Longrightarrow> prnt z ! s = par s"
    and "(\<Sum>d < lz_NumChar. w d) \<le> lz_MaxFreq"
  shows "tree_inv z \<and> (\<forall>d < lz_NumChar. weight z d = w d)"
proof -
  note F = f [unfolded forest_def]
  have len: "length (freq z) = lz_T + 1" using F by simp
  have shape: "(lz_T \<le> son z ! x \<and> son z ! x < lz_T + lz_NumChar) \<or>
        (even (son z ! x) \<and> son z ! x + 1 < x \<and> son z ! x + 1 < lz_R \<and>
         freq z ! x = freq z ! (son z ! x) + freq z ! (son z ! x + 1))" if "x < lz_T" for x
    using F that by blast
  have "tree_shape z"
    unfolding tree_shape_def using F shape p forest_par [OF f] by (intro conjI) auto
  moreover have "freq_order z"
    using F assms(2) by (auto simp: freq_order_def lz_consts)
  moreover have "freq_sums z" using shape by (force simp: freq_sums_def)
  moreover have w: "weight z d = w d" if "d < lz_NumChar" for d
    using that F p(3) [of "d + lz_T"] by (simp add: weight_def slot_def)
  moreover have "freq z ! lz_R = (\<Sum>d < lz_NumChar. w d)"
  proof -
    have "lz_T = Suc lz_R" by (simp add: lz_consts)
    then have "sum_list (take lz_T (freq z)) = sum_list (take lz_R (freq z)) + freq z ! lz_R"
      using len take_Suc_conv_app_nth [of lz_R "freq z"] by simp
    then show ?thesis using F by simp
  qed
  ultimately show ?thesis using assms(6) by (simp add: tree_inv_def)
qed

subsection \<open>Collecting the leaves\<close>

definition leaves :: "lzhuf \<Rightarrow> nat \<Rightarrow> nat list" where
  "leaves z n = filter (\<lambda>x. lz_T \<le> son z ! x) [0..<n]"

definition halve :: "nat \<Rightarrow> nat" where
  "halve f = (f + 1) div 2"

lemma leaves_Suc: "leaves z (Suc i) = leaves z i @ (if lz_T \<le> son z ! i then [i] else [])"
  by (simp add: leaves_def)

lemma length_leaves: "length (leaves z i) \<le> i"
  using length_filter_le [of "\<lambda>x. lz_T \<le> son z ! x" "[0..<i]"] by (simp add: leaves_def)

lemma leaves_nth:
  assumes "p < n" and "lz_T \<le> son z ! p"
  shows "length (leaves z p) < length (leaves z n)" and "leaves z n ! length (leaves z p) = p"
proof -
  have "[0..<n] = [0..<p] @ p # [Suc p..<n]" 
    using assms(1) upt_add_eq_append [of 0 p "n - p"] by (simp add: upt_conv_Cons)
  then have "leaves z n = leaves z p @ p # filter (\<lambda>x. lz_T \<le> son z ! x) [Suc p..<n]"
    using assms(2) by (simp add: leaves_def)
  then show "length (leaves z p) < length (leaves z n)" "leaves z n ! length (leaves z p) = p" by simp_all
qed

lemma leaves_characters:
  assumes "tree_shape z"
  shows "distinct (leaves z lz_T)" and "set (leaves z lz_T) = (\<lambda>d. prnt z ! (d + lz_T)) ` {..<lz_NumChar}"
    and "inj_on (\<lambda>d. prnt z ! (d + lz_T)) {..<lz_NumChar}" and "length (leaves z lz_T) = lz_NumChar"
proof -
  show 1: "distinct (leaves z lz_T)" by (simp add: leaves_def)
  show 2: "set (leaves z lz_T) = (\<lambda>d. prnt z ! (d + lz_T)) ` {..<lz_NumChar}"
  proof (intro equalityI subsetI)
    fix x assume "x \<in> set (leaves z lz_T)"
    then have x: "x < lz_T" "lz_T \<le> son z ! x" by (auto simp: leaves_def)
    then have s: "son z ! x < lz_T + lz_NumChar" by (cases rule: son_cases [OF assms x(1)]) auto
    then have "prnt z ! (son z ! x) = x"
      using x prnt_child(2) [OF assms, of "son z ! x" x] by (simp add: child_def slot_def)
    then show "x \<in> (\<lambda>d. prnt z ! (d + lz_T)) ` {..<lz_NumChar}"
      using x s by (intro image_eqI [of _ _ "son z ! x - lz_T"]) auto
  next
    fix x assume "x \<in> (\<lambda>d. prnt z ! (d + lz_T)) ` {..<lz_NumChar}"
    then show "x \<in> set (leaves z lz_T)"
      using prnt_leaf [OF assms] prnt_child(1) [OF assms] by (auto simp: leaves_def slot_def)
  qed
  show 3: "inj_on (\<lambda>d. prnt z ! (d + lz_T)) {..<lz_NumChar}"
    using prnt_leaf(2) [OF assms] by (intro inj_onI) (metis add_right_cancel lessThan_iff)
  show "length (leaves z lz_T) = lz_NumChar"
    using distinct_card [OF 1] card_image [OF 3] 2 by simp
qed

lemma drop_update_hd: "j < length xs \<Longrightarrow> (drop j xs)[0 := v] = v # drop (Suc j) xs"
  by (simp flip: Cons_nth_drop_Suc)

lemma reconst_collect_ok:
  assumes len: "length (freq z) = lz_T + 1" "length (son z) = lz_T"
  shows "\<exists>j y. foldM reconst_collect [0..<lz_T] (0, z) = Some (j, y) \<and> j = length (leaves z lz_T) \<and>
    freq y = map (\<lambda>x. halve (freq z ! x)) (leaves z lz_T) @ drop j (freq z) \<and>
    son y = map (\<lambda>x. son z ! x) (leaves z lz_T) @ drop j (son z) \<and> prnt y = prnt z"
proof -
  define I where "I i s \<longleftrightarrow> (case s of (j, y) \<Rightarrow> j = length (leaves z i) \<and>
    freq y = map (\<lambda>x. halve (freq z ! x)) (leaves z i) @ drop j (freq z) \<and>
    son y = map (\<lambda>x. son z ! x) (leaves z i) @ drop j (son z) \<and> prnt y = prnt z)" for i and s :: "nat \<times> lzhuf"
  have step: "\<exists>s'. reconst_collect i s = Some s' \<and> I (Suc i) s'" if i: "0 \<le> i" "i < lz_T" and I: "I i s" for i s
  proof -
    obtain j y where s: "s = (j, y)" by (cases s)
    have j: "j = length (leaves z i)" and y: "freq y = map (\<lambda>x. halve (freq z ! x)) (leaves z i) @ drop j (freq z)"
        "son y = map (\<lambda>x. son z ! x) (leaves z i) @ drop j (son z)" "prnt y = prnt z"
      using I by (auto simp: I_def s)
    have ji: "j \<le> i" using length_leaves j by simp
    have rd: "freq y ! i = freq z ! i" "son y ! i = son z ! i" "length (freq y) = lz_T + 1" "length (son y) = lz_T"
      using ji i len by (auto simp: y nth_append j)
    show ?thesis
    proof (cases "lz_T \<le> son z ! i")
      case True
      have "(freq y)[j := halve (freq z ! i)] = map (\<lambda>x. halve (freq z ! x)) (leaves z (Suc i)) @ drop (j + 1) (freq z)"
        using True ji i len j by (simp add: y leaves_Suc list_update_append drop_update_hd)
      moreover have "(son y)[j := son z ! i] = map (\<lambda>x. son z ! x) (leaves z (Suc i)) @ drop (j + 1) (son z)"
        using True ji i len j by (simp add: y leaves_Suc list_update_append drop_update_hd)
      ultimately show ?thesis
        using True rd i ji j y(3) by (simp add: s reconst_collect_def array_simps I_def halve_def leaves_Suc)
    next
      case False
      then show ?thesis using rd i j y by (simp add: s reconst_collect_def array_simps I_def leaves_Suc)
    qed
  qed
  have "I 0 (0, z)" by (simp add: I_def leaves_def)
  then obtain s' where "foldM reconst_collect [0..<lz_T] (0, z) = Some s'" "I lz_T s'"
    using foldM_invariant [where I = I and f = reconst_collect and a = 0 and b = lz_T and s = "(0, z)", OF step] by auto
  then show ?thesis by (cases s') (auto simp: I_def)
qed

lemma collected_forest:
  assumes inv: "tree_inv z"
    and y: "freq y = map (\<lambda>x. halve (freq z ! x)) (leaves z lz_T) @ drop lz_NumChar (freq z)"
      "son y = map (\<lambda>x. son z ! x) (leaves z lz_T) @ drop lz_NumChar (son z)"
  shows "forest (\<lambda>s. length (leaves z (prnt z ! s))) (\<lambda>d. halve (weight z d)) 0 lz_NumChar y"
proof -
  let ?L = "leaves z lz_T"
  have z: "tree_shape z" and order: "freq_order z" using inv by (auto simp: tree_inv_def)
  note L = leaves_characters [OF z] and len = tree_shape_lengths [OF z]
  have Lx: "?L ! x < lz_T" "lz_T \<le> son z ! (?L ! x)" if "x < lz_NumChar" for x
    using nth_mem [of x ?L] that L(4) by (auto simp: leaves_def)
  have fr: "freq y ! x = halve (freq z ! (?L ! x))" and so: "son y ! x = son z ! (?L ! x)" if "x < lz_NumChar" for x
    using that L(4) by (simp_all add: y nth_append)
  have 1: "0 < freq y ! x" if "x < lz_NumChar" for x
    using fr [OF that] freq_pos [OF order Lx(1) [OF that]] by (simp add: halve_def)
  have 2: "freq y ! x \<le> freq y ! (x + 1)" if "x + 1 < lz_NumChar" for x
  proof -
    have "sorted_wrt (<) ?L" by (simp add: leaves_def sorted_wrt_filter)
    then have "?L ! x \<le> ?L ! (x + 1)" using that L(4) sorted_wrt_nth_less [of "(<)" ?L x "x + 1"] by simp
    then have "freq z ! (?L ! x) \<le> freq z ! (?L ! (x + 1))"
      using freq_mono [OF order] Lx(1) [OF that] by (simp add: lz_consts)
    then show ?thesis using fr [of x] fr [of "x + 1"] that by (simp add: halve_def div_le_mono)
  qed
  have 3: "son y ! x < lz_T + lz_NumChar" "lz_T \<le> son y ! x" if "x < lz_NumChar" for x
    using Lx [OF that] so [OF that] by (cases rule: son_cases [OF z Lx(1) [OF that]]; simp)+
  have leaf: "length (leaves z (prnt z ! s)) < lz_NumChar" "?L ! length (leaves z (prnt z ! s)) = prnt z ! s"
    if "linked 0 s" for s
  proof -
    have "s - lz_T < lz_NumChar" "s - lz_T + lz_T = s" using that by (auto simp: linked_def lz_consts)
    then have "prnt z ! s < lz_T" "lz_T \<le> son z ! (prnt z ! s)"
      using prnt_leaf [OF z, of "s - lz_T"] by (auto simp: lz_consts)
    from leaves_nth [OF this] show "length (leaves z (prnt z ! s)) < lz_NumChar"
      "?L ! length (leaves z (prnt z ! s)) = prnt z ! s" using L(4) by auto
  qed
  have 4: "child y x s \<longleftrightarrow> length (leaves z (prnt z ! s)) = x" if s: "linked 0 s" and x: "x < lz_NumChar" for s x
  proof -
    have "slot s" using s by (auto simp: linked_def slot_def)
    have "child y x s \<longleftrightarrow> child z (?L ! x) s" using 3 [OF x] so [OF x] Lx(2) [OF x] by (auto simp: child_def)
    also have "\<dots> \<longleftrightarrow> prnt z ! s = ?L ! x" using prnt_child(2) [OF z \<open>slot s\<close> Lx(1) [OF x]] .
    also have "\<dots> \<longleftrightarrow> ?L ! length (leaves z (prnt z ! s)) = ?L ! x" using leaf(2) [OF s] by simp
    also have "\<dots> \<longleftrightarrow> length (leaves z (prnt z ! s)) = x"
      using nth_eq_iff_index_eq [OF L(1)] leaf(1) [OF s] x L(4) by simp
    finally show ?thesis .
  qed
  have 5: "freq y ! length (leaves z (prnt z ! (d + lz_T))) = halve (weight z d)" if "d < lz_NumChar" for d
    using that fr leaf [of "d + lz_T"] by (simp add: linked_def weight_def)
  have "sum_list (take lz_NumChar (freq y)) = (\<Sum>x \<in> set ?L. halve (freq z ! x))"
    using L(1,4) by (simp add: y sum_list_distinct_conv_sum_set)
  also have "\<dots> = (\<Sum>d < lz_NumChar. halve (weight z d))"
    using L(2,3) by (simp add: sum.reindex weight_def)
  finally have 6: "sum_list (take lz_NumChar (freq y)) = (\<Sum>d < lz_NumChar. halve (weight z d))" .
  have "length (freq y) = lz_T + 1" "length (son y) = lz_T"
    using L(4) len by (auto simp: y lz_consts)
  then show ?thesis
    unfolding forest_def using 1 2 3 4 5 6 leaf by (intro conjI) (auto simp: lz_consts)
qed

lemma reconst_ok:
  assumes inv: "tree_inv z"
  shows "\<exists>z'. reconst z = Some z' \<and> tree_inv z' \<and> freq z' ! lz_R < lz_MaxFreq \<and>
    (\<forall>d < lz_NumChar. weight z' d = halve (weight z d))"
proof -
  have z: "tree_shape z" using inv by (simp add: tree_inv_def)
  note len = tree_shape_lengths [OF z] and L = leaves_characters [OF z]
  obtain y where y: "foldM reconst_collect [0..<lz_T] (0, z) = Some (lz_NumChar, y)" "prnt y = prnt z"
      "freq y = map (\<lambda>x. halve (freq z ! x)) (leaves z lz_T) @ drop lz_NumChar (freq z)"
      "son y = map (\<lambda>x. son z ! x) (leaves z lz_T) @ drop lz_NumChar (son z)"
    using reconst_collect_ok [OF len(1,3)] L(4) by auto
  let ?w = "\<lambda>d. halve (weight z d)"
  obtain y' par where y': "foldM reconst_connect [lz_NumChar..<lz_T] (0, y) = Some (lz_R, y')"
      "forest par ?w lz_R lz_T y'" "prnt y' = prnt z" "freq y' ! lz_T = freq y ! lz_T"
    using reconst_connect_ok [OF collected_forest [OF inv y(3,4)]] y(2) by auto
  obtain z' where z': "foldM reconst_parents [0..<lz_T] y' = Some z'" "freq z' = freq y'" "son z' = son y'"
      "length (prnt z') = lz_T + lz_NumChar" "prnt z' ! lz_R = prnt z ! lz_R" "\<And>s. slot s \<Longrightarrow> prnt z' ! s = par s"
    using reconst_parents_ok [OF y'(2)] y'(3) len by auto
  have T: "freq z' ! lz_T = 0xffff"
    using inv y'(4) z'(2) L(4) len y(3) by (simp add: nth_append tree_inv_def freq_order_def lz_consts)
  have "2 * (\<Sum>d < lz_NumChar. ?w d) \<le> (\<Sum>d < lz_NumChar. weight z d + 1)"
    unfolding sum_distrib_left by (intro sum_mono) (simp add: halve_def)
  also have "\<dots> = freq z ! lz_R + lz_NumChar" 
    using inv sum.distrib [of "weight z" "\<lambda>_. 1" "{..<lz_NumChar}"] by (simp add: tree_inv_def)
  also have "\<dots> \<le> lz_MaxFreq + lz_NumChar" using inv by (simp add: tree_inv_def)
  finally have sum: "(\<Sum>d < lz_NumChar. ?w d) < lz_MaxFreq" by (simp add: lz_consts)
  have "forest par ?w lz_R lz_T z'" using y'(2) z'(2,3) by (simp add: forest_def child_def)
  from forest_tree_inv [OF this T z'(4) _ z'(6)] sum z'(5) z
  have "tree_inv z'" "\<forall>d < lz_NumChar. weight z' d = ?w d" by (auto simp: tree_shape_def)
  moreover have "reconst z = Some z'" using y(1) y'(1) z'(1) by (simp add: reconst_def)
  ultimately show ?thesis using sum by (auto simp: tree_inv_def)
qed

subsection \<open>The initial tree\<close>

lemma init_leaf_ok:
  "\<exists>z. foldM init_leaf [0..<lz_NumChar] zero_lzhuf = Some z \<and>
     freq z = replicate lz_NumChar 1 @ replicate (lz_T + 1 - lz_NumChar) 0 \<and>
     son z = [lz_T..<lz_T + lz_NumChar] @ replicate (lz_T - lz_NumChar) 0 \<and>
     prnt z = replicate lz_T 0 @ [0..<lz_NumChar]"
proof -
  define I :: "nat \<Rightarrow> lzhuf \<Rightarrow> bool" where "I i z \<longleftrightarrow>
     freq z = replicate i 1 @ replicate (lz_T + 1 - i) 0 \<and>
     son z = [lz_T..<lz_T + i] @ replicate (lz_T - i) 0 \<and>
     prnt z = replicate lz_T 0 @ [0..<i] @ replicate (lz_NumChar - i) 0" for i z
  have step: "\<exists>z'. init_leaf i z = Some z' \<and> I (Suc i) z'" if i: "0 \<le> i" "i < lz_NumChar" and I: "I i z" for i z
  proof -
    have r: "replicate (n - i) (0::nat) = 0 # replicate (n - Suc i) 0" if "i < n" for n
      using that by (simp flip: replicate_Suc add: Suc_diff_Suc)
    have iT: "i < lz_T" using i by (simp add: lz_consts)
    have "(freq z)[i := 1] = replicate (Suc i) 1 @ replicate (lz_T + 1 - Suc i) 0"
      using I iT r [of "lz_T + 1"] by (simp add: I_def list_update_append replicate_app_Cons_same)
    moreover have "(son z)[i := i + lz_T] = [lz_T..<lz_T + Suc i] @ replicate (lz_T - Suc i) 0"
      using I iT r [of lz_T] by (simp add: I_def list_update_append add.commute)
    moreover have "(prnt z)[i + lz_T := i] = replicate lz_T 0 @ [0..<Suc i] @ replicate (lz_NumChar - Suc i) 0"
      using I i r [of lz_NumChar] by (simp add: I_def list_update_append)
    moreover have "length (freq z) = lz_T + 1" "length (son z) = lz_T" "length (prnt z) = lz_T + lz_NumChar"
      using I i iT by (auto simp: I_def)
    ultimately show ?thesis using i iT by (simp add: init_leaf_def array_simps I_def)
  qed
  have "I 0 zero_lzhuf" by (simp add: I_def zero_lzhuf_def replicate_add)
  then obtain z where "foldM init_leaf [0..<lz_NumChar] zero_lzhuf = Some z" "I lz_NumChar z"
    using foldM_invariant [where I = I and f = init_leaf and a = 0 and b = lz_NumChar and s = zero_lzhuf, OF step] by auto
  then show ?thesis by (auto simp: I_def)
qed

text \<open>The second loop is a construction step in which the new node stays last.\<close>

definition init_forest :: "nat \<Rightarrow> nat \<times> lzhuf \<Rightarrow> bool" where
  "init_forest j = (\<lambda>(i, z). forest (\<lambda>s. prnt z ! s) (\<lambda>_. 1) i j z \<and> length (prnt z) = lz_T + lz_NumChar \<and>
     (if i = 0 then freq z ! (j - 1) = 1 else freq z ! (j - 1) = freq z ! (i - 2) + freq z ! (i - 1)))"

lemma init_node_ok:
  assumes j: "lz_NumChar \<le> j" "j < lz_T" and I: "init_forest j s"
  shows "\<exists>s'. init_node j s = Some s' \<and> init_forest (Suc j) s'"
proof -
  obtain i z where s: "s = (i, z)" by (cases s)
  have f: "forest (\<lambda>s. prnt z ! s) (\<lambda>_. 1) i j z" and plen: "length (prnt z) = lz_T + lz_NumChar"
    and lst: "if i = 0 then freq z ! (j - 1) = 1 else freq z ! (j - 1) = freq z ! (i - 2) + freq z ! (i - 1)"
    using I by (auto simp: init_forest_def s)
  note F = f [unfolded forest_def]
  have len: "length (freq z) = lz_T + 1" "length (son z) = lz_T" and i: "i = 2 * (j - lz_NumChar)" using F by auto
  then have i2: "i + 2 \<le> j" using j by (simp add: lz_consts)
  let ?first = "freq z ! i + freq z ! (i + 1)"
  define z' where "z' = z\<lparr>freq := (freq z)[j := ?first], son := (son z)[j := i], prnt := (prnt z)[i := j, i + 1 := j]\<rparr>"
  have ins: "(freq z)[j := ?first] = ins_at j j ?first (freq z)" "(son z)[j := i] = ins_at j j i (son z)"
    using j len by (auto simp: ins_at_def upd_conv_take_nth_drop)
  have mono: "freq z ! x \<le> freq z ! (x + 1)" if "x + 1 < j" for x using F that by blast
  have "freq z ! (j - 1) \<le> ?first"
  proof (cases "i = 0")
    case True
    have "0 < freq z ! i" using F i2 by simp
    then show ?thesis using True lst by simp
  next
    case False
    then obtain m where m: "i = m + 2" using i that [of "2 * (j - lz_NumChar - 1)"] by auto
    then have "freq z ! (i - 2) \<le> freq z ! i" "freq z ! (i - 1) \<le> freq z ! (i + 1)"
      using mono [of m] mono [of "m + 1"] mono [of "m + 2"] i2 by (auto simp: numeral_2_eq_2)
    then show ?thesis using False lst by simp
  qed
  then have "forest (\<lambda>s. if s = i \<or> s = i + 1 then j else shift j (prnt z ! s)) (\<lambda>_. 1) (i + 2) (j + 1) z'"
    using j i2 ins by (intro forest_step [OF f, where first = ?first]) (auto simp: z'_def)
  moreover have "(if s = i \<or> s = i + 1 then j else shift j (prnt z ! s)) = prnt z' ! s" if "linked (i + 2) s" for s
  proof -
    have "s < length (prnt z)" using that plen i2 j by (auto simp: linked_def)
    moreover have "prnt z ! s < j" if "s \<noteq> i" "s \<noteq> i + 1"
    proof -
      have "linked i s" using that \<open>linked (i + 2) s\<close> by (auto simp: linked_def)
      then show ?thesis using F by blast
    qed
    ultimately show ?thesis by (auto simp: z'_def nth_list_update shift_def)
  qed
  ultimately have "forest (\<lambda>s. prnt z' ! s) (\<lambda>_. 1) (i + 2) (j + 1) z'"
    by (auto simp: forest_def linked_def)
  moreover have "init_node j s = Some (i + 2, z')"
    using i2 j len plen by (simp add: init_node_def s array_simps z'_def)
  moreover have "freq z' ! j = freq z' ! i + freq z' ! (i + 1)" using i2 j len by (simp add: z'_def)
  ultimately show ?thesis using plen by (auto simp: init_forest_def z'_def)
qed

lemma newLZHUFF_ok: "\<exists>z. newLZHUFF = Some z \<and> tree_inv z \<and> (\<forall>d < lz_NumChar. weight z d = 1)"
proof -
  obtain y where y: "foldM init_leaf [0..<lz_NumChar] zero_lzhuf = Some y"
      "freq y = replicate lz_NumChar 1 @ replicate (lz_T + 1 - lz_NumChar) 0"
      "son y = [lz_T..<lz_T + lz_NumChar] @ replicate (lz_T - lz_NumChar) 0"
      "prnt y = replicate lz_T 0 @ [0..<lz_NumChar]"
    using init_leaf_ok by auto
  have leaf: "freq y ! x = 1" "son y ! x = lz_T + x" "prnt y ! (x + lz_T) = x" if "x < lz_NumChar" for x
    using that by (simp_all add: y nth_append)
  have "forest (\<lambda>s. prnt y ! s) (\<lambda>_. 1) 0 lz_NumChar y"
  proof -
    have "prnt y ! s < lz_NumChar \<and> (\<forall>x < lz_NumChar. child y x s \<longleftrightarrow> prnt y ! s = x)" if "linked 0 s" for s
    proof -
      have "s - lz_T < lz_NumChar" "s = (s - lz_T) + lz_T" using that by (auto simp: linked_def lz_consts)
      then show ?thesis using leaf [of "s - lz_T"] leaf(2) by (auto simp: child_def)
    qed
    moreover have "sum_list (take lz_NumChar (freq y)) = lz_NumChar" by (simp add: y sum_list_replicate)
    ultimately show ?thesis
      unfolding forest_def using leaf by (intro conjI) (auto simp: y lz_consts)
  qed
  then have I: "init_forest lz_NumChar (0, y)" using leaf [of "lz_NumChar - 1"] by (simp add: init_forest_def y lz_consts)
  moreover have "lz_NumChar \<le> lz_T" by (simp add: lz_consts)
  ultimately obtain s where s: "foldM init_node [lz_NumChar..<lz_T] (0, y) = Some s" "init_forest lz_T s"
    using foldM_invariant [where I = init_forest and f = init_node, OF init_node_ok] by blast
  obtain i x where x: "s = (i, x)" "forest (\<lambda>s. prnt x ! s) (\<lambda>_. 1) lz_R lz_T x" "length (prnt x) = lz_T + lz_NumChar"
    using s(2) by (cases s) (auto simp: init_forest_def forest_def lz_consts)
  define z where "z = x\<lparr>freq := (freq x)[lz_T := 0xffff], prnt := (prnt x)[lz_R := 0]\<rparr>"
  have len: "length (freq x) = lz_T + 1" using x(2) by (simp add: forest_def)
  have Tz: "take n (freq z) = take n (freq x)" "m < lz_T \<Longrightarrow> freq z ! m = freq x ! m" if "n \<le> lz_T" for n m
    using that by (auto simp: z_def)
  have f: "forest (\<lambda>s. prnt x ! s) (\<lambda>_. 1) lz_R lz_T z"
  proof -
    have "prnt x ! (d + lz_T) < lz_T" if "d < lz_NumChar" for d
      using forest_par(1) [OF x(2)] that by (simp add: slot_def)
    then have "freq z ! (prnt x ! (d + lz_T)) = 1" if "d < lz_NumChar" for d
      using that Tz(2) [of 0] x(2) by (simp add: forest_def)
    then show ?thesis
      using x(2) Tz [of lz_R] Tz [of lz_T] by (auto simp: forest_def child_def z_def lz_consts)
  qed
  have "tree_inv z \<and> (\<forall>d < lz_NumChar. weight z d = 1)"
    using x(3) len by (intro forest_tree_inv [OF f]) (auto simp: z_def slot_def lz_consts)
  moreover have "newLZHUFF = Some z"
  proof -
    have "lz_R + 1 = lz_T" "lz_R < length (prnt x)" using x(3) by (auto simp: lz_consts)
    then show ?thesis using y(1) s(1) x(1) len by (simp add: newLZHUFF_def z_def array_simps)
  qed
  ultimately show ?thesis by blast
qed

subsection \<open>The update against its specification\<close>

text \<open>Abstractly the tree is the table of weights: an update first halves the table when the total
  has reached the limit, then counts the character.\<close>

definition count_char :: "nat \<Rightarrow> (nat \<Rightarrow> nat) \<Rightarrow> nat \<Rightarrow> nat" where
  "count_char c w =
     (let w = (if (\<Sum>d < lz_NumChar. w d) = lz_MaxFreq then \<lambda>d. halve (w d) else w)
      in w(c := w c + 1))"

lemma update_ok:
  assumes inv: "tree_inv z" and c: "c < lz_NumChar"
  shows "\<exists>z'. update c z = Some z' \<and> tree_inv z' \<and>
    (\<forall>d < lz_NumChar. weight z' d = count_char c (weight z) d)"
proof -
  let ?max = "freq z ! lz_R = lz_MaxFreq"
  let ?w = "if ?max then \<lambda>d. halve (weight z d) else weight z"
  obtain y where y: "(if ?max then reconst z else Some z) = Some y" "tree_inv y" "freq y ! lz_R < lz_MaxFreq"
      "\<forall>d < lz_NumChar. weight y d = ?w d"
  proof (cases ?max)
    case True
    obtain y where "reconst z = Some y" "tree_inv y" "freq y ! lz_R < lz_MaxFreq"
        "\<forall>d < lz_NumChar. weight y d = halve (weight z d)"
      using reconst_ok [OF inv] by blast
    then show ?thesis by (intro that [of y]) (use True in simp_all)
  next
    case False
    then show ?thesis by (intro that [of z]) (use inv in \<open>simp_all add: tree_inv_def\<close>)
  qed
  have sy: "tree_shape y" using y(2) by (simp add: tree_inv_def)
  let ?n = "prnt y ! (c + lz_T)"
  note leaf = prnt_leaf [OF sy c]
  have "pending_inv ?n y"
  proof -
    have "son y ! ?n \<ge> lz_T" using leaf by simp
    then have "pending_sums ?n y" using y(2) by (auto simp: pending_sums_def tree_inv_def freq_sums_def)
    then show ?thesis using y(2,3) leaf(1) by (simp add: pending_inv_def tree_inv_def lz_consts)
  qed
  then obtain z' where z': "update_loop ?n y = Some z'" "tree_shape z'" "freq_order z'" "freq_sums z'"
      "freq z' ! lz_R = freq y ! lz_R + 1"
      "\<forall>d < lz_NumChar. weight z' d = weight y d + of_bool (prnt y ! (d + lz_T) = ?n)"
    using update_loop_ok by blast
  have w: "weight z' d = weight y d + of_bool (d = c)" if "d < lz_NumChar" for d
    using z'(6) that leaves_characters(3) [OF sy] c by (auto simp: inj_on_def)
  have "(\<Sum>d < lz_NumChar. weight z' d) = (\<Sum>d < lz_NumChar. weight y d + of_bool (d = c))"
    using w by (intro sum.cong) auto
  also have "\<dots> = freq y ! lz_R + 1"
    using y(2) c by (simp add: sum.distrib tree_inv_def)
  finally have "tree_inv z'" using z' y(3) by (simp add: tree_inv_def)
  moreover have "update c z = Some z'"
  proof -
    have "lz_R < length (freq z)" using inv tree_shape_lengths(1) [of z] by (simp add: tree_inv_def lz_consts)
    moreover have "c + lz_T < length (prnt y)" using c tree_shape_lengths(2) [OF sy] by simp
    ultimately show ?thesis using y(1) z'(1) by (simp add: update_def array_simps)
  qed
  moreover have "weight z' d = count_char c (weight z) d" if "d < lz_NumChar" for d
    using w [OF that] y(4) that inv by (auto simp: count_char_def tree_inv_def Let_def)
  ultimately show ?thesis by blast
qed

section \<open>Codes\<close>

text \<open>The code of a node: the turns from the root, \<open>True\<close> for the odd (bigger) one of two brothers.\<close>

function node_path :: "lzhuf \<Rightarrow> nat \<Rightarrow> bool list" where
  "node_path z k =
     (if k < lz_R \<and> k < prnt z ! k then node_path z (prnt z ! k) @ [odd k] else [])"
  by pat_completeness auto
termination
  by (relation "measure (\<lambda>(z, k). lz_R - k)") auto

declare node_path.simps [simp del]

definition char_code :: "lzhuf \<Rightarrow> nat \<Rightarrow> bool list" where
  "char_code z c = node_path z (prnt z ! (c + lz_T))"

lemma node_path_root [simp]: "node_path z lz_R = []"
  by (simp add: node_path.simps)

lemma node_path_step: "tree_shape z \<Longrightarrow> k < lz_R \<Longrightarrow> node_path z k = node_path z (prnt z ! k) @ [odd k]"
  using prnt_greater(1) by (subst node_path.simps) simp

lemma node_induct [consumes 2, case_names root step]:
  assumes "tree_shape z" and "k < lz_T" and root: "P lz_R"
    and step: "\<And>k. k < lz_R \<Longrightarrow> P (prnt z ! k) \<Longrightarrow> P k"
  shows "P k"
  using assms(2)
proof (induction "lz_T - k" arbitrary: k rule: less_induct)
  case less
  show ?case
  proof (cases "k = lz_R")
    case False
    then have k: "k < lz_R" using less.prems by (simp add: lz_consts)
    have "P (prnt z ! k)"
      using prnt_greater(1,2) [OF assms(1) k] less by (intro less.hyps) auto
    then show ?thesis using step k by blast
  qed (simp add: root)
qed

subsection \<open>The length of a code\<close>

text \<open>The least weight a node with a path of length \<open>n\<close> below it can have: Fibonacci numbers.\<close>

fun least_weight :: "nat \<Rightarrow> nat" where
  "least_weight 0 = 1"
| "least_weight (Suc 0) = 2"
| "least_weight (Suc (Suc n)) = least_weight (Suc n) + least_weight n"

lemma least_weight_Suc: "least_weight n \<le> least_weight (Suc n)"
  by (induction n rule: least_weight.induct) auto

lemma least_weight_mono: "m \<le> n \<Longrightarrow> least_weight m \<le> least_weight n"
  by (rule lift_Suc_mono_le [of least_weight, OF least_weight_Suc])

fun least_weight_iter :: "nat \<Rightarrow> nat \<Rightarrow> nat \<Rightarrow> nat" where
  "least_weight_iter 0 a b = a"
| "least_weight_iter (Suc n) a b = least_weight_iter n b (a + b)"

lemma least_weight_iter_numeral:
  "least_weight_iter (numeral n) a b = least_weight_iter (pred_numeral n) b (a + b)"
  by (simp add: numeral_eq_Suc)

lemma least_weight_iter: "least_weight_iter n (least_weight m) (least_weight (Suc m)) = least_weight (m + n)"
  by (induction n arbitrary: m) (metis add.commute least_weight.simps(3) least_weight_iter.simps add_Suc_shift add_0_right)+

lemma least_weight_values: "least_weight 17 = 4181" "least_weight 22 = 46368"
  using least_weight_iter [of 17 0] least_weight_iter [of 22 0] by (simp_all add: least_weight_iter_numeral)

text \<open>The weight of a parent is at least that of two successive nodes of a path below it.\<close>

lemma freq_grandparent:
  assumes inv: "tree_inv z" and x: "x < lz_R" and p: "prnt z ! x < lz_R"
  shows "freq z ! x + freq z ! (prnt z ! x) \<le> freq z ! (prnt z ! (prnt z ! x))"
proof -
  let ?p = "prnt z ! x" let ?q = "prnt z ! ?p" let ?s = "son z ! ?q"
  have z: "tree_shape z" and order: "freq_order z" and sums: "freq_sums z" using inv by (auto simp: tree_inv_def)
  note gx = prnt_greater [OF z x] and gp = prnt_greater [OF z p]
  have sum: "freq z ! ?q = freq z ! ?s + freq z ! (?s + 1)"
    using sums gp(2,3) by (simp add: freq_sums_def)
  have sq: "?s + 1 < ?q" by (cases rule: son_cases [OF z gp(2)]) (use gp(3) in auto)
  show ?thesis
  proof (cases "odd ?p")
    case True
    then have "freq z ! x \<le> freq z ! ?s"
      using gp(4) gx(1) sq gp(2) by (intro freq_mono [OF order]) (auto simp: lz_consts)
    then show ?thesis using sum gp(4) True by simp
  next
    case False
    then have "freq z ! x \<le> freq z ! (?s + 1)"
      using gp(4) gx(1) sq gp(2) by (intro freq_mono [OF order]) (auto simp: lz_consts)
    then show ?thesis using sum gp(4) False by simp
  qed
qed

lemma freq_below_parent:
  assumes inv: "tree_inv z" and x: "x < lz_R"
  shows "freq z ! x < freq z ! (prnt z ! x)"
proof -
  have "pending_sums lz_T z" using inv by (auto simp: tree_inv_def freq_sums_def pending_sums_def)
  then show ?thesis
    using inv x prnt_greater(2) [of z x] by (intro freq_parent) (auto simp: tree_inv_def)
qed

fun ancestor :: "lzhuf \<Rightarrow> nat \<Rightarrow> nat \<Rightarrow> nat" where
  "ancestor z 0 k = k"
| "ancestor z (Suc h) k = prnt z ! ancestor z h k"

lemma node_path_inner:
  assumes "k < lz_T" and "node_path z k \<noteq> []"
  shows "k < lz_R"
proof -
  have "k \<noteq> lz_R" using assms(2) by auto
  then show ?thesis using assms(1) by (simp add: lz_consts)
qed

lemma ancestor_path:
  assumes "tree_shape z" and "k < lz_T" and "h \<le> length (node_path z k)"
  shows "ancestor z h k < lz_T \<and> length (node_path z (ancestor z h k)) = length (node_path z k) - h"
  using assms(3)
proof (induction h)
  case 0
  then show ?case using assms(2) by simp
next
  case (Suc h)
  then have IH: "ancestor z h k < lz_T" "length (node_path z (ancestor z h k)) = length (node_path z k) - h" by auto
  then have "ancestor z h k < lz_R" using Suc.prems by (intro node_path_inner [of _ z]) auto
  then show ?case
    using IH(2) node_path_step [OF assms(1)] prnt_greater(2) [OF assms(1)] by simp
qed

lemma ancestor_weight:
  assumes inv: "tree_inv z" and k: "k < lz_T"
  shows "h \<le> length (node_path z k) \<Longrightarrow> least_weight h \<le> freq z ! ancestor z h k"
proof (induction h rule: least_weight.induct)
  case 1
  then show ?case using inv k freq_pos [of z k] by (simp add: tree_inv_def Suc_le_eq)
next
  case 2
  then have "k < lz_R" using k by (intro node_path_inner [of _ z]) auto
  then show ?case
    using freq_below_parent [OF inv] inv k freq_pos [of z k] by (fastforce simp: tree_inv_def)
next
  case (3 n)
  have z: "tree_shape z" using inv by (simp add: tree_inv_def)
  have "ancestor z n k < lz_R"
    using ancestor_path [OF z k, of n] 3 by (intro node_path_inner [of _ z]) auto
  moreover have "ancestor z (Suc n) k < lz_R"
    using ancestor_path [OF z k, of "Suc n"] 3 by (intro node_path_inner [of _ z]) auto
  ultimately have "freq z ! ancestor z n k + freq z ! ancestor z (Suc n) k \<le> freq z ! ancestor z (Suc (Suc n)) k"
    using freq_grandparent [OF inv] by simp
  moreover have "least_weight (Suc n) \<le> freq z ! ancestor z (Suc n) k" "least_weight n \<le> freq z ! ancestor z n k"
    using 3 by simp_all
  ultimately show ?case by simp
qed

lemma code_length_weight:
  assumes inv: "tree_inv z" and c: "c < lz_NumChar"
  shows "least_weight (length (char_code z c)) \<le> (\<Sum>d < lz_NumChar. weight z d)"
proof -
  let ?k = "prnt z ! (c + lz_T)" let ?n = "length (node_path z ?k)"
  have z: "tree_shape z" using inv by (simp add: tree_inv_def)
  have k: "?k < lz_T" using prnt_leaf(1) [OF z c] by (simp add: lz_consts)
  have "ancestor z ?n ?k < lz_T" "node_path z (ancestor z ?n ?k) = []"
    using ancestor_path [OF z k, of ?n] by auto
  then have "ancestor z ?n ?k = lz_R"
    using node_path_step [OF z, of "ancestor z ?n ?k"] by (cases "ancestor z ?n ?k < lz_R") (auto simp: lz_consts)
  then show ?thesis using ancestor_weight [OF inv k, of ?n] inv by (simp add: char_code_def tree_inv_def)
qed

text \<open>So no code is longer than 21 bits, and none longer than 16 while the total is below 4181.\<close>

lemma code_length_short:
  assumes "tree_inv z" and "c < lz_NumChar" and "(\<Sum>d < lz_NumChar. weight z d) < 4181"
  shows "length (char_code z c) \<le> 16"
proof (rule ccontr)
  assume "\<not> length (char_code z c) \<le> 16"
  then have "least_weight 17 \<le> least_weight (length (char_code z c))" by (intro least_weight_mono) simp
  also have "\<dots> < 4181" using code_length_weight [OF assms(1,2)] assms(3) by simp
  finally show False by (simp add: least_weight_values)
qed

lemma code_length_bound:
  assumes "tree_inv z" and "c < lz_NumChar"
  shows "length (char_code z c) \<le> 21" and "0 < length (char_code z c)"
proof -
  show "length (char_code z c) \<le> 21"
  proof (rule ccontr)
    assume "\<not> length (char_code z c) \<le> 21"
    then have "least_weight 22 \<le> least_weight (length (char_code z c))" by (intro least_weight_mono) simp
    also have "\<dots> \<le> 0x8000" using code_length_weight [OF assms] assms(1) by (simp add: tree_inv_def lz_consts)
    finally show False by (simp add: least_weight_values)
  qed
  show "0 < length (char_code z c)"
    using prnt_leaf(1) [of z c] assms node_path_step [of z "prnt z ! (c + lz_T)"]
    by (simp add: char_code_def tree_inv_def)
qed

section \<open>Properties\<close>

lemma count_char_cong:
  assumes "\<And>d. d < lz_NumChar \<Longrightarrow> v d = w d" and "d < lz_NumChar" and "c < lz_NumChar"
  shows "count_char c v d = count_char c w d"
proof -
  have "(\<Sum>d < lz_NumChar. v d) = (\<Sum>d < lz_NumChar. w d)" using assms(1) by (intro sum.cong) auto
  then show ?thesis using assms by (simp add: count_char_def)
qed

lemma total_bump:
  assumes "c < lz_NumChar"
  shows "(\<Sum>d < lz_NumChar. (w(c := w c + 1)) d) = (\<Sum>d < lz_NumChar. w d) + (1 :: nat)"
proof -
  have "(\<Sum>d < lz_NumChar. (w(c := w c + 1)) d) = (\<Sum>d < lz_NumChar. w d + of_bool (d = c))"
    by (intro sum.cong) auto
  then show ?thesis using assms by (simp add: sum.distrib)
qed

lemma count_char_below: "(\<Sum>d < lz_NumChar. w d) < lz_MaxFreq \<Longrightarrow> count_char c w = w(c := w c + 1)"
  by (simp add: count_char_def)

lemma fold_update_ok:
  assumes "tree_inv z" and "\<forall>c \<in> set cs. c < lz_NumChar" and "\<And>d. d < lz_NumChar \<Longrightarrow> weight z d = w d"
  shows "\<exists>z'. foldM update cs z = Some z' \<and> tree_inv z' \<and> (\<forall>d < lz_NumChar. weight z' d = fold count_char cs w d)"
  using assms
proof (induction cs arbitrary: z w)
  case (Cons c cs)
  obtain z1 where z1: "update c z = Some z1" "tree_inv z1" "\<forall>d < lz_NumChar. weight z1 d = count_char c (weight z) d"
    using update_ok [of z c] Cons.prems by auto
  then have "weight z1 d = count_char c w d" if "d < lz_NumChar" for d
    using count_char_cong [of "weight z" w d c] Cons.prems that by auto
  then show ?case using Cons.IH [of z1 "count_char c w"] z1 Cons.prems by auto
qed simp

text \<open>C16. From the tree of \<open>newLZHUFF\<close>, any sequence of updates returns without an array access out
  of range, keeps the tree invariant, and counts each character exactly as the table of weights that
  is halved whenever its total reaches the limit.\<close>

theorem update_sequence:
  assumes "\<forall>c \<in> set cs. c < lz_NumChar"
  shows "\<exists>z0 z. newLZHUFF = Some z0 \<and> foldM update cs z0 = Some z \<and> tree_inv z \<and>
    (\<forall>d < lz_NumChar. weight z d = fold count_char cs (\<lambda>_. 1) d)"
proof -
  obtain z0 where "newLZHUFF = Some z0" "tree_inv z0" "\<forall>d < lz_NumChar. weight z0 d = 1"
    using newLZHUFF_ok by blast
  then show ?thesis using fold_update_ok [of z0 cs "\<lambda>_. 1"] assms by auto
qed

theorem update_sequence_witness:
  "\<exists>z0 z. newLZHUFF = Some z0 \<and> foldM update [65, 300, 65] z0 = Some z \<and> tree_inv z \<and>
    weight z 65 = 3 \<and> weight z 300 = 2 \<and> weight z 66 = 1"
proof -
  let ?w = "(\<lambda>_. 1) :: nat \<Rightarrow> nat"
  have 0: "(\<Sum>d < lz_NumChar. ?w d) = 314" by (simp add: lz_consts)
  have 1: "count_char 65 ?w = ?w(65 := 2)" "(\<Sum>d < lz_NumChar. (?w(65 := 2)) d) = 315"
    using count_char_below [of ?w 65] total_bump [of 65 ?w] 0 by (simp_all add: lz_consts numeral_2_eq_2)
  have 2: "count_char 300 (?w(65 := 2)) = ?w(65 := 2, 300 := 2)" "(\<Sum>d < lz_NumChar. (?w(65 := 2, 300 := 2)) d) = 316"
    using count_char_below [of "?w(65 := 2)" 300] total_bump [of 300 "?w(65 := 2)"] 1 by (simp_all add: lz_consts numeral_2_eq_2)
  have 3: "count_char 65 (?w(65 := 2, 300 := 2)) = ?w(65 := 3, 300 := 2)"
    using count_char_below [of "?w(65 := 2, 300 := 2)" 65] 2 by (simp add: lz_consts fun_upd_twist numeral_2_eq_2 numeral_3_eq_3)
  have "fold count_char [65, 300, 65] ?w = ?w(65 := 3, 300 := 2)" using 1 2 3 by simp
  then show ?thesis
    using update_sequence [of "[65, 300, 65]"] by (fastforce simp: lz_consts)
qed

text \<open>A character's code is never empty and never longer than 21 bits, and fits the writer's window of
  16 bits as long as the total of the weights is below 4181, the least weight of a tree of height 17.\<close>

theorem code_length:
  assumes "tree_inv z" and "c < lz_NumChar"
  shows "0 < length (char_code z c) \<and> length (char_code z c) \<le> 21 \<and>
    ((\<Sum>d < lz_NumChar. weight z d) < 4181 \<longrightarrow> length (char_code z c) \<le> 16)"
  using code_length_bound [OF assms] code_length_short [OF assms] by simp

theorem code_length_witness:
  "\<exists>z. newLZHUFF = Some z \<and> tree_inv z \<and> (65 :: nat) < lz_NumChar \<and> 0 < length (char_code z 65) \<and> length (char_code z 65) \<le> 16"
proof -
  obtain z where z: "newLZHUFF = Some z" "tree_inv z" "\<forall>d < lz_NumChar. weight z d = 1" using newLZHUFF_ok by blast
  have "(\<Sum>d < lz_NumChar. weight z d) = (\<Sum>d < lz_NumChar. 1)" using z(3) by (intro sum.cong) auto
  then show ?thesis using code_length [of z 65] z by (auto simp: lz_consts)
qed
end
