(* ===== verification/Lzhuf_Char.thy ===== *)
theory Lzhuf_Char
  imports Lzhuf_Tree
begin

unbundle bit_operations_syntax

text \<open>
  Coding of one character: \<open>encodeChar\<close> (\<^verbatim>\<open>src/lzhuf/writer.go\<close>) and \<open>decodeChar\<close>
  (\<^verbatim>\<open>src/lzhuf/reader.go\<close>), the records of the writer and the reader, and the contract both sides
  of a code share: what the writer appends to the list of bits is what the reader takes from it.
\<close>

section \<open>The writer and the reader\<close>

text \<open>The writer extends its bit buffer; \<open>w_out\<close> is what has reached the underlying writer.
  The checksum writer of the reader is in its byte source.\<close>

record Writer = bitWriter +
  w_out :: "byte list"
  w_z :: lzhuf
  w_crc16 :: bool
  w_len :: nat
  w_r :: nat
  w_s :: nat
  w_lastMatchLength :: int
  w_preFilled :: bool
  w_fileSize :: "32 word"

record Reader =
  d_r :: bitReader
  d_z :: lzhuf
  d_err :: "io_err option"
  d_crc16 :: bool
  d_header_crc :: crc16
  d_header_size :: "32 word"
  d_state_pos :: "32 word"
  d_state_r :: nat
  d_state_buf :: "byte list"

section \<open>Coding a character\<close>

text \<open>From the leaf to the root, collecting the code in a window of 16 bits from above.\<close>

partial_function (option) encodeChar_loop :: "lzhuf \<Rightarrow> uint \<Rightarrow> nat \<Rightarrow> nat \<Rightarrow> (nat \<times> uint) option" where
  [code]: "encodeChar_loop z i j k = do {
     let i = drop_bit 1 i;
     let j = j + 1;
     let i = (if k AND 1 \<noteq> 0 then i + 0x8000 else i);
     k \<leftarrow> idx (prnt z) k;
     if k = lz_R then Some (j, i) else encodeChar_loop z i j k
   }"

definition encodeChar :: "nat \<Rightarrow> Writer \<Rightarrow> Writer option" where
  "encodeChar c w = do {
     k \<leftarrow> idx (prnt (w_z w)) (c + lz_T);
     (j, i) \<leftarrow> encodeChar_loop (w_z w) 0 0 k;
     let w = putCode j i w;
     z \<leftarrow> update c (w_z w);
     Some (w\<lparr>w_z := z\<rparr>)
   }"

text \<open>From the root to a leaf, one bit at a node.\<close>

partial_function (option) decodeChar_loop :: "lzhuf \<Rightarrow> nat \<Rightarrow> bitReader \<Rightarrow> (nat \<times> bitReader) option" where
  [code]: "decodeChar_loop z c br =
     (if c < lz_T then
        case getBit br of (b, br) \<Rightarrow> do {
          c \<leftarrow> idx (son z) (c + b);
          decodeChar_loop z c br
        }
      else Some (c, br))"

definition decodeChar :: "Reader \<Rightarrow> (nat \<times> Reader) option" where
  "decodeChar d = do {
     c \<leftarrow> idx (son (d_z d)) lz_R;
     (c, br) \<leftarrow> decodeChar_loop (d_z d) c (d_r d);
     let c = c - lz_T;
     z \<leftarrow> update c (d_z d);
     Some (c, d\<lparr>d_r := br, d_z := z\<rparr>)
   }"

section \<open>The writer's window\<close>

lemma code_window_step:
  assumes "is_code j i" and "j < 16"
  shows "is_code (Suc j) (drop_bit 1 i + (if b then 0x8000 else 0))"
    and "code_bits (Suc j) (drop_bit 1 i + (if b then 0x8000 else 0)) = b # code_bits j i"
proof -
  let ?t = "if b then 0x8000 else (0 :: uint)"
  have t: "bit ?t n \<longleftrightarrow> b \<and> n = 15" for n
  proof -
    have "(0x8000 :: uint) = push_bit 15 1" by simp
    then have "bit (0x8000 :: uint) n \<longleftrightarrow> n = 15" by (auto simp only: bit_push_bit_iff bit_1_iff) auto
    then show ?thesis by simp
  qed
  have i: "16 - j \<le> n \<and> n < 16" if "bit i n" for n using assms(1) that by (simp add: is_code_def)
  have "drop_bit 1 i AND ?t = 0"
    by (rule bit_eqI) (use t i [of 16] in \<open>auto simp: bit_and_iff bit_drop_bit_eq\<close>)
  then have eq: "drop_bit 1 i + ?t = drop_bit 1 i OR ?t" by (rule disjunctive_add_eq_or)
  have bits: "bit (drop_bit 1 i + ?t) n \<longleftrightarrow> bit i (Suc n) \<or> (b \<and> n = 15)" for n
    by (simp only: eq bit_or_iff bit_drop_bit_eq t comp_apply plus_1_eq_Suc)
  define x where "x = drop_bit 1 i + ?t"
  have x: "bit x n \<longleftrightarrow> bit i (Suc n) \<or> (b \<and> n = 15)" for n using bits by (simp only: x_def)
  have "16 - Suc j \<le> n \<and> n < 16" if "bit x n" for n
    using that x [of n] i [of "Suc n"] assms(2) by auto
  then show "is_code (Suc j) (drop_bit 1 i + ?t)"
    using assms(2) by (simp only: is_code_def flip: x_def) simp
  have "code_bits (Suc j) x = b # code_bits j i"
  proof (rule nth_equalityI)
    fix n assume "n < length (code_bits (Suc j) x)"
    then have n: "n < Suc j" by simp
    show "code_bits (Suc j) x ! n = (b # code_bits j i) ! n"
    proof (cases n)
      case 0
      then show ?thesis using x [of 15] i [of 16] by auto
    next
      case (Suc m)
      then have "Suc (15 - n) = 15 - m" "15 - n \<noteq> 15" using n assms(2) by auto
      then show ?thesis using x [of "15 - n"] n Suc by simp
    qed
  qed simp
  then show "code_bits (Suc j) (drop_bit 1 i + ?t) = b # code_bits j i" by (simp only: x_def)
qed

lemma encodeChar_loop_ok:
  assumes z: "tree_shape z" and "k < lz_R"
  shows "\<exists>i'. encodeChar_loop z i j k = Some (j + length (node_path z k), i') \<and>
    (is_code j i \<and> j + length (node_path z k) \<le> 16 \<longrightarrow>
       is_code (j + length (node_path z k)) i' \<and>
       code_bits (j + length (node_path z k)) i' = node_path z k @ code_bits j i)"
proof -
  have "k < lz_T" using assms(2) by (simp add: lz_consts)
  from z this assms(2) show ?thesis
  proof (induction arbitrary: i j rule: node_induct)
    case (step k)
    let ?i = "drop_bit 1 i + (if odd k then 0x8000 else 0)"
    have k: "idx (prnt z) k = Some (prnt z ! k)" "prnt z ! k < lz_T"
      using step.hyps tree_shape_lengths(2) [OF z] prnt_greater(2) [OF z step.hyps]
      by (auto simp: array_simps lz_consts)
    have unfold: "encodeChar_loop z i j k =
        (if prnt z ! k = lz_R then Some (Suc j, ?i) else encodeChar_loop z ?i (Suc j) (prnt z ! k))"
      using k(1) by (subst encodeChar_loop.simps) (simp add: and_one_eq odd_iff_mod_2_eq_one Let_def)
    note path = node_path_step [OF z step.hyps]
    note window = code_window_step [of j i "odd k"]
    show ?case
    proof (cases "prnt z ! k = lz_R")
      case True
      then show ?thesis using unfold path window by auto
    next
      case False
      then have "prnt z ! k < lz_R" using k(2) by (simp add: lz_consts)
      from step.IH [OF this, of ?i "Suc j"] show ?thesis using unfold path window False by auto
    qed
  qed simp
qed

lemma update_total:
  "tree_inv z \<Longrightarrow> c < lz_NumChar \<Longrightarrow> \<exists>z'. update c z = Some z' \<and> tree_inv z'"
  using update_ok by blast

text \<open>The writer appends the code of the character and counts it.\<close>

lemma encodeChar_ok:
  assumes "wf_out w" and inv: "tree_inv (w_z w)" and c: "c < lz_NumChar" and short: "length (char_code (w_z w) c) \<le> 16"
  shows "\<exists>z' w'. update c (w_z w) = Some z' \<and> encodeChar c w = Some w' \<and> wf_out w' \<and> w_z w' = z' \<and> tree_inv z' \<and>
    out_bits w' = out_bits w @ char_code (w_z w) c"
proof -
  let ?z = "w_z w" let ?k = "prnt ?z ! (c + lz_T)"
  have z: "tree_shape ?z" using inv by (simp add: tree_inv_def)
  have k: "?k < lz_R" "idx (prnt ?z) (c + lz_T) = Some ?k"
    using prnt_leaf(1) [OF z c] tree_shape_lengths(2) [OF z] c by (auto simp: array_simps)
  obtain i where i: "encodeChar_loop ?z 0 0 ?k = Some (length (char_code ?z c), i)"
      "is_code (length (char_code ?z c)) i" "code_bits (length (char_code ?z c)) i = char_code ?z c"
    using encodeChar_loop_ok [OF z k(1), of 0 0] short by (auto simp: char_code_def is_code_def code_bits_def)
  let ?w = "putCode (length (char_code ?z c)) i w"
  have w: "wf_out ?w" "out_bits ?w = out_bits w @ char_code ?z c"
    using putCode_out [OF assms(1) i(2)] i(3) by auto
  have keep: "w_z ?w = ?z" by (simp add: putCode_def WriteByte_def Let_def)
  obtain z' where z': "update c ?z = Some z'" "tree_inv z'" using update_total [OF inv c] by blast
  have "encodeChar c w = Some (?w\<lparr>w_z := z'\<rparr>)"
    using k(2) i(1) keep z'(1) by (simp add: encodeChar_def)
  moreover have "wf_out (?w\<lparr>w_z := z'\<rparr>)" "out_bits (?w\<lparr>w_z := z'\<rparr>) = out_bits w @ char_code ?z c"
    using w by (simp_all add: wf_out_def out_bits_def)
  ultimately show ?thesis using z' by auto
qed

text \<open>The reader follows the turns of a code down to its node.\<close>

lemma decodeChar_loop_path:
  assumes z: "tree_shape z" and "k < lz_T" and "wf_in br" and "in_bits br = node_path z k @ rest"
  shows "\<exists>br'. decodeChar_loop z (son z ! lz_R) br = decodeChar_loop z (son z ! k) br' \<and> wf_in br' \<and> in_bits br' = rest"
  using z assms(2,4)
proof (induction arbitrary: rest rule: node_induct)
  case root
  then show ?case using assms(3) by auto
next
  case (step k)
  obtain br1 where br1: "decodeChar_loop z (son z ! lz_R) br = decodeChar_loop z (son z ! (prnt z ! k)) br1"
      "wf_in br1" "in_bits br1 = odd k # rest"
    using step.IH [of "odd k # rest"] step.prems node_path_step [OF z step.hyps] by auto
  obtain br2 where br2: "ReadBits 1 br1 = (of_bool (odd k), br2)" "wf_in br2" "in_bits br2 = rest"
    using ReadBits_ok [OF br1(2), of 1] br1(3) by auto
  note g = prnt_greater [OF z step.hyps]
  have "idx (son z) k = Some (son z ! k)"
    using step.hyps tree_shape_lengths(3) [OF z] by (simp add: array_simps lz_consts)
  then have "decodeChar_loop z (son z ! (prnt z ! k)) br1 = decodeChar_loop z (son z ! k) br2"
    using g(3) g(4) [symmetric] br2(1) by (subst decodeChar_loop.simps) (simp add: getBit_def)
  then show ?case using br1 br2 by auto
qed

lemma decodeChar_ok:
  assumes inv: "tree_inv (d_z d)" and c: "c < lz_NumChar" and "wf_in (d_r d)"
    and "in_bits (d_r d) = char_code (d_z d) c @ rest"
  shows "\<exists>z' d'. update c (d_z d) = Some z' \<and> decodeChar d = Some (c, d') \<and> wf_in (d_r d') \<and>
    in_bits (d_r d') = rest \<and> d_z d' = z' \<and> d' = d\<lparr>d_r := d_r d', d_z := z'\<rparr>"
proof -
  let ?z = "d_z d" let ?k = "prnt ?z ! (c + lz_T)"
  have z: "tree_shape ?z" using inv by (simp add: tree_inv_def)
  have k: "?k < lz_T" "son ?z ! ?k = c + lz_T" "idx (son ?z) lz_R = Some (son ?z ! lz_R)"
    using prnt_leaf [OF z c] tree_shape_lengths(3) [OF z] by (auto simp: array_simps lz_consts)
  obtain br' where br': "decodeChar_loop ?z (son ?z ! lz_R) (d_r d) = decodeChar_loop ?z (c + lz_T) br'" "wf_in br'"
      "in_bits br' = rest"
    using decodeChar_loop_path [OF z k(1) assms(3)] assms(4) k(2) by (auto simp: char_code_def)
  moreover have "decodeChar_loop ?z (c + lz_T) br' = Some (c + lz_T, br')"
    by (subst decodeChar_loop.simps) simp
  moreover obtain z' where "update c ?z = Some z'" using update_total [OF inv c] by blast
  ultimately show ?thesis using k(3) by (auto simp: decodeChar_def)
qed

section \<open>Adaptive codes\<close>

text \<open>Sequences of symbols: the bits of a sequence, that each of its symbols can be coded when its
  turn comes, and reading \<open>n\<close> symbols.\<close>

fun code_all :: "('s \<Rightarrow> 'c \<Rightarrow> bool list) \<Rightarrow> ('s \<Rightarrow> 'c \<Rightarrow> 's option) \<Rightarrow> 's \<Rightarrow> 'c list \<Rightarrow> bool list" where
  "code_all code nxt s [] = []"
| "code_all code nxt s (c # cs) =
     code s c @ (case nxt s c of None \<Rightarrow> [] | Some s' \<Rightarrow> code_all code nxt s' cs)"

fun ok_all :: "('s \<Rightarrow> 'c \<Rightarrow> bool) \<Rightarrow> ('s \<Rightarrow> 'c \<Rightarrow> 's option) \<Rightarrow> 's \<Rightarrow> 'c list \<Rightarrow> bool" where
  "ok_all ok nxt s [] = True"
| "ok_all ok nxt s (c # cs) =
     (ok s c \<and> (case nxt s c of None \<Rightarrow> False | Some s' \<Rightarrow> ok_all ok nxt s' cs))"

fun get_all :: "('d \<Rightarrow> ('c \<times> 'd) option) \<Rightarrow> nat \<Rightarrow> 'd \<Rightarrow> ('c list \<times> 'd) option" where
  "get_all get 0 d = Some ([], d)"
| "get_all get (Suc n) d = do {
     (c, d) \<leftarrow> get d;
     (cs, d) \<leftarrow> get_all get n d;
     Some (c # cs, d)
   }"

text \<open>The contract of a code whose model \<open>s\<close> both sides keep: \<open>put\<close> appends the bits of a symbol,
  \<open>get\<close> takes them back, and both move to the same next model.\<close>

locale symbol_code =
  fixes ok :: "'s \<Rightarrow> 'c \<Rightarrow> bool"
    and code :: "'s \<Rightarrow> 'c \<Rightarrow> bool list"
    and nxt :: "'s \<Rightarrow> 'c \<Rightarrow> 's option"
    and wmodel :: "'w bitWriter_scheme \<Rightarrow> 's"
    and put :: "'c \<Rightarrow> 'w bitWriter_scheme \<Rightarrow> 'w bitWriter_scheme option"
    and rbits :: "'d \<Rightarrow> bitReader"
    and rmodel :: "'d \<Rightarrow> 's"
    and get :: "'d \<Rightarrow> ('c \<times> 'd) option"
  assumes put_code: "wf_out w \<Longrightarrow> ok (wmodel w) c \<Longrightarrow>
      \<exists>w'. put c w = Some w' \<and> wf_out w' \<and> nxt (wmodel w) c = Some (wmodel w') \<and>
        out_bits w' = out_bits w @ code (wmodel w) c"
    and get_code: "wf_in (rbits d) \<Longrightarrow> ok (rmodel d) c \<Longrightarrow> in_bits (rbits d) = code (rmodel d) c @ rest \<Longrightarrow>
      \<exists>d'. get d = Some (c, d') \<and> wf_in (rbits d') \<and> nxt (rmodel d) c = Some (rmodel d') \<and>
        in_bits (rbits d') = rest"
begin

lemma put_all:
  "wf_out w \<Longrightarrow> ok_all ok nxt (wmodel w) cs \<Longrightarrow>
   \<exists>w'. foldM put cs w = Some w' \<and> wf_out w' \<and> out_bits w' = out_bits w @ code_all code nxt (wmodel w) cs"
proof (induction cs arbitrary: w)
  case (Cons c cs)
  then obtain w1 where w1: "put c w = Some w1" "wf_out w1" "nxt (wmodel w) c = Some (wmodel w1)"
      "out_bits w1 = out_bits w @ code (wmodel w) c"
    using put_code [of w c] by auto
  then obtain w2 where "foldM put cs w1 = Some w2" "wf_out w2"
      "out_bits w2 = out_bits w1 @ code_all code nxt (wmodel w1) cs"
    using Cons.IH [of w1] Cons.prems by auto
  then show ?case using w1 by simp
qed simp

lemma get_all_code:
  "wf_in (rbits d) \<Longrightarrow> ok_all ok nxt (rmodel d) cs \<Longrightarrow>
   in_bits (rbits d) = code_all code nxt (rmodel d) cs @ rest \<Longrightarrow>
   \<exists>d'. get_all get (length cs) d = Some (cs, d') \<and> wf_in (rbits d') \<and> in_bits (rbits d') = rest"
proof (induction cs arbitrary: d)
  case (Cons c cs)
  then obtain d1 where d1: "get d = Some (c, d1)" "wf_in (rbits d1)" "nxt (rmodel d) c = Some (rmodel d1)"
      "in_bits (rbits d1) = code_all code nxt (rmodel d1) cs @ rest"
    using get_code [of d c "(case nxt (rmodel d) c of None \<Rightarrow> [] | Some s' \<Rightarrow> code_all code nxt s' cs) @ rest"]
    by (auto split: option.splits)
  then obtain d2 where "get_all get (length cs) d1 = Some (cs, d2)" "wf_in (rbits d2)" "in_bits (rbits d2) = rest"
    using Cons.IH [of d1] Cons.prems by auto
  then show ?case using d1 by simp
qed simp

text \<open>A reader over the flushed bytes of a fresh writer reads back what was written.\<close>

lemma stream_roundtrip:
  assumes "wf_out w" and "out_bits w = []" and "ok_all ok nxt (wmodel w) cs"
  shows "\<exists>w'. foldM put cs w = Some w' \<and>
    (\<forall>d r more. rmodel d = wmodel w \<and> rbits d = newBitReader r \<and>
        tee_buf r @ tee_src r = wbuf (encodeEnd w') @ more \<longrightarrow>
      (\<exists>d'. get_all get (length cs) d = Some (cs, d')))"
proof -
  obtain w' where w': "foldM put cs w = Some w'" "wf_out w'" "out_bits w' = code_all code nxt (wmodel w) cs"
    using put_all [OF assms(1,3)] assms(2) by auto
  obtain k where k: "stream_bits (wbuf (encodeEnd w')) = out_bits w' @ replicate k False"
    using encodeEnd_out [OF w'(2)] by auto
  have "\<exists>d'. get_all get (length cs) d = Some (cs, d')"
    if "rmodel d = wmodel w" "rbits d = newBitReader r" "tee_buf r @ tee_src r = wbuf (encodeEnd w') @ more" for d r more
  proof -
    have "in_bits (rbits d) = code_all code nxt (rmodel d) cs @ replicate k False @ stream_bits more"
      using that w'(3) k by (simp add: in_bits_def newBitReader_def low_bits_def del: stream_bits_append)
        (simp add: append_assoc)
    moreover have "wf_in (rbits d)" using that(2) by (simp add: wf_in_def newBitReader_def)
    ultimately show ?thesis using get_all_code assms(3) that(1) by metis
  qed
  then show ?thesis using w'(1) by blast
qed

end

definition char_ok :: "lzhuf \<Rightarrow> nat \<Rightarrow> bool" where
  "char_ok z c \<longleftrightarrow> tree_inv z \<and> c < lz_NumChar \<and> length (char_code z c) \<le> 16"

interpretation chars: symbol_code char_ok char_code "\<lambda>z c. update c z" w_z encodeChar d_r d_z decodeChar
proof unfold_locales
  fix w :: Writer and c assume "wf_out w" "char_ok (w_z w) c"
  then show "\<exists>w'. encodeChar c w = Some w' \<and> wf_out w' \<and> update c (w_z w) = Some (w_z w') \<and>
      out_bits w' = out_bits w @ char_code (w_z w) c"
    using encodeChar_ok [of w c] by (auto simp: char_ok_def)
next
  fix d :: Reader and c rest
  assume "wf_in (d_r d)" "char_ok (d_z d) c" "in_bits (d_r d) = char_code (d_z d) c @ rest"
  then show "\<exists>d'. decodeChar d = Some (c, d') \<and> wf_in (d_r d') \<and> update c (d_z d) = Some (d_z d') \<and>
      in_bits (d_r d') = rest"
    using decodeChar_ok [of d c rest] by (fastforce simp: char_ok_def)
qed

interpretation positions: symbol_code "\<lambda>_ c. c < 4096" "\<lambda>_ c. pos_bits c" "\<lambda>s _. Some s" "\<lambda>w :: Writer. ()"
  encodePosition "\<lambda>br. br" "\<lambda>_. ()" "\<lambda>br. Some (decodePosition br)"
proof unfold_locales
  fix w :: Writer and c :: nat assume "wf_out w" "c < 4096"
  then show "\<exists>w'. encodePosition c w = Some w' \<and> wf_out w' \<and> Some () = Some () \<and> out_bits w' = out_bits w @ pos_bits c"
    using encodePosition_out [of w c] by auto
next
  fix br and c :: nat and rest assume "wf_in br" "c < 4096" "in_bits br = pos_bits c @ rest"
  then show "\<exists>d'. Some (decodePosition br) = Some (c, d') \<and> wf_in d' \<and> Some () = Some () \<and> in_bits d' = rest"
    using decodePosition_ok [of br c rest] by auto
qed

section \<open>Properties\<close>

lemma ok_all_short:
  "tree_inv z \<Longrightarrow> \<forall>c \<in> set cs. c < lz_NumChar \<Longrightarrow> (\<Sum>d < lz_NumChar. weight z d) + length cs \<le> 4181 \<Longrightarrow>
   ok_all char_ok (\<lambda>z c. update c z) z cs"
proof (induction cs arbitrary: z)
  case (Cons c cs)
  let ?n = "\<Sum>d < lz_NumChar. weight z d"
  have ok: "char_ok z c" using Cons.prems code_length_short [of z c] by (simp add: char_ok_def)
  obtain z' where z': "update c z = Some z'" "tree_inv z'" "\<forall>d < lz_NumChar. weight z' d = count_char c (weight z) d"
    using update_ok [of z c] Cons.prems by auto
  have "(\<Sum>d < lz_NumChar. weight z' d) = (\<Sum>d < lz_NumChar. ((weight z)(c := weight z c + 1)) d)"
    using z'(3) count_char_below [of "weight z" c] Cons.prems(3) by (intro sum.cong) (auto simp: lz_consts)
  also have "\<dots> = ?n + 1" using total_bump Cons.prems(2) by simp
  finally show ?case using Cons.IH [OF z'(2)] Cons.prems ok z'(1) by simp
qed simp

text \<open>Up to 3867 characters written by a new writer and flushed are read back by a new reader from
  the resulting bytes, whatever follows them.\<close>

theorem char_stream_roundtrip:
  assumes "\<forall>c \<in> set cs. c < lz_NumChar" and "length cs \<le> 3867"
    and "newLZHUFF = Some z" and "w_z w = z" and "wbuf w = []" "putbuf w = 0" "putlen w = 0" "werr w = None"
  shows "\<exists>w'. foldM encodeChar cs w = Some w' \<and>
    (\<forall>d r more. d_z d = z \<and> d_r d = newBitReader r \<and> tee_buf r @ tee_src r = wbuf (encodeEnd w') @ more \<longrightarrow>
      (\<exists>d'. get_all decodeChar (length cs) d = Some (cs, d')))"
proof -
  have z: "tree_inv z" "\<forall>d < lz_NumChar. weight z d = 1" 
    using newLZHUFF_ok assms(3) by (metis option.inject)+
  have "(\<Sum>d < lz_NumChar. weight z d) = (\<Sum>d < lz_NumChar. 1)" using z(2) by (intro sum.cong) auto
  then have "ok_all char_ok (\<lambda>z c. update c z) (w_z w) cs"
    using assms(1,2,4) z(1) by (intro ok_all_short) (auto simp: lz_consts)
  moreover have "wf_out w" "out_bits w = []"
    using assms(5-8) by (auto simp: wf_out_def out_bits_def code_bits_def)
  ultimately show ?thesis using chars.stream_roundtrip assms(4) by auto
qed

text \<open>A new bit buffer around a given tree.\<close>

definition fresh_Writer :: "lzhuf \<Rightarrow> Writer" where
  "fresh_Writer z = \<lparr>wbuf = [], putbuf = 0, putlen = 0, werr = None, w_out = [], w_z = z, w_crc16 = True,
     w_len = 0, w_r = 0, w_s = 0, w_lastMatchLength = 0, w_preFilled = False, w_fileSize = 0\<rparr>"

theorem char_stream_roundtrip_witness:
  "\<exists>z w'. newLZHUFF = Some z \<and> foldM encodeChar [72, 105, 300, 313, 72] (fresh_Writer z) = Some w' \<and>
    (\<forall>d r. d_z d = z \<and> d_r d = newBitReader r \<and> tee_buf r @ tee_src r = wbuf (encodeEnd w') \<longrightarrow>
      (\<exists>d'. get_all decodeChar 5 d = Some ([72, 105, 300, 313, 72], d')))"
proof -
  obtain z where z: "newLZHUFF = Some z" using newLZHUFF_ok by blast
  have "\<exists>w'. foldM encodeChar [72, 105, 300, 313, 72] (fresh_Writer z) = Some w' \<and>
    (\<forall>d r more. d_z d = z \<and> d_r d = newBitReader r \<and> tee_buf r @ tee_src r = wbuf (encodeEnd w') @ more \<longrightarrow>
      (\<exists>d'. get_all decodeChar (length [72 :: nat, 105, 300, 313, 72]) d = Some ([72, 105, 300, 313, 72], d')))"
    using z by (intro char_stream_roundtrip) (auto simp: fresh_Writer_def lz_consts)
  then obtain w' where w': "foldM encodeChar [72, 105, 300, 313, 72] (fresh_Writer z) = Some w'"
    "\<And>d r more. d_z d = z \<Longrightarrow> d_r d = newBitReader r \<Longrightarrow> tee_buf r @ tee_src r = wbuf (encodeEnd w') @ more \<Longrightarrow>
      \<exists>d'. get_all decodeChar (length [72 :: nat, 105, 300, 313, 72]) d = Some ([72, 105, 300, 313, 72], d')"
    by blast
  have five: "length [72 :: nat, 105, 300, 313, 72] = 5" by simp
  have "\<exists>d'. get_all decodeChar 5 d = Some ([72, 105, 300, 313, 72], d')"
    if "d_z d = z" "d_r d = newBitReader r" "tee_buf r @ tee_src r = wbuf (encodeEnd w')" for d r
    using w'(2) [of d r "[]"] that unfolding five by simp
  then show ?thesis using z w'(1) by blast
qed

text \<open>Any sequence of match positions below 4096 written and flushed is read back, whatever follows.\<close>

theorem position_stream_roundtrip:
  fixes w :: Writer
  assumes "\<forall>c \<in> set cs. c < 4096" and "wbuf w = []" "putbuf w = 0" "putlen w = 0" "werr w = None"
  shows "\<exists>w'. foldM encodePosition cs w = Some w' \<and>
    (\<forall>r more. tee_buf r @ tee_src r = wbuf (encodeEnd w') @ more \<longrightarrow>
      (\<exists>br. get_all (\<lambda>br. Some (decodePosition br)) (length cs) (newBitReader r) = Some (cs, br)))"
proof -
  have "ok_all (\<lambda>_ c. c < 4096) (\<lambda>s _. Some s) () cs" using assms(1) by (induction cs) auto
  moreover have "wf_out w" "out_bits w = []"
    using assms(2-5) by (auto simp: wf_out_def out_bits_def code_bits_def)
  ultimately show ?thesis using positions.stream_roundtrip by auto
qed

theorem position_stream_roundtrip_witness:
  "\<exists>w'. foldM encodePosition [0, 1987, 4095] (fresh_Writer zero_lzhuf) = Some w' \<and>
    (\<forall>r. tee_buf r @ tee_src r = wbuf (encodeEnd w') \<longrightarrow>
      (\<exists>br. get_all (\<lambda>br. Some (decodePosition br)) 3 (newBitReader r) = Some ([0, 1987, 4095], br)))"
proof -
  have "\<exists>w'. foldM encodePosition [0, 1987, 4095] (fresh_Writer zero_lzhuf) = Some w' \<and>
    (\<forall>r more. tee_buf r @ tee_src r = wbuf (encodeEnd w') @ more \<longrightarrow>
      (\<exists>br. get_all (\<lambda>br. Some (decodePosition br)) (length [0 :: nat, 1987, 4095]) (newBitReader r) = Some ([0, 1987, 4095], br)))"
    by (intro position_stream_roundtrip) (auto simp: fresh_Writer_def)
  then show ?thesis by (metis append_Nil2 length_Cons list.size(3) numeral_3_eq_3)
qed

end
