(* ===== verification/Lzhuf_Dict.thy ===== *)
theory Lzhuf_Dict
  imports Lzhuf_Tree
begin

unbundle bit_operations_syntax

text \<open>
  The dictionary of \<^verbatim>\<open>src/lzhuf/lzhuf.go\<close>: 256 binary search trees over the ring buffer \<open>textBuf\<close>, one
  for each first byte, linked through the arrays \<open>dad\<close>, \<open>lson\<close> and \<open>rson\<close> (\<open>InitTree\<close>, \<open>InsertNode\<close>,
  \<open>DeleteNode\<close>). The pointer loops are partial functions.
\<close>

section \<open>Operations\<close>

definition InitTree :: "lzhuf \<Rightarrow> lzhuf option" where
  "InitTree z = do {
     z \<leftarrow> foldM (\<lambda>i z. do { rs \<leftarrow> upd (rson z) i lz_NIL; Some (z\<lparr>rson := rs\<rparr>) }) [lz_N + 1..<lz_N + 257] z;
     foldM (\<lambda>i z. do { ds \<leftarrow> upd (dad z) i lz_NIL; Some (z\<lparr>dad := ds\<rparr>) }) [0..<lz_N] z
   }"

text \<open>The assignments \<open>z.dad[i] = v\<close>, \<open>z.lson[i] = v\<close>, \<open>z.rson[i] = v\<close>.\<close>

definition set_dad :: "nat \<Rightarrow> nat \<Rightarrow> lzhuf \<Rightarrow> lzhuf option" where
  "set_dad i v z = do { ds \<leftarrow> upd (dad z) i v; Some (z\<lparr>dad := ds\<rparr>) }"

definition set_lson :: "nat \<Rightarrow> nat \<Rightarrow> lzhuf \<Rightarrow> lzhuf option" where
  "set_lson i v z = do { ls \<leftarrow> upd (lson z) i v; Some (z\<lparr>lson := ls\<rparr>) }"

definition set_rson :: "nat \<Rightarrow> nat \<Rightarrow> lzhuf \<Rightarrow> lzhuf option" where
  "set_rson i v z = do { rs \<leftarrow> upd (rson z) i v; Some (z\<lparr>rson := rs\<rparr>) }"

partial_function (option) rightmost :: "lzhuf \<Rightarrow> nat \<Rightarrow> nat option" where
  [code]: "rightmost z q = do {
     r \<leftarrow> idx (rson z) q;
     if r \<noteq> lz_NIL then rightmost z r else Some q
   }"

text \<open>Both sons are there: the node that takes the place of \<open>p\<close>, and the trees below it relinked.\<close>

definition detachLargest :: "nat \<Rightarrow> lzhuf \<Rightarrow> (nat \<times> lzhuf) option" where
  "detachLargest p z = do {
     q \<leftarrow> idx (lson z) p;
     rq \<leftarrow> idx (rson z) q;
     (q, z) \<leftarrow> (if rq \<noteq> lz_NIL then do {
         q \<leftarrow> rightmost z q;
         dq \<leftarrow> idx (dad z) q;
         lq \<leftarrow> idx (lson z) q;
         z \<leftarrow> set_rson dq lq z;
         z \<leftarrow> set_dad lq dq z;
         lp \<leftarrow> idx (lson z) p;
         z \<leftarrow> set_lson q lp z;
         lp \<leftarrow> idx (lson z) p;
         z \<leftarrow> set_dad lp q z;
         Some (q, z)
       } else Some (q, z));
     rp \<leftarrow> idx (rson z) p;
     z \<leftarrow> set_rson q rp z;
     rp \<leftarrow> idx (rson z) p;
     z \<leftarrow> set_dad rp q z;
     Some (q, z)
   }"

text \<open>The parent of \<open>p\<close> gets \<open>q\<close> in place of \<open>p\<close>.\<close>

definition replaceBelowDad :: "nat \<Rightarrow> nat \<Rightarrow> lzhuf \<Rightarrow> lzhuf option" where
  "replaceBelowDad p q z = do {
     dp \<leftarrow> idx (dad z) p;
     r \<leftarrow> idx (rson z) dp;
     if r = p then set_rson dp q z else set_lson dp q z
   }"

definition DeleteNode :: "nat \<Rightarrow> lzhuf \<Rightarrow> lzhuf option" where
  "DeleteNode p z = do {
     dp \<leftarrow> idx (dad z) p;
     if dp = lz_NIL then Some z
     else do {
       rp \<leftarrow> idx (rson z) p;
       lp \<leftarrow> idx (lson z) p;
       (q, z) \<leftarrow> (if rp = lz_NIL then Some (lp, z)
                  else if lp = lz_NIL then Some (rp, z)
                  else detachLargest p z);
       dp \<leftarrow> idx (dad z) p;
       z \<leftarrow> set_dad q dp z;
       z \<leftarrow> replaceBelowDad p q z;
       set_dad p lz_NIL z
     }
   }"

text \<open>The comparison of the strings at \<open>r\<close> and \<open>p\<close> from index \<open>i\<close> on: where it stopped, and the last
  difference.\<close>

function matchLoop :: "byte list \<Rightarrow> nat \<Rightarrow> nat \<Rightarrow> nat \<Rightarrow> int \<Rightarrow> (nat \<times> int) option" where
  "matchLoop tb r p i cmp =
     (if i < lz_F then do {
        a \<leftarrow> idx tb (r + i);
        b \<leftarrow> idx tb (p + i);
        let cmp = uint a - uint b;
        if cmp \<noteq> 0 then Some (i, cmp) else matchLoop tb r p (i + 1) cmp
      } else Some (i, cmp))"
  by pat_completeness auto
termination
  by (relation "measure (\<lambda>(tb, r, p, i, cmp). lz_F - i)") auto

declare matchLoop.simps [simp del]

text \<open>The distance back from \<open>r\<close> to \<open>p\<close> in the ring, less one.\<close>

definition matchDist :: "nat \<Rightarrow> nat \<Rightarrow> int" where
  "matchDist r p = ((int r - int p) AND (int lz_N - 1)) - 1"

definition recordMatch :: "nat \<Rightarrow> nat \<Rightarrow> nat \<Rightarrow> lzhuf \<Rightarrow> bool \<times> lzhuf" where
  "recordMatch r p i z =
     (if lz_Threshold < i then
        let longer = matchLength z < i;
            z = (if longer then z\<lparr>matchPosition := matchDist r p, matchLength := i\<rparr> else z)
        in if longer \<and> lz_F \<le> matchLength z then (True, z)
           else if i = matchLength z then
             (False, if matchDist r p < matchPosition z then z\<lparr>matchPosition := matchDist r p\<rparr> else z)
           else (False, z)
      else (False, z))"

text \<open>The search loop of \<open>InsertNode\<close>. It returns from the function once the new node hangs in a free
  place (\<open>None\<close>), or breaks with the node that holds the same string (\<open>Some p\<close>).\<close>

partial_function (option) insertLoop :: "nat \<Rightarrow> nat \<Rightarrow> int \<Rightarrow> lzhuf \<Rightarrow> (nat option \<times> lzhuf) option" where
  [code]: "insertLoop r p cmp z = do {
     s \<leftarrow> (if 0 \<le> cmp then idx (rson z) p else idx (lson z) p);
     if s = lz_NIL then do {
       z \<leftarrow> (if 0 \<le> cmp then set_rson p r z else set_lson p r z);
       z \<leftarrow> set_dad r p z;
       Some (None, z)
     } else do {
       let p = s;
       (i, cmp) \<leftarrow> matchLoop (textBuf z) r p 1 cmp;
       let (stop, z) = recordMatch r p i z;
       if stop then Some (Some p, z) else insertLoop r p cmp z
     }
   }"

definition InsertNode :: "nat \<Rightarrow> lzhuf \<Rightarrow> lzhuf option" where
  "InsertNode r z = do {
     k \<leftarrow> idx (textBuf z) r;
     let p = lz_N + 1 + unat k;
     z \<leftarrow> set_rson r lz_NIL z;
     z \<leftarrow> set_lson r lz_NIL z;
     let z = z\<lparr>matchLength := 0\<rparr>;
     (found, z) \<leftarrow> insertLoop r p 1 z;
     case found of
       None \<Rightarrow> Some z
     | Some p \<Rightarrow> do {
         dp \<leftarrow> idx (dad z) p;
         z \<leftarrow> set_dad r dp z;
         lp \<leftarrow> idx (lson z) p;
         z \<leftarrow> set_lson r lp z;
         rp \<leftarrow> idx (rson z) p;
         z \<leftarrow> set_rson r rp z;
         lp \<leftarrow> idx (lson z) p;
         z \<leftarrow> set_dad lp r z;
         rp \<leftarrow> idx (rson z) p;
         z \<leftarrow> set_dad rp r z;
         z \<leftarrow> replaceBelowDad p r z;
         set_dad p lz_NIL z
       }
   }"

end
