(* ===== verification/Lzhuf_Codec.thy ===== *)
theory Lzhuf_Codec
  imports Lzhuf_Char Lzhuf_Dict
begin

unbundle bit_operations_syntax

text \<open>
  The compressor and the decompressor: \<open>NewWriter\<close>, \<open>Write\<close>, \<open>Close\<close>, \<open>advance\<close>, \<open>encode\<close> of
  \<^verbatim>\<open>src/lzhuf/writer.go\<close> and \<open>NewReader\<close>, \<open>Read\<close>, \<open>Close\<close>, \<open>advanceState\<close> of \<^verbatim>\<open>src/lzhuf/reader.go\<close>.
  The underlying writer is a \<^verbatim>\<open>bytes.Buffer\<close>, which takes everything; the underlying reader delivers its
  bytes and then the error \<open>tee_end\<close>.
\<close>

section \<open>The writer\<close>

definition NewWriter :: "bool \<Rightarrow> Writer option" where
  "NewWriter crc16 = do {
     z \<leftarrow> newLZHUFF;
     z \<leftarrow> InitTree z;
     let r = lz_N - lz_F;
     tb \<leftarrow> foldM (\<lambda>i tb. upd tb i 0x20) [0..<r] (textBuf z);
     Some \<lparr>wbuf = [], putbuf = 0, putlen = 0, werr = None, w_out = [], w_z = z\<lparr>textBuf := tb\<rparr>, w_crc16 = crc16,
       w_len = 0, w_r = r, w_s = 0, w_lastMatchLength = 0, w_preFilled = False, w_fileSize = 0\<rparr>
   }"

definition NewB2Writer :: "Writer option" where
  "NewB2Writer = NewWriter True"

text \<open>A negative match position would be a huge table index and panic.\<close>

definition encode :: "Writer \<Rightarrow> Writer option" where
  "encode w =
     (if w_len w = 0 then Some w
      else do {
        let w = (if w_len w < matchLength (w_z w) then w\<lparr>w_z := (w_z w)\<lparr>matchLength := w_len w\<rparr>\<rparr> else w);
        w \<leftarrow> (if matchLength (w_z w) \<le> lz_Threshold then do {
                let w = w\<lparr>w_z := (w_z w)\<lparr>matchLength := 1\<rparr>\<rparr>;
                b \<leftarrow> idx (textBuf (w_z w)) (w_r w);
                encodeChar (unat b) w
              } else do {
                w \<leftarrow> encodeChar (255 - lz_Threshold + matchLength (w_z w)) w;
                if matchPosition (w_z w) < 0 then None
                else encodePosition (nat (matchPosition (w_z w))) w
              });
        Some (w\<lparr>w_lastMatchLength := int (matchLength (w_z w))\<rparr>)
      })"

definition storeByte :: "byte \<Rightarrow> Writer \<Rightarrow> Writer option" where
  "storeByte c w = do {
     tb \<leftarrow> upd (textBuf (w_z w)) (w_s w) c;
     tb \<leftarrow> (if w_s w < lz_F - 1 then upd tb (w_s w + lz_N) c else Some tb);
     Some (w\<lparr>w_z := (w_z w)\<lparr>textBuf := tb\<rparr>, w_len := w_len w + 1\<rparr>)
   }"

definition advance :: "byte option \<Rightarrow> Writer \<Rightarrow> Writer option" where
  "advance c w = do {
     w \<leftarrow> (case c of None \<Rightarrow> Some w | Some c \<Rightarrow> storeByte c w);
     z \<leftarrow> InsertNode (w_r w) (w_z w);
     let w = w\<lparr>w_z := z, w_lastMatchLength := w_lastMatchLength w - 1\<rparr>;
     w \<leftarrow> (if w_lastMatchLength w = 0 then encode w else Some w);
     z \<leftarrow> DeleteNode (w_s w) (w_z w);
     Some (w\<lparr>w_z := z, w_s := (w_s w + 1) AND (lz_N - 1), w_r := (w_r w + 1) AND (lz_N - 1),
             w_len := w_len w - 1\<rparr>)
   }"

text \<open>The first loop of \<open>Write\<close> fills the lookahead buffer and leaves the rest of the bytes.\<close>

fun preFill :: "byte list \<Rightarrow> Writer \<Rightarrow> (byte list \<times> Writer) option" where
  "preFill [] w = Some ([], w)"
| "preFill (b # p) w =
     (if w_preFilled w then Some (b # p, w)
      else do {
        tb \<leftarrow> upd (textBuf (w_z w)) (w_r w + w_len w) b;
        let w = w\<lparr>w_z := (w_z w)\<lparr>textBuf := tb\<rparr>, w_fileSize := w_fileSize w + 1, w_len := w_len w + 1\<rparr>;
        z \<leftarrow> InsertNode (w_r w - w_len w) (w_z w);
        preFill p (w\<lparr>w_z := z, w_lastMatchLength := 1, w_preFilled := w_len w = lz_F\<rparr>)
      })"

fun advanceAll :: "byte list \<Rightarrow> Writer \<Rightarrow> Writer option" where
  "advanceAll [] w = Some w"
| "advanceAll (b # p) w = do {
     w \<leftarrow> advance (Some b) w;
     advanceAll p (w\<lparr>w_fileSize := w_fileSize w + 1\<rparr>)
   }"

text \<open>\<open>Write\<close> returns the number of bytes taken and no error, also when the writer has failed.\<close>

definition Writer_Write :: "byte list \<Rightarrow> Writer \<Rightarrow> (nat \<times> Writer) option" where
  "Writer_Write p w =
     (if werr w \<noteq> None then Some (0, w)
      else do {
        (p', w) \<leftarrow> preFill p w;
        w \<leftarrow> advanceAll p' w;
        Some (length p, w)
      })"

partial_function (option) drain :: "Writer \<Rightarrow> Writer option" where
  [code]: "drain w = (if 0 < w_len w then do { w \<leftarrow> advance None w; drain w } else Some w)"

definition Writer_Close :: "Writer \<Rightarrow> (io_err option \<times> Writer) option" where
  "Writer_Close w =
     (if werr w \<noteq> None then Some (werr w, w)
      else do {
        w \<leftarrow> drain w;
        w \<leftarrow> encode w;
        let w = encodeEnd w;
        let lengthBytes = le32 (w_fileSize w);
        let checksum = (if w_crc16 w then le16 (crc (lengthBytes @ wbuf w)) else []);
        Some (None, w\<lparr>w_out := w_out w @ checksum @ lengthBytes @ wbuf w, wbuf := []\<rparr>)
      })"

section \<open>The reader\<close>

text \<open>\<open>binary.Read\<close> of \<open>n\<close> bytes: the end of the input before the first byte is \<open>EOF\<close>, within them
  \<open>ErrUnexpectedEOF\<close>.\<close>

definition readFull :: "nat \<Rightarrow> byte list \<Rightarrow> io_err \<Rightarrow> io_err + byte list" where
  "readFull n src end =
     (if n \<le> length src then Inr (take n src)
      else if end = EOF then Inl (if src = [] then EOF else ErrUnexpectedEOF) else Inl end)"

text \<open>A header error comes with a reader when the size is missing, without one when the checksum is.\<close>

definition NewReader :: "bool \<Rightarrow> byte list \<Rightarrow> io_err \<Rightarrow> (Reader option \<times> io_err option) option" where
  "NewReader crc16 src end = do {
     z \<leftarrow> newLZHUFF;
     tb \<leftarrow> foldM (\<lambda>i tb. upd tb i 0x20) [0..<lz_N - lz_F] (textBuf z);
     let z = z\<lparr>textBuf := tb\<rparr>;
     case (if crc16 then readFull 2 src end else Inr []) of
       Inl e \<Rightarrow> Some (None, Some e)
     | Inr sm \<Rightarrow> (
         let src = drop (length sm) src;
             head = take 4 src;
             tee = \<lparr>tee_buf = [], tee_src = drop (length head) src, tee_end = end,
                    tee_crcw = crcw_Write head newCRCWriter\<rparr>;
             d = \<lparr>d_r = newBitReader tee, d_z = z, d_err = None, d_crc16 = crc16,
                  d_header_crc = (if crc16 then of_le16 sm else 0), d_header_size = 0,
                  d_state_pos = 0, d_state_r = lz_N - lz_R, d_state_buf = []\<rparr>
         in case readFull 4 src end of
              Inl e \<Rightarrow> Some (Some d, Some e)
            | Inr sz \<Rightarrow> Some (Some (d\<lparr>d_header_size := of_le32 sz\<rparr>), None))
   }"

definition NewB2Reader :: "byte list \<Rightarrow> io_err \<Rightarrow> (Reader option \<times> io_err option) option" where
  "NewB2Reader src end = NewReader True src end"

datatype reader_err = Io io_err | ErrChecksum

definition Reader_Close :: "Reader \<Rightarrow> reader_err option" where
  "Reader_Close d =
     (case d_err d of
        Some e \<Rightarrow> Some (Io e)
      | None \<Rightarrow>
         (case br_err (d_r d) of
            Some e \<Rightarrow> Some (Io e)
          | None \<Rightarrow>
              if d_crc16 d \<and> d_header_crc d \<noteq> crcw_Sum (tee_crcw (br_r (d_r d))) then Some ErrChecksum
              else if d_header_size d \<noteq> d_state_pos d - of_nat (length (d_state_buf d)) then Some ErrChecksum
              else None))"

definition advanceState :: "Reader \<Rightarrow> Reader" where
  "advanceState d = d\<lparr>d_state_r := (d_state_r d + 1) AND (lz_N - 1), d_state_pos := d_state_pos d + 1\<rparr>"

text \<open>One decoded byte goes to the caller while there is room, else into the buffer, and always into the
  ring. \<open>n\<close> is the room the caller's slice has, \<open>out\<close> what is in it so far.\<close>

definition emitRing :: "byte \<Rightarrow> Reader \<Rightarrow> Reader option" where
  "emitRing b d = do {
     tb \<leftarrow> upd (textBuf (d_z d)) (d_state_r d) b;
     Some (advanceState (d\<lparr>d_z := (d_z d)\<lparr>textBuf := tb\<rparr>\<rparr>))
   }"

fun copyMatch :: "nat \<Rightarrow> nat \<Rightarrow> nat \<Rightarrow> nat \<Rightarrow> byte list \<Rightarrow> Reader \<Rightarrow> (byte list \<times> Reader) option" where
  "copyMatch n i k 0 out d = Some (out, d)"
| "copyMatch n i k (Suc j) out d = do {
     b \<leftarrow> idx (textBuf (d_z d)) ((i + k) AND (lz_N - 1));
     let (out, d) = (if length out < n then (out @ [b], d)
                     else (out, d\<lparr>d_state_buf := d_state_buf d @ [b]\<rparr>));
     d \<leftarrow> emitRing b d;
     copyMatch n i (k + 1) j out d
   }"

partial_function (option) readLoop :: "nat \<Rightarrow> byte list \<Rightarrow> Reader \<Rightarrow> (byte list \<times> Reader) option" where
  [code]: "readLoop n out d =
     (if length out < n \<and> br_err (d_r d) = None \<and> sint (d_state_pos d) < sint (d_header_size d) then do {
        (c, d) \<leftarrow> decodeChar d;
        if c < 256 then do {
          d \<leftarrow> emitRing (of_nat c) d;
          readLoop n (out @ [of_nat c]) d
        } else do {
          let (p, br) = decodePosition (d_r d);
          let d = d\<lparr>d_r := br\<rparr>;
          let i = nat ((int (d_state_r d) - int p - 1) AND (int lz_N - 1));
          (out, d) \<leftarrow> copyMatch n i 0 (c - 255 + lz_Threshold) out d;
          readLoop n out d
        }
      } else Some (out, d))"

definition Reader_Read :: "nat \<Rightarrow> Reader \<Rightarrow> ((byte list \<times> io_err option) \<times> Reader) option" where
  "Reader_Read n d = (
     let e = br_err (d_r d);
         eof = e = Some EOF \<and> sint (d_state_pos d) < sint (d_header_size d);
         d = (if eof then d\<lparr>d_err := Some ErrUnexpectedEOF\<rparr> else if e \<noteq> None then d\<lparr>d_err := e\<rparr> else d)
     in if e = None \<and> d_state_pos d = d_header_size d \<and> d_state_buf d = [] then Some (([], Some EOF), d)
        else if d_err d \<noteq> None then Some (([], d_err d), d)
        else do {
          let out = take n (d_state_buf d);
          (out, d) \<leftarrow> readLoop n out (d\<lparr>d_state_buf := drop n (d_state_buf d)\<rparr>);
          Some ((out, None), d)
        })"

section \<open>The Huffman operations leave the dictionary alone\<close>

text \<open>The part of the state that belongs to the dictionary.\<close>

definition dict_part :: "lzhuf \<Rightarrow> nat list \<times> nat list \<times> nat list \<times> byte list \<times> nat \<times> int" where
  "dict_part z = (dad z, lson z, rson z, textBuf z, matchLength z, matchPosition z)"

lemma reconst_dict: "reconst z = Some z' \<Longrightarrow> dict_part z' = dict_part z"
proof -
  assume "reconst z = Some z'"
  then obtain j y i y' where 1: "foldM reconst_collect [0..<lz_T] (0, z) = Some (j, y)"
      and 2: "foldM reconst_connect [lz_NumChar..<lz_T] (0, y) = Some (i, y')"
      and 3: "foldM reconst_parents [0..<lz_T] y' = Some z'"
    by (auto simp: reconst_def bind_eq_Some_conv)
  have "dict_part (snd s') = dict_part (snd s)" if "reconst_collect i s = Some s'" for i s s'
    using that by (auto simp: reconst_collect_def dict_part_def bind_eq_Some_conv split: prod.splits if_splits)
  then have "dict_part y = dict_part z" using foldM_keeps [OF 1, of "\<lambda>s. dict_part (snd s)"] by auto
  moreover have "dict_part (snd s') = dict_part (snd s)" if "reconst_connect i s = Some s'" for i s s'
    using that by (auto simp: reconst_connect_def dict_part_def bind_eq_Some_conv split: prod.splits if_splits)
  then have "dict_part y' = dict_part y" using foldM_keeps [OF 2, of "\<lambda>s. dict_part (snd s)"] by auto
  moreover have "dict_part s' = dict_part s" if "reconst_parents i s = Some s'" for i s s'
    using that by (auto simp: reconst_parents_def dict_part_def bind_eq_Some_conv split: prod.splits if_splits)
  then have "dict_part z' = dict_part y'" using foldM_keeps [OF 3, of dict_part] by auto
  ultimately show ?thesis by simp
qed

lemma swapNodes_dict: "swapNodes c l k z = Some z' \<Longrightarrow> dict_part z' = dict_part z"
  unfolding swapNodes_def bind_eq_Some_conv option.inject by (elim exE conjE, hypsubst) (simp add: dict_part_def)

lemma update_step_dict:
  assumes "update_step c z = Some (c', z')"
  shows "dict_part z' = dict_part z"
proof -
  from assms obtain f where f: "(let z = z\<lparr>freq := f\<rparr> in do {
     fc \<leftarrow> idx (freq z) c;
     fc1 \<leftarrow> idx (freq z) (c + 1);
     if fc \<le> fc1 \<or> length (freq z) \<le> c + 2 then do {
       c \<leftarrow> idx (prnt z) c;
       Some (c, z)
     } else do {
       l \<leftarrow> swapPoint (freq z) fc (c + 1);
       z \<leftarrow> swapNodes c l fc z;
       c \<leftarrow> idx (prnt z) l;
       Some (c, z)
     }
   }) = Some (c', z')"
    unfolding update_step_def bind_eq_Some_conv [of "idx (freq z) c"] bind_eq_Some_conv [of "upd _ _ _"] by blast
  define y where "y = z\<lparr>freq := f\<rparr>"
  have y: "dict_part y = dict_part z" by (simp add: y_def dict_part_def)
  from f have "z' = y \<or> (\<exists>l k. swapNodes c l k y = Some z')"
    unfolding Let_def y_def [symmetric] by (auto simp: bind_eq_Some_conv split: if_splits)
  then show ?thesis using swapNodes_dict y by auto
qed

lemma update_loop_dict:
  assumes "update_loop c z = Some z'"
  shows "dict_part z' = dict_part z"
proof (rule update_loop.raw_induct [OF _ assms])
  fix f :: "nat \<Rightarrow> lzhuf \<Rightarrow> lzhuf option" and c z z'
  assume IH: "\<And>c z z'. f c z = Some z' \<Longrightarrow> dict_part z' = dict_part z"
    and "do { (c, z) \<leftarrow> update_step c z; if c = 0 then Some z else f c z } = Some z'"
  then obtain c1 z1 where "update_step c z = Some (c1, z1)" "(if c1 = 0 then Some z1 else f c1 z1) = Some z'"
    by (auto simp: bind_eq_Some_conv)
  then show "dict_part z' = dict_part z" using IH [of c1 z1 z'] update_step_dict by (auto split: if_splits)
qed

lemma update_dict: "update c z = Some z' \<Longrightarrow> dict_part z' = dict_part z"
  using reconst_dict update_loop_dict by (fastforce simp: update_def bind_eq_Some_conv split: if_splits)

section \<open>The reader never panics\<close>

lemma ReadBits_less: "fst (ReadBits 1 br) < 2"
proof -
  have "unat (x AND (push_bit 1 1 - 1)) < 2" for x :: uint
  proof -
    have "push_bit 1 1 - 1 = (mask 1 :: uint)" by (simp add: mask_eq_exp_minus_1)
    then have "x AND (push_bit 1 1 - 1) = take_bit 1 x" by (simp only: take_bit_eq_mask)
    then have "unat (x AND (push_bit 1 1 - 1)) = take_bit 1 (unat x)" by (simp only: unsigned_take_bit_eq)
    then show ?thesis using take_bit_nat_less_exp [of 1 "unat x"] by simp
  qed
  then show ?thesis by (auto simp: ReadBits_def ReadBits64_def split: prod.splits bool.splits)
qed

lemma decodeChar_loop_total:
  assumes z: "tree_shape z"
  shows "n < lz_T \<Longrightarrow> \<exists>c br'. decodeChar_loop z (son z ! n) br = Some (c, br') \<and> lz_T \<le> c \<and> c < lz_T + lz_NumChar"
proof (induction n arbitrary: br rule: less_induct)
  case (less n)
  show ?case
  proof (cases rule: son_cases [OF z less.prems])
    case 1
    then show ?thesis by (subst decodeChar_loop.simps) simp
  next
    case 2
    obtain b br1 where b: "getBit br = (b, br1)" "b < 2" using ReadBits_less [of br] by (cases "getBit br") (auto simp: getBit_def)
    have "son z ! n + b < n" "son z ! n < lz_T" using 2 b less.prems by auto
    then show ?thesis
      using less.IH [of "son z ! n + b" br1] b less.prems tree_shape_lengths(3) [OF z]
      by (subst decodeChar_loop.simps) (simp add: array_simps)
  qed
qed

text \<open>What every state of a reader satisfies.\<close>

definition reader_inv :: "Reader \<Rightarrow> bool" where
  "reader_inv d \<longleftrightarrow> tree_inv (d_z d) \<and> length (textBuf (d_z d)) = lz_N + lz_F - 1 \<and> d_state_r d < lz_N"

lemma decodeChar_total:
  assumes "reader_inv d"
  shows "\<exists>c d'. decodeChar d = Some (c, d') \<and> c < lz_NumChar \<and> reader_inv d'"
proof -
  have inv: "tree_inv (d_z d)" and z: "tree_shape (d_z d)" using assms by (auto simp: reader_inv_def tree_inv_def)
  have R: "lz_R < lz_T" by (simp add: lz_consts)
  obtain c br where c: "decodeChar_loop (d_z d) (son (d_z d) ! lz_R) (d_r d) = Some (c, br)" "lz_T \<le> c" "c < lz_T + lz_NumChar"
    using decodeChar_loop_total [OF z R] by blast
  have "c - lz_T < lz_NumChar" using c by simp
  from update_total [OF inv this] obtain z' where z': "update (c - lz_T) (d_z d) = Some z'" "tree_inv z'" by blast
  have "textBuf z' = textBuf (d_z d)" using update_dict [OF z'(1)] by (simp add: dict_part_def)
  then have "reader_inv (d\<lparr>d_r := br, d_z := z'\<rparr>)" using assms z'(2) by (simp add: reader_inv_def)
  moreover have "decodeChar d = Some (c - lz_T, d\<lparr>d_r := br, d_z := z'\<rparr>)"
    using c z'(1) R tree_shape_lengths(3) [OF z] by (simp add: decodeChar_def array_simps)
  moreover have "c - lz_T < lz_NumChar" using c by simp
  ultimately show ?thesis by blast
qed

lemma and_ring: "(n :: nat) AND (lz_N - 1) < lz_N" "(n :: nat) AND (lz_N - 1) = n mod lz_N"
proof -
  have "lz_N - 1 = mask 11" by (simp add: lz_N_def mask_eq_exp_minus_1)
  then show "n AND (lz_N - 1) = n mod lz_N" by (simp only: take_bit_eq_mask [symmetric] take_bit_eq_mod) (simp add: lz_N_def)
  then show "n AND (lz_N - 1) < lz_N" by (simp add: lz_N_def)
qed

lemma emitRing_total:
  assumes "reader_inv d"
  shows "\<exists>d'. emitRing b d = Some d' \<and> reader_inv d' \<and> d_state_buf d' = d_state_buf d"
proof -
  have "d_state_r d < length (textBuf (d_z d))" using assms by (simp add: reader_inv_def lz_consts)
  then have "emitRing b d = Some (advanceState (d\<lparr>d_z := (d_z d)\<lparr>textBuf := (textBuf (d_z d))[d_state_r d := b]\<rparr>\<rparr>))"
    by (simp add: emitRing_def array_simps)
  moreover have "reader_inv (advanceState (d\<lparr>d_z := (d_z d)\<lparr>textBuf := (textBuf (d_z d))[d_state_r d := b]\<rparr>\<rparr>))"
    using assms and_ring(1) [of "d_state_r d + 1"]
    by (simp add: reader_inv_def advanceState_def tree_inv_def tree_shape_def child_def freq_order_def freq_sums_def weight_def)
  ultimately show ?thesis by (simp add: advanceState_def)
qed

lemma copyMatch_total:
  assumes "reader_inv d"
  shows "\<exists>out' d'. copyMatch n i k j out d = Some (out', d') \<and> reader_inv d' \<and>
    length out \<le> length out' \<and> length out' \<le> max n (length out) \<and> (0 < j \<and> length out < n \<longrightarrow> length out < length out')"
  using assms
proof (induction j arbitrary: k out d)
  case (Suc j)
  let ?i = "(i + k) AND (lz_N - 1)"
  have "?i < length (textBuf (d_z d))"
    using Suc.prems and_ring(1) [of "i + k"] by (simp add: reader_inv_def lz_consts)
  then have b: "idx (textBuf (d_z d)) ?i = Some (textBuf (d_z d) ! ?i)" by (simp add: array_simps)
  let ?b = "textBuf (d_z d) ! ?i"
  obtain out1 d1 where od: "(if length out < n then (out @ [?b], d) else (out, d\<lparr>d_state_buf := d_state_buf d @ [?b]\<rparr>)) = (out1, d1)"
    by (cases "length out < n") auto
  then have "reader_inv d1" using Suc.prems by (auto simp: reader_inv_def split: if_splits)
  then obtain d2 where d2: "emitRing ?b d1 = Some d2" "reader_inv d2" using emitRing_total by blast
  obtain out' d' where "copyMatch n i (k + 1) j out1 d2 = Some (out', d')" "reader_inv d'" "length out1 \<le> length out'" "length out' \<le> max n (length out1)"
    using Suc.IH [OF d2(2)] by blast
  then show ?case using b od d2(1) by (auto split: if_splits)
qed simp

lemma readLoop_total:
  assumes "reader_inv d"
  shows "\<exists>out' d'. readLoop n out d = Some (out', d') \<and> reader_inv d' \<and> length out' \<le> max n (length out)"
  using assms
proof (induction "n - length out" arbitrary: out d rule: less_induct)
  case less
  show ?case
  proof (cases "length out < n \<and> br_err (d_r d) = None \<and> sint (d_state_pos d) < sint (d_header_size d)")
    case go: True
    obtain c d1 where d1: "decodeChar d = Some (c, d1)" "reader_inv d1" using decodeChar_total [OF less.prems] by blast
    show ?thesis
    proof (cases "c < 256")
      case True
      obtain d2 where d2: "emitRing (of_nat c) d1 = Some d2" "reader_inv d2" using emitRing_total [OF d1(2)] by blast
      from less.hyps [of "out @ [of_nat c]" d2] show ?thesis
        using go True d1(1) d2 by (subst readLoop.simps) auto
    next
      case False
      obtain p br where p: "decodePosition (d_r d1) = (p, br)" by (cases "decodePosition (d_r d1)")
      let ?d = "d1\<lparr>d_r := br\<rparr>"
      let ?i = "nat ((int (d_state_r ?d) - int p - 1) AND (int lz_N - 1))"
      have inv: "reader_inv ?d" using d1(2) by (simp add: reader_inv_def)
      have "0 < c - 255 + lz_Threshold" using False by simp
      then obtain out2 d2 where d2: "copyMatch n ?i 0 (c - 255 + lz_Threshold) out ?d = Some (out2, d2)" "reader_inv d2"
          "length out < length out2" "length out2 \<le> n"
        using copyMatch_total [OF inv, of n ?i 0 "c - 255 + lz_Threshold" out] go by auto
      have "n - length out2 < n - length out" using d2 go by linarith
      from less.hyps [OF this d2(2)]
      obtain out' d' where "readLoop n out2 d2 = Some (out', d')" "reader_inv d'" "length out' \<le> n"
        using d2(4) by auto
      then show ?thesis
        using go False d1(1) d2(1) p by (subst readLoop.simps) (simp add: Let_def)
    qed
  next
    case False
    then have "readLoop n out d = Some (out, d)" by (subst readLoop.simps) (rule if_not_P)
    then show ?thesis using less.prems by simp
  qed
qed

lemma Reader_Read_total:
  assumes "reader_inv d"
  shows "\<exists>out e d'. Reader_Read n d = Some ((out, e), d') \<and> length out \<le> n \<and> reader_inv d'"
proof -
  define d1 where "d1 = (if br_err (d_r d) = Some EOF \<and> sint (d_state_pos d) < sint (d_header_size d)
    then d\<lparr>d_err := Some ErrUnexpectedEOF\<rparr> else if br_err (d_r d) \<noteq> None then d\<lparr>d_err := br_err (d_r d)\<rparr> else d)"
  define d2 where "d2 = d1\<lparr>d_state_buf := drop n (d_state_buf d1)\<rparr>"
  have inv: "reader_inv d1" "reader_inv d2" using assms by (auto simp: reader_inv_def d1_def d2_def)
  obtain out d' where "readLoop n (take n (d_state_buf d1)) d2 = Some (out, d')" "reader_inv d'" "length out \<le> n"
    using readLoop_total [OF inv(2), of n "take n (d_state_buf d1)"] by auto
  then show ?thesis
    using inv(1) unfolding Reader_Read_def Let_def d1_def [symmetric] d2_def by auto
qed

lemma fill_spaces:
  "n \<le> length tb \<Longrightarrow> foldM (\<lambda>i tb. upd tb i x) [0..<n] tb = Some (replicate n x @ drop n tb)"
proof (induction n)
  case (Suc n)
  then have "foldM (\<lambda>i tb. upd tb i x) [0..<n] tb = Some (replicate n x @ drop n tb)" by simp
  moreover have "upd (replicate n x @ drop n tb) n x = Some (replicate (Suc n) x @ drop (Suc n) tb)"
    using Suc.prems by (simp add: upd_def list_update_append drop_update_hd replicate_app_Cons_same)
  ultimately show ?case by (simp add: foldM_append)
qed simp

lemma newLZHUFF_dict: "newLZHUFF = Some z \<Longrightarrow> dict_part z = dict_part zero_lzhuf"
proof -
  assume "newLZHUFF = Some z"
  then obtain y i y' where 1: "foldM init_leaf [0..<lz_NumChar] zero_lzhuf = Some y"
      and 2: "foldM init_node [lz_NumChar..<lz_R + 1] (0, y) = Some (i, y')" and 3: "dict_part z = dict_part y'"
    by (auto simp: newLZHUFF_def bind_eq_Some_conv dict_part_def)
  have "dict_part s' = dict_part s" if "init_leaf i s = Some s'" for i s s'
    using that by (auto simp: init_leaf_def dict_part_def bind_eq_Some_conv)
  then have "dict_part y = dict_part zero_lzhuf" using foldM_keeps [OF 1, of dict_part] by auto
  moreover have "dict_part (snd s') = dict_part (snd s)" if "init_node i s = Some s'" for i s s'
    using that by (auto simp: init_node_def dict_part_def bind_eq_Some_conv split: prod.splits)
  then have "dict_part y' = dict_part y" using foldM_keeps [OF 2, of "\<lambda>s. dict_part (snd s)"] by auto
  ultimately show ?thesis using 3 by simp
qed

lemma NewReader_total:
  "\<exists>d e. NewReader crc16 src end = Some (d, e) \<and> (\<forall>d'. d = Some d' \<longrightarrow> reader_inv d')"
proof -
  obtain z where z: "newLZHUFF = Some z" "tree_inv z" using newLZHUFF_ok by blast
  have tb: "textBuf z = replicate (lz_N + lz_F - 1) 0"
    using newLZHUFF_dict [OF z(1)] by (simp add: dict_part_def zero_lzhuf_def)
  let ?tb = "replicate (lz_N - lz_F) 0x20 @ drop (lz_N - lz_F) (textBuf z)"
  have fill: "foldM (\<lambda>i tb. upd tb i 0x20) [0..<lz_N - lz_F] (textBuf z) = Some ?tb"
    by (rule fill_spaces) (simp add: tb lz_consts)
  have "reader_inv d" if "tree_inv (d_z d)" "textBuf (d_z d) = ?tb" "d_state_r d = lz_N - lz_R" for d
    using that by (simp add: reader_inv_def tb lz_consts)
  moreover have "tree_inv (z\<lparr>textBuf := ?tb\<rparr>)"
    using z(2) by (simp add: tree_inv_def tree_shape_def child_def freq_order_def freq_sums_def weight_def)
  ultimately show ?thesis
    unfolding NewReader_def z(1) bind.bind_lunit fill Let_def
    by (cases crc16) (auto split: sum.splits)
qed

section \<open>Properties\<close>

text \<open>A caller that reads with slices of the given lengths, whatever \<open>Read\<close> returns.\<close>

definition read_calls :: "nat list \<Rightarrow> Reader \<Rightarrow> Reader option" where
  "read_calls ns d = foldM (\<lambda>n d. do { (r, d) \<leftarrow> Reader_Read n d; Some d }) ns d"

lemma read_calls_total: "reader_inv d \<Longrightarrow> \<exists>d'. read_calls ns d = Some d' \<and> reader_inv d'"
  unfolding read_calls_def
proof (induction ns arbitrary: d)
  case (Cons n ns)
  then obtain out e d1 where "Reader_Read n d = Some ((out, e), d1)" "reader_inv d1"
    using Reader_Read_total by blast
  then show ?case using Cons.IH by auto
qed simp

text \<open>C15. On any input, valid or not, opening the reader and any number of reads return without an array
  access out of range and without looping forever, and no read returns more bytes than asked for.\<close>

theorem Reader_never_panics:
  "\<exists>d e. NewReader crc16 src end = Some (d, e) \<and>
     (\<forall>d0. d = Some d0 \<longrightarrow>
       (\<exists>d1. read_calls ns d0 = Some d1 \<and>
         (\<exists>out e d2. Reader_Read n d1 = Some ((out, e), d2) \<and> length out \<le> n)))"
proof -
  obtain d e where d: "NewReader crc16 src end = Some (d, e)" "\<And>d'. d = Some d' \<Longrightarrow> reader_inv d'"
    using NewReader_total by blast
  have "\<exists>d1. read_calls ns d0 = Some d1 \<and> (\<exists>out e d2. Reader_Read n d1 = Some ((out, e), d2) \<and> length out \<le> n)"
    if "d = Some d0" for d0
    using read_calls_total [OF d(2) [OF that], of ns] Reader_Read_total [of _ n] by blast
  then show ?thesis using d(1) by blast
qed

theorem Reader_never_panics_witness:
  "\<exists>d0 d1 out e d2. NewReader False [1, 0, 0, 0, 0xcb] EOF = Some (Some d0, None) \<and>
     read_calls [0, 3] d0 = Some d1 \<and> Reader_Read 2 d1 = Some ((out, e), d2) \<and> length out \<le> 2"
proof -
  obtain d0 where d0: "NewReader False [1, 0, 0, 0, 0xcb] EOF = Some (Some d0, None)"
    using NewReader_total [of False "[1, 0, 0, 0, 0xcb]" EOF]
    by (auto simp: NewReader_def Let_def readFull_def bind_eq_Some_conv)
  then show ?thesis
    using Reader_never_panics [of False "[1, 0, 0, 0, 0xcb]" EOF "[0, 3]" 2] by fastforce
qed
end
