(* ===== verification/Go_Strings.thy ===== *)
theory Go_Strings
  imports Go_Prelude
begin

unbundle bit_operations_syntax

text \<open>
  The parts of Go's \<^verbatim>\<open>strings\<close>, \<^verbatim>\<open>strconv\<close>, \<^verbatim>\<open>unicode/utf8\<close> and \<^verbatim>\<open>fmt\<close> the protocol code uses, on byte
  strings. A Go string is a list of bytes, here a \<^typ>\<open>string\<close> whose characters are the 256 bytes;
  ranging over it decodes UTF-8 with the replacement character for what is not UTF-8.
\<close>

abbreviation CR :: char where "CR \<equiv> CHR 0x0D"
abbreviation LF :: char where "LF \<equiv> CHR 0x0A"
abbreviation NUL :: char where "NUL \<equiv> CHR 0x00"

abbreviation byte_val :: "char \<Rightarrow> nat" where "byte_val c \<equiv> of_char c"

section \<open>UTF-8\<close>

definition RuneError :: nat where "RuneError = 0xFFFD"

definition cont_byte :: "nat \<Rightarrow> nat \<Rightarrow> char \<Rightarrow> bool" where
  "cont_byte lo hi c \<longleftrightarrow> lo \<le> byte_val c \<and> byte_val c \<le> hi"

text \<open>\<open>utf8.DecodeRuneInString\<close>: the rune and its width; one byte is consumed on an encoding error.\<close>

fun decodeRune :: "string \<Rightarrow> nat \<times> nat" where
  "decodeRune [] = (RuneError, 0)"
| "decodeRune (c # cs) =
     (let n = byte_val c in
      if n < 0x80 then (n, 1)
      else if n < 0xC2 \<or> 0xF4 < n then (RuneError, 1)
      else if n < 0xE0 then
        (case cs of
           c1 # _ \<Rightarrow> if cont_byte 0x80 0xBF c1 then ((n mod 0x20) * 0x40 + byte_val c1 mod 0x40, 2) else (RuneError, 1)
         | _ \<Rightarrow> (RuneError, 1))
      else if n < 0xF0 then
        (case cs of
           c1 # c2 # _ \<Rightarrow>
             if cont_byte (if n = 0xE0 then 0xA0 else 0x80) (if n = 0xED then 0x9F else 0xBF) c1 \<and> cont_byte 0x80 0xBF c2
             then ((n mod 0x10) * 0x1000 + (byte_val c1 mod 0x40) * 0x40 + byte_val c2 mod 0x40, 3) else (RuneError, 1)
         | _ \<Rightarrow> (RuneError, 1))
      else
        (case cs of
           c1 # c2 # c3 # _ \<Rightarrow>
             if cont_byte (if n = 0xF0 then 0x90 else 0x80) (if n = 0xF4 then 0x8F else 0xBF) c1 \<and>
                cont_byte 0x80 0xBF c2 \<and> cont_byte 0x80 0xBF c3
             then ((n mod 8) * 0x40000 + (byte_val c1 mod 0x40) * 0x1000 + (byte_val c2 mod 0x40) * 0x40 +
                   byte_val c3 mod 0x40, 4) else (RuneError, 1)
         | _ \<Rightarrow> (RuneError, 1)))"

lemma decodeRune_width: "s \<noteq> [] \<Longrightarrow> 0 < snd (decodeRune s)"
  by (cases s) (auto simp: Let_def split: list.splits)

text \<open>\<open>for _, c := range s\<close>.\<close>

function runes :: "string \<Rightarrow> nat list" where
  "runes s = (if s = [] then [] else fst (decodeRune s) # runes (drop (snd (decodeRune s)) s))"
  by pat_completeness auto
termination
  by (relation "measure length") (use decodeRune_width in auto)

declare runes.simps [simp del]

text \<open>The UTF-8 encoding of a rune, as the verb \<^verbatim>\<open>%c\<close> and the conversion \<^verbatim>\<open>string(r)\<close> print it.\<close>

definition runeString :: "nat \<Rightarrow> string" where
  "runeString r =
     (if r < 0x80 then [char_of r]
      else if r < 0x800 then [char_of (0xC0 + r div 0x40), char_of (0x80 + r mod 0x40)]
      else if r > 0x10FFFF \<or> (0xD800 \<le> r \<and> r \<le> 0xDFFF) then [CHR 0xEF, CHR 0xBF, CHR 0xBD]
      else if r < 0x10000 then
        [char_of (0xE0 + r div 0x1000), char_of (0x80 + r div 0x40 mod 0x40), char_of (0x80 + r mod 0x40)]
      else
        [char_of (0xF0 + r div 0x40000), char_of (0x80 + r div 0x1000 mod 0x40), char_of (0x80 + r div 0x40 mod 0x40),
         char_of (0x80 + r mod 0x40)])"

definition quoted :: "string \<Rightarrow> string" where
  "quoted s = CHR 0x27 # s @ [CHR 0x27]"

text \<open>A slice of strings as \<^verbatim>\<open>%v\<close> prints it.\<close>

fun joinWith :: "string \<Rightarrow> string list \<Rightarrow> string" where
  "joinWith sep [] = []"
| "joinWith sep [s] = s"
| "joinWith sep (s # ss) = s @ sep @ joinWith sep ss"

definition printStrings :: "string list \<Rightarrow> string" where
  "printStrings ss = ''['' @ joinWith '' '' ss @ '']''"

definition runeStart :: "char \<Rightarrow> bool" where
  "runeStart c \<longleftrightarrow> \<not> (0x80 \<le> byte_val c \<and> byte_val c < 0xC0)"

text \<open>\<open>utf8.DecodeLastRuneInString\<close>: back to the nearest byte that can start a rune, four bytes at most.\<close>

definition decodeLastRune :: "string \<Rightarrow> nat \<times> nat" where
  "decodeLastRune s =
     (if s = [] then (RuneError, 0)
      else if byte_val (last s) < 0x80 then (byte_val (last s), 1)
      else
        case filter (\<lambda>k. k \<le> length s \<and> runeStart (s ! (length s - k))) [2, 3, 4] of
          [] \<Rightarrow> (RuneError, 1)
        | k # _ \<Rightarrow>
            (case decodeRune (drop (length s - k) s) of (r, n) \<Rightarrow> if n = k then (r, n) else (RuneError, 1)))"

lemma decodeLastRune_width: "s \<noteq> [] \<Longrightarrow> 0 < snd (decodeLastRune s)"
proof -
  have "0 < k" if "filter P [2, 3, 4] = k # ks" for P and k :: nat and ks
  proof -
    have "k \<in> set (filter P [2, 3, 4])" using that by simp
    then show ?thesis by (simp only: set_filter) auto
  qed
  then show "s \<noteq> [] \<Longrightarrow> 0 < snd (decodeLastRune s)"
    by (auto simp: decodeLastRune_def split: list.splits prod.splits)
qed

section \<open>White space\<close>

text \<open>\<open>unicode.IsSpace\<close>.\<close>

definition isSpace :: "nat \<Rightarrow> bool" where
  "isSpace r \<longleftrightarrow> r \<in> {0x09, 0x0A, 0x0B, 0x0C, 0x0D, 0x20, 0x85, 0xA0, 0x1680, 0x2028, 0x2029, 0x202F, 0x205F, 0x3000} \<or>
     (0x2000 \<le> r \<and> r \<le> 0x200A)"

function trimLeft :: "string \<Rightarrow> string" where
  "trimLeft s =
     (if s = [] then [] else case decodeRune s of (r, n) \<Rightarrow> if isSpace r then trimLeft (drop n s) else s)"
  by pat_completeness auto
termination
  by (relation "measure length") (use decodeRune_width in \<open>auto simp: prod_eq_iff dest!: sym [of "(_, _)"]\<close>)

function trimRight :: "string \<Rightarrow> string" where
  "trimRight s =
     (if s = [] then [] else case decodeLastRune s of (r, n) \<Rightarrow> if isSpace r then trimRight (take (length s - n) s) else s)"
  by pat_completeness auto
termination
  by (relation "measure length") (use decodeLastRune_width in \<open>auto simp: prod_eq_iff dest!: sym [of "(_, _)"]\<close>)

declare trimLeft.simps [simp del] trimRight.simps [simp del]

definition TrimSpace :: "string \<Rightarrow> string" where
  "TrimSpace s = trimRight (trimLeft s)"

section \<open>Searching and splitting\<close>

definition HasPrefix :: "string \<Rightarrow> string \<Rightarrow> bool" where
  "HasPrefix s p \<longleftrightarrow> take (length p) s = p"

definition HasSuffix :: "string \<Rightarrow> string \<Rightarrow> bool" where
  "HasSuffix s p \<longleftrightarrow> length p \<le> length s \<and> drop (length s - length p) s = p"

definition TrimPrefix :: "string \<Rightarrow> string \<Rightarrow> string" where
  "TrimPrefix s p = (if HasPrefix s p then drop (length p) s else s)"

fun Contains :: "string \<Rightarrow> string \<Rightarrow> bool" where
  "Contains [] p = (p = [])"
| "Contains (c # s) p = (HasPrefix (c # s) p \<or> Contains s p)"

text \<open>\<open>strings.Split\<close> with a separator of one byte.\<close>

fun Split :: "char \<Rightarrow> string \<Rightarrow> string list" where
  "Split sep [] = [[]]"
| "Split sep (c # s) =
     (if c = sep then [] # Split sep s
      else case Split sep s of p # ps \<Rightarrow> (c # p) # ps | [] \<Rightarrow> [[c]])"

text \<open>The last position of a byte that satisfies \<open>P\<close>.\<close>

fun lastIndex :: "(char \<Rightarrow> bool) \<Rightarrow> string \<Rightarrow> nat option" where
  "lastIndex P [] = None"
| "lastIndex P (c # s) =
     (case lastIndex P s of Some i \<Rightarrow> Some (Suc i) | None \<Rightarrow> if P c then Some 0 else None)"

section \<open>Numbers\<close>

datatype num_err = ErrSyntax | ErrRange

definition digit_val :: "char \<Rightarrow> nat option" where
  "digit_val c =
     (let n = byte_val c in
      if 48 \<le> n \<and> n \<le> 57 then Some (n - 48)
      else if 97 \<le> n \<and> n \<le> 122 then Some (n - 97 + 10)
      else if 65 \<le> n \<and> n \<le> 90 then Some (n - 65 + 10)
      else None)"

definition maxUint64 :: nat where "maxUint64 = 0xFFFFFFFFFFFFFFFF"

fun parseDigits :: "nat \<Rightarrow> nat \<Rightarrow> string \<Rightarrow> nat \<times> num_err option" where
  "parseDigits base n [] = (n, None)"
| "parseDigits base n (c # s) =
     (case digit_val c of
        None \<Rightarrow> (0, Some ErrSyntax)
      | Some d \<Rightarrow>
          if base \<le> d then (0, Some ErrSyntax)
          else if maxUint64 < n * base + d then (maxUint64, Some ErrRange)
          else parseDigits base (n * base + d) s)"

definition parseUint :: "nat \<Rightarrow> string \<Rightarrow> nat \<times> num_err option" where
  "parseUint base s = (if s = [] then (0, Some ErrSyntax) else parseDigits base 0 s)"

text \<open>\<open>strconv.ParseInt(s, base, 64)\<close> for an explicit base, and \<open>strconv.Atoi\<close> on 64 bit machines. The value
  that comes with an error is what callers see that ignore the error.\<close>

definition ParseInt :: "nat \<Rightarrow> string \<Rightarrow> int \<times> num_err option" where
  "ParseInt base s =
     (case s of
        [] \<Rightarrow> (0, Some ErrSyntax)
      | c # rest \<Rightarrow>
          let neg = (c = CHR ''-'');
              digits = (if c = CHR ''-'' \<or> c = CHR ''+'' then rest else s)
          in case parseUint base digits of
               (n, Some ErrSyntax) \<Rightarrow> (0, Some ErrSyntax)
             | (n, e) \<Rightarrow>
                 if \<not> neg \<and> 2 ^ 63 \<le> n then (2 ^ 63 - 1, Some ErrRange)
                 else if neg \<and> 2 ^ 63 < n then (- (2 ^ 63), Some ErrRange)
                 else (if neg then - int n else int n, None))"

definition Atoi :: "string \<Rightarrow> int \<times> num_err option" where
  "Atoi s = ParseInt 10 s"

definition digit_char :: "nat \<Rightarrow> char" where
  "digit_char d = (if d < 10 then char_of (48 + d) else char_of (55 + d))"

function printNat :: "nat \<Rightarrow> nat \<Rightarrow> string" where
  "printNat base n =
     (if base < 2 then [] else if n < base then [digit_char n] else printNat base (n div base) @ [digit_char (n mod base)])"
  by pat_completeness auto
termination
  by (relation "measure snd") auto

declare printNat.simps [simp del]

text \<open>The verb \<^verbatim>\<open>%d\<close>, and \<^verbatim>\<open>%02X\<close> and \<^verbatim>\<open>%08d\<close> of a number that is not negative.\<close>

definition printInt :: "int \<Rightarrow> string" where
  "printInt i = (if i < 0 then CHR ''-'' # printNat 10 (nat (- i)) else printNat 10 (nat i))"

definition padLeft :: "nat \<Rightarrow> string \<Rightarrow> string" where
  "padLeft w s = replicate (w - length s) (CHR ''0'') @ s"

definition print02X :: "nat \<Rightarrow> string" where
  "print02X n = padLeft 2 (printNat 16 n)"

definition print08d :: "nat \<Rightarrow> string" where
  "print08d n = padLeft 8 (printNat 10 n)"

section \<open>Lemmas\<close>

named_theorems string_simps \<open>evaluation of string functions on plain text\<close>

subsection \<open>White space\<close>

text \<open>A visible ASCII character.\<close>

definition visible :: "char \<Rightarrow> bool" where
  "visible c \<longleftrightarrow> 0x21 \<le> byte_val c \<and> byte_val c < 0x7F"

lemma visible_not_space: "visible c \<Longrightarrow> \<not> isSpace (byte_val c)"
  by (auto simp: visible_def isSpace_def)

lemma trimLeft_visible [string_simps]:
  assumes "visible c"
  shows "trimLeft (c # s) = c # s"
proof -
  have "decodeRune (c # s) = (byte_val c, 1)" using assms by (simp add: visible_def)
  then show ?thesis using visible_not_space [OF assms] by (simp add: trimLeft.simps [of "c # s"])
qed

lemma trimRight_visible [string_simps]:
  assumes "visible c"
  shows "trimRight (s @ [c]) = s @ [c]"
proof -
  have "decodeLastRune (s @ [c]) = (byte_val c, 1)" using assms by (simp add: visible_def decodeLastRune_def)
  then show ?thesis using visible_not_space [OF assms] by (simp add: trimRight.simps [of "s @ [c]"])
qed

lemma trimRight_CR [string_simps]: "trimRight (s @ [CR]) = trimRight s"
proof -
  have "decodeLastRune (s @ [CR]) = (0x0D, 1)" by (simp add: decodeLastRune_def)
  then show ?thesis by (simp add: trimRight.simps [of "s @ [CR]"] isSpace_def)
qed

lemma TrimSpace_line:
  assumes "s \<noteq> []" and "visible (hd s)" and "visible (last s)"
  shows "TrimSpace (s @ [CR]) = s" and "TrimSpace s = s"
proof -
  obtain c cs where s: "s = c # cs" using assms(1) by (cases s) auto
  have "trimRight s = s"
    using trimRight_visible [OF assms(3), of "butlast s"] assms(1) by simp
  moreover have "trimLeft (s @ [CR]) = s @ [CR]" "trimLeft s = s"
    using trimLeft_visible [of c] assms(2) by (simp_all add: s)
  ultimately show "TrimSpace (s @ [CR]) = s" "TrimSpace s = s" by (simp_all add: TrimSpace_def trimRight_CR)
qed

subsection \<open>Splitting\<close>

lemma Split_not_Nil [simp]: "Split sep s \<noteq> []"
  by (induction s) (auto split: list.splits)

lemma Split_none [string_simps]: "sep \<notin> set p \<Longrightarrow> Split sep p = [p]"
  by (induction p) auto

lemma Split_cons [string_simps]: "sep \<notin> set p \<Longrightarrow> Split sep (p @ sep # s) = p # Split sep s"
  by (induction p) auto

subsection \<open>Prefixes\<close>

lemma HasPrefix_append [string_simps]: "HasPrefix (p @ s) p"
  by (simp add: HasPrefix_def)

lemma TrimPrefix_append [string_simps]: "TrimPrefix (p @ s) p = s"
  by (simp add: TrimPrefix_def HasPrefix_def)

subsection \<open>Numbers\<close>

lemma byte_val_char_of: "n < 256 \<Longrightarrow> byte_val (char_of n) = n"
  by (simp add: of_char_of)

lemma digit_val_char: "d < 16 \<Longrightarrow> digit_val (digit_char d) = Some d"
  by (auto simp: digit_val_def digit_char_def byte_val_char_of Let_def)

lemma printNat_digits:
  "2 \<le> base \<Longrightarrow> base \<le> 16 \<Longrightarrow> c \<in> set (printNat base n) \<Longrightarrow> \<exists>d < base. c = digit_char d"
proof (induction base n rule: printNat.induct)
  case (1 base n)
  show ?case
  proof (cases "n < base")
    case True
    then show ?thesis using 1 by (auto simp: printNat.simps [of base n])
  next
    case False
    then have "c \<in> set (printNat base (n div base)) \<or> c = digit_char (n mod base)"
      using 1 by (auto simp: printNat.simps [of base n] split: if_splits)
    then show ?thesis using 1 False by (auto intro: exI [of _ "n mod base"])
  qed
qed

lemma digit_char_visible: "d < 16 \<Longrightarrow> visible (digit_char d)"
  by (auto simp: visible_def digit_char_def byte_val_char_of)

lemma printNat_visible: "2 \<le> base \<Longrightarrow> base \<le> 16 \<Longrightarrow> c \<in> set (printNat base n) \<Longrightarrow> visible c"
  using printNat_digits [of base c n] digit_char_visible by fastforce

lemma printNat_nonempty: "2 \<le> base \<Longrightarrow> printNat base n \<noteq> []"
  by (simp add: printNat.simps)

lemma parseDigits_append:
  assumes "parseDigits base n s = (m, None)"
  shows "parseDigits base n (s @ t) = parseDigits base m t"
  using assms by (induction s arbitrary: n) (auto split: option.splits if_splits)

lemma parseDigits_print:
  assumes "2 \<le> base" and "base \<le> 16"
  shows "n \<le> maxUint64 \<Longrightarrow> parseDigits base 0 (printNat base n) = (n, None)"
  using assms
proof (induction base n rule: printNat.induct)
  case (1 base n)
  show ?case
  proof (cases "n < base")
    case True
    then show ?thesis using 1 by (simp add: printNat.simps [of base n] digit_val_char)
  next
    case False
    have "n div base \<le> maxUint64" using 1 div_le_dividend [of n base] by linarith
    then have "parseDigits base 0 (printNat base (n div base)) = (n div base, None)" using 1 False by simp
    moreover have d: "n mod base < base" using 1 by simp
    moreover have "digit_val (digit_char (n mod base)) = Some (n mod base)"
      using d 1 by (intro digit_val_char) linarith
    ultimately show ?thesis
      using 1 False d by (simp add: printNat.simps [of base n] parseDigits_append not_le)
  qed
qed

lemma ParseInt_printNat:
  assumes "2 \<le> base" and "base \<le> 16" and "n < 2 ^ 63"
  shows "ParseInt base (printNat base n) = (int n, None)"
proof -
  obtain c cs where s: "printNat base n = c # cs" using printNat_nonempty [OF assms(1)] by (cases "printNat base n") auto
  obtain d where d: "d < base" "c = digit_char d" using printNat_digits [OF assms(1,2), of c n] s by auto
  have "digit_val (CHR ''-'') = None" "digit_val (CHR ''+'') = None" by (simp_all add: digit_val_def)
  then have "c \<noteq> CHR ''-''" "c \<noteq> CHR ''+''" using digit_val_char [of d] d assms(2) by auto
  moreover have "parseDigits base 0 (c # cs) = (n, None)"
    using parseDigits_print [OF assms(1,2), of n] assms(3) s by (simp add: maxUint64_def)
  ultimately show ?thesis using assms(3) by (simp add: ParseInt_def parseUint_def s)
qed

lemma Atoi_printInt: "0 \<le> i \<Longrightarrow> i < 2 ^ 63 \<Longrightarrow> Atoi (printInt i) = (i, None)"
  using ParseInt_printNat [of 10 "nat i"] by (simp add: Atoi_def printInt_def nat_less_iff)

lemma padLeft_0: "parseDigits base 0 (replicate k (CHR ''0'') @ s) = parseDigits base 0 s" if "0 < base"
  using that by (induction k) (auto simp: digit_val_def)

subsection \<open>ASCII\<close>

definition ascii :: "string \<Rightarrow> bool" where
  "ascii s \<longleftrightarrow> (\<forall>c \<in> set s. byte_val c < 128)"

lemma runes_ascii: "ascii s \<Longrightarrow> runes s = map byte_val s"
proof (induction s)
  case Nil
  show ?case by (simp add: runes.simps)
next
  case (Cons c s)
  then have "decodeRune (c # s) = (byte_val c, 1)" by (simp add: ascii_def)
  then show ?case using Cons by (simp add: runes.simps [of "c # s"] ascii_def)
qed

section \<open>Strings and byte slices\<close>

text \<open>The bytes of a string as words.\<close>

definition to_bytes :: "string \<Rightarrow> byte list" where
  "to_bytes = map (\<lambda>c. of_nat (byte_val c))"

definition of_bytes :: "byte list \<Rightarrow> string" where
  "of_bytes = map (\<lambda>b. char_of (unat b))"

lemma of_bytes_to_bytes [simp]: "of_bytes (to_bytes s) = s"
proof -
  have "char_of (unat (of_nat (byte_val c) :: byte)) = c" for c
  proof -
    have "byte_val c < (256 :: nat)" by (rule nat_of_char_less_256)
    then have "unat (of_nat (byte_val c) :: byte) = byte_val c" by (simp add: unat_of_nat)
    then show ?thesis by simp
  qed
  then show ?thesis by (simp add: of_bytes_def to_bytes_def comp_def)
qed

lemma to_bytes_of_bytes [simp]: "to_bytes (of_bytes bs) = bs"
proof -
  have "of_nat (byte_val (char_of (unat b))) = b" for b :: byte
    using unsigned_less [of b, where 'a = nat] by (simp add: of_char_of)
  then show ?thesis by (simp add: of_bytes_def to_bytes_def comp_def)
qed

lemma length_to_bytes [simp]: "length (to_bytes s) = length s" "length (of_bytes bs) = length bs"
  by (simp_all add: of_bytes_def to_bytes_def)

end
