(* ===== verification/Fbb_Lines.thy ===== *)
theory Fbb_Lines
  imports Lzhuf_Codec Go_Strings
begin

text \<open>
  The connection of a session and the line level of the protocol: \<^verbatim>\<open>src/fbb/helpers.go\<close>. A connection
  is the bytes still to arrive, the error after them, the bytes sent, how many more bytes can be sent before
  sending fails (and the error then), what \<^verbatim>\<open>Flush\<close> returns and the robust mode if the connection implements
  these interfaces, whether it was closed and what \<^verbatim>\<open>Close\<close> returns. The session's \<^verbatim>\<open>bufio.Reader\<close> has no state of its own here, since
  what it has buffered is still to be delivered.
\<close>

section \<open>Errors\<close>

text \<open>\<open>Msg\<close> is an error made of its text, \<open>Wrapped\<close> one made with \<^verbatim>\<open>%w\<close>, and \<open>Errorf0\<close> the result of
  \<^verbatim>\<open>fmt.Errorf\<close> on a format string that came from the remote side, with no arguments; \<open>NumError\<close> is the one of
  \<^verbatim>\<open>strconv\<close>.\<close>

datatype go_err = IoErr io_err | Msg string | Wrapped string go_err | Errorf0 string | NumError string num_err

text \<open>\<^verbatim>\<open>errors.Is\<close> for \<^verbatim>\<open>io.EOF\<close>, \<^verbatim>\<open>io.ErrUnexpectedEOF\<close> or \<^verbatim>\<open>net.ErrClosed\<close>: the connection is gone.\<close>

definition ErrClosed :: io_err where "ErrClosed = ErrIO ''use of closed network connection''"

fun isConnLost :: "go_err \<Rightarrow> bool" where
  "isConnLost (IoErr e) = (e = EOF \<or> e = ErrUnexpectedEOF \<or> e = ErrClosed)"
| "isConnLost (Wrapped s e) = isConnLost e"
| "isConnLost (Msg s) = False"
| "isConnLost (Errorf0 s) = False"
| "isConnLost (NumError s e) = False"

section \<open>The connection\<close>

record conn =
  c_in :: string
  c_end :: go_err
  c_out :: string
  c_fail :: "(nat \<times> go_err) option"
  c_flush :: "go_err option option"
  c_robust :: "bool option"
  c_closed :: bool
  c_closeErr :: "go_err option"

definition conn_Write :: "string \<Rightarrow> conn \<Rightarrow> go_err option \<times> conn" where
  "conn_Write s c =
     (case c_fail c of
        None \<Rightarrow> (None, c\<lparr>c_out := c_out c @ s\<rparr>)
      | Some (n, e) \<Rightarrow>
          if length s \<le> n then (None, c\<lparr>c_out := c_out c @ s, c_fail := Some (n - length s, e)\<rparr>)
          else (Some e, c\<lparr>c_out := c_out c @ take n s, c_fail := Some (0, e)\<rparr>))"

abbreviation conn_write :: "string \<Rightarrow> conn \<Rightarrow> conn" where
  "conn_write s c \<equiv> snd (conn_Write s c)"

text \<open>\<^verbatim>\<open>transport.Robust\<close>, where the connection implements it.\<close>

definition SetRobust :: "bool \<Rightarrow> conn \<Rightarrow> conn" where
  "SetRobust b c = (if c_robust c = None then c else c\<lparr>c_robust := Some b\<rparr>)"

definition conn_ReadByte :: "conn \<Rightarrow> (go_err + char) \<times> conn" where
  "conn_ReadByte c = (case c_in c of [] \<Rightarrow> (Inl (c_end c), c) | b # bs \<Rightarrow> (Inr b, c\<lparr>c_in := bs\<rparr>))"

definition conn_Peek :: "conn \<Rightarrow> go_err + char" where
  "conn_Peek c = (case c_in c of [] \<Rightarrow> Inl (c_end c) | b # bs \<Rightarrow> Inr b)"

text \<open>\<open>ReadString(delim)\<close>: up to and including the delimiter, or everything together with the error.\<close>

definition conn_ReadString :: "char \<Rightarrow> conn \<Rightarrow> (string \<times> go_err option) \<times> conn" where
  "conn_ReadString delim c =
     (case dropWhile (\<lambda>b. b \<noteq> delim) (c_in c) of
        [] \<Rightarrow> ((c_in c, Some (c_end c)), c\<lparr>c_in := []\<rparr>)
      | d # rest \<Rightarrow> ((takeWhile (\<lambda>b. b \<noteq> delim) (c_in c) @ [d], None), c\<lparr>c_in := rest\<rparr>))"

section \<open>Lines\<close>

text \<open>The two slice expressions panic on lines that consist of one or two NUL bytes.\<close>

definition cleanString :: "string \<Rightarrow> string option" where
  "cleanString str = (
     let str = TrimSpace str in
     if length str < 1 then Some str
     else
       let str = (if hd str = NUL then tl str else str) in
       if str = [] then None
       else if last str = NUL then (if length str < 2 then None else Some (take (length str - 2) str))
       else Some str)"

definition errLine :: "string \<Rightarrow> go_err option" where
  "errLine str =
     (if str = [] \<or> hd str \<noteq> CHR ''*'' then None
      else case lastIndex (\<lambda>c. c = CHR ''*'') str of
             None \<Rightarrow> None
           | Some i \<Rightarrow> if length str \<le> i + 1 then None else Some (Errorf0 (TrimSpace (drop (i + 1) str))))"

definition nextLineRemoteErr :: "bool \<Rightarrow> conn \<Rightarrow> ((string \<times> go_err option) \<times> conn) option" where
  "nextLineRemoteErr parseErr c =
     (case conn_ReadString CR c of
        ((line, Some e), c) \<Rightarrow> Some ((line, Some e), c)
      | ((line, None), c) \<Rightarrow> do {
          line \<leftarrow> cleanString line;
          case errLine line of
            Some e \<Rightarrow> if parseErr then Some (([], Some e), c) else Some ((line, None), c)
          | None \<Rightarrow> Some ((line, None), c)
        })"

definition nextLine :: "conn \<Rightarrow> ((string \<times> go_err option) \<times> conn) option" where
  "nextLine c = nextLineRemoteErr True c"

text \<open>\<open>ReadLine\<close> reads from a plain reader, here its bytes and the error after them; the result is the
  line and what is left.\<close>

fun ReadLine :: "string \<Rightarrow> string \<Rightarrow> go_err \<Rightarrow> ((go_err + string) \<times> string) option" where
  "ReadLine lineBuffer [] end = Some (Inl end, [])"
| "ReadLine lineBuffer (b # src) end =
     (if b = LF \<or> b = CR then
        if lineBuffer \<noteq> [] then do { line \<leftarrow> cleanString lineBuffer; Some (Inr line, src) }
        else ReadLine lineBuffer src end
      else ReadLine (lineBuffer @ [b]) src end)"

section \<open>Reading what was written\<close>

definition fresh_conn :: "string \<Rightarrow> conn" where
  "fresh_conn input = \<lparr>c_in = input, c_end = IoErr EOF, c_out = [], c_fail = None, c_flush = None, c_robust = None,
     c_closed = False, c_closeErr = None\<rparr>"

lemma fresh_conn_simps [simp]:
  "c_in (fresh_conn s) = s" "c_out (fresh_conn s) = []" "c_fail (fresh_conn s) = None" "fresh_conn s\<lparr>c_in := t\<rparr> = fresh_conn t"
  by (simp_all add: fresh_conn_def)

lemma conn_Write_works [simp]: "c_fail c = None \<Longrightarrow> conn_Write s c = (None, c\<lparr>c_out := c_out c @ s\<rparr>)"
  by (simp add: conn_Write_def)

lemma conn_Write_reads [simp]: "c_in (conn_write s c) = c_in c" "c_end (conn_write s c) = c_end c"
  by (auto simp: conn_Write_def split: option.splits)

text \<open>A line as the protocol sends it: not empty, no carriage return inside, visible at both ends.\<close>

definition plain_line :: "string \<Rightarrow> bool" where
  "plain_line s \<longleftrightarrow> s \<noteq> [] \<and> CR \<notin> set s \<and> visible (hd s) \<and> visible (last s)"

lemma visible_not_NUL: "visible c \<Longrightarrow> c \<noteq> NUL"
  by (auto simp: visible_def)

lemma cleanString_plain: "plain_line s \<Longrightarrow> cleanString (s @ [CR]) = Some s"
  using visible_not_NUL TrimSpace_line(1) [of s]
  by (auto simp: cleanString_def plain_line_def Let_def)

lemma ReadString_line:
  assumes "delim \<notin> set s" and "c_in c = s @ delim # rest"
  shows "conn_ReadString delim c = ((s @ [delim], None), c\<lparr>c_in := rest\<rparr>)"
proof -
  have "takeWhile (\<lambda>b. b \<noteq> delim) (s @ delim # rest) = s" "dropWhile (\<lambda>b. b \<noteq> delim) (s @ delim # rest) = delim # rest"
    using assms(1) by (induction s) auto
  then show ?thesis using assms(2) by (simp add: conn_ReadString_def)
qed

lemma nextLine_plain:
  assumes "plain_line s" and "hd s \<noteq> CHR ''*''" and "c_in c = s @ CR # rest"
  shows "nextLine c = Some ((s, None), c\<lparr>c_in := rest\<rparr>)"
proof -
  have "CR \<notin> set s" using assms(1) by (simp add: plain_line_def)
  note ReadString_line [OF this assms(3)]
  then show ?thesis
    using cleanString_plain [OF assms(1)] assms(2)
    by (simp add: nextLine_def nextLineRemoteErr_def errLine_def)
qed

text \<open>A read error is reported, whatever was read before it.\<close>

lemma nextLine_eof:
  "CR \<notin> set (c_in c) \<Longrightarrow> nextLine c = Some ((c_in c, Some (c_end c)), c\<lparr>c_in := []\<rparr>)"
proof -
  assume "CR \<notin> set (c_in c)"
  then have "conn_ReadString CR c = ((c_in c, Some (c_end c)), c\<lparr>c_in := []\<rparr>)"
  proof -
    assume "CR \<notin> set (c_in c)"
    then have "dropWhile (\<lambda>b. b \<noteq> CR) (c_in c) = []" by (auto simp: dropWhile_eq_Nil_conv)
    then show ?thesis unfolding conn_ReadString_def by (simp only: list.case)
  qed
  then show ?thesis by (simp add: nextLine_def nextLineRemoteErr_def)
qed

end
