(* ===== verification/Fbb_Mime.thy ===== *)
theory Fbb_Mime
  imports Fbb_Lines
begin

text \<open>
  RFC 2047 encoded words in titles, subjects and file names: the parts of Go's \<^verbatim>\<open>mime\<close> package the code uses and
  \<open>WordDecoder.DecodeHeader\<close> of \<^verbatim>\<open>src/fbb/header.go\<close>. The charset tables are the package go-charset, which
  is not part of the repository: \<open>fromCharset\<close> is a parameter.
\<close>

section \<open>Searching\<close>

text \<open>\<open>strings.Index\<close>.\<close>

fun Index :: "string \<Rightarrow> string \<Rightarrow> nat option" where
  "Index [] p = (if p = [] then Some 0 else None)"
| "Index (c # s) p = (if HasPrefix (c # s) p then Some 0 else map_option Suc (Index s p))"

text \<open>\<open>strings.EqualFold\<close> where one side is ASCII: besides the ASCII letters only the Kelvin sign and the long s
  fold to an ASCII letter.\<close>

definition foldRune :: "nat \<Rightarrow> nat" where
  "foldRune r =
     (if 65 \<le> r \<and> r \<le> 90 then r + 32 else if r = 0x212A then 107 else if r = 0x17F then 115 else r)"

definition EqualFold :: "string \<Rightarrow> string \<Rightarrow> bool" where
  "EqualFold s t \<longleftrightarrow> map foldRune (runes s) = map foldRune (runes t)"

text \<open>\<open>utf8.Valid\<close>.\<close>

function validUtf8 :: "string \<Rightarrow> bool" where
  "validUtf8 s =
     (if s = [] then True
      else if decodeRune s = (RuneError, 1) then False
      else validUtf8 (drop (snd (decodeRune s)) s))"
  by pat_completeness auto
termination
  by (relation "measure length") (use decodeRune_width in auto)

declare validUtf8.simps [simp del]

section \<open>Encoding\<close>

definition needsEncoding :: "string \<Rightarrow> bool" where
  "needsEncoding s \<longleftrightarrow> (\<exists>b \<in> set (runes s). (b < 0x20 \<or> 0x7E < b) \<and> b \<noteq> 9)"

definition qSafe :: "char \<Rightarrow> bool" where
  "qSafe b \<longleftrightarrow> visible b \<and> b \<noteq> CHR ''='' \<and> b \<noteq> CHR ''?'' \<and> b \<noteq> CHR ''_''"

definition writeQByte :: "char \<Rightarrow> string" where
  "writeQByte b =
     (if b = CHR '' '' then ''_''
      else if qSafe b then [b]
      else [CHR ''='', digit_char (byte_val b div 16), digit_char (byte_val b mod 16)])"

definition writeQString :: "string \<Rightarrow> string" where
  "writeQString s = concat (map writeQByte s)"

definition openWord :: "string \<Rightarrow> string" where
  "openWord cs = ''=?'' @ cs @ ''?q?''"

definition closeWord :: string where "closeWord = ''?=''"

definition maxContentLen :: nat where "maxContentLen = 63"

definition runeLen :: "string \<Rightarrow> nat" where
  "runeLen s = (if hd s = CHR '' '' \<or> qSafe (hd s) then 1 else snd (decodeRune s))"

definition encLen :: "string \<Rightarrow> nat" where
  "encLen s = (if hd s = CHR '' '' \<or> qSafe (hd s) then 1 else 3 * runeLen s)"

lemma runeLen_pos: "s \<noteq> [] \<Longrightarrow> 0 < runeLen s"
  using decodeRune_width by (simp add: runeLen_def)

text \<open>Words of a UTF-8 charset are split so that none is too long and no rune is divided.\<close>

function qEncode :: "string \<Rightarrow> nat \<Rightarrow> string \<Rightarrow> string" where
  "qEncode cs currentLen s =
     (if s = [] then []
      else if currentLen + encLen s > maxContentLen then
        closeWord @ '' '' @ openWord cs @ writeQString (take (runeLen s) s) @ qEncode cs (encLen s) (drop (runeLen s) s)
      else writeQString (take (runeLen s) s) @ qEncode cs (currentLen + encLen s) (drop (runeLen s) s))"
  by pat_completeness auto
termination
  by (relation "measure (\<lambda>(cs, n, s). length s)") (use runeLen_pos in auto)

declare qEncode.simps [simp del]

text \<open>\<open>mime.QEncoding.Encode\<close>.\<close>

definition QEncode :: "string \<Rightarrow> string \<Rightarrow> string" where
  "QEncode cs s =
     (if \<not> needsEncoding s then s
      else openWord cs @ (if EqualFold cs ''UTF-8'' then qEncode cs 0 s else writeQString s) @ closeWord)"

section \<open>Decoding\<close>

definition fromHex :: "char \<Rightarrow> nat option" where
  "fromHex b = (case digit_val b of None \<Rightarrow> None | Some d \<Rightarrow> if d < 16 then Some d else None)"

fun qDecode :: "string \<Rightarrow> string option" where
  "qDecode [] = Some []"
| "qDecode (c # s) =
     (if c = CHR ''_'' then map_option ((#) (CHR '' '')) (qDecode s)
      else if c = CHR ''='' then
        (case s of
           h # l # s' \<Rightarrow> do { a \<leftarrow> fromHex h; b \<leftarrow> fromHex l; r \<leftarrow> qDecode s'; Some (char_of (16 * a + b) # r) }
         | _ \<Rightarrow> None)
      else if (0x20 \<le> byte_val c \<and> byte_val c \<le> 0x7E) \<or> c = LF \<or> c = CR \<or> c = CHR 0x09 then
        map_option ((#) c) (qDecode s)
      else None)"

text \<open>\<open>base64.StdEncoding.DecodeString\<close>: line breaks are skipped, the last group may be padded.\<close>

definition b64_val :: "char \<Rightarrow> nat option" where
  "b64_val c =
     (let n = byte_val c in
      if 65 \<le> n \<and> n \<le> 90 then Some (n - 65)
      else if 97 \<le> n \<and> n \<le> 122 then Some (n - 97 + 26)
      else if 48 \<le> n \<and> n \<le> 57 then Some (n - 48 + 52)
      else if c = CHR ''+'' then Some 62
      else if c = CHR ''/'' then Some 63
      else None)"

fun b64Groups :: "string \<Rightarrow> string option" where
  "b64Groups [] = Some []"
| "b64Groups (a # b # c # d # s) =
     do {
       a \<leftarrow> b64_val a;
       b \<leftarrow> b64_val b;
       if c = CHR ''='' then (if d = CHR ''='' \<and> s = [] then Some [char_of (a * 4 + b div 16)] else None)
       else do {
         c \<leftarrow> b64_val c;
         if d = CHR ''='' then
           (if s = [] then Some [char_of (a * 4 + b div 16), char_of (b mod 16 * 16 + c div 4)] else None)
         else do {
           d \<leftarrow> b64_val d;
           r \<leftarrow> b64Groups s;
           Some (char_of (a * 4 + b div 16) # char_of (b mod 16 * 16 + c div 4) # char_of (c mod 4 * 64 + d) # r)
         }
       }
     }"
| "b64Groups s = None"

definition b64Decode :: "string \<Rightarrow> string option" where
  "b64Decode s = b64Groups (filter (\<lambda>c. c \<noteq> CR \<and> c \<noteq> LF) s)"

definition decodeText :: "char \<Rightarrow> string \<Rightarrow> string option" where
  "decodeText encoding text =
     (if encoding = CHR ''B'' \<or> encoding = CHR ''b'' then b64Decode text
      else if encoding = CHR ''Q'' \<or> encoding = CHR ''q'' then qDecode text
      else None)"

definition convertWord :: "string \<Rightarrow> string \<Rightarrow> go_err + string" where
  "convertWord cs content =
     (if EqualFold ''utf-8'' cs then Inr content
      else if EqualFold ''iso-8859-1'' cs then Inr (concat (map (\<lambda>c. runeString (byte_val c)) content))
      else if EqualFold ''us-ascii'' cs then
        Inr (concat (map (\<lambda>c. if 0x80 \<le> byte_val c then runeString RuneError else [c]) content))
      else Inl (Msg (''mime: unhandled charset '' @ cs)))"

text \<open>The next encoded word: where it starts, its charset, its encoding, its text, and where it ends.\<close>

definition nextWord :: "string \<Rightarrow> (nat \<times> string \<times> char \<times> string \<times> nat) option" where
  "nextWord header = do {
     start \<leftarrow> Index header ''=?'';
     i \<leftarrow> Index (drop (start + 2) header) ''?'';
     let cs = take i (drop (start + 2) header);
     let cur = start + 2 + i + 1;
     if length header < cur + 4 then None
     else if header ! (cur + 1) \<noteq> CHR ''?'' then None
     else do {
       j \<leftarrow> Index (drop (cur + 2) header) ''?='';
       Some (start, cs, header ! cur, take j (drop (cur + 2) header), cur + 2 + j + 2)
     }
   }"

lemma nextWord_some: "nextWord h = Some (start, cs, e, t, end) \<Longrightarrow> h \<noteq> [] \<and> 0 < end"
  by (auto simp: nextWord_def bind_eq_Some_conv Let_def split: if_splits)

definition hasNonWhitespace :: "string \<Rightarrow> bool" where
  "hasNonWhitespace s \<longleftrightarrow> (\<exists>c \<in> set s. c \<notin> {CHR '' '', CHR 0x09, LF, CR})"

abbreviation prepend :: "string \<Rightarrow> go_err + string \<Rightarrow> go_err + string" where
  "prepend s r \<equiv> map_sum id ((@) s) r"

function decodeWords :: "bool \<Rightarrow> string \<Rightarrow> go_err + string" where
  "decodeWords betweenWords header =
     (case nextWord header of
        None \<Rightarrow> Inr header
      | Some (start, cs, encoding, text, end) \<Rightarrow>
          (case decodeText encoding text of
             None \<Rightarrow> prepend (take (start + 2) header) (decodeWords False (drop (start + 2) header))
           | Some content \<Rightarrow>
               (case convertWord cs content of
                  Inl e \<Rightarrow> Inl e
                | Inr s \<Rightarrow>
                    prepend ((if 0 < start \<and> (\<not> betweenWords \<or> hasNonWhitespace (take start header)) then take start header
                              else []) @ s)
                      (decodeWords True (drop end header)))))"
  by pat_completeness auto
termination
  by (relation "measure (\<lambda>(b, h). length h)") (use nextWord_some in \<open>auto dest!: nextWord_some\<close>)

declare decodeWords.simps [simp del]

text \<open>\<open>mime.WordDecoder.DecodeHeader\<close>.\<close>

definition mimeDecodeHeader :: "string \<Rightarrow> go_err + string" where
  "mimeDecodeHeader header =
     (case Index header ''=?'' of
        None \<Rightarrow> Inr header
      | Some i \<Rightarrow> prepend (take i header) (decodeWords False (drop i header)))"

definition DefaultCharset :: string where "DefaultCharset = ''ISO-8859-1''"

text \<open>\<open>WordDecoder.DecodeHeader\<close> of the repository: text without an encoded word is taken as UTF-8 if it is valid
  and as the default charset otherwise.\<close>

definition DecodeHeader :: "(string \<Rightarrow> string \<Rightarrow> go_err + string) \<Rightarrow> string \<Rightarrow> string \<times> go_err option" where
  "DecodeHeader fromCharset header =
     (if Index header ''=?'' \<noteq> None then
        (case mimeDecodeHeader header of Inl e \<Rightarrow> ([], Some e) | Inr s \<Rightarrow> (s, None))
      else if validUtf8 header then (header, None)
      else (case fromCharset DefaultCharset header of Inl e \<Rightarrow> (header, Some e) | Inr s \<Rightarrow> (s, None)))"

section \<open>Decoding what was encoded\<close>

lemma digit_char_plain: "d < 16 \<Longrightarrow> digit_char d \<noteq> CHR ''?''"
  using digit_val_char [of d] by (auto simp: digit_val_def)

lemma writeQByte_cases:
  obtains "b = CHR '' ''" "writeQByte b = ''_''"
  | "b \<noteq> CHR '' ''" "qSafe b" "writeQByte b = [b]"
  | "\<not> qSafe b" "writeQByte b = [CHR ''='', digit_char (byte_val b div 16), digit_char (byte_val b mod 16)]"
proof -
  consider "b = CHR '' ''" | "b \<noteq> CHR '' ''" "qSafe b" | "b \<noteq> CHR '' ''" "\<not> qSafe b" by blast
  then show thesis using that by cases (simp_all add: writeQByte_def)
qed

lemma byte_val_less: "byte_val c < 256"
  by simp

lemma qDecode_byte: "qDecode (writeQByte b @ s) = map_option ((#) b) (qDecode s)"
proof (cases b rule: writeQByte_cases)
  case 1
  then show ?thesis by simp
next
  case 2
  then show ?thesis by (auto simp: qSafe_def visible_def)
next
  case 3
  have "byte_val b < 256" by (rule byte_val_less)
  then have "byte_val b div 16 < 16" by (simp add: less_mult_imp_div_less)
  then have "fromHex (digit_char (byte_val b div 16)) = Some (byte_val b div 16)"
      "fromHex (digit_char (byte_val b mod 16)) = Some (byte_val b mod 16)"
    by (simp_all add: fromHex_def digit_val_char)
  moreover have "char_of (16 * (byte_val b div 16) + byte_val b mod 16) = b" by simp
  ultimately show ?thesis using 3(2) by (cases "qDecode s") simp_all
qed

lemma qDecode_writeQ: "qDecode (writeQString s) = Some s"
  by (induction s) (simp_all add: writeQString_def qDecode_byte)

lemma writeQString_plain: "CHR ''?'' \<notin> set (writeQString s)"
proof (induction s)
  case (Cons b s)
  have "byte_val b div 16 < 16" using byte_val_less [of b] by (simp add: less_mult_imp_div_less)
  then have "CHR ''?'' \<notin> set (writeQByte b)"
    using digit_char_plain [of "byte_val b div 16"] digit_char_plain [of "byte_val b mod 16"]
    by (auto simp: writeQByte_def qSafe_def)
  then show ?case using Cons by (simp add: writeQString_def)
qed (simp add: writeQString_def)

lemma HasPrefix_Cons: "HasPrefix (c # s) (d # p) \<longleftrightarrow> c = d \<and> HasPrefix s p"
  by (simp add: HasPrefix_def)

lemma Index_skip:
  "c \<notin> set w \<Longrightarrow> Index (w @ c # p @ r) (c # p) = Some (length w)"
  by (induction w) (use HasPrefix_Cons in \<open>auto simp: HasPrefix_def\<close>)

lemma nextWord_encoded:
  assumes "pre = [] \<or> pre = '' ''" and cs: "cs = ''utf-8''"
  shows "nextWord (pre @ openWord cs @ writeQString w @ closeWord @ rest) =
    Some (length pre, cs, CHR ''q'', writeQString w, length (pre @ openWord cs @ writeQString w @ closeWord))"
proof -
  have 1: "Index (writeQString w @ CHR ''?'' # ''='' @ rest) ''?='' = Some (length (writeQString w))"
    by (rule Index_skip [OF writeQString_plain])
  show ?thesis
    using assms(1) 1
    by (auto simp: nextWord_def openWord_def closeWord_def cs HasPrefix_def numeral_eq_Suc)
qed

lemma decode_encoded:
  assumes "pre = [] \<or> (pre = '' '' \<and> between)" and cs: "cs = ''utf-8''"
  shows "decodeWords between (pre @ openWord cs @ writeQString w @ closeWord @ rest) = prepend w (decodeWords True rest)"
proof -
  have "nextWord (pre @ openWord cs @ writeQString w @ closeWord @ rest) =
      Some (length pre, cs, CHR ''q'', writeQString w, length (pre @ openWord cs @ writeQString w @ closeWord))"
    using assms by (intro nextWord_encoded) auto
  moreover have "decodeText (CHR ''q'') (writeQString w) = Some w" by (simp add: decodeText_def qDecode_writeQ)
  moreover have "convertWord cs w = Inr w" by (simp add: convertWord_def EqualFold_def cs)
  ultimately show ?thesis
    using assms(1) by (subst decodeWords.simps) (auto simp: hasNonWhitespace_def)
qed

abbreviation laterWords :: "string \<Rightarrow> string list \<Rightarrow> string" where
  "laterWords cs ws \<equiv> concat (map (\<lambda>w. '' '' @ openWord cs @ writeQString w @ closeWord) ws)"

lemma writeQString_append: "writeQString (s @ t) = writeQString s @ writeQString t"
  by (simp add: writeQString_def)

lemma qEncode_words:
  "\<exists>w ws. qEncode cs n s @ closeWord = writeQString w @ closeWord @ laterWords cs ws \<and> w @ concat ws = s"
proof (induction cs n s rule: qEncode.induct)
  case (1 cs n s)
  show ?case
  proof (cases "s = []")
    case True
    then show ?thesis by (intro exI [of _ "[]"]) (simp add: qEncode.simps writeQString_def)
  next
    case False
    let ?t = "take (runeLen s) s" and ?d = "drop (runeLen s) s"
    show ?thesis
    proof (cases "n + encLen s > maxContentLen")
      case True
      then obtain w ws where IH: "qEncode cs (encLen s) ?d @ closeWord = writeQString w @ closeWord @ laterWords cs ws"
          "w @ concat ws = ?d"
        using 1(1) False by blast
      have "qEncode cs n s @ closeWord = closeWord @ '' '' @ openWord cs @ writeQString ?t @ qEncode cs (encLen s) ?d @ closeWord"
        using True False by (simp add: qEncode.simps [of cs n s])
      then show ?thesis using IH
        by (intro exI [of _ "[]"] exI [of _ "(?t @ w) # ws"]) (simp add: writeQString_append writeQString_def [of "[]"])
    next
      case nosplit: False
      then obtain w ws where IH: "qEncode cs (n + encLen s) ?d @ closeWord = writeQString w @ closeWord @ laterWords cs ws"
          "w @ concat ws = ?d"
        using 1(2) False by blast
      have "qEncode cs n s @ closeWord = writeQString ?t @ qEncode cs (n + encLen s) ?d @ closeWord"
        using nosplit False by (simp add: qEncode.simps [of cs n s])
      then show ?thesis using IH
        by (intro exI [of _ "?t @ w"] exI [of _ ws]) (simp add: writeQString_append)
    qed
  qed
qed

lemma decode_laterWords: "cs = ''utf-8'' \<Longrightarrow> decodeWords True (laterWords cs ws) = Inr (concat ws)"
proof (induction ws)
  case Nil
  show ?case by (simp add: decodeWords.simps [of True "[]"] nextWord_def)
next
  case (Cons w ws)
  then show ?case using decode_encoded [of "'' ''" True cs w "laterWords cs ws"] by simp
qed

lemma utf8_fold: "EqualFold ''utf-8'' ''UTF-8''"
  by (simp add: EqualFold_def runes_ascii ascii_def foldRune_def)

lemma QEncode_decode:
  assumes "needsEncoding t"
  shows "mimeDecodeHeader (QEncode ''utf-8'' t) = Inr t" and "Index (QEncode ''utf-8'' t) ''=?'' = Some 0"
proof -
  let ?cs = "''utf-8''"
  obtain w ws where *: "qEncode ?cs 0 t @ closeWord = writeQString w @ closeWord @ laterWords ?cs ws" "w @ concat ws = t"
    using qEncode_words by blast
  have q: "QEncode ?cs t = openWord ?cs @ writeQString w @ closeWord @ laterWords ?cs ws"
    using assms utf8_fold * by (simp add: QEncode_def)
  show i: "Index (QEncode ''utf-8'' t) ''=?'' = Some 0" by (simp add: q openWord_def HasPrefix_def)
  show "mimeDecodeHeader (QEncode ''utf-8'' t) = Inr t"
    using i decode_encoded [of "[]" False ?cs w] decode_laterWords [of ?cs ws] *(2)
    by (simp add: mimeDecodeHeader_def q)
qed


lemma validUtf8_plain: "\<not> needsEncoding t \<Longrightarrow> validUtf8 t"
proof (induction t rule: validUtf8.induct)
  case (1 t)
  show ?case
  proof (cases "t = []")
    case False
    then have "runes t = fst (decodeRune t) # runes (drop (snd (decodeRune t)) t)" by (simp add: runes.simps [of t])
    then have "\<not> needsEncoding (drop (snd (decodeRune t)) t)" "decodeRune t \<noteq> (RuneError, 1)"
      using 1(2) by (auto simp: needsEncoding_def RuneError_def)
    then show ?thesis using 1(1) False by (simp add: validUtf8.simps [of t])
  qed (simp add: validUtf8.simps)
qed

text \<open>A title that \<open>writeCompressed\<close> encodes for the wire is decoded to the same title by the receiving side, for
  every sequence of bytes, unless it is plain ASCII that already looks like an encoded word.\<close>

theorem title_roundtrip:
  assumes "needsEncoding t \<or> Index t ''=?'' = None"
  shows "DecodeHeader fromCharset (QEncode ''utf-8'' t) = (t, None)"
proof (cases "needsEncoding t")
  case True
  then show ?thesis using QEncode_decode [OF True] by (simp add: DecodeHeader_def)
next
  case False
  then show ?thesis using assms validUtf8_plain [of t] by (simp add: DecodeHeader_def QEncode_def)
qed

theorem title_roundtrip_witness:
  "DecodeHeader (\<lambda>cs s. Inr s) (QEncode ''utf-8'' [CHR ''R'', CHR 0xC3, CHR 0xB8]) = ([CHR ''R'', CHR 0xC3, CHR 0xB8], None)"
proof (rule title_roundtrip)
  have "runes [CHR ''R'', CHR 0xC3, CHR 0xB8] = [82, 0xF8]" by (simp add: runes.simps cont_byte_def)
  then show "needsEncoding [CHR ''R'', CHR 0xC3, CHR 0xB8] \<or> Index [CHR ''R'', CHR 0xC3, CHR 0xB8] ''=?'' = None"
    by (simp add: needsEncoding_def)
qed

end
