(* ===== verification/Fbb_Header.thy ===== *)
theory Fbb_Header
  imports Fbb_Mime "HOL-Library.AList" "HOL-Library.Char_ord" "HOL-Library.List_Lexorder"
begin

text \<open>
  Message headers: \<open>Header\<close> of \<^verbatim>\<open>src/fbb/header.go\<close> with the parts of \<^verbatim>\<open>net/textproto\<close> it wraps, as of the Go
  version the module names (1.19). A Go map has no order and \<open>Header.Write\<close> sorts the keys; the model is an
  association list with distinct keys.
\<close>

section \<open>Keys\<close>

type_synonym Header = "(string \<times> string list) list"

definition HEADER_MID :: string where "HEADER_MID = ''Mid''"
definition HEADER_TO :: string where "HEADER_TO = ''To''"
definition HEADER_DATE :: string where "HEADER_DATE = ''Date''"
definition HEADER_TYPE :: string where "HEADER_TYPE = ''Type''"
definition HEADER_FROM :: string where "HEADER_FROM = ''From''"
definition HEADER_CC :: string where "HEADER_CC = ''Cc''"
definition HEADER_SUBJECT :: string where "HEADER_SUBJECT = ''Subject''"
definition HEADER_MBO :: string where "HEADER_MBO = ''Mbo''"
definition HEADER_BODY :: string where "HEADER_BODY = ''Body''"
definition HEADER_FILE :: string where "HEADER_FILE = ''File''"
definition HEADER_CONTENT_TYPE :: string where "HEADER_CONTENT_TYPE = ''Content-Type''"
definition HEADER_CONTENT_TRANSFER_ENCODING :: string where
  "HEADER_CONTENT_TRANSFER_ENCODING = ''Content-Transfer-Encoding''"

lemmas header_names = HEADER_MID_def HEADER_TO_def HEADER_DATE_def HEADER_TYPE_def HEADER_FROM_def HEADER_CC_def
  HEADER_SUBJECT_def HEADER_MBO_def HEADER_BODY_def HEADER_FILE_def HEADER_CONTENT_TYPE_def
  HEADER_CONTENT_TRANSFER_ENCODING_def

definition isUpper :: "char \<Rightarrow> bool" where "isUpper c \<longleftrightarrow> 65 \<le> byte_val c \<and> byte_val c \<le> 90"
definition isLower :: "char \<Rightarrow> bool" where "isLower c \<longleftrightarrow> 97 \<le> byte_val c \<and> byte_val c \<le> 122"
definition upperChar :: "char \<Rightarrow> char" where "upperChar c = (if isLower c then char_of (byte_val c - 32) else c)"
definition lowerChar :: "char \<Rightarrow> char" where "lowerChar c = (if isUpper c then char_of (byte_val c + 32) else c)"

definition tokenChar :: "char \<Rightarrow> bool" where
  "tokenChar c \<longleftrightarrow> isUpper c \<or> isLower c \<or> (48 \<le> byte_val c \<and> byte_val c \<le> 57) \<or>
     c \<in> set (CHR 0x27 # ''!#$%&*+-.^_`|~'')"

fun canonChars :: "bool \<Rightarrow> string \<Rightarrow> string" where
  "canonChars upper [] = []"
| "canonChars upper (c # s) = (let c = (if upper then upperChar c else lowerChar c) in c # canonChars (c = CHR ''-'') s)"

text \<open>\<open>textproto.CanonicalMIMEHeaderKey\<close>.\<close>

definition canonicalKey :: "string \<Rightarrow> string" where
  "canonicalKey k = (if (\<forall>c \<in> set k. tokenChar c) then canonChars True k else k)"

section \<open>Access\<close>

definition h_values :: "Header \<Rightarrow> string \<Rightarrow> string list" where
  "h_values h k = (case map_of h k of None \<Rightarrow> [] | Some vs \<Rightarrow> vs)"

definition Header_Add :: "string \<Rightarrow> string \<Rightarrow> Header \<Rightarrow> Header" where
  "Header_Add key val h = (let key = canonicalKey key in AList.update key (h_values h key @ [val]) h)"

definition Header_Set :: "string \<Rightarrow> string \<Rightarrow> Header \<Rightarrow> Header" where
  "Header_Set key val h = AList.update (canonicalKey key) [val] h"

definition get :: "Header \<Rightarrow> string \<Rightarrow> string" where
  "get h key = (case h_values h key of [] \<Rightarrow> [] | v # vs \<Rightarrow> v)"

definition Header_Get :: "Header \<Rightarrow> string \<Rightarrow> string" where
  "Header_Get h key = get h (canonicalKey key)"

definition Header_Del :: "string \<Rightarrow> Header \<Rightarrow> Header" where
  "Header_Del key h = AList.delete (canonicalKey key) h"

section \<open>Writing\<close>

definition asciiWS :: "char \<Rightarrow> bool" where
  "asciiWS c \<longleftrightarrow> c = CHR '' '' \<or> c = CHR 0x09 \<or> c = LF \<or> c = CR"

definition trimWhile :: "(char \<Rightarrow> bool) \<Rightarrow> string \<Rightarrow> string" where
  "trimWhile P s = rev (dropWhile P (rev (dropWhile P s)))"

text \<open>\<open>textproto.TrimString\<close>.\<close>

definition TrimString :: "string \<Rightarrow> string" where "TrimString = trimWhile asciiWS"

abbreviation CRLF :: string where "CRLF \<equiv> [CR, LF]"

definition headerLine :: "string \<Rightarrow> string \<Rightarrow> string" where
  "headerLine key val = key @ '': '' @ val @ CRLF"

definition otherKeys :: "Header \<Rightarrow> string list" where
  "otherKeys h = sort (filter (\<lambda>k. \<not> EqualFold k HEADER_MID) (map fst h))"

text \<open>\<open>Header.Write\<close> into a buffer: what was written, and the error.\<close>

definition Header_Write :: "Header \<Rightarrow> string \<times> go_err option" where
  "Header_Write h =
     (if get h HEADER_MID = [] then ([], Some (Msg ''Missing MID in header''))
      else (headerLine ''Mid'' (get h HEADER_MID) @
            concat (map (\<lambda>key. concat (map (\<lambda>v. headerLine key (TrimString v)) (h_values h key))) (otherKeys h)), None))"

section \<open>Reading\<close>

text \<open>\<open>bufio.Reader.ReadLine\<close>; \<open>None\<close> at the end of the input.\<close>

definition dropCR :: "string \<Rightarrow> string" where
  "dropCR s = (if s \<noteq> [] \<and> last s = CR then butlast s else s)"

definition rdLine :: "string \<Rightarrow> (string \<times> string) option" where
  "rdLine s =
     (if s = [] then None
      else case dropWhile (\<lambda>c. c \<noteq> LF) s of
             [] \<Rightarrow> Some (s, [])
           | _ # r \<Rightarrow> Some (dropCR (takeWhile (\<lambda>c. c \<noteq> LF) s), r))"

definition blank :: "char \<Rightarrow> bool" where "blank c \<longleftrightarrow> c = CHR '' '' \<or> c = CHR 0x09"

lemma rdLine_shrinks: "rdLine s = Some (l, r) \<Longrightarrow> length r < length s"
proof -
  assume *: "rdLine s = Some (l, r)"
  have "length (dropWhile (\<lambda>c. c \<noteq> LF) s) \<le> length s" by (rule length_dropWhile_le)
  then show ?thesis using * by (auto simp: rdLine_def split: if_splits list.splits)
qed

text \<open>Continuation lines start with a blank.\<close>

function contLines :: "string \<Rightarrow> string \<Rightarrow> string \<times> string" where
  "contLines buf s =
     (if s \<noteq> [] \<and> blank (hd s) then
        (case rdLine (dropWhile blank s) of
           None \<Rightarrow> (buf, [])
         | Some (l, r) \<Rightarrow> contLines (buf @ '' '' @ trimWhile blank l) r)
      else (buf, s))"
  by pat_completeness auto
termination
proof (relation "measure (\<lambda>(b, s). length s)", goal_cases)
  case (2 buf s y l r)
  then show ?case using rdLine_shrinks [of "dropWhile blank s" l r] length_dropWhile_le [of blank s] by simp
qed simp

declare contLines.simps [simp del]

definition protocolError :: "string \<Rightarrow> go_err" where "protocolError s = Msg s"

text \<open>One header line with its continuations; an empty line ends the header.\<close>

definition rdContinued :: "string \<Rightarrow> (string \<times> go_err option) \<times> string" where
  "rdContinued s =
     (case rdLine s of
        None \<Rightarrow> (([], Some (IoErr EOF)), [])
      | Some (l, r) \<Rightarrow>
          if l = [] then (([], None), r)
          else if CHR '':'' \<notin> set l then (([], Some (protocolError (''malformed MIME header: missing colon: '' @ l))), r)
          else (case contLines (trimWhile blank l) r of (kv, r) \<Rightarrow> ((kv, None), r)))"

lemma contLines_shrinks: "length (snd (contLines b s)) \<le> length s"
proof (induction b s rule: contLines.induct)
  case (1 b s)
  show ?case
  proof (cases "s \<noteq> [] \<and> blank (hd s)")
    case True
    show ?thesis
    proof (cases "rdLine (dropWhile blank s)")
      case None
      then show ?thesis using True by (simp add: contLines.simps [of b s])
    next
      case (Some lr)
      then obtain l r where lr: "rdLine (dropWhile blank s) = Some (l, r)" by (cases lr) auto
      then have "length r \<le> length s"
        using rdLine_shrinks [OF lr] length_dropWhile_le [of blank s] by simp
      then show ?thesis using 1 True lr by (fastforce simp: contLines.simps [of b s])
    qed
  next
    case False
    then show ?thesis by (subst contLines.simps) (simp only: if_False snd_conv)
  qed
qed

lemma rdContinued_shrinks: "rdContinued s = ((kv, e), r) \<Longrightarrow> kv \<noteq> [] \<Longrightarrow> length r < length s"
proof -
  assume *: "rdContinued s = ((kv, e), r)" "kv \<noteq> []"
  then obtain l r' where l: "rdLine s = Some (l, r')" "contLines (trimWhile blank l) r' = (kv, r)"
    by (auto simp: rdContinued_def split: option.splits prod.splits if_splits)
  show ?thesis
    using rdLine_shrinks [OF l(1)] contLines_shrinks [of "trimWhile blank l" r'] l(2) by simp
qed

text \<open>\<open>textproto.Reader.ReadMIMEHeader\<close>: the header read so far with the error, and the rest of the input.\<close>

function rdHeader :: "Header \<Rightarrow> string \<Rightarrow> (Header \<times> go_err option) \<times> string" where
  "rdHeader m s =
     (case rdContinued s of
        ((kv, e), r) \<Rightarrow>
          if kv = [] then ((m, e), r)
          else if CHR '':'' \<notin> set kv then ((m, Some (protocolError (''malformed MIME header line: '' @ kv))), r)
          else
            let k = takeWhile (\<lambda>c. c \<noteq> CHR '':'') kv;
                v = tl (dropWhile (\<lambda>c. c \<noteq> CHR '':'') kv);
                key = canonicalKey k
            in if key = [] then rdHeader m r
               else rdHeader (AList.update key (h_values m key @ [dropWhile blank v]) m) r)"
  by pat_completeness auto
termination
  by (relation "measure (\<lambda>(m, s). length s)") (simp, (hypsubst, simp only: in_measure case_prod_conv, erule rdContinued_shrinks [OF sym], assumption)+)

declare rdHeader.simps [simp del]

section \<open>Reading a header that was written\<close>

definition clean_value :: "string \<Rightarrow> bool" where
  "clean_value v \<longleftrightarrow> CR \<notin> set v \<and> LF \<notin> set v \<and> (v \<noteq> [] \<longrightarrow> \<not> blank (hd v) \<and> \<not> blank (last v))"

definition clean_key :: "string \<Rightarrow> bool" where
  "clean_key k \<longleftrightarrow> k \<noteq> [] \<and> (\<forall>c \<in> set k. tokenChar c) \<and> canonicalKey k = k"

lemma tokenChar_plain: "tokenChar c \<Longrightarrow> c \<noteq> CHR '':'' \<and> c \<noteq> CR \<and> c \<noteq> LF \<and> c \<noteq> CHR '' '' \<and> c \<noteq> CHR 0x09"
  by (auto simp: tokenChar_def isUpper_def isLower_def)

lemma dropWhile_not_hd: "v = [] \<or> \<not> P (hd v) \<Longrightarrow> dropWhile P v = v"
  by (cases v) auto

lemma trimWhile_id: "v = [] \<or> (\<not> P (hd v) \<and> \<not> P (last v)) \<Longrightarrow> trimWhile P v = v"
  by (cases "v = []") (auto simp: trimWhile_def dropWhile_not_hd hd_rev)

lemma TrimString_clean: "clean_value v \<Longrightarrow> TrimString v = v"
proof (cases "v = []")
  case False
  assume *: "clean_value v"
  have "hd v \<noteq> CR \<and> hd v \<noteq> LF \<and> last v \<noteq> CR \<and> last v \<noteq> LF"
    using * hd_in_set [OF False] last_in_set [OF False] by (metis clean_value_def)
  then show ?thesis using * False unfolding TrimString_def
    by (intro trimWhile_id) (auto simp: clean_value_def asciiWS_def blank_def)
qed (simp add: TrimString_def trimWhile_def)

lemma takeWhile_until: "c \<notin> set s \<Longrightarrow> takeWhile (\<lambda>x. x \<noteq> c) (s @ c # r) = s" "c \<notin> set s \<Longrightarrow> dropWhile (\<lambda>x. x \<noteq> c) (s @ c # r) = c # r"
  by (induction s) auto

lemma rdLine_line: "LF \<notin> set s \<Longrightarrow> rdLine (s @ CRLF @ r) = Some (s, r)"
proof -
  assume "LF \<notin> set s"
  then have "LF \<notin> set (s @ [CR])" by simp
  note takeWhile_until [OF this, of r]
  then show ?thesis by (simp add: rdLine_def dropCR_def)
qed

lemma contLines_none: "s = [] \<or> \<not> blank (hd s) \<Longrightarrow> contLines b s = (b, s)"
  by (subst contLines.simps) auto

lemma rdContinued_line:
  assumes "clean_key k" and "clean_value v" and "s = [] \<or> \<not> blank (hd s)"
  shows "\<exists>w. rdContinued (headerLine k v @ s) = ((k @ CHR '':'' # w, None), s) \<and> dropWhile blank w = v"
proof -
  let ?l = "k @ '': '' @ v"
  have k: "k \<noteq> []" "CHR '':'' \<notin> set k" "\<not> blank (hd k)" "LF \<notin> set k"
    using assms(1) tokenChar_plain by (auto simp: clean_key_def blank_def)
  have "LF \<notin> set ?l" using k assms(2) by (auto simp: clean_value_def)
  from rdLine_line [OF this, of s] have l: "rdLine (headerLine k v @ s) = Some (?l, s)" by (simp add: headerLine_def)
  have c: "rdContinued (headerLine k v @ s) = ((trimWhile blank ?l, None), s)"
    using l k(1) contLines_none [OF assms(3)] by (simp add: rdContinued_def)
  show ?thesis
  proof (cases "v = []")
    case True
    have "trimWhile blank ?l = k @ '':''"
      using True k by (simp add: trimWhile_def dropWhile_not_hd blank_def)
    then show ?thesis using c True by (intro exI [of _ "[]"]) simp
  next
    case False
    then have "trimWhile blank ?l = ?l" using k assms(2) by (intro trimWhile_id) (auto simp: clean_value_def)
    then show ?thesis using c False assms(2)
      by (intro exI [of _ "CHR '' '' # v"]) (simp add: blank_def dropWhile_not_hd clean_value_def)
  qed
qed

lemma rdHeader_line:
  assumes "clean_key k" and "clean_value v" and "s = [] \<or> \<not> blank (hd s)"
  shows "rdHeader m (headerLine k v @ s) = rdHeader (AList.update k (h_values m k @ [v]) m) s"
proof -
  obtain w where w: "rdContinued (headerLine k v @ s) = ((k @ CHR '':'' # w, None), s)" "dropWhile blank w = v"
    using rdContinued_line [OF assms] by blast
  have "CHR '':'' \<notin> set k" "canonicalKey k = k" "k \<noteq> []"
    using assms(1) tokenChar_plain by (auto simp: clean_key_def)
  then show ?thesis using w takeWhile_until [of "CHR '':''" k w] by (simp add: rdHeader.simps [of m "headerLine k v @ s"])
qed

lemma rdHeader_end: "rdHeader m (CRLF @ rest) = ((m, None), rest)"
  using rdLine_line [of "[]" rest] by (simp add: rdHeader.simps [of m] rdContinued_def)

abbreviation header_text :: "(string \<times> string) list \<Rightarrow> string" where
  "header_text kvs \<equiv> concat (map (\<lambda>(k, v). headerLine k v) kvs)"

abbreviation add_all :: "(string \<times> string) list \<Rightarrow> Header \<Rightarrow> Header" where
  "add_all kvs m \<equiv> fold (\<lambda>(k, v) m. AList.update k (h_values m k @ [v]) m) kvs m"

lemma header_text_start: "\<forall>(k, v) \<in> set kvs. clean_key k \<Longrightarrow> \<not> blank (hd (header_text kvs @ CRLF @ rest))"
proof (cases kvs)
  case (Cons kv kvs')
  assume *: "\<forall>(k, v) \<in> set kvs. clean_key k"
  obtain k v where kv: "kv = (k, v)" by (cases kv)
  have "clean_key k" using * Cons kv by auto
  then have "k \<noteq> []" "\<not> blank (hd k)" using tokenChar_plain [of "hd k"] by (auto simp: clean_key_def blank_def)
  then show ?thesis by (simp add: Cons kv headerLine_def)
qed (simp add: blank_def)

lemma rdHeader_text:
  "\<forall>(k, v) \<in> set kvs. clean_key k \<and> clean_value v \<Longrightarrow>
   rdHeader m (header_text kvs @ CRLF @ rest) = ((add_all kvs m, None), rest)"
proof (induction kvs arbitrary: m)
  case Nil
  then show ?case using rdHeader_end by simp
next
  case (Cons kv kvs)
  obtain k v where kv: "kv = (k, v)" by (cases kv)
  have "\<not> blank (hd (header_text kvs @ CRLF @ rest))" using Cons.prems by (intro header_text_start) auto
  then have "rdHeader m (headerLine k v @ header_text kvs @ CRLF @ rest) =
      rdHeader (AList.update k (h_values m k @ [v]) m) (header_text kvs @ CRLF @ rest)"
    using Cons.prems kv by (intro rdHeader_line) auto
  then show ?case using Cons kv by simp
qed

lemma h_values_update: "h_values (AList.update k vs m) x = (if x = k then vs else h_values m x)"
  by (simp add: h_values_def update_conv')

lemma h_values_delete: "h_values (AList.delete k m) x = (if x = k then [] else h_values m x)"
  by (simp add: h_values_def delete_conv')

lemma add_all_values: "h_values (add_all kvs m) x = h_values m x @ map snd (filter (\<lambda>(k, v). k = x) kvs)"
  by (induction kvs arbitrary: m) (auto simp: h_values_update)


text \<open>Headers as the operations build them from printable values: canonical keys, one message id.\<close>

definition header_ok :: "Header \<Rightarrow> bool" where
  "header_ok h \<longleftrightarrow> distinct (map fst h) \<and>
     (\<forall>(k, vs) \<in> set h. clean_key k \<and> (\<forall>v \<in> set vs. clean_value v) \<and> (EqualFold k HEADER_MID \<longrightarrow> k = HEADER_MID)) \<and>
     (\<exists>mid. h_values h HEADER_MID = [mid] \<and> mid \<noteq> [])"

definition header_entries :: "Header \<Rightarrow> (string \<times> string) list" where
  "header_entries h =
     (HEADER_MID, get h HEADER_MID) # concat (map (\<lambda>k. map (\<lambda>v. (k, v)) (h_values h k)) (otherKeys h))"

lemma h_values_in: "v \<in> set (h_values h k) \<Longrightarrow> \<exists>vs. (k, vs) \<in> set h \<and> v \<in> set vs"
  by (cases "map_of h k") (auto simp: h_values_def dest: map_of_SomeD)

lemma header_ok_value: "header_ok h \<Longrightarrow> v \<in> set (h_values h k) \<Longrightarrow> clean_key k \<and> clean_value v"
  using h_values_in [of v h k] by (fastforce simp: header_ok_def)

lemma header_ok_mid: "header_ok h \<Longrightarrow> h_values h HEADER_MID = [get h HEADER_MID] \<and> get h HEADER_MID \<noteq> []"
  by (auto simp: header_ok_def get_def)

lemma header_entries_clean:
  assumes "header_ok h"
  shows "\<forall>(k, v) \<in> set (header_entries h). clean_key k \<and> clean_value v"
proof clarify
  fix k v assume "(k, v) \<in> set (header_entries h)"
  then have "v \<in> set (h_values h k)" using header_ok_mid [OF assms] by (auto simp: header_entries_def)
  then show "clean_key k \<and> clean_value v" by (rule header_ok_value [OF assms])
qed

lemma Header_Write_entries:
  assumes "header_ok h"
  shows "Header_Write h = (header_text (header_entries h), None)"
proof -
  have e1: "map (\<lambda>v. headerLine k (TrimString v)) (h_values h k) = map (\<lambda>v. headerLine k v) (h_values h k)" for k
    using header_ok_value [OF assms] TrimString_clean by simp
  have e2: "header_text (concat (map (\<lambda>k. map (\<lambda>v. (k, v)) (f k)) ks)) =
      concat (map (\<lambda>k. concat (map (\<lambda>v. headerLine k v) (f k))) ks)" for f and ks :: "string list"
    by (induction ks) (simp_all add: comp_def)
  show ?thesis
    using header_ok_mid [OF assms] unfolding Header_Write_def header_entries_def e1 by (simp add: e2) (simp add: HEADER_MID_def)
qed

lemma filter_keyed:
  assumes "distinct ks"
  shows "map snd (filter (\<lambda>(k, v). k = x) (concat (map (\<lambda>k. map (\<lambda>v. (k, v)) (f k)) ks))) = (if x \<in> set ks then f x else [])"
proof -
  have *: "filter (\<lambda>(k', v). k' = x) (map (\<lambda>v. (k, v)) vs) = (if k = x then map (\<lambda>v. (k, v)) vs else [])" for k and vs :: "'b list"
    by (induction vs) auto
  show ?thesis using assms by (induction ks) (auto simp: * comp_def)
qed

lemma otherKeys_set: "set (otherKeys h) = {k \<in> fst ` set h. \<not> EqualFold k HEADER_MID}"
  by (auto simp: otherKeys_def)

lemma entries_values:
  assumes "header_ok h"
  shows "h_values (add_all (header_entries h) []) x = h_values h x"
proof -
  have d: "distinct (otherKeys h)" using assms by (simp add: otherKeys_def header_ok_def)
  have fold: "EqualFold HEADER_MID HEADER_MID" by (simp add: EqualFold_def)
  have m: "map snd (filter (\<lambda>(k, v). k = x) (header_entries h)) =
      (if x = HEADER_MID then [get h HEADER_MID] else []) @ (if x \<in> set (otherKeys h) then h_values h x else [])"
    using filter_keyed [OF d, of x "h_values h"] by (cases "x = HEADER_MID") (simp_all add: header_entries_def)
  have *: "h_values h x = []" if "x \<noteq> HEADER_MID" "x \<notin> set (otherKeys h)"
  proof -
    have "x \<notin> fst ` set h" using that assms by (force simp: otherKeys_set header_ok_def)
    then show ?thesis by (simp add: h_values_def map_of_eq_None_iff [symmetric])
  qed
  show ?thesis
    using m header_ok_mid [OF assms] * fold by (auto simp: add_all_values otherKeys_set h_values_def [of "[]"])
qed

lemma add_all_wf:
  "distinct (map fst m) \<Longrightarrow> \<forall>(k, vs) \<in> set m. vs \<noteq> [] \<Longrightarrow>
   distinct (map fst (add_all kvs m)) \<and> (\<forall>(k, vs) \<in> set (add_all kvs m). vs \<noteq> [])"
proof (induction kvs arbitrary: m)
  case (Cons kv kvs)
  obtain k v where kv: "kv = (k, v)" by (cases kv)
  have "\<forall>(x, vs) \<in> set (AList.update k (h_values m k @ [v]) m). vs \<noteq> []"
  proof -
    have "(x, vs) \<in> set (AList.update k ws m) \<Longrightarrow> (x, vs) = (k, ws) \<or> (x, vs) \<in> set m" for x vs ws
      by (induction m) (auto split: if_splits)
    then show ?thesis using Cons.prems(2) by fastforce
  qed
  then show ?case using Cons.IH [OF distinct_update [OF Cons.prems(1)]] kv by simp
qed simp

text \<open>The header that is read back is again one that can be written.\<close>

lemma header_ok_again:
  assumes "header_ok h"
  shows "header_ok (add_all (header_entries h) [])"
proof -
  let ?h = "add_all (header_entries h) []"
  have wf: "distinct (map fst ?h)" "\<forall>(k, vs) \<in> set ?h. vs \<noteq> []" using add_all_wf [of "[]" "header_entries h"] by simp_all
  have "clean_key k \<and> (\<forall>v \<in> set vs. clean_value v) \<and> (EqualFold k HEADER_MID \<longrightarrow> k = HEADER_MID)" if kv: "(k, vs) \<in> set ?h" for k vs
  proof -
    have vs: "h_values h k = vs" using entries_values [OF assms, of k] map_of_is_SomeI [OF wf(1) kv] by (simp add: h_values_def)
    moreover have "vs \<noteq> []" using wf(2) kv by auto
    ultimately obtain v where v: "v \<in> set (h_values h k)" by (cases vs) auto
    have "EqualFold k HEADER_MID \<longrightarrow> k = HEADER_MID" using h_values_in [OF v] assms by (auto simp: header_ok_def)
    then show ?thesis using header_ok_value [OF assms, of _ k] vs v by auto
  qed
  then show ?thesis using wf(1) header_ok_mid [OF assms] entries_values [OF assms] unfolding header_ok_def by auto
qed

text \<open>What is written depends on the values of the keys only, not on how the map is stored.\<close>

lemma same_keys:
  assumes "distinct (map fst h)"
  shows "set (filter (\<lambda>k. h_values h k \<noteq> []) (otherKeys h)) = {k. h_values h k \<noteq> [] \<and> \<not> EqualFold k HEADER_MID}"
  by (auto simp: otherKeys_set h_values_def map_of_eq_None_iff split: option.splits)

lemma Header_Write_same:
  assumes "distinct (map fst h)" "distinct (map fst h')" "\<forall>k. h_values h' k = h_values h k"
  shows "Header_Write h' = Header_Write h"
proof -
  let ?f = "\<lambda>k. concat (map (\<lambda>v. headerLine k (TrimString v)) (h_values h k))"
  let ?n = "filter (\<lambda>k. h_values h k \<noteq> [])"
  have "sorted_list_of_set (set (?n (otherKeys g))) = ?n (otherKeys g)" if "distinct (map fst g)" for g
    using that by (intro sorted_list_of_set.idem_if_sorted_distinct) (simp_all add: otherKeys_def sorted_wrt_filter)
  moreover have "set (?n (otherKeys h')) = set (?n (otherKeys h))"
    using same_keys [OF assms(1)] same_keys [OF assms(2)] assms(3) by simp
  ultimately have "?n (otherKeys h') = ?n (otherKeys h)" using assms(1,2) by metis
  moreover have "concat (map ?f ks) = concat (map ?f (?n ks))" for ks
    by (induction ks) auto
  note this [of "otherKeys h'"] this [of "otherKeys h"]
  ultimately have "concat (map ?f (otherKeys h')) = concat (map ?f (otherKeys h))" by simp
  then show ?thesis using assms(3) by (simp add: Header_Write_def get_def)
qed

text \<open>C33. A header written with \<open>Header.Write\<close> and followed by an empty line is read back with the same values for
  every key, in the same order per key, and reading stops right after the empty line. The header has one message id,
  canonical keys, and values that fit on a line.\<close>

theorem header_roundtrip:
  assumes "header_ok h"
  shows "\<exists>h'. rdHeader [] (fst (Header_Write h) @ CRLF @ rest) = ((h', None), rest) \<and> (\<forall>k. h_values h' k = h_values h k)"
  using rdHeader_text [OF header_entries_clean [OF assms], of "[]" rest] entries_values [OF assms]
  by (simp add: Header_Write_entries [OF assms])

definition example_header :: Header where
  "example_header = [(''Mid'', [''TJKYEIMMHSRB'']), (''To'', [''LA5NTA'', ''N0CALL'']), (''Subject'', [''Test: one''])]"

lemma example_header_ok: "header_ok example_header"
proof -
  have "\<not> EqualFold ''To'' HEADER_MID" "\<not> EqualFold ''Subject'' HEADER_MID"
    by (simp_all add: EqualFold_def HEADER_MID_def runes_ascii ascii_def foldRune_def)
  then show ?thesis
    by (simp add: header_ok_def example_header_def h_values_def HEADER_MID_def clean_key_def clean_value_def tokenChar_def
        canonicalKey_def upperChar_def lowerChar_def isUpper_def isLower_def blank_def)
qed

theorem header_roundtrip_witness:
  "\<exists>h'. rdHeader [] (fst (Header_Write example_header) @ CRLF @ ''body'') = ((h', None), ''body'') \<and>
     h_values h' ''To'' = [''LA5NTA'', ''N0CALL'']"
  using header_roundtrip [OF example_header_ok, of "''body''"] by (auto simp: example_header_def h_values_def)

end
