(* ===== verification/Fbb_Proposal.thy ===== *)
theory Fbb_Proposal
  imports Fbb_Lines "HOL-Library.Char_ord" "HOL-Library.List_Lexorder" "HOL-Library.Product_Lexorder" "HOL-Library.Multiset"
begin

unbundle bit_operations_syntax

text \<open>
  Proposals (\<^verbatim>\<open>src/fbb/proposal.go\<close>), the proposal block and its answer on the wire and the order in which
  proposals are sent (\<^verbatim>\<open>src/fbb/b2f.go\<close>, \<^verbatim>\<open>src/fbb/wl2k.go\<close>). The compression of a proposal is lzhuf, or gzip
  for the proposal code \<open>D\<close>; gzip is a parameter, a pair of functions.
\<close>

section \<open>Proposals\<close>

record Proposal =
  p_code :: char
  p_msgType :: string
  p_mid :: string
  p_answer :: char
  p_title :: string
  p_offset :: int
  p_sent :: bool
  p_size :: int
  p_compressedData :: string
  p_compressedSize :: int

definition new_Proposal :: Proposal where
  "new_Proposal = \<lparr>p_code = NUL, p_msgType = [], p_mid = [], p_answer = NUL, p_title = [], p_offset = 0,
     p_sent = False, p_size = 0, p_compressedData = [], p_compressedSize = 0\<rparr>"

definition BasicProposal :: char where "BasicProposal = CHR ''B''"
definition AsciiProposal :: char where "AsciiProposal = CHR ''A''"
definition Wl2kProposal :: char where "Wl2kProposal = CHR ''C''"
definition GzipProposal :: char where "GzipProposal = CHR ''D''"

definition Accept :: char where "Accept = CHR ''+''"
definition Reject :: char where "Reject = CHR ''-''"
definition Defer :: char where "Defer = CHR ''=''"

lemmas prop_codes = BasicProposal_def AsciiProposal_def Wl2kProposal_def GzipProposal_def
lemmas prop_answers = Accept_def Reject_def Defer_def

definition lzhufCompress :: "string \<Rightarrow> string option" where
  "lzhufCompress data = do {
     z \<leftarrow> NewB2Writer;
     (n, z) \<leftarrow> Writer_Write (to_bytes data) z;
     (e, z) \<leftarrow> Writer_Close z;
     if e = None then Some (of_bytes (w_out z)) else None
   }"

text \<open>\<open>NewProposal\<close>; an error of \<open>Close\<close> panics.\<close>

definition NewProposal :: "(string \<Rightarrow> string) \<Rightarrow> string \<Rightarrow> string \<Rightarrow> char \<Rightarrow> string \<Rightarrow> Proposal option" where
  "NewProposal gzip MID title code data = do {
     let prop = new_Proposal\<lparr>p_mid := MID, p_code := code, p_msgType := ''EM'', p_title := title,
       p_size := int (length data)\<rparr>;
     let prop = (if p_title prop = [] then prop\<lparr>p_title := ''No title''\<rparr> else prop);
     buf \<leftarrow> (if p_code prop = GzipProposal then Some (gzip data) else lzhufCompress data);
     Some (prop\<lparr>p_compressedData := buf, p_compressedSize := int (length buf)\<rparr>)
   }"

definition DataIsComplete :: "Proposal \<Rightarrow> bool" where
  "DataIsComplete p \<longleftrightarrow> int (length (p_compressedData p)) = p_compressedSize p"

text \<open>\<open>io.Copy\<close> into a buffer: reads until the end of the file, here by 512 bytes. A reader that keeps
  returning nothing and no error is read forever.\<close>

partial_function (option) copyAll :: "byte list \<Rightarrow> Reader \<Rightarrow> (io_err + byte list) option" where
  [code]: "copyAll acc d = do {
     ((out, e), d) \<leftarrow> Reader_Read 512 d;
     case e of
       None \<Rightarrow> copyAll (acc @ out) d
     | Some e \<Rightarrow> if e = EOF then Some (Inr (acc @ out)) else Some (Inl e)
   }"

text \<open>\<open>Data\<close>; every error panics.\<close>

definition Data :: "(string \<Rightarrow> string option) \<Rightarrow> Proposal \<Rightarrow> string option" where
  "Data gunzip p =
     (if p_code p = GzipProposal then gunzip (p_compressedData p)
      else do {
        (r, e) \<leftarrow> NewB2Reader (to_bytes (p_compressedData p)) EOF;
        if e \<noteq> None then None
        else do {
          d \<leftarrow> r;
          out \<leftarrow> copyAll [] d;
          case out of Inl e \<Rightarrow> None | Inr bs \<Rightarrow> Some (of_bytes bs)
        }
      })"

section \<open>The proposal line\<close>

definition parseB2Parts :: "string list \<Rightarrow> Proposal \<Rightarrow> go_err option \<times> Proposal" where
  "parseB2Parts parts prop =
     (case parts of
        p0 # p1 # p2 # p3 # p4 # extra \<Rightarrow>
          if length p0 < 1 \<or> 2 < length p0 then (Some (Msg ''Malformed proposal 0''), prop)
          else if p0 \<noteq> ''EM'' \<and> p0 \<noteq> ''CM'' then
            (Some (Msg (''Expected message type CM or EM, but found '' @ p0)), prop)
          else
            let prop = prop\<lparr>p_msgType := p0, p_mid := p1, p_size := fst (Atoi p2), p_compressedSize := fst (Atoi p3)\<rparr>
            in if extra = [] then (None, prop)
               else (Some (Msg (''Too many parts in proposal: '' @ printStrings parts)), prop)
      | _ \<Rightarrow> (Some (Msg ''Malformed proposal''), prop))"

definition parseB2Proposal :: "string \<Rightarrow> Proposal \<Rightarrow> go_err option \<times> Proposal" where
  "parseB2Proposal line prop =
     (if length line < 4 then (Some (Msg ''Unexpected end of proposal line''), prop)
      else if \<not> (line ! 1 = Wl2kProposal \<or> line ! 1 = GzipProposal) then (Some (Msg ''Not a type C or D proposal''), prop)
      else
        let parts = Split (CHR '' '') (drop 3 line)
        in if length parts < 5 then (Some (Msg (''Malformed proposal: '' @ drop 2 line)), prop)
           else parseB2Parts parts prop)"

text \<open>A line that is just \<open>F\<close> panics.\<close>

definition parseProposal :: "string \<Rightarrow> Proposal \<Rightarrow> (go_err option \<times> Proposal) option" where
  "parseProposal line prop =
     (if length line < 1 then Some (None, prop)
      else if line ! 0 \<noteq> CHR ''F'' then Some (None, prop)
      else do {
        code \<leftarrow> idx line 1;
        let prop = prop\<lparr>p_code := code\<rparr>;
        Some (if code = BasicProposal \<or> code = AsciiProposal then (None, prop)
              else if code = Wl2kProposal \<or> code = GzipProposal then parseB2Proposal line prop
              else (Some (Msg (''Unsupported proposal code '' @ quoted (runeString (byte_val code)))), prop))
      })"

text \<open>The line \<open>sendOutbound\<close> prints for a proposal, the sum of the runes of a line and its carriage return,
  and the checksum both sides compute.\<close>

definition proposalLine :: "Proposal \<Rightarrow> string" where
  "proposalLine p = CHR ''F'' # p_code p # CHR '' '' # p_msgType p @ CHR '' '' # p_mid p @ CHR '' '' #
     printInt (p_size p) @ CHR '' '' # printInt (p_compressedSize p) @ CHR '' '' # printInt 0"

definition lineSum :: "string \<Rightarrow> int" where
  "lineSum line = int (sum_list (runes line)) + 13"

definition finalSum :: "int \<Rightarrow> nat" where
  "finalSum checksum = nat ((- checksum) AND 0xff)"

section \<open>Precedence and order\<close>

definition precedence :: "Proposal \<Rightarrow> nat" where
  "precedence p =
     (if Contains (p_title p) ''//WL2K Z/'' then 0
      else if Contains (p_title p) ''//WL2K O/'' then 1
      else if Contains (p_title p) ''//WL2K P/'' then 2
      else 3)"

text \<open>\<open>sort.Sort\<close> by size and message id, then \<open>sort.Stable\<close> by precedence. Between proposals with the same
  size and id \<open>sort.Sort\<close> may choose either order; here it keeps the given one.\<close>

definition bySize :: "Proposal \<Rightarrow> int \<times> string" where
  "bySize p = (p_compressedSize p, p_mid p)"

definition sortProposals :: "Proposal list \<Rightarrow> Proposal list" where
  "sortProposals props = sort_key precedence (sort_key bySize props)"

section \<open>Answers\<close>

definition ProtocolOffsetSizeLimit :: int where "ProtocolOffsetSizeLimit = 999999"

definition isDigit :: "char \<Rightarrow> bool" where
  "isDigit c \<longleftrightarrow> c \<in> set ''0123456789''"

text \<open>One answer character for the proposal \<open>prop\<close>; an offset request takes the rest of the line up to its
  last digit.\<close>

definition parseAnswer :: "char \<Rightarrow> string \<Rightarrow> Proposal \<Rightarrow> go_err + Proposal \<times> string" where
  "parseAnswer c str prop =
     (if c \<in> set ''Yy+'' then Inr (prop\<lparr>p_answer := Accept\<rparr>, str)
      else if c \<in> set ''NnRr-'' then Inr (prop\<lparr>p_answer := Reject\<rparr>, str)
      else if c \<in> set ''Ll=Hh'' then Inr (prop\<lparr>p_answer := Defer\<rparr>, str)
      else if c \<in> set ''Aa!'' then
        (case lastIndex isDigit str of
           None \<Rightarrow> Inl (Msg ''Got offset request without offset index'')
         | Some i \<Rightarrow>
             let offset = fst (Atoi (take (i + 1) str));
                 offset = (if ProtocolOffsetSizeLimit < offset then 0 else offset)
             in Inr (prop\<lparr>p_answer := Accept, p_offset := offset\<rparr>, drop (i + 1) str))
      else Inl (Msg (''Invalid character ('' @ runeString (byte_val c) @ '') in proposal answer line'')))"

text \<open>The loop goes through the proposals while there is text left.\<close>

fun parseAnswers :: "string \<Rightarrow> Proposal list \<Rightarrow> go_err option \<times> Proposal list" where
  "parseAnswers [] props = (None, props)"
| "parseAnswers (c # str) [] = (Some (Msg ''Got answer for more proposals than expected''), [])"
| "parseAnswers (c # str) (prop # props) =
     (case parseAnswer c str prop of
        Inl e \<Rightarrow> (Some e, prop # props)
      | Inr (prop', str') \<Rightarrow> (case parseAnswers str' props of (e, props') \<Rightarrow> (e, prop' # props')))"

definition parseProposalAnswer :: "string \<Rightarrow> Proposal list \<Rightarrow> go_err option \<times> Proposal list" where
  "parseProposalAnswer str props = parseAnswers (TrimPrefix str ''FS '') props"

text \<open>The answers to inbound proposals: duplicates in the block, unsupported codes and everything without a
  handler are deferred. \<open>ask\<close> is the handler's \<open>GetInboundAnswer\<close>, if there is a handler.\<close>

definition answerFor :: "(Proposal \<Rightarrow> char) option \<Rightarrow> string list \<Rightarrow> Proposal \<Rightarrow> char" where
  "answerFor ask seen p =
     (if p_mid p \<in> set seen then Defer
      else if p_code p \<noteq> Wl2kProposal \<and> p_code p \<noteq> GzipProposal then Defer
      else case ask of None \<Rightarrow> Defer | Some f \<Rightarrow> f p)"

fun answerAll :: "(Proposal \<Rightarrow> char) option \<Rightarrow> string list \<Rightarrow> Proposal list \<Rightarrow> nat \<times> Proposal list" where
  "answerAll ask seen [] = (0, [])"
| "answerAll ask seen (p # ps) =
     (let a = answerFor ask seen p
      in case answerAll ask (p_mid p # seen) ps of (n, ps') \<Rightarrow>
           ((if a = Accept then n + 1 else n), p\<lparr>p_answer := a\<rparr> # ps'))"

definition writeProposalsAnswer ::
  "(Proposal \<Rightarrow> char) option \<Rightarrow> Proposal list \<Rightarrow> conn \<Rightarrow> (nat \<times> go_err option) \<times> Proposal list \<times> conn" where
  "writeProposalsAnswer ask proposals c =
     (case answerAll ask [] proposals of (nAccepted, props) \<Rightarrow>
        case conn_Write (''FS '' @ map p_answer props @ [CR]) c of (e, c) \<Rightarrow> ((nAccepted, e), props, c))"

section \<open>Lemmas\<close>

text \<open>What a proposal needs so that its line means what it says.\<close>

definition wire_ok :: "Proposal \<Rightarrow> bool" where
  "wire_ok p \<longleftrightarrow> (p_code p = Wl2kProposal \<or> p_code p = GzipProposal) \<and> (p_msgType p = ''EM'' \<or> p_msgType p = ''CM'') \<and>
     CHR '' '' \<notin> set (p_mid p) \<and> CR \<notin> set (p_mid p) \<and> 0 \<le> p_size p \<and> p_size p < 2 ^ 63 \<and>
     0 \<le> p_compressedSize p \<and> p_compressedSize p < 2 ^ 63"

text \<open>What of a proposal is on the wire.\<close>

definition wire_part :: "Proposal \<Rightarrow> Proposal" where
  "wire_part p = new_Proposal\<lparr>p_code := p_code p, p_msgType := p_msgType p, p_mid := p_mid p, p_size := p_size p,
     p_compressedSize := p_compressedSize p\<rparr>"

lemma printInt_visible: "0 \<le> i \<Longrightarrow> c \<in> set (printInt i) \<Longrightarrow> visible c"
  using printNat_visible [of 10 c "nat i"] by (simp add: printInt_def)

lemma printInt_no_space: "0 \<le> i \<Longrightarrow> CHR '' '' \<notin> set (printInt i)" "0 \<le> i \<Longrightarrow> CR \<notin> set (printInt i)"
  using printInt_visible [of i "CHR '' ''"] printInt_visible [of i CR] by (auto simp: visible_def)

lemma printInt_0: "printInt 0 = ''0''"
proof -
  have "char_of (48 :: nat) = CHR ''0''" by code_simp
  then show ?thesis by (simp add: printInt_def printNat.simps digit_char_def)
qed

lemma proposalLine_plain:
  assumes "wire_ok p"
  shows "plain_line (proposalLine p)" and "hd (proposalLine p) = CHR ''F''"
  using assms printInt_no_space(2) [of "p_size p"] printInt_no_space(2) [of "p_compressedSize p"]
  by (auto simp: plain_line_def proposalLine_def wire_ok_def visible_def prop_codes printInt_0)

lemma parse_proposalLine:
  assumes "wire_ok p"
  shows "parseProposal (proposalLine p) new_Proposal = Some (None, wire_part p)"
proof -
  have "Split (CHR '' '') (drop 3 (proposalLine p)) =
      [p_msgType p, p_mid p, printInt (p_size p), printInt (p_compressedSize p), printInt 0]"
    using assms printInt_no_space(1) by (auto simp: proposalLine_def wire_ok_def Split_cons Split_none numeral_3_eq_3 printInt_0)
  moreover have "4 \<le> length (proposalLine p)" "proposalLine p ! 0 = CHR ''F''" "proposalLine p ! 1 = p_code p"
    by (simp_all add: proposalLine_def)
  moreover have "Atoi (printInt (p_size p)) = (p_size p, None)"
      "Atoi (printInt (p_compressedSize p)) = (p_compressedSize p, None)"
    using assms by (auto simp: wire_ok_def intro: Atoi_printInt)
  moreover have "p_msgType p = ''EM'' \<or> p_msgType p = ''CM''" "p_code p = Wl2kProposal \<or> p_code p = GzipProposal"
    using assms by (auto simp: wire_ok_def)
  ultimately have "parseB2Proposal (proposalLine p) (new_Proposal\<lparr>p_code := p_code p\<rparr>) = (None, wire_part p)"
    by (auto simp: parseB2Proposal_def parseB2Parts_def wire_part_def)
  moreover have "\<not> length (proposalLine p) < 1" "idx (proposalLine p) 1 = Some (p_code p)" "proposalLine p ! 0 = CHR ''F''"
    by (simp_all add: proposalLine_def idx_def)
  moreover have "p_code p \<noteq> BasicProposal" "p_code p \<noteq> AsciiProposal" "p_code p = Wl2kProposal \<or> p_code p = GzipProposal"
    using assms by (auto simp: wire_ok_def prop_codes)
  ultimately show ?thesis by (simp add: parseProposal_def)
qed

subsection \<open>Answers\<close>

definition is_answer :: "char \<Rightarrow> bool" where
  "is_answer a \<longleftrightarrow> a = Accept \<or> a = Reject \<or> a = Defer"

lemma parseAnswer_plain:
  "parseAnswer Accept str p = Inr (p\<lparr>p_answer := Accept\<rparr>, str)"
  "parseAnswer Reject str p = Inr (p\<lparr>p_answer := Reject\<rparr>, str)"
  "parseAnswer Defer str p = Inr (p\<lparr>p_answer := Defer\<rparr>, str)"
  by (simp_all add: parseAnswer_def prop_answers)

lemma parseAnswers_plain:
  "length as = length props \<Longrightarrow> \<forall>a \<in> set as. is_answer a \<Longrightarrow>
   parseAnswers as props = (None, map2 (\<lambda>a p. p\<lparr>p_answer := a\<rparr>) as props)"
proof (induction as props rule: list_induct2)
  case (Cons a as p ps)
  have "parseAnswer a as p = Inr (p\<lparr>p_answer := a\<rparr>, as)"
    using Cons.prems parseAnswer_plain by (auto simp: is_answer_def)
  then show ?case using Cons by simp
qed simp

lemma answerAll_length: "length (snd (answerAll ask seen ps)) = length ps"
  by (induction ps arbitrary: seen) (simp_all add: Let_def split_beta)

lemma answerAll_answers:
  assumes "\<And>f p. ask = Some f \<Longrightarrow> is_answer (f p)"
  shows "p \<in> set (snd (answerAll ask seen ps)) \<Longrightarrow> is_answer (p_answer p)"
proof (induction ps arbitrary: seen)
  case (Cons q qs)
  have "is_answer (answerFor ask seen q)"
    using assms by (auto simp: answerFor_def is_answer_def split: option.splits)
  then show ?case using Cons by (auto simp: Let_def split_beta)
qed simp

text \<open>Accepted proposals have different message ids, none that was seen before, and a supported code.\<close>

lemma answerFor_Accept:
  "answerFor ask seen p = Accept \<Longrightarrow> p_mid p \<notin> set seen \<and> (p_code p = Wl2kProposal \<or> p_code p = GzipProposal)"
  by (auto simp: answerFor_def prop_answers split: if_splits)

lemma answerAll_accepted:
  "answerAll ask seen ps = (n, ps') \<Longrightarrow>
   n = length (filter (\<lambda>p. p_answer p = Accept) ps') \<and>
   distinct (map p_mid (filter (\<lambda>p. p_answer p = Accept) ps')) \<and>
   (\<forall>p \<in> set ps'. p_answer p = Accept \<longrightarrow>
      p_mid p \<notin> set seen \<and> (p_code p = Wl2kProposal \<or> p_code p = GzipProposal))"
proof (induction ps arbitrary: seen n ps')
  case (Cons q qs)
  obtain m qs' where IH: "answerAll ask (p_mid q # seen) qs = (m, qs')" by (cases "answerAll ask (p_mid q # seen) qs")
  note * = Cons.IH [OF IH]
  show ?case
    using Cons.prems * IH answerFor_Accept [of ask seen q] by (auto simp: Let_def split: if_splits) blast+
qed simp

subsection \<open>Order\<close>

lemma sortProposals_sorted:
  "sorted_wrt (\<lambda>p q. (precedence p, bySize p) \<le> (precedence q, bySize q)) (sortProposals props)"
proof -
  let ?ps = "sort_key bySize props"
  have *: "sorted_wrt (\<lambda>p q. (precedence p, bySize p) \<le> (precedence q, bySize q)) (sort_key precedence ps)"
    if "sorted (map bySize ps)" for ps
    using that
  proof (induction ps)
    case (Cons p ps)
    have ins: "sorted_wrt (\<lambda>p q. (precedence p, bySize p) \<le> (precedence q, bySize q)) (insort_key precedence p qs)"
      if "sorted_wrt (\<lambda>p q. (precedence p, bySize p) \<le> (precedence q, bySize q)) qs" "\<forall>q \<in> set qs. bySize p \<le> bySize q" for qs
      using that by (induction qs) (auto simp: set_insort_key)
    show ?case using Cons ins [of "sort_key precedence ps"] by simp
  qed simp
  show ?thesis unfolding sortProposals_def by (rule *) simp
qed

subsection \<open>The checksum of a block\<close>

lemma finalSum_mod: "finalSum x = nat ((- x) mod 256)"
proof -
  have "(0xff :: int) = mask 8" by (simp add: mask_eq_exp_minus_1)
  then show ?thesis unfolding finalSum_def by (simp only: take_bit_eq_mask [symmetric] take_bit_eq_mod) simp
qed

lemma finalSum_eq_iff: "finalSum x = finalSum y \<longleftrightarrow> x mod 256 = y mod 256"
proof -
  have "finalSum x = finalSum y \<longleftrightarrow> (- x) mod 256 = (- y) mod 256"
    using pos_mod_sign [of 256 "- x"] pos_mod_sign [of 256 "- y"] by (simp add: finalSum_mod eq_nat_nat_iff)
  also have "\<dots> \<longleftrightarrow> x mod 256 = y mod 256"
    by (simp add: mod_eq_dvd_iff dvd_diff_commute)
  finally show ?thesis .
qed

definition blockSum :: "string list \<Rightarrow> nat" where
  "blockSum lines = finalSum (\<Sum>l\<leftarrow>lines. lineSum l)"

lemma lineSum_ascii: "ascii l \<Longrightarrow> lineSum l = int (\<Sum>c\<leftarrow>l. byte_val c) + 13"
  by (simp add: lineSum_def runes_ascii)

section \<open>Properties\<close>

text \<open>C26. The line \<open>sendOutbound\<close> prints for a proposal is read back by \<open>nextLine\<close> and \<open>parseProposal\<close> as the same
  proposal: code, message type, message id, size and compressed size. Title, offset and data do not travel in
  the line.\<close>

theorem proposal_line_roundtrip:
  assumes "wire_ok p" and "c_in c = proposalLine p @ CR # rest"
  shows "nextLine c = Some ((proposalLine p, None), c\<lparr>c_in := rest\<rparr>) \<and>
    parseProposal (proposalLine p) new_Proposal = Some (None, wire_part p)"
proof
  have "hd (proposalLine p) \<noteq> CHR ''*''" using proposalLine_plain(2) [OF assms(1)] by simp
  then show "nextLine c = Some ((proposalLine p, None), c\<lparr>c_in := rest\<rparr>)"
    using proposalLine_plain(1) [OF assms(1)] assms(2) by (intro nextLine_plain)
  show "parseProposal (proposalLine p) new_Proposal = Some (None, wire_part p)"
    by (rule parse_proposalLine [OF assms(1)])
qed

definition example_Proposal :: Proposal where
  "example_Proposal = new_Proposal\<lparr>p_code := Wl2kProposal, p_msgType := ''EM'', p_mid := ''TJKYEIMMHSRB'',
     p_size := 527, p_compressedSize := 123\<rparr>"

theorem proposal_line_roundtrip_witness:
  "wire_ok example_Proposal \<and>
   parseProposal (proposalLine example_Proposal) new_Proposal = Some (None, example_Proposal)"
proof -
  let ?c = "fresh_conn (proposalLine example_Proposal @ [CR])"
  have "wire_ok example_Proposal" by (simp add: wire_ok_def example_Proposal_def new_Proposal_def)
  moreover have "wire_part example_Proposal = example_Proposal"
    by (simp add: wire_part_def example_Proposal_def new_Proposal_def)
  ultimately show ?thesis using proposal_line_roundtrip [of example_Proposal ?c "[]"] by simp
qed

text \<open>C25. The answer line to a block of proposals, read by the proposing side, gives each of its proposals the
  answer this side decided on, whatever the proposals are; nothing else of them changes. The number returned is
  the number of accepted proposals.\<close>

theorem answers_roundtrip:
  assumes "\<forall>f p. ask = Some f \<longrightarrow> is_answer (f p)" and "proposals \<noteq> []" and "c_fail c = None"
    and "writeProposalsAnswer ask proposals c = ((n, e), props, c')" and "length sent = length proposals"
    and "c_in rc = drop (length (c_out c)) (c_out c') @ rest"
  shows "\<exists>line. nextLine rc = Some ((line, None), rc\<lparr>c_in := rest\<rparr>) \<and> HasPrefix line ''FS '' \<and>
    parseProposalAnswer line sent = (None, map2 (\<lambda>p q. q\<lparr>p_answer := p_answer p\<rparr>) props sent) \<and>
    e = None \<and> n = length (filter (\<lambda>p. p_answer p = Accept) props)"
proof (intro exI conjI)
  let ?as = "map p_answer props"
  let ?line = "''FS '' @ ?as"
  have w: "answerAll ask [] proposals = (n, props)" "e = None" "c_out c' = c_out c @ ?line @ [CR]"
    using assms(3,4) by (auto simp: writeProposalsAnswer_def split: prod.splits)
  have len: "length props = length proposals" using answerAll_length [of ask "[]" proposals] w(1) by simp
  have ans: "is_answer a" if "a \<in> set ?as" for a
    using answerAll_answers [of ask _ "[]" proposals] w(1) assms(1) that by auto
  have vis: "visible a \<and> a \<noteq> CR" if "is_answer a" for a
    using that by (auto simp: is_answer_def prop_answers visible_def)
  have "?as \<noteq> []" using len assms(2) by auto
  then have "last ?as \<in> set ?as" by (rule last_in_set)
  then have "visible (last ?line)" using vis ans \<open>?as \<noteq> []\<close> by (simp add: last_append)
  moreover have "CR \<notin> set ?as" using vis ans by blast
  ultimately have "visible (last ?line)" "CR \<notin> set ?line" by simp_all
  then have "plain_line ?line" by (simp add: plain_line_def visible_def)
  then show "nextLine rc = Some ((?line, None), rc\<lparr>c_in := rest\<rparr>)"
    using w(3) assms(6) by (intro nextLine_plain) simp_all
  show "HasPrefix ?line ''FS ''" by (rule HasPrefix_append)
  have "parseProposalAnswer ?line sent = parseAnswers ?as sent"
    unfolding parseProposalAnswer_def by (simp only: TrimPrefix_append)
  also have "\<dots> = (None, map2 (\<lambda>a p. p\<lparr>p_answer := a\<rparr>) ?as sent)"
    using len assms(5) ans by (intro parseAnswers_plain) auto
  finally show "parseProposalAnswer ?line sent = (None, map2 (\<lambda>p q. q\<lparr>p_answer := p_answer p\<rparr>) props sent)"
    by (simp add: zip_map1 split_beta)
  show "e = None" by (rule w(2))
  show "n = length (filter (\<lambda>p. p_answer p = Accept) props)" using answerAll_accepted [OF w(1)] by simp
qed

theorem answers_roundtrip_witness:
  "\<exists>line. nextLine (fresh_conn (''FS +='' @ [CR])) =
       Some ((line, None), fresh_conn []) \<and>
     map p_answer (snd (parseProposalAnswer line [example_Proposal, example_Proposal])) = [Accept, Defer]"
proof -
  let ?c = "fresh_conn []"
  let ?ask = "Some (\<lambda>p. Accept) :: (Proposal \<Rightarrow> char) option"
  let ?props = "[example_Proposal\<lparr>p_answer := Accept\<rparr>, example_Proposal\<lparr>p_answer := Defer\<rparr>]"
  have w: "writeProposalsAnswer ?ask [example_Proposal, example_Proposal] ?c = ((1, None), ?props, ?c\<lparr>c_out := ''FS +='' @ [CR]\<rparr>)"
    by (simp add: writeProposalsAnswer_def answerFor_def example_Proposal_def prop_codes prop_answers)
  have a: "\<forall>f p. ?ask = Some f \<longrightarrow> is_answer (f p)" by (auto simp: is_answer_def)
  show ?thesis
    using answers_roundtrip [OF a _ _ w, where sent = "[example_Proposal, example_Proposal]" and rest = "[]"
        and rc = "?c\<lparr>c_in := ''FS +='' @ [CR]\<rparr>"]
    by (auto simp del: map_append)
qed

text \<open>Of a block of proposals this side accepts only proposals with a supported code, and no message id
  twice: a message offered several times in one block is transferred once.\<close>

theorem accepted_once:
  "case writeProposalsAnswer ask proposals c of ((n, e), props, c') \<Rightarrow>
     distinct (map p_mid (filter (\<lambda>p. p_answer p = Accept) props)) \<and>
     (\<forall>p \<in> set props. p_answer p = Accept \<longrightarrow> p_code p = Wl2kProposal \<or> p_code p = GzipProposal) \<and>
     map p_mid props = map p_mid proposals"
proof -
  have "map p_mid (snd (answerAll ask seen ps)) = map p_mid ps" for seen ps
    by (induction ps arbitrary: seen) (simp_all add: Let_def split_beta)
  from this [of "[]" proposals] show ?thesis
    using answerAll_accepted [of ask "[]" proposals]
    by (auto simp: writeProposalsAnswer_def split: prod.splits)
qed

theorem accepted_once_witness:
  "map p_mid (filter (\<lambda>p. p_answer p = Accept)
     (fst (snd (writeProposalsAnswer (Some (\<lambda>p. Accept)) [example_Proposal, example_Proposal] (fresh_conn []))))) =
     [''TJKYEIMMHSRB''] \<and> (p_code example_Proposal = Wl2kProposal \<or> p_code example_Proposal = GzipProposal)"
  using accepted_once [where ask = "Some (\<lambda>p. Accept)" and proposals = "[example_Proposal, example_Proposal]" and c = "fresh_conn []"]
  by (simp add: writeProposalsAnswer_def answerFor_def example_Proposal_def prop_codes prop_answers)

text \<open>Sorting proposals for sending permutes them and puts them in order of precedence (flash first), and
  within one precedence in order of compressed size and message id.\<close>

theorem sortProposals_correct:
  "mset (sortProposals props) = mset props \<and>
   sorted_wrt (\<lambda>p q. (precedence p, p_compressedSize p, p_mid p) \<le> (precedence q, p_compressedSize q, p_mid q))
     (sortProposals props)"
  using sortProposals_sorted [of props] by (simp add: sortProposals_def bySize_def)

text \<open>The block checksum notices a single replaced ASCII character anywhere in the block.\<close>

theorem block_checksum_detects:
  assumes "ascii (xs @ c # ys)" and "ascii (xs @ d # ys)" and "c \<noteq> d"
  shows "blockSum (ls @ (xs @ c # ys) # ms) \<noteq> blockSum (ls @ (xs @ d # ys) # ms)"
proof -
  let ?r = "(\<Sum>l\<leftarrow>ls. lineSum l) + (\<Sum>l\<leftarrow>ms. lineSum l) + int (\<Sum>c\<leftarrow>xs @ ys. byte_val c) + 13"
  have *: "byte_val c < 128" "byte_val d < 128" using assms(1,2) by (simp_all add: ascii_def)
  have "byte_val c \<noteq> byte_val d" using assms(3) by simp
  then have "int (byte_val c) mod 256 \<noteq> int (byte_val d) mod 256"
    using * by (subst mod_pos_pos_trivial, simp, simp)+ simp
  then have "(?r + int (byte_val c)) mod 256 \<noteq> (?r + int (byte_val d)) mod 256"
    by (simp only: mod_eq_dvd_iff add_diff_cancel_left) simp
  moreover have "(\<Sum>l\<leftarrow>ls @ (xs @ e # ys) # ms. lineSum l) = ?r + int (byte_val e)" if "ascii (xs @ e # ys)" for e
    using lineSum_ascii [OF that] by simp
  ultimately show ?thesis using assms(1,2) by (simp only: blockSum_def finalSum_eq_iff not_False_eq_True)
qed

theorem block_checksum_detects_witness:
  "blockSum [''FC EM A 1 1 0''] \<noteq> blockSum [''FC EM B 1 1 0'']"
  using block_checksum_detects [of "''FC EM ''" "CHR ''A''" "'' 1 1 0''" "CHR ''B''" "[]" "[]"] by (simp add: ascii_def)

end
