(* ===== verification/Fbb_Transfer.thy ===== *)
theory Fbb_Transfer
  imports Fbb_Proposal Fbb_Mime
begin

text \<open>
  The transfer of an accepted message: \<open>writeCompressed\<close> and \<open>readCompressed\<close> of \<^verbatim>\<open>src/fbb/b2f.go\<close>. The reports to the
  status updater run in goroutines of their own and do not touch the transfer; they are left out.
\<close>

section \<open>Sending\<close>

definition MaxMsgLength :: nat where "MaxMsgLength = 125"

definition CHRNUL :: char where "CHRNUL = CHR 0x00"
definition CHRSOH :: char where "CHRSOH = CHR 0x01"
definition CHRSTX :: char where "CHRSTX = CHR 0x02"
definition CHREOT :: char where "CHREOT = CHR 0x04"

lemmas ctrl_chars = CHRNUL_def CHRSOH_def CHRSTX_def CHREOT_def

text \<open>The conversion \<open>byte(n)\<close> of a number that is not negative keeps the low eight bits.\<close>

definition byteOf :: "nat \<Rightarrow> char" where
  "byteOf n = char_of (n mod 256)"

definition transferHeader :: "Proposal \<Rightarrow> string" where
  "transferHeader p =
     (let title = QEncode ''utf-8'' (p_title p);
          offset = printInt (p_offset p);
          len = length title + length offset + 2
      in [CHRSOH, byteOf len] @ title @ [CHRNUL] @ offset @ [CHRNUL])"

text \<open>The data in chunks; every chunk is flushed on its own. The sum of the bytes sent is returned with the error.\<close>

function writeChunks :: "int \<Rightarrow> string \<Rightarrow> conn \<Rightarrow> (go_err option \<times> int) \<times> conn" where
  "writeChunks checksum buffer c =
     (if buffer = [] then ((None, checksum), c)
      else
        let msgLen = min MaxMsgLength (length buffer);
            chunk = take msgLen buffer
        in case conn_Write ([CHRSTX, byteOf msgLen] @ chunk) c of
             (Some e, c) \<Rightarrow> ((Some e, checksum), c)
           | (None, c) \<Rightarrow> writeChunks (checksum + (\<Sum>b\<leftarrow>chunk. int (byte_val b))) (drop msgLen buffer) c)"
  by pat_completeness auto
termination
  by (relation "measure (\<lambda>(n, buf, c). length buf)") (auto simp: MaxMsgLength_def)

declare writeChunks.simps [simp del]

text \<open>A connection that can be flushed reports the error of that flush.\<close>

definition finishTransfer :: "int \<Rightarrow> conn \<Rightarrow> go_err option \<times> conn" where
  "finishTransfer checksum c =
     (case conn_Write [CHREOT, byteOf (finalSum checksum)] c of
        (e, c) \<Rightarrow> (case c_flush c of None \<Rightarrow> (e, c) | Some e' \<Rightarrow> (e', c)))"

text \<open>Errors while the header is written are only noticed with the data. Slicing the data beyond its end panics.\<close>

definition writeCompressed :: "Proposal \<Rightarrow> conn \<Rightarrow> (go_err option \<times> conn) option" where
  "writeCompressed p c =
     (let c = conn_write (transferHeader p) c in
      if p_compressedSize p < 6 then Some (Some (Msg ''Invalid compressed data''), c)
      else if p_offset p < 0 \<or> int (length (p_compressedData p)) < p_offset p then None
      else Some
        (case writeChunks 0 (drop (nat (p_offset p)) (p_compressedData p)) c of
           ((Some e, s), c) \<Rightarrow> (Some e, c)
         | ((None, s), c) \<Rightarrow> finishTransfer s c))"

section \<open>Receiving\<close>

text \<open>\<open>c, _ := s.rd.ReadByte()\<close>: a read error gives the byte 0.\<close>

definition readByteOrZero :: "conn \<Rightarrow> char \<times> conn" where
  "readByteOrZero c = (case conn_ReadByte c of (Inl e, c) \<Rightarrow> (CHR 0x00, c) | (Inr b, c) \<Rightarrow> (b, c))"

text \<open>\<open>length\<close> bytes of a chunk, or the error if there are not as many.\<close>

definition readChunk :: "nat \<Rightarrow> conn \<Rightarrow> (go_err + string) \<times> conn" where
  "readChunk n c =
     (if n \<le> length (c_in c) then (Inr (take n (c_in c)), c\<lparr>c_in := drop n (c_in c)\<rparr>)
      else (Inl (c_end c), c\<lparr>c_in := []\<rparr>))"

definition addSum :: "nat \<Rightarrow> string \<Rightarrow> nat" where
  "addSum s bs = foldl (\<lambda>s b. (s + byte_val b) mod 256) s bs"

lemma read_shrinks:
  "conn_ReadByte c = (Inr b, c') \<Longrightarrow> length (c_in c') < length (c_in c)"
  "readByteOrZero c = (b, c') \<Longrightarrow> length (c_in c') \<le> length (c_in c)"
  "readChunk n c = (r, c') \<Longrightarrow> length (c_in c') \<le> length (c_in c)"
  by (auto simp: conn_ReadByte_def readByteOrZero_def readChunk_def split: list.splits if_splits)

definition chunkLength :: "char \<Rightarrow> nat" where
  "chunkLength b = (if byte_val b = 0 then 256 else byte_val b)"

function readChunks :: "nat \<Rightarrow> string \<Rightarrow> Proposal \<Rightarrow> conn \<Rightarrow> (go_err option \<times> Proposal) \<times> conn" where
  "readChunks ourChecksum buf p c =
     (case conn_ReadByte c of
        (Inl e, c) \<Rightarrow> ((Some e, p), c)
      | (Inr b, c) \<Rightarrow>
          if b = CHRSTX then
            (case readByteOrZero c of (b, c) \<Rightarrow>
             case readChunk (chunkLength b) c of
               (Inl e, c) \<Rightarrow> ((Some e, p), c)
             | (Inr bs, c) \<Rightarrow> readChunks (addSum ourChecksum bs) (buf @ bs) p c)
          else if b = CHREOT then
            (case readByteOrZero c of (b, c) \<Rightarrow>
               if (ourChecksum + byte_val b) mod 256 \<noteq> 0 then ((Some (Msg ''Bad checksum''), p), c)
               else if p_compressedSize p \<noteq> int (length buf) then ((Some (Msg ''Length mismatch after EOT''), p), c)
               else ((None, p\<lparr>p_compressedData := buf\<rparr>), c))
          else ((Some (Msg (''Unexpected byte in compressed stream: '' @ runeString (byte_val b))), p), c))"
  by pat_completeness auto
termination
  by (relation "measure (\<lambda>(n, buf, p, c). length (c_in c))")
    (auto dest!: sym [of "(_, _)"] read_shrinks)

declare readChunks.simps [simp del]

text \<open>The title is set as soon as it was read, the data only when everything was received.\<close>

definition readCompressed ::
  "(string \<Rightarrow> string \<Rightarrow> go_err + string) \<Rightarrow> Proposal \<Rightarrow> conn \<Rightarrow> ((go_err option \<times> Proposal) \<times> conn) option" where
  "readCompressed fromCharset p c =
     (case conn_ReadByte c of
        (Inl e, c) \<Rightarrow> Some ((Some e, p), c)
      | (Inr b, c) \<Rightarrow>
          if b = CHR ''*'' then do {
            ((line, e), c) \<leftarrow> nextLine c;
            Some ((Some (Msg (''Got error from CMS: '' @ line)), p), c)
          }
          else if b \<noteq> CHRSOH then
            Some ((Some (Msg (''First byte not as expected, got '' @ printInt (int (byte_val b)))), p), c)
          else
            (case conn_ReadByte c of
               (Inl e, c) \<Rightarrow> Some ((Some e, p), c)
             | (Inr headerLength, c) \<Rightarrow>
                 (case conn_ReadString CHRNUL c of
                    ((title, Some e), c) \<Rightarrow> Some ((Some (Wrapped ''Unable to parse title: '' e), p), c)
                  | ((title, None), c) \<Rightarrow>
                      let title = butlast title;
                          p = p\<lparr>p_title := fst (DecodeHeader fromCharset title)\<rparr>
                      in (case conn_ReadString CHRNUL c of
                            ((offsetStr, Some e), c) \<Rightarrow> Some ((Some (Wrapped ''Unable to parse offset: '' e), p), c)
                          | ((offsetStr, None), c) \<Rightarrow>
                              let offsetStr = butlast offsetStr;
                                  actualHeaderLength = length title + length offsetStr + 2
                              in if byte_val headerLength \<noteq> actualHeaderLength then
                                   Some ((Some (Msg (''Header length mismatch: expected '' @ printInt (int (byte_val headerLength)) @
                                     '', got '' @ printInt (int actualHeaderLength))), p), c)
                                 else
                                   (case Atoi offsetStr of
                                      (offset, Some e) \<Rightarrow>
                                        Some ((Some (Wrapped ''Offset header not parseable as integer: '' (NumError offsetStr e)), p), c)
                                    | (offset, None) \<Rightarrow>
                                        if offset \<noteq> p_offset p then
                                          Some ((Some (Msg (''Expected offset '' @ printInt (p_offset p) @ '', got '' @ printInt offset)), p), c)
                                        else Some (readChunks 0 [] p c))))))"

section \<open>A transfer that works\<close>

text \<open>The chunks of a message on the wire.\<close>

function chunked :: "string \<Rightarrow> string" where
  "chunked buffer =
     (if buffer = [] then []
      else [CHRSTX, byteOf (min MaxMsgLength (length buffer))] @ take MaxMsgLength buffer @ chunked (drop MaxMsgLength buffer))"
  by pat_completeness auto
termination
  by (relation "measure length") (auto simp: MaxMsgLength_def)

declare chunked.simps [simp del]

definition byteSum :: "string \<Rightarrow> int" where
  "byteSum bs = (\<Sum>b\<leftarrow>bs. int (byte_val b))"

lemma byteSum_append: "byteSum (xs @ ys) = byteSum xs + byteSum ys"
  by (simp add: byteSum_def)

lemma writeChunks_works:
  "c_fail c = None \<Longrightarrow> writeChunks s buffer c = ((None, s + byteSum buffer), c\<lparr>c_out := c_out c @ chunked buffer\<rparr>)"
proof (induction s buffer c rule: writeChunks.induct)
  case (1 s buffer c)
  show ?case
  proof (cases "buffer = []")
    case True
    then show ?thesis by (simp add: writeChunks.simps [of s "[]"] chunked.simps byteSum_def)
  next
    case False
    let ?n = "min MaxMsgLength (length buffer)"
    have n: "take ?n buffer = take MaxMsgLength buffer" "drop ?n buffer = drop MaxMsgLength buffer"
      by (simp_all add: min_def)
    have "byteSum buffer = byteSum (take MaxMsgLength buffer) + byteSum (drop MaxMsgLength buffer)"
      by (simp flip: byteSum_append)
    then show ?thesis
      using 1(1) [OF False refl refl conn_Write_works [OF 1(2), symmetric] refl] 1(2) False n
      by (subst writeChunks.simps) (simp add: Let_def chunked.simps [of buffer] byteSum_def)
  qed
qed

lemma addSum_eq: "s < 256 \<Longrightarrow> int (addSum s bs) = (int s + byteSum bs) mod 256"
proof (induction bs arbitrary: s)
  case (Cons b bs)
  have "addSum s (b # bs) = addSum ((s + byte_val b) mod 256) bs" by (simp add: addSum_def)
  then show ?case using Cons.IH [of "(s + byte_val b) mod 256"]
    by (simp add: byteSum_def zmod_int mod_simps algebra_simps)
qed (simp add: addSum_def byteSum_def)

lemma addSum_bound: "s < 256 \<Longrightarrow> addSum s bs < 256"
  by (induction bs arbitrary: s) (simp_all add: addSum_def)

lemma addSum_append: "addSum s (xs @ ys) = addSum (addSum s xs) ys"
  by (simp add: addSum_def)

lemma chunkLength_byteOf: "0 < n \<Longrightarrow> n \<le> 256 \<Longrightarrow> chunkLength (byteOf n) = n"
  by (cases "n = 256") (simp_all add: chunkLength_def byteOf_def byte_val_char_of)

text \<open>Reading all chunks and the end of the transfer.\<close>

lemma readChunks_chunked:
  "readChunks s buf p (c\<lparr>c_in := chunked buffer @ CHREOT # k # rest\<rparr>) =
     (if (addSum s buffer + byte_val k) mod 256 \<noteq> 0 then ((Some (Msg ''Bad checksum''), p), c\<lparr>c_in := rest\<rparr>)
      else if p_compressedSize p \<noteq> int (length (buf @ buffer)) then
        ((Some (Msg ''Length mismatch after EOT''), p), c\<lparr>c_in := rest\<rparr>)
      else ((None, p\<lparr>p_compressedData := buf @ buffer\<rparr>), c\<lparr>c_in := rest\<rparr>))"
proof (induction buffer arbitrary: s buf rule: chunked.induct)
  case (1 buffer)
  show ?case
  proof (cases "buffer = []")
    case True
    then show ?thesis
      by (subst readChunks.simps)
        (simp add: chunked.simps conn_ReadByte_def readByteOrZero_def addSum_def ctrl_chars)
  next
    case False
    let ?n = "min MaxMsgLength (length buffer)"
    let ?t = "take MaxMsgLength buffer" and ?d = "drop MaxMsgLength buffer"
    have n: "chunkLength (byteOf ?n) = ?n" using False by (intro chunkLength_byteOf) (auto simp: MaxMsgLength_def)
    have chunk: "readChunk ?n (c\<lparr>c_in := ?t @ r\<rparr>) = (Inr ?t, c\<lparr>c_in := r\<rparr>)" for r
      by (cases "length buffer \<le> MaxMsgLength") (simp_all add: readChunk_def)
    have "readChunks s buf p (c\<lparr>c_in := chunked buffer @ CHREOT # k # rest\<rparr>) =
        readChunks (addSum s ?t) (buf @ ?t) p (c\<lparr>c_in := chunked ?d @ CHREOT # k # rest\<rparr>)"
      using False n chunk
      by (subst readChunks.simps) (simp add: chunked.simps [of buffer] conn_ReadByte_def readByteOrZero_def)
    also have "\<dots> = (if (addSum s buffer + byte_val k) mod 256 \<noteq> 0 then ((Some (Msg ''Bad checksum''), p), c\<lparr>c_in := rest\<rparr>)
      else if p_compressedSize p \<noteq> int (length (buf @ buffer)) then
        ((Some (Msg ''Length mismatch after EOT''), p), c\<lparr>c_in := rest\<rparr>)
      else ((None, p\<lparr>p_compressedData := buf @ buffer\<rparr>), c\<lparr>c_in := rest\<rparr>))"
      unfolding 1(1) [OF False] append_assoc append_take_drop_id addSum_append [symmetric] ..
    finally show ?thesis .
  qed
qed

subsection \<open>The header\<close>

text \<open>No byte below 128 is part of the encoding of another rune.\<close>

lemma decodeRune_bytes:
  "c \<in> set (take (snd (decodeRune (d # ds))) (d # ds)) \<Longrightarrow> 128 \<le> byte_val d \<Longrightarrow> 128 \<le> byte_val c"
proof (cases ds)
  case (Cons c1 cs)
  assume *: "c \<in> set (take (snd (decodeRune (d # ds))) (d # ds))" "128 \<le> byte_val d"
  show ?thesis
  proof (cases cs)
    case Nil
    then show ?thesis using * Cons by (auto simp: Let_def cont_byte_def split: if_splits)
  next
    case (Cons c2 cs')
    show ?thesis
    proof (cases cs')
      case Nil
      then show ?thesis using * \<open>ds = c1 # cs\<close> Cons by (auto simp: Let_def cont_byte_def split: if_splits)
    next
      case (Cons c3 cs'')
      have ds: "ds = c1 # c2 # c3 # cs''" using \<open>ds = c1 # cs\<close> \<open>cs = c2 # cs'\<close> Cons by simp
      consider "byte_val d < 0xC2 \<or> 0xF4 < byte_val d" | "\<not> byte_val d < 0xC2" "byte_val d < 0xE0"
        | "\<not> byte_val d < 0xE0" "byte_val d < 0xF0" | "\<not> byte_val d < 0xF0" "\<not> 0xF4 < byte_val d" by linarith
      then show ?thesis
        by cases (use * in \<open>simp_all add: ds Let_def cont_byte_def split: if_splits\<close>, auto)
    qed
  qed
qed (auto simp: Let_def)

lemma decodeRune_ascii_alone:
  "c \<in> set (take (snd (decodeRune s)) s) \<Longrightarrow> byte_val c < 128 \<Longrightarrow> decodeRune s = (byte_val c, 1)"
proof (cases s)
  case (Cons d ds)
  assume c: "c \<in> set (take (snd (decodeRune s)) s)" "byte_val c < 128"
  show ?thesis
  proof (cases "byte_val d < 128")
    case True
    then show ?thesis using c Cons by simp
  next
    case False
    have "128 \<le> byte_val c'" if "c' \<in> set (take (snd (decodeRune (d # ds))) (d # ds))" for c'
      using that decodeRune_bytes [of c' d ds] False by simp
    then show ?thesis using c Cons by fastforce
  qed
qed simp

lemma runes_contain: "c \<in> set s \<Longrightarrow> byte_val c < 128 \<Longrightarrow> byte_val c \<in> set (runes s)"
proof (induction s rule: runes.induct)
  case (1 s)
  let ?n = "snd (decodeRune s)"
  have s: "s \<noteq> []" using 1(2) by auto
  have "set s = set (take ?n s) \<union> set (drop ?n s)" by (metis append_take_drop_id set_append)
  then consider "c \<in> set (take ?n s)" | "c \<in> set (drop ?n s)" using 1(2) by blast
  then show ?case
  proof cases
    case 1
    then show ?thesis using decodeRune_ascii_alone [OF 1] 1(1) s \<open>byte_val c < 128\<close> by (simp add: runes.simps [of s])
  next
    case 2
    then show ?thesis using 1(1) [OF s] 1(3) s by (simp add: runes.simps [of s])
  qed
qed

lemma writeQString_no_NUL: "NUL \<notin> set (writeQString s)"
proof (induction s)
  case (Cons b s)
  have "byte_val b div 16 < 16" using byte_val_less [of b] by (simp add: less_mult_imp_div_less)
  then have "visible (digit_char (byte_val b div 16))" "visible (digit_char (byte_val b mod 16))"
    by (simp_all add: digit_char_visible)
  then have "digit_char (byte_val b div 16) \<noteq> NUL" "digit_char (byte_val b mod 16) \<noteq> NUL"
    using visible_not_NUL by blast+
  then have "NUL \<notin> set (writeQByte b)"
    by (cases b rule: writeQByte_cases) (auto simp: qSafe_def visible_def)
  then show ?case using Cons by (simp add: writeQString_def)
qed (simp add: writeQString_def)

lemma QEncode_no_NUL: "NUL \<notin> set (QEncode ''utf-8'' t)"
proof (cases "needsEncoding t")
  case True
  obtain w ws where "qEncode ''utf-8'' 0 t @ closeWord = writeQString w @ closeWord @ laterWords ''utf-8'' ws"
    using qEncode_words by blast
  then have "QEncode ''utf-8'' t = openWord ''utf-8'' @ writeQString w @ closeWord @ laterWords ''utf-8'' ws"
    using True utf8_fold by (simp add: QEncode_def)
  then show ?thesis using writeQString_no_NUL by (auto simp: openWord_def closeWord_def)
next
  case False
  then show ?thesis using runes_contain [of NUL t] by (force simp: QEncode_def needsEncoding_def)
qed

lemma readCompressed_header:
  assumes "NUL \<notin> set title" "NUL \<notin> set off"
    and "c_in c = [CHRSOH, byteOf (length title + length off + 2)] @ title @ [CHRNUL] @ off @ [CHRNUL] @ body"
  shows "readCompressed fromCharset q c =
    (let q' = q\<lparr>p_title := fst (DecodeHeader fromCharset title)\<rparr>; c' = c\<lparr>c_in := body\<rparr>; n = length title + length off + 2
     in if 256 \<le> n then
          Some ((Some (Msg (''Header length mismatch: expected '' @ printInt (int n mod 256) @ '', got '' @ printInt (int n))), q'), c')
        else
          (case Atoi off of
             (offset, Some e) \<Rightarrow> Some ((Some (Wrapped ''Offset header not parseable as integer: '' (NumError off e)), q'), c')
           | (offset, None) \<Rightarrow>
               if offset \<noteq> p_offset q then
                 Some ((Some (Msg (''Expected offset '' @ printInt (p_offset q) @ '', got '' @ printInt offset)), q'), c')
               else Some (readChunks 0 [] q' c')))"
proof -
  let ?n = "length title + length off + 2"
  have r1: "conn_ReadString CHRNUL (c\<lparr>c_in := title @ CHRNUL # r\<rparr>) = ((title @ [CHRNUL], None), c\<lparr>c_in := r\<rparr>)" for r
    using ReadString_line [of CHRNUL title "c\<lparr>c_in := title @ CHRNUL # r\<rparr>" r] assms(1) by (simp add: CHRNUL_def)
  have r2: "conn_ReadString CHRNUL (c\<lparr>c_in := off @ CHRNUL # r\<rparr>) = ((off @ [CHRNUL], None), c\<lparr>c_in := r\<rparr>)" for r
    using ReadString_line [of CHRNUL off "c\<lparr>c_in := off @ CHRNUL # r\<rparr>" r] assms(2) by (simp add: CHRNUL_def)
  have b: "byte_val (byteOf ?n) = ?n mod 256" by (simp add: byteOf_def of_char_of)
  have m: "?n mod 256 \<noteq> ?n \<longleftrightarrow> 256 \<le> ?n"
    using mod_less_divisor [of 256 ?n] mod_less [of ?n 256] by linarith
  have i: "int (?n mod 256) = int ?n mod 256" by (simp add: zmod_int)
  show ?thesis
    unfolding readCompressed_def butlast_snoc
    by (simp add: assms(3) conn_ReadByte_def r1 r2 b Let_def CHRSOH_def i m del: of_nat_add add_2_eq_Suc add_2_eq_Suc' split: prod.split option.split)
qed

lemma printInt_no_NUL: "0 \<le> i \<Longrightarrow> NUL \<notin> set (printInt i)"
  using printInt_visible visible_not_NUL by blast

lemma writeCompressed_works:
  assumes "c_fail c = None" "c_flush c = None \<or> c_flush c = Some None" "6 \<le> p_compressedSize p"
    and "0 \<le> p_offset p" "p_offset p \<le> int (length (p_compressedData p))"
  shows "writeCompressed p c = Some (None, c\<lparr>c_out := c_out c @ transferHeader p @
     chunked (drop (nat (p_offset p)) (p_compressedData p)) @
     [CHREOT, byteOf (finalSum (byteSum (drop (nat (p_offset p)) (p_compressedData p))))]\<rparr>)"
  using assms by (auto simp: writeCompressed_def finishTransfer_def Let_def writeChunks_works)

lemma checksum_cancels: "(addSum 0 bs + byte_val (byteOf (finalSum (byteSum bs)))) mod 256 = 0"
proof -
  let ?x = "byteSum bs"
  have f: "int (finalSum ?x) = (- ?x) mod 256" by (simp add: finalSum_mod)
  have "int (byte_val (byteOf (finalSum ?x))) = (- ?x) mod 256"
    by (simp add: byteOf_def of_char_of zmod_int f)
  moreover have "int (addSum 0 bs) = ?x mod 256" by (simp add: addSum_eq)
  ultimately have "int ((addSum 0 bs + byte_val (byteOf (finalSum ?x))) mod 256) = (?x mod 256 + (- ?x) mod 256) mod 256"
    by (simp only: zmod_int of_nat_add of_nat_numeral)
  also have "\<dots> = 0" by (simp add: mod_add_eq)
  finally show ?thesis by (simp only: of_nat_eq_0_iff)
qed

section \<open>Properties\<close>

lemma received_header:
  assumes "0 \<le> p_offset p" and "c_in rc = transferHeader p @ body" and "p_offset q = p_offset p" and "p_offset p < 2 ^ 63"
    and "length (QEncode ''utf-8'' (p_title p)) + length (printInt (p_offset p)) \<le> 253"
  shows "readCompressed fromCharset q rc =
    Some (readChunks 0 [] (q\<lparr>p_title := fst (DecodeHeader fromCharset (QEncode ''utf-8'' (p_title p)))\<rparr>) (rc\<lparr>c_in := body\<rparr>))"
proof -
  have "Atoi (printInt (p_offset p)) = (p_offset q, None)" using assms Atoi_printInt [of "p_offset p"] by simp
  then show ?thesis
    using readCompressed_header [OF QEncode_no_NUL printInt_no_NUL [OF assms(1)], of rc "p_title p" body fromCharset q] assms
    by (simp add: transferHeader_def Let_def)
qed

text \<open>C3. A message that is sent with \<open>writeCompressed\<close> over a working connection arrives: \<open>readCompressed\<close> consumes
  exactly what was written and leaves the receiving side's proposal with the sender's compressed data and title. The
  transfer begins at offset 0, the encoded title has at most 252 bytes and is not taken for an encoded word, and both
  sides have the same compressed size.\<close>

theorem transfer_roundtrip:
  assumes "c_fail c = None" "c_flush c = None \<or> c_flush c = Some None"
    and "p_offset p = 0" "6 \<le> p_compressedSize p" "DataIsComplete p"
    and "needsEncoding (p_title p) \<or> Index (p_title p) ''=?'' = None" "length (QEncode ''utf-8'' (p_title p)) \<le> 252"
    and "p_offset q = 0" "p_compressedSize q = p_compressedSize p"
    and "writeCompressed p c = Some (e, c')" "c_in rc = drop (length (c_out c)) (c_out c') @ rest"
  shows "e = None \<and> readCompressed fromCharset q rc =
    Some ((None, q\<lparr>p_title := p_title p, p_compressedData := p_compressedData p\<rparr>), rc\<lparr>c_in := rest\<rparr>)"
proof
  let ?data = "p_compressedData p"
  let ?k = "byteOf (finalSum (byteSum ?data))"
  have w: "writeCompressed p c = Some (None, c\<lparr>c_out := c_out c @ transferHeader p @ chunked ?data @ [CHREOT, ?k]\<rparr>)"
    using writeCompressed_works [of c p] assms(1-4) by simp
  then show "e = None" using assms(10) by simp
  have i: "c_in rc = transferHeader p @ chunked ?data @ CHREOT # ?k # rest"
    using w assms(10,11) by auto
  have t: "fst (DecodeHeader fromCharset (QEncode ''utf-8'' (p_title p))) = p_title p"
    using assms(6) by (cases "needsEncoding (p_title p)")
      (simp_all add: DecodeHeader_def QEncode_decode, simp add: QEncode_def validUtf8_plain)
  show "readCompressed fromCharset q rc =
      Some ((None, q\<lparr>p_title := p_title p, p_compressedData := p_compressedData p\<rparr>), rc\<lparr>c_in := rest\<rparr>)"
    using received_header [OF _ i, of q fromCharset] assms(3,5,7-9) checksum_cancels [of ?data]
    by (simp add: t printInt_0 readChunks_chunked DataIsComplete_def)
qed

definition example_sent :: Proposal where
  "example_sent = example_Proposal\<lparr>p_title := ''Hello'', p_compressedData := ''compressed'', p_compressedSize := 10\<rparr>"

lemma example_sent_simps:
  "p_offset example_sent = 0" "p_compressedSize example_sent = 10" "p_title example_sent = ''Hello''"
  "p_compressedData example_sent = ''compressed''"
  by (simp_all add: example_sent_def example_Proposal_def new_Proposal_def)

lemma example_title: "\<not> needsEncoding ''Hello''" "QEncode ''utf-8'' ''Hello'' = ''Hello''"
proof -
  have "runes ''Hello'' = map byte_val ''Hello''" by (rule runes_ascii) (simp add: ascii_def)
  then show "\<not> needsEncoding ''Hello''" by (simp add: needsEncoding_def)
  then show "QEncode ''utf-8'' ''Hello'' = ''Hello''" by (simp add: QEncode_def)
qed

theorem transfer_roundtrip_witness:
  "readCompressed (\<lambda>cs s. Inr s) (example_sent\<lparr>p_title := [], p_compressedData := []\<rparr>)
     (fresh_conn (c_out (snd (the (writeCompressed example_sent (fresh_conn [])))))) =
   Some ((None, example_sent), fresh_conn [])"
proof -
  let ?c = "fresh_conn []" and ?q = "example_sent\<lparr>p_title := [], p_compressedData := []\<rparr>"
  obtain c' where w: "writeCompressed example_sent ?c = Some (None, c')"
    using writeCompressed_works [of ?c example_sent] by (simp add: example_sent_simps fresh_conn_def)
  have "Index ''Hello'' ''=?'' = None" by (simp add: HasPrefix_def)
  then have "readCompressed (\<lambda>cs s. Inr s) ?q (fresh_conn (c_out c')) =
      Some ((None, ?q\<lparr>p_title := ''Hello'', p_compressedData := ''compressed''\<rparr>), fresh_conn [])"
    using transfer_roundtrip [of ?c example_sent ?q None c' "fresh_conn (c_out c')" "[]" "\<lambda>cs s. Inr s"] w
    by (simp add: example_sent_simps DataIsComplete_def example_title fresh_conn_def)
  then show ?thesis using w by (simp add: example_sent_def)
qed

text \<open>C28. A transfer in which one byte of the data was replaced is refused.\<close>

theorem transfer_corruption_detected:
  assumes "0 \<le> p_offset p" "p_offset p < 2 ^ 63" "p_offset q = p_offset p"
    and "length (QEncode ''utf-8'' (p_title p)) + length (printInt (p_offset p)) \<le> 253"
    and "i < length data" "x \<noteq> data ! i"
    and "c_in rc = transferHeader p @ chunked (data[i := x]) @ [CHREOT, byteOf (finalSum (byteSum data))] @ rest"
  shows "\<exists>q' rc'. readCompressed fromCharset q rc = Some ((Some (Msg ''Bad checksum''), q'), rc')"
proof -
  let ?k = "byteOf (finalSum (byteSum data))"
  have s: "byteSum (data[i := x]) = byteSum data - int (byte_val (data ! i)) + int (byte_val x)"
    using assms(5) arg_cong [OF id_take_nth_drop [OF assms(5)], of byteSum]
    by (simp add: byteSum_def upd_conv_take_nth_drop)
  have k: "int (byte_val ?k) = (- byteSum data) mod 256"
    by (simp add: byteOf_def of_char_of zmod_int finalSum_mod)
  have "int ((addSum 0 (data[i := x]) + byte_val ?k) mod 256) = (byteSum (data[i := x]) mod 256 + (- byteSum data) mod 256) mod 256"
    by (simp only: zmod_int of_nat_add of_nat_numeral k addSum_eq) (simp add: addSum_eq)
  also have "\<dots> = (int (byte_val x) - int (byte_val (data ! i))) mod 256"
    by (simp add: s mod_add_eq algebra_simps)
  also have "\<dots> \<noteq> 0"
  proof
    assume "(int (byte_val x) - int (byte_val (data ! i))) mod 256 = 0"
    then have "int (byte_val x) mod 256 = int (byte_val (data ! i)) mod 256" by (simp only: mod_eq_dvd_iff dvd_eq_mod_eq_0)
    moreover have "int (byte_val y) mod 256 = int (byte_val y)" for y
      using byte_val_less [of y] by (intro mod_pos_pos_trivial) simp_all
    ultimately show False using assms(6) by simp
  qed
  finally have "(addSum 0 (data[i := x]) + byte_val ?k) mod 256 \<noteq> 0" by simp
  then show ?thesis
    using received_header [OF assms(1) _ assms(3,2,4), of rc "chunked (data[i := x]) @ CHREOT # ?k # rest" fromCharset]
      assms(7) by (simp add: readChunks_chunked)
qed

theorem transfer_corruption_detected_witness:
  "\<exists>q' rc'. readCompressed (\<lambda>cs s. Inr s) example_sent (fresh_conn (transferHeader example_sent @
     chunked (''compressed''[3 := CHR ''q'']) @ [CHREOT, byteOf (finalSum (byteSum ''compressed''))] @ [])) =
     Some ((Some (Msg ''Bad checksum''), q'), rc')"
  by (rule transfer_corruption_detected [OF _ _ _ _ _ _ fresh_conn_simps(1)])
    (simp_all add: example_sent_simps example_title printInt_0)

lemma readChunks_complete:
  "readChunks s buf p c = ((None, q), c') \<Longrightarrow> q = p\<lparr>p_compressedData := p_compressedData q\<rparr> \<and> DataIsComplete q"
proof (induction s buf p c rule: readChunks.induct)
  case (1 s buf p c)
  from 1(2) show ?case
    by (subst (asm) readChunks.simps)
      (auto simp: DataIsComplete_def split: sum.splits prod.splits if_splits dest!: 1(1) [rotated 6])
qed

text \<open>C27. Whatever the other side sends, a transfer that is reported as received gave data of exactly the announced
  compressed size, and changed nothing of the proposal but title and data.\<close>

theorem received_complete:
  assumes "readCompressed fromCharset q rc = Some ((None, q'), rc')"
  shows "DataIsComplete q' \<and> q' = q\<lparr>p_title := p_title q', p_compressedData := p_compressedData q'\<rparr>"
proof -
  have "\<exists>t c. readChunks 0 [] (q\<lparr>p_title := t\<rparr>) c = ((None, q'), rc')"
    using assms unfolding readCompressed_def Let_def
    by (auto split: sum.splits prod.splits option.splits if_splits simp: bind_eq_Some_conv)
  then obtain t c where "readChunks 0 [] (q\<lparr>p_title := t\<rparr>) c = ((None, q'), rc')" by blast
  then have "q' = q\<lparr>p_title := t\<rparr>\<lparr>p_compressedData := p_compressedData q'\<rparr>" and "DataIsComplete q'"
    using readChunks_complete by blast+
  then show ?thesis by (metis (no_types, lifting) Proposal.select_convs(5) Proposal.surjective Proposal.update_convs(5) Proposal.update_convs(9))
qed

theorem received_complete_witness:
  "\<exists>q' rc'. readCompressed (\<lambda>cs s. Inr s) example_sent
     (fresh_conn (transferHeader example_sent @ chunked ''compressed'' @ [CHREOT, byteOf (finalSum (byteSum ''compressed''))])) =
     Some ((None, q'), rc') \<and> DataIsComplete q'"
proof -
  have "\<exists>q' rc'. readCompressed (\<lambda>cs s. Inr s) example_sent
     (fresh_conn (transferHeader example_sent @ chunked ''compressed'' @ [CHREOT, byteOf (finalSum (byteSum ''compressed''))])) =
     Some ((None, q'), rc')"
    using received_header [of example_sent _ _ example_sent, OF _ fresh_conn_simps(1)] checksum_cancels [of "''compressed''"]
      readChunks_chunked [where c = "fresh_conn []" and buffer = "''compressed''" and rest = "[]"] 
    by (simp add: example_sent_simps example_title printInt_0)
  then show ?thesis using received_complete by blast
qed

lemma Atoi_negative: "i < 0 \<Longrightarrow> - (2 ^ 63) \<le> i \<Longrightarrow> Atoi (printInt i) = (i, None)"
proof -
  assume i: "i < 0" "- (2 ^ 63) \<le> i"
  then have n: "nat (- i) \<le> 2 ^ 63" by (simp add: nat_le_iff)
  then have "parseDigits 10 0 (printNat 10 (nat (- i))) = (nat (- i), None)" by (intro parseDigits_print) (simp_all add: maxUint64_def)
  then show ?thesis using i n printNat_nonempty [of 10 "nat (- i)"] by (simp add: Atoi_def ParseInt_def parseUint_def printInt_def)
qed

lemma lastIndex_last: "P c \<Longrightarrow> lastIndex P (s @ [c]) = Some (length s)"
  by (induction s) simp_all

lemma printInt_last: "\<exists>s c. printInt i = s @ [c] \<and> isDigit c"
proof -
  have "\<exists>s c. printNat 10 n = s @ [c] \<and> isDigit c" for n
  proof -
    have "list_all (\<lambda>d. isDigit (digit_char d)) [0..<10]" by code_simp
    then have "\<forall>d < 10. isDigit (digit_char d)" by (simp add: list_all_iff)
    then show ?thesis by (subst printNat.simps) auto
  qed
  then show ?thesis unfolding printInt_def by (metis append_Cons)
qed



text \<open>A title whose encoding makes the header longer than the length byte can tell is refused by the receiving
  side, although the transfer itself was reported as a success.\<close>

theorem long_title_refused:
  assumes "c_fail c = None" "c_flush c = None" "p_offset p = 0" "6 \<le> p_compressedSize p"
    and "253 \<le> length (QEncode ''utf-8'' (p_title p))"
  shows "\<exists>c'. writeCompressed p c = Some (None, c') \<and>
    (\<forall>q rc. c_in rc = drop (length (c_out c)) (c_out c') \<longrightarrow>
       (\<exists>m q' rc'. readCompressed fromCharset q rc = Some ((Some (Msg (''Header length mismatch'' @ m)), q'), rc')))"
proof -
  let ?t = "QEncode ''utf-8'' (p_title p)"
  let ?body = "chunked (p_compressedData p) @ [CHREOT, byteOf (finalSum (byteSum (p_compressedData p)))]"
  have w: "writeCompressed p c = Some (None, c\<lparr>c_out := c_out c @ transferHeader p @ ?body\<rparr>)"
    using writeCompressed_works [of c p] assms(1-4) by simp
  have "\<exists>m q' rc'. readCompressed fromCharset q rc = Some ((Some (Msg (''Header length mismatch'' @ m)), q'), rc')"
    if "c_in rc = transferHeader p @ ?body" for q rc
    using readCompressed_header [OF QEncode_no_NUL printInt_no_NUL [of 0], of rc "p_title p" ?body fromCharset q] that assms(3,5)
    by (simp add: transferHeader_def Let_def printInt_0)
  then show ?thesis using w by auto
qed

theorem long_title_refused_witness:
  "\<exists>c'. writeCompressed (example_sent\<lparr>p_title := replicate 253 (CHR ''a'')\<rparr>) (fresh_conn []) = Some (None, c') \<and>
    (\<forall>q rc. c_in rc = c_out c' \<longrightarrow> (\<exists>m q' rc'. readCompressed (\<lambda>cs s. Inr s) q rc =
       Some ((Some (Msg (''Header length mismatch'' @ m)), q'), rc')))"
proof -
  let ?t = "replicate 253 (CHR ''a'')"
  have "runes ?t = map byte_val ?t" by (rule runes_ascii) (simp add: ascii_def)
  then have "QEncode ''utf-8'' ?t = ?t" by (simp add: QEncode_def needsEncoding_def)
  then show ?thesis
    using long_title_refused [of "fresh_conn []" "example_sent\<lparr>p_title := ?t\<rparr>" "\<lambda>cs s. Inr s"]
    by (simp add: example_sent_simps fresh_conn_def)
qed

end
