(* ===== verification/Fbb_Message.thy ===== *)
theory Fbb_Message
  imports Fbb_Header Fbb_Transfer
begin

text \<open>
  Messages: \<^verbatim>\<open>src/fbb/message.go\<close> and \<^verbatim>\<open>src/fbb/message_body.go\<close>, with \<open>Proposal.Message\<close> of
  \<^verbatim>\<open>src/fbb/proposal.go\<close>. What the code takes from outside is collected in a record: the upper case and
  the case folding of runes beyond ASCII (Unicode tables), \<open>time.Parse\<close> (only whether it fails is used), the charset
  package, gzip, two environment variables, and the text \<^verbatim>\<open>fmt.Errorf\<close> makes of a format without arguments and
  \<^verbatim>\<open>strconv.Quote\<close>, which only appear in error messages.
\<close>

record env =
  e_upper :: "nat \<Rightarrow> nat"
  e_fold :: "nat \<Rightarrow> nat"
  e_timeParse :: "string \<Rightarrow> string \<Rightarrow> go_err option"
  e_fromCharset :: "string \<Rightarrow> string \<Rightarrow> go_err + string"
  e_toCharset :: "string \<Rightarrow> string \<Rightarrow> go_err + string"
  e_gzip :: "string \<Rightarrow> string"
  e_gunzip :: "string \<Rightarrow> string option"
  e_gzipExperiment :: bool
  e_fwAuxOnly :: bool
  e_errorf :: "string \<Rightarrow> string"
  e_quote :: "string \<Rightarrow> string"

section \<open>Addresses\<close>

definition upperRune :: "env \<Rightarrow> nat \<Rightarrow> nat" where
  "upperRune env r = (if r < 128 then if 97 \<le> r \<and> r \<le> 122 then r - 32 else r else e_upper env r)"

text \<open>\<open>strings.ToUpper\<close>.\<close>

definition ToUpper :: "env \<Rightarrow> string \<Rightarrow> string" where
  "ToUpper env s = concat (map (\<lambda>r. runeString (upperRune env r)) (runes s))"

text \<open>\<open>strings.EqualFold\<close> of any two strings.\<close>

definition EqualFoldU :: "env \<Rightarrow> string \<Rightarrow> string \<Rightarrow> bool" where
  "EqualFoldU env s t \<longleftrightarrow>
     map (\<lambda>r. e_fold env (foldRune r)) (runes s) = map (\<lambda>r. e_fold env (foldRune r)) (runes t)"

record Address =
  Proto :: string
  Addr :: string

definition AddressFromString :: "env \<Rightarrow> string \<Rightarrow> Address" where
  "AddressFromString env addr =
     (let a = (case Split (CHR '':'') addr of
                 [p, q] \<Rightarrow> \<lparr>Proto = p, Addr = q\<rparr>
               | _ \<Rightarrow>
                   (case Split (CHR ''@'') addr of
                      p # q # _ \<Rightarrow>
                        if EqualFold q ''winlink.org'' then \<lparr>Proto = [], Addr = p\<rparr> else \<lparr>Proto = ''SMTP'', Addr = addr\<rparr>
                    | _ \<Rightarrow> \<lparr>Proto = [], Addr = addr\<rparr>))
      in if Proto a = [] then a\<lparr>Addr := ToUpper env (Addr a)\<rparr> else a)"

definition Address_String :: "Address \<Rightarrow> string" where
  "Address_String a = (if Proto a = [] then Addr a else Proto a @ '':'' @ Addr a)"

definition IsZero :: "Address \<Rightarrow> bool" where
  "IsZero a \<longleftrightarrow> length (Addr a) = 0"

definition EqualString :: "env \<Rightarrow> Address \<Rightarrow> string \<Rightarrow> bool" where
  "EqualString env a b \<longleftrightarrow> a = AddressFromString env b"

section \<open>Messages\<close>

record File =
  f_data :: string
  f_name :: string
  f_err :: "go_err option"

record Message =
  m_header :: Header
  m_body :: string
  m_files :: "File list"

definition NewFile :: "string \<Rightarrow> string \<Rightarrow> File option" where
  "NewFile name data = (if name = [] then None else Some \<lparr>f_data = data, f_name = name, f_err = None\<rparr>)"

definition Size :: "File \<Rightarrow> nat" where
  "Size f = length (f_data f)"

abbreviation in_header :: "(Header \<Rightarrow> Header) \<Rightarrow> Message \<Rightarrow> Message" where
  "in_header f m \<equiv> m\<lparr>m_header := f (m_header m)\<rparr>"

definition MID :: "Message \<Rightarrow> string" where
  "MID m = Header_Get (m_header m) HEADER_MID"

definition toCharset :: "env \<Rightarrow> string \<Rightarrow> string \<Rightarrow> string \<times> go_err option" where
  "toCharset env cs s = (case e_toCharset env cs s of Inl e \<Rightarrow> (s, Some e) | Inr t \<Rightarrow> (t, None))"

definition SetSubject :: "env \<Rightarrow> string \<Rightarrow> Message \<Rightarrow> Message" where
  "SetSubject env str m =
     (let encoded = QEncode DefaultCharset (fst (toCharset env DefaultCharset str))
      in in_header (Header_Set HEADER_SUBJECT encoded) m)"

definition Subject :: "env \<Rightarrow> Message \<Rightarrow> string" where
  "Subject env m = fst (DecodeHeader (e_fromCharset env) (Header_Get (m_header m) HEADER_SUBJECT))"

definition SetFrom :: "env \<Rightarrow> string \<Rightarrow> Message \<Rightarrow> Message" where
  "SetFrom env addr m = in_header (Header_Set HEADER_FROM (Address_String (AddressFromString env addr))) m"

definition From :: "env \<Rightarrow> Message \<Rightarrow> Address" where
  "From env m = AddressFromString env (Header_Get (m_header m) HEADER_FROM)"

definition AddTo :: "env \<Rightarrow> string list \<Rightarrow> Message \<Rightarrow> Message" where
  "AddTo env addr m = fold (\<lambda>a. in_header (Header_Add HEADER_TO (Address_String (AddressFromString env a)))) addr m"

definition AddCc :: "env \<Rightarrow> string list \<Rightarrow> Message \<Rightarrow> Message" where
  "AddCc env addr m = fold (\<lambda>a. in_header (Header_Add HEADER_CC (Address_String (AddressFromString env a)))) addr m"

definition To :: "env \<Rightarrow> Message \<Rightarrow> Address list" where
  "To env m = map (AddressFromString env) (h_values (m_header m) HEADER_TO)"

definition Cc :: "env \<Rightarrow> Message \<Rightarrow> Address list" where
  "Cc env m = map (AddressFromString env) (h_values (m_header m) HEADER_CC)"

definition Receivers :: "env \<Rightarrow> Message \<Rightarrow> Address list" where
  "Receivers env m = To env m @ Cc env m"

definition IsOnlyReceiver :: "env \<Rightarrow> Address \<Rightarrow> Message \<Rightarrow> bool" where
  "IsOnlyReceiver env addr m =
     (case Receivers env m of
        [r] \<Rightarrow> EqualFoldU env (Address_String r) (Address_String addr)
      | _ \<Rightarrow> False)"

definition BodySize :: "Message \<Rightarrow> int" where
  "BodySize m = fst (Atoi (Header_Get (m_header m) HEADER_BODY))"

definition Validate :: "env \<Rightarrow> Message \<Rightarrow> go_err option" where
  "Validate env m =
     (if MID m = [] then Some (Msg ''Empty MID'')
      else if 12 < length (MID m) then Some (Msg ''MID too long'')
      else if length (Receivers env m) = 0 then Some (Msg ''No recipient'')
      else if Header_Get (m_header m) HEADER_FROM = [] then Some (Msg ''Empty From field'')
      else if BodySize m = 0 then Some (Msg ''Empty body'')
      else if length (Header_Get (m_header m) HEADER_SUBJECT) = 0 then Some (Msg ''Empty subject'')
      else if 128 < length (Header_Get (m_header m) HEADER_SUBJECT) then Some (Msg ''Subject too long'')
      else (case find (\<lambda>f. 255 < length (f_name f)) (m_files m) of
              Some f \<Rightarrow> Some (Msg (''Attachment file name too long: '' @ f_name f))
            | None \<Rightarrow> None))"

section \<open>Dates\<close>

definition DateLayout :: string where "DateLayout = ''2006/01/02 15:04''"

definition rfc5322Layouts :: "string list" where
  "rfc5322Layouts =
     [dow @ day @ '' Jan '' @ year @ '' 15:04'' @ sec @ '' '' @ zone.
        dow \<leftarrow> [[], ''Mon, ''], day \<leftarrow> [''2'', ''02''], year \<leftarrow> [''2006'', ''06''], sec \<leftarrow> ['':05'', []],
        zone \<leftarrow> [''-0700'', ''MST'', ''-0700 (MST)'']]"

definition dateLayouts :: "string list" where
  "dateLayouts = [DateLayout, ''2006.01.02 15:04'', ''2006-01-02 15:04'', ''20060102150405''] @ rfc5322Layouts"

text \<open>The error of the last layout if none fits.\<close>

fun tryLayouts :: "env \<Rightarrow> string list \<Rightarrow> string \<Rightarrow> go_err option \<Rightarrow> go_err option" where
  "tryLayouts env [] s e = e"
| "tryLayouts env (l # ls) s e = (case e_timeParse env l s of None \<Rightarrow> None | Some e' \<Rightarrow> tryLayouts env ls s (Some e'))"

definition ParseDate :: "env \<Rightarrow> string \<Rightarrow> go_err option" where
  "ParseDate env dateStr = (if dateStr = [] then None else tryLayouts env dateLayouts dateStr None)"

section \<open>The body\<close>

text \<open>Lines of a \<^verbatim>\<open>bufio.Scanner\<close>: a line that does not fit its buffer of 64 kB ends the scan.\<close>

definition MaxScanTokenSize :: nat where "MaxScanTokenSize = 65536"

function scanLines :: "string \<Rightarrow> string list" where
  "scanLines s =
     (if s = [] then []
      else
        let line = takeWhile (\<lambda>c. c \<noteq> LF) s
        in if MaxScanTokenSize \<le> length line then []
           else dropCR line # scanLines (tl (dropWhile (\<lambda>c. c \<noteq> LF) s)))"
  by pat_completeness auto
termination
proof (relation "measure length", goal_cases)
  case (2 s line)
  have "length (dropWhile (\<lambda>c. c \<noteq> LF) s) \<le> length s" by (rule length_dropWhile_le)
  moreover have "0 < length s" using 2 by simp
  ultimately have "length (dropWhile (\<lambda>c. c \<noteq> LF) s) - 1 < length s" by linarith
  then show ?case by simp
qed simp

declare scanLines.simps [simp del]

function wrapLine :: "string \<Rightarrow> string" where
  "wrapLine line =
     (let n = min (length line) (1000 - 2) in
      take n line @ CRLF @ (if drop n line = [] then [] else wrapLine (drop n line)))"
  by pat_completeness auto
termination
  by (relation "measure length") auto

declare wrapLine.simps [simp del]

definition StringToBody :: "env \<Rightarrow> string \<Rightarrow> string \<Rightarrow> string \<times> go_err option" where
  "StringToBody env str encoding =
     (let out = concat (map wrapLine (scanLines str))
      in case e_toCharset env encoding out of Inl e \<Rightarrow> (out, Some e) | Inr t \<Rightarrow> (t, None))"

definition BodyFromBytes :: "env \<Rightarrow> string \<Rightarrow> string \<Rightarrow> string \<times> go_err option" where
  "BodyFromBytes env data encoding =
     (case e_fromCharset env encoding data of Inl e \<Rightarrow> (data, Some e) | Inr t \<Rightarrow> (t, None))"

definition DefaultTransferEncoding :: string where "DefaultTransferEncoding = ''8bit''"

text \<open>The charset argument is not used. \<^verbatim>\<open>mime.FormatMediaType\<close> of the constant arguments is written out.\<close>

definition SetBodyWithCharset :: "env \<Rightarrow> string \<Rightarrow> string \<Rightarrow> Message \<Rightarrow> go_err option \<times> Message" where
  "SetBodyWithCharset env cs body m =
     (let m = in_header (Header_Set HEADER_CONTENT_TRANSFER_ENCODING DefaultTransferEncoding) m;
          m = in_header (Header_Set HEADER_CONTENT_TYPE (''text/plain; charset='' @ DefaultCharset)) m
      in case StringToBody env body DefaultCharset of
           (bytes, Some e) \<Rightarrow> (Some e, m)
         | (bytes, None) \<Rightarrow> (None, in_header (Header_Set HEADER_BODY (printInt (int (length bytes)))) (m\<lparr>m_body := bytes\<rparr>)))"

definition SetBody :: "env \<Rightarrow> string \<Rightarrow> Message \<Rightarrow> go_err option \<times> Message" where
  "SetBody env body m = SetBodyWithCharset env DefaultCharset body m"

definition AddFile :: "env \<Rightarrow> File \<Rightarrow> Message \<Rightarrow> Message" where
  "AddFile env f m =
     (let m = m\<lparr>m_files := m_files m @ [f]\<rparr>;
          encodedName = QEncode DefaultCharset (fst (toCharset env DefaultCharset (f_name f)))
      in in_header (Header_Add HEADER_FILE (printInt (int (Size f)) @ '' '' @ encodedName)) m)"

text \<open>\<open>NewMessage\<close>; the generated message id and the formatted current time are arguments.\<close>

definition NewMessage :: "env \<Rightarrow> string \<Rightarrow> string \<Rightarrow> string \<Rightarrow> string \<Rightarrow> Message" where
  "NewMessage env mid now t mycall =
     (let m = \<lparr>m_header = [], m_body = [], m_files = []\<rparr>;
          m = in_header (Header_Set HEADER_MID mid) m;
          m = in_header (Header_Set HEADER_DATE now) m;
          m = SetFrom env mycall m;
          m = in_header (Header_Set HEADER_MBO mycall) m
      in in_header (Header_Set HEADER_TYPE (if t = [] then ''Private'' else t)) m)"

section \<open>Writing and reading messages\<close>

text \<open>The error of \<open>Header.Write\<close> is ignored.\<close>

definition Message_Write :: "env \<Rightarrow> Message \<Rightarrow> go_err + string" where
  "Message_Write env m =
     (case ParseDate env (Header_Get (m_header m) HEADER_DATE) of
        Some e \<Rightarrow> Inl e
      | None \<Rightarrow>
          Inr (fst (Header_Write (m_header m)) @ CRLF @ m_body m @ (if 0 < length (m_files m) then CRLF else []) @
            concat (map (\<lambda>f. f_data f @ CRLF) (m_files m))))"

definition Bytes :: "env \<Rightarrow> Message \<Rightarrow> go_err + string" where
  "Bytes env m = Message_Write env m"

text \<open>\<open>Message.Proposal\<close> returns the proposal together with what \<open>Validate\<close> says; building the proposal can panic.\<close>

definition Message_Proposal :: "env \<Rightarrow> char \<Rightarrow> Message \<Rightarrow> (go_err + Proposal \<times> go_err option) option" where
  "Message_Proposal env code m =
     (case Bytes env m of
        Inl e \<Rightarrow> Some (Inl e)
      | Inr data \<Rightarrow> do {
          prop \<leftarrow> NewProposal (e_gzip env) (MID m) (Subject env m) code data;
          Some (Inr (prop, Validate env m))
        })"

definition asciiSpace :: "char \<Rightarrow> bool" where
  "asciiSpace c \<longleftrightarrow> c = CHR 0x09 \<or> c = LF \<or> c = CHR 0x0B \<or> c = CHR 0x0C \<or> c = CR \<or> c = CHR '' ''"

definition trimLeftSpace :: "string \<Rightarrow> string" where
  "trimLeftSpace s = dropWhile asciiSpace s"

text \<open>A section of \<open>readN\<close> bytes and the line end after it. Making a slice of a negative or an absurd length panics.
  The error of the inner read is not seen; too few bytes are noticed by their number.\<close>

definition maxAlloc :: int where "maxAlloc = 2 ^ 48"

definition readSection :: "int \<Rightarrow> string \<Rightarrow> ((string \<times> go_err option) \<times> string) option" where
  "readSection readN s =
     (if readN < 0 \<or> maxAlloc < readN then None
      else
        let n = nat readN in
        if length s < n then Some ((s @ replicate (n - length s) NUL, Some (IoErr ErrUnexpectedEOF)), [])
        else
          let buf = take n s; r = drop n s
          in Some (case dropWhile (\<lambda>c. c \<noteq> LF) r of
                     [] \<Rightarrow> ((buf, None), [])
                   | _ # r' \<Rightarrow>
                       if takeWhile (\<lambda>c. c \<noteq> LF) r = [CR] then ((buf, None), r')
                       else ((buf, Some (Msg ''Unexpected end of section'')), r')))"

text \<open>One attachment from its header value; the error of the message so far is replaced by that of the section.\<close>

definition readFile :: "env \<Rightarrow> string \<Rightarrow> go_err option \<Rightarrow> string \<Rightarrow> ((File \<times> go_err option) \<times> string) option" where
  "readFile env val err s =
     (case dropWhile (\<lambda>c. c \<noteq> CHR '' '') val of
        [] \<Rightarrow> Some ((\<lparr>f_data = [], f_name = [], f_err = Some (Msg (''Failed to parse file header. Got: '' @ val))\<rparr>, err), s)
      | _ # name \<Rightarrow> do {
          ((data, e), r) \<leftarrow> readSection (fst (Atoi (takeWhile (\<lambda>c. c \<noteq> CHR '' '') val))) s;
          Some ((\<lparr>f_data = data, f_name = fst (DecodeHeader (e_fromCharset env) name), f_err = e\<rparr>, e), r)
        })"

fun readFiles :: "env \<Rightarrow> string list \<Rightarrow> go_err option \<Rightarrow> string \<Rightarrow> (File list \<times> go_err option) option" where
  "readFiles env [] err s = Some ([], err)"
| "readFiles env (v # vs) err s = do {
     ((f, err), s) \<leftarrow> readFile env v err s;
     (fs, err) \<leftarrow> readFiles env vs err s;
     Some (f # fs, err)
   }"

definition ReadFrom :: "env \<Rightarrow> string \<Rightarrow> (go_err option \<times> Message) option" where
  "ReadFrom env s =
     (let m = \<lparr>m_header = [], m_body = [], m_files = []\<rparr> in
      case rdHeader [] (trimLeftSpace s) of
        ((h, Some e), r) \<Rightarrow> Some (Some e, m)
      | ((h, None), r) \<Rightarrow> do {
          let m = m\<lparr>m_header := h\<rparr>;
          ((body, err), r) \<leftarrow> readSection (BodySize m) r;
          let m = m\<lparr>m_body := body\<rparr>;
          if err \<noteq> None then Some (err, m)
          else do {
            (files, err) \<leftarrow> readFiles env (h_values h HEADER_FILE) None r;
            let m = m\<lparr>m_files := files\<rparr>;
            Some (if err = None then ParseDate env (Header_Get h HEADER_DATE) else err, m)
          }
        })"

text \<open>\<open>Proposal.Message\<close>.\<close>

definition Proposal_Message :: "env \<Rightarrow> Proposal \<Rightarrow> (go_err option \<times> Message) option" where
  "Proposal_Message env p = do { data \<leftarrow> Data (e_gunzip env) p; ReadFrom env data }"

section \<open>Reading a message that was written\<close>

definition file_header :: "env \<Rightarrow> string \<Rightarrow> File \<Rightarrow> bool" where
  "file_header env v f \<longleftrightarrow> (\<exists>enc. v = printInt (int (Size f)) @ '' '' @ enc \<and>
     fst (DecodeHeader (e_fromCharset env) enc) = f_name f) \<and> f_err f = None \<and> int (Size f) \<le> maxAlloc"

definition message_ok :: "env \<Rightarrow> Message \<Rightarrow> bool" where
  "message_ok env m \<longleftrightarrow> header_ok (m_header m) \<and> Header_Get (m_header m) HEADER_BODY = printInt (int (length (m_body m))) \<and>
     int (length (m_body m)) \<le> maxAlloc \<and> list_all2 (file_header env) (h_values (m_header m) HEADER_FILE) (m_files m) \<and>
     ParseDate env (Header_Get (m_header m) HEADER_DATE) = None"

lemma canonicalKey_names [simp]:
  "canonicalKey HEADER_MID = HEADER_MID" "canonicalKey HEADER_TO = HEADER_TO" "canonicalKey HEADER_DATE = HEADER_DATE"
  "canonicalKey HEADER_TYPE = HEADER_TYPE" "canonicalKey HEADER_FROM = HEADER_FROM" "canonicalKey HEADER_CC = HEADER_CC"
  "canonicalKey HEADER_SUBJECT = HEADER_SUBJECT" "canonicalKey HEADER_MBO = HEADER_MBO"
  "canonicalKey HEADER_BODY = HEADER_BODY" "canonicalKey HEADER_FILE = HEADER_FILE"
  "canonicalKey HEADER_CONTENT_TYPE = HEADER_CONTENT_TYPE"
  "canonicalKey HEADER_CONTENT_TRANSFER_ENCODING = HEADER_CONTENT_TRANSFER_ENCODING"
  unfolding header_names by code_simp+

lemma Atoi_size: "0 \<le> i \<Longrightarrow> i \<le> maxAlloc \<Longrightarrow> Atoi (printInt i) = (i, None)"
  by (rule Atoi_printInt) (simp_all add: maxAlloc_def)

lemma readSection_last: "int (length d) \<le> maxAlloc \<Longrightarrow> readSection (int (length d)) d = Some ((d, None), [])"
  by (simp add: readSection_def)

lemma readSection_next: "int (length d) \<le> maxAlloc \<Longrightarrow> readSection (int (length d)) (d @ CRLF @ r) = Some ((d, None), r)"
  by (simp add: readSection_def)

lemma readFile_written:
  assumes "file_header env v f"
  shows "readFile env v err (f_data f @ CRLF @ r) = Some ((f, None), r)"
proof -
  obtain enc where v: "v = printInt (int (Size f)) @ '' '' @ enc" and n: "fst (DecodeHeader (e_fromCharset env) enc) = f_name f"
      and f: "f_err f = None" "int (Size f) \<le> maxAlloc"
    using assms by (auto simp: file_header_def)
  have "CHR '' '' \<notin> set (printInt (int (Size f)))" by (simp add: printInt_no_space)
  note takeWhile_until [OF this, of enc]
  moreover have "readSection (int (Size f)) (f_data f @ CRLF @ r) = Some ((f_data f, None), r)"
    using f(2) readSection_next [of "f_data f" r] by (simp add: Size_def)
  moreover have "\<lparr>f_data = f_data f, f_name = f_name f, f_err = None\<rparr> = f" using f(1) by simp
  ultimately show ?thesis using n Atoi_size [of "int (Size f)"] f(2) by (simp add: readFile_def v)
qed

lemma readFiles_written:
  "list_all2 (file_header env) vs fs \<Longrightarrow> readFiles env vs None (concat (map (\<lambda>f. f_data f @ CRLF) fs)) = Some (fs, None)"
proof (induction rule: list_all2_induct)
  case (Cons v vs f fs)
  have "readFile env v None (f_data f @ CRLF @ concat (map (\<lambda>f. f_data f @ CRLF) fs)) =
      Some ((f, None), concat (map (\<lambda>f. f_data f @ CRLF) fs))"
    using Cons by (intro readFile_written) simp
  then show ?case using Cons by simp
qed simp

lemma Header_Get_same: "\<forall>k. h_values h' k = h_values h k \<Longrightarrow> Header_Get h' k = Header_Get h k"
  by (simp add: Header_Get_def get_def)

lemma trimLeftSpace_header: "header_ok h \<Longrightarrow> trimLeftSpace (fst (Header_Write h) @ r) = fst (Header_Write h) @ r"
  using header_ok_mid [of h] by (simp add: Header_Write_def headerLine_def trimLeftSpace_def asciiSpace_def)

lemma ReadFrom_Bytes:
  assumes "message_ok env m"
  shows "\<exists>bs h. Bytes env m = Inr bs \<and> (\<forall>k. h_values h k = h_values (m_header m) k) \<and>
    ReadFrom env bs = Some (None, m\<lparr>m_header := h\<rparr>) \<and> header_ok h"
proof -
  let ?h = "m_header m" and ?files = "concat (map (\<lambda>f. f_data f @ CRLF) (m_files m))"
  let ?rest = "m_body m @ (if 0 < length (m_files m) then CRLF else []) @ ?files"
  have ok: "header_ok ?h" "Header_Get ?h HEADER_BODY = printInt (int (length (m_body m)))" "int (length (m_body m)) \<le> maxAlloc"
      "list_all2 (file_header env) (h_values ?h HEADER_FILE) (m_files m)" "ParseDate env (Header_Get ?h HEADER_DATE) = None"
    using assms by (auto simp: message_ok_def)
  have b: "Bytes env m = Inr (fst (Header_Write ?h) @ CRLF @ ?rest)"
    by (simp add: Bytes_def Message_Write_def ok(5))
  obtain h where h: "rdHeader [] (fst (Header_Write ?h) @ CRLF @ ?rest) = ((h, None), ?rest)"
      "\<forall>k. h_values h k = h_values ?h k" "header_ok h"
    using rdHeader_text [OF header_entries_clean [OF ok(1)], of "[]" ?rest] entries_values [OF ok(1)] header_ok_again [OF ok(1)]
    by (auto simp: Header_Write_entries [OF ok(1)])
  have size: "BodySize \<lparr>m_header = h, m_body = [], m_files = []\<rparr> = int (length (m_body m))"
    using Header_Get_same [OF h(2)] ok(2,3) by (simp add: BodySize_def Atoi_size)
  have sec: "readSection (int (length (m_body m))) ?rest = Some ((m_body m, None), ?files)"
    using readSection_last [OF ok(3)] readSection_next [OF ok(3), of ?files] by (cases "m_files m") simp_all
  have "ReadFrom env (fst (Header_Write ?h) @ CRLF @ ?rest) = Some (None, m\<lparr>m_header := h\<rparr>)"
    using h size sec readFiles_written [OF ok(4)] Header_Get_same [OF h(2)] ok(5)
    by (simp add: ReadFrom_def trimLeftSpace_header [OF ok(1)] del: append_assoc)
  then show ?thesis using b h(2,3) by blast
qed

lemma message_ok_same:
  assumes "message_ok env m" "\<forall>k. h_values h k = h_values (m_header m) k" "header_ok h"
  shows "message_ok env (m\<lparr>m_header := h\<rparr>)"
  using assms Header_Get_same [OF assms(2)] by (simp add: message_ok_def)

section \<open>Messages built with the operations\<close>

datatype msg_op = OpTo "string list" | OpCc "string list" | OpSubject string | OpFrom string | OpBody string | OpFile File

fun run_op :: "env \<Rightarrow> msg_op \<Rightarrow> Message \<Rightarrow> Message" where
  "run_op env (OpTo as) m = AddTo env as m"
| "run_op env (OpCc as) m = AddCc env as m"
| "run_op env (OpSubject s) m = SetSubject env s m"
| "run_op env (OpFrom a) m = SetFrom env a m"
| "run_op env (OpBody b) m = snd (SetBody env b m)"
| "run_op env (OpFile f) m = AddFile env f m"

text \<open>What reading a message back relies on: one value list per key, the body's size in the header, and one file
  header per attachment, in their order, with its size.\<close>

definition msg_inv :: "Message \<Rightarrow> bool" where
  "msg_inv m \<longleftrightarrow> distinct (map fst (m_header m)) \<and>
     (m_body m = [] \<and> h_values (m_header m) HEADER_BODY = [] \<or>
      h_values (m_header m) HEADER_BODY = [printInt (int (length (m_body m)))]) \<and>
     list_all2 (\<lambda>v f. \<exists>enc. v = printInt (int (Size f)) @ '' '' @ enc) (h_values (m_header m) HEADER_FILE) (m_files m)"

lemma header_names_differ [simp]:
  "HEADER_FILE \<noteq> HEADER_BODY" "HEADER_BODY \<noteq> HEADER_FILE"
  "HEADER_TO \<noteq> HEADER_BODY" "HEADER_TO \<noteq> HEADER_FILE" "HEADER_CC \<noteq> HEADER_BODY" "HEADER_CC \<noteq> HEADER_FILE"
  "HEADER_SUBJECT \<noteq> HEADER_BODY" "HEADER_SUBJECT \<noteq> HEADER_FILE" "HEADER_FROM \<noteq> HEADER_BODY" "HEADER_FROM \<noteq> HEADER_FILE"
  "HEADER_MID \<noteq> HEADER_BODY" "HEADER_MID \<noteq> HEADER_FILE" "HEADER_DATE \<noteq> HEADER_BODY" "HEADER_DATE \<noteq> HEADER_FILE"
  "HEADER_MBO \<noteq> HEADER_BODY" "HEADER_MBO \<noteq> HEADER_FILE" "HEADER_TYPE \<noteq> HEADER_BODY" "HEADER_TYPE \<noteq> HEADER_FILE"
  "HEADER_CONTENT_TYPE \<noteq> HEADER_BODY" "HEADER_CONTENT_TYPE \<noteq> HEADER_FILE"
  "HEADER_CONTENT_TRANSFER_ENCODING \<noteq> HEADER_BODY" "HEADER_CONTENT_TRANSFER_ENCODING \<noteq> HEADER_FILE"
  by (simp_all add: header_names)

text \<open>Setting or adding a field other than the body's size and the file headers keeps the invariant.\<close>

lemma msg_inv_other:
  assumes "msg_inv m" "k = canonicalKey k" "k \<noteq> HEADER_BODY" "k \<noteq> HEADER_FILE"
  shows "msg_inv (in_header (Header_Set k v) m)" "msg_inv (in_header (Header_Add k v) m)"
  using assms(1,3,4) unfolding Header_Set_def Header_Add_def assms(2) [symmetric] Let_def
  by (simp_all add: msg_inv_def h_values_update distinct_update)

lemma msg_inv_AddTo: "msg_inv m \<Longrightarrow> msg_inv (AddTo env as m)"
  by (induction as arbitrary: m) (simp_all add: AddTo_def msg_inv_other)

lemma msg_inv_AddCc: "msg_inv m \<Longrightarrow> msg_inv (AddCc env as m)"
  by (induction as arbitrary: m) (simp_all add: AddCc_def msg_inv_other)

lemma msg_inv_SetBody: "msg_inv m \<Longrightarrow> msg_inv (snd (SetBody env b m))"
proof -
  let ?m1 = "in_header (Header_Set HEADER_CONTENT_TRANSFER_ENCODING DefaultTransferEncoding) m"
  let ?m2 = "in_header (Header_Set HEADER_CONTENT_TYPE (''text/plain; charset='' @ DefaultCharset)) ?m1"
  assume "msg_inv m"
  then have 2: "msg_inv ?m2" by (intro msg_inv_other) simp_all
  obtain bs e where s: "StringToBody env b DefaultCharset = (bs, e)" by fastforce
  show ?thesis
  proof (cases e)
    case None
    have "msg_inv (in_header (Header_Set HEADER_BODY (printInt (int (length bs)))) (?m2\<lparr>m_body := bs\<rparr>))"
      using 2 by (simp add: msg_inv_def Header_Set_def h_values_update distinct_update)
    then show ?thesis using s None by (simp add: SetBody_def SetBodyWithCharset_def Let_def)
  next
    case Some
    then show ?thesis using s 2 by (simp add: SetBody_def SetBodyWithCharset_def Let_def)
  qed
qed

lemma msg_inv_AddFile: "msg_inv m \<Longrightarrow> msg_inv (AddFile env f m)"
  by (auto simp: msg_inv_def AddFile_def Let_def Header_Add_def h_values_update distinct_update intro!: list_all2_appendI)

lemma msg_inv_run: "msg_inv m \<Longrightarrow> msg_inv (run_op env x m)"
  by (cases x) (simp_all add: msg_inv_AddTo msg_inv_AddCc msg_inv_SetBody msg_inv_AddFile SetSubject_def SetFrom_def Let_def msg_inv_other)

lemma msg_inv_New: "msg_inv (NewMessage env mid now t mycall)"
  unfolding NewMessage_def SetFrom_def Let_def
  by (intro msg_inv_other(1)) (simp_all add: msg_inv_def h_values_def)

section \<open>Addresses and bodies\<close>

lemma ToUpper_ascii: "ascii s \<Longrightarrow> ToUpper env s = map upperChar s"
proof (induction s)
  case (Cons c s)
  then have c: "byte_val c < 128" and s: "ascii s" by (simp_all add: ascii_def)
  have "runeString (upperRune env (byte_val c)) = [upperChar c]"
    using c by (cases "isLower c") (auto simp: upperRune_def runeString_def upperChar_def isLower_def)
  moreover have "runes (c # s) = byte_val c # runes s" using Cons.prems s by (simp add: runes_ascii)
  ultimately show ?case using Cons.IH [OF s] by (simp add: ToUpper_def)
qed (simp add: ToUpper_def runes.simps)

lemma upperChar_val: "byte_val (upperChar c) = (if isLower c then byte_val c - 32 else byte_val c)"
proof -
  have "byte_val c - 32 < 256" using byte_val_less [of c] by linarith
  then show ?thesis by (simp add: upperChar_def byte_val_char_of)
qed

lemma upperChar_idem: "upperChar (upperChar c) = upperChar c"
proof -
  have "\<not> isLower (upperChar c)" using upperChar_val [of c] by (auto simp: isLower_def)
  then show ?thesis by (simp add: upperChar_def [of "upperChar c"])
qed

lemma upperChar_eq: "\<not> isLower d \<Longrightarrow> byte_val d < 65 \<Longrightarrow> upperChar c = d \<Longrightarrow> c = d"
  using upperChar_val [of c] by (auto simp: upperChar_def isLower_def split: if_splits)

lemma ToUpper_no:
  assumes "ascii s" "d \<notin> set s" "byte_val d < 65"
  shows "d \<notin> set (ToUpper env s)" "ascii (ToUpper env s)" "ToUpper env (ToUpper env s) = ToUpper env s"
proof -
  show a: "ascii (ToUpper env s)" using assms(1) upperChar_val by (auto simp: ToUpper_ascii ascii_def)
  have "\<not> isLower d" using assms(3) by (simp add: isLower_def)
  then show "d \<notin> set (ToUpper env s)"
    using assms upperChar_eq [of d] by (metis ToUpper_ascii imageE list.set_map)
  show "ToUpper env (ToUpper env s) = ToUpper env s"
    using ToUpper_ascii [OF a] assms(1) by (simp add: ToUpper_ascii upperChar_idem)
qed

lemma Split_head: "c \<in> set s \<Longrightarrow> \<exists>p q ps. Split c s = p # q # ps \<and> c \<notin> set p \<and> set p \<subseteq> set s"
proof -
  assume "c \<in> set s"
  then obtain p r where s: "s = p @ c # r" "c \<notin> set p" by (meson split_list_first)
  obtain q qs where "Split c r = q # qs" by (cases "Split c r") auto
  then show ?thesis using Split_cons [OF s(2), of r] s by auto
qed

lemma wrapLine_lines:
  "LF \<notin> set line \<Longrightarrow> \<exists>ls. wrapLine line = concat (map (\<lambda>l. l @ CRLF) ls) \<and> concat ls = line \<and>
     (\<forall>l \<in> set ls. length l \<le> 998 \<and> LF \<notin> set l)"
proof (induction line rule: wrapLine.induct)
  case (1 line)
  let ?n = "min (length line) 998"
  have t: "length (take ?n line) \<le> 998" "LF \<notin> set (take ?n line)" "LF \<notin> set (drop ?n line)"
    using 1(2) by (auto dest: in_set_takeD in_set_dropD)
  show ?case
  proof (cases "drop ?n line = []")
    case True
    then have "take ?n line = line" by (simp add: min_def split: if_splits)
    then show ?thesis using True t(1,2) by (intro exI [of _ "[line]"]) (simp add: wrapLine.simps [of line])
  next
    case False
    have "\<exists>ls. wrapLine (drop ?n line) = concat (map (\<lambda>l. l @ CRLF) ls) \<and> concat ls = drop ?n line \<and>
        (\<forall>l \<in> set ls. length l \<le> 998 \<and> LF \<notin> set l)"
      using 1(1) [of ?n] False t(3) by simp
    then obtain ls where ls: "wrapLine (drop ?n line) = concat (map (\<lambda>l. l @ CRLF) ls)" "concat ls = drop ?n line"
        "\<forall>l \<in> set ls. length l \<le> 998 \<and> LF \<notin> set l" by blast
    have "wrapLine line = take ?n line @ CRLF @ wrapLine (drop ?n line)"
      using False by (subst wrapLine.simps) (simp add: Let_def)
    then show ?thesis using ls t(1,2) append_take_drop_id [of ?n line]
      by (intro exI [of _ "take ?n line # ls"]) simp
  qed
qed

lemma dropCR_set: "set (dropCR l) \<subseteq> set l"
  by (auto simp: dropCR_def dest: in_set_butlastD)

lemma scanLines_no_LF: "l \<in> set (scanLines s) \<Longrightarrow> LF \<notin> set l"
proof (induction s rule: scanLines.induct)
  case (1 s)
  let ?line = "takeWhile (\<lambda>c. c \<noteq> LF) s"
  have s: "s \<noteq> []" "\<not> MaxScanTokenSize \<le> length ?line"
    using 1(2) by (auto simp: scanLines.simps [of s] Let_def split: if_splits)
  then have "l = dropCR ?line \<or> l \<in> set (scanLines (tl (dropWhile (\<lambda>c. c \<noteq> LF) s)))"
    using 1(2) by (simp add: scanLines.simps [of s] Let_def)
  then show ?case
    using 1(1) [OF s(1) refl s(2)] dropCR_set [of ?line] by (auto dest: set_takeWhileD)
qed

lemma wrap_all:
  "\<forall>l \<in> set lines. LF \<notin> set l \<Longrightarrow> \<exists>ls. concat (map wrapLine lines) = concat (map (\<lambda>l. l @ CRLF) ls) \<and> concat ls = concat lines \<and>
     (\<forall>l \<in> set ls. length l \<le> 998 \<and> LF \<notin> set l)"
proof (induction lines)
  case (Cons line lines)
  obtain ks where k: "wrapLine line = concat (map (\<lambda>l. l @ CRLF) ks)" "concat ks = line"
      "\<forall>l \<in> set ks. length l \<le> 998 \<and> LF \<notin> set l" using wrapLine_lines [of line] Cons.prems by auto
  obtain ls where l: "concat (map wrapLine lines) = concat (map (\<lambda>l. l @ CRLF) ls)" "concat ls = concat lines"
      "\<forall>l \<in> set ls. length l \<le> 998 \<and> LF \<notin> set l" using Cons by auto
  show ?case using k l by (intro exI [of _ "ks @ ls"]) auto
qed simp

section \<open>Properties\<close>

text \<open>C9. A message written with \<open>Message.Write\<close> is read back by \<open>ReadFrom\<close> without an error, with the same body, the
  same attachments and the same value lists for every header field. The message is one that \<open>message_ok\<close> describes: its
  header can be written on lines, names the sizes of body and attachments, and has a date that can be parsed.\<close>

theorem message_roundtrip:
  assumes "message_ok env m"
  shows "\<exists>bs h. Bytes env m = Inr bs \<and> ReadFrom env bs = Some (None, m\<lparr>m_header := h\<rparr>) \<and>
    (\<forall>k. h_values h k = h_values (m_header m) k)"
  using ReadFrom_Bytes [OF assms] by blast

definition example_env :: env where
  "example_env = \<lparr>e_upper = id, e_fold = id, e_timeParse = (\<lambda>l s. None), e_fromCharset = (\<lambda>cs s. Inr s),
     e_toCharset = (\<lambda>cs s. Inr s), e_gzip = id, e_gunzip = Some, e_gzipExperiment = True, e_fwAuxOnly = False, e_errorf = id, e_quote = id\<rparr>"

definition example_Message :: Message where
  "example_Message = \<lparr>m_header = [(''Mid'', [''TJKYEIMMHSRB'']), (''To'', [''N0CALL'']), (''Body'', [''5'']), (''File'', [''3 a.txt''])],
     m_body = ''Hello'', m_files = [\<lparr>f_data = ''abc'', f_name = ''a.txt'', f_err = None\<rparr>]\<rparr>"

lemma printInt_digit: "d < 10 \<Longrightarrow> printInt (int d) = [char_of (48 + d)]"
  by (simp add: printInt_def printNat.simps digit_char_def)

lemma example_file_header: "file_header example_env ''3 a.txt'' \<lparr>f_data = ''abc'', f_name = ''a.txt'', f_err = None\<rparr>"
proof -
  have p: "printInt 3 = ''3''" by code_simp
  have "runes ''a.txt'' = map byte_val ''a.txt''" by (rule runes_ascii) (simp add: ascii_def)
  then have v: "validUtf8 ''a.txt''" by (intro validUtf8_plain) (simp add: needsEncoding_def)
  have "fst (DecodeHeader (e_fromCharset example_env) ''a.txt'') = ''a.txt''"
    using v by (simp add: DecodeHeader_def HasPrefix_def)
  then show ?thesis by (simp add: file_header_def Size_def p maxAlloc_def)
qed

lemma example_Message_header: "header_ok (m_header example_Message)"
proof -
  have "\<not> EqualFold ''To'' ''Mid''" "\<not> EqualFold ''Body'' ''Mid''" "\<not> EqualFold ''File'' ''Mid''"
    by (simp_all add: EqualFold_def runes_ascii ascii_def foldRune_def)
  moreover have "clean_key ''Mid''" "clean_key ''To''" "clean_key ''Body''" "clean_key ''File''"
    by code_simp+
  ultimately show ?thesis
    by (simp add: header_ok_def example_Message_def h_values_def HEADER_MID_def clean_value_def blank_def)
qed

lemma example_Message_ok: "message_ok example_env example_Message"
proof -
  have p: "printInt 5 = ''5''" by code_simp
  have "Header_Get (m_header example_Message) HEADER_BODY = ''5''" "Header_Get (m_header example_Message) HEADER_DATE = []"
      "h_values (m_header example_Message) HEADER_FILE = [''3 a.txt'']"
    by (simp_all add: Header_Get_def get_def) (simp_all add: h_values_def example_Message_def header_names)
  then show ?thesis
    using example_Message_header example_file_header p by (simp add: message_ok_def ParseDate_def maxAlloc_def) (simp add: example_Message_def maxAlloc_def)
qed

theorem message_roundtrip_witness:
  "\<exists>bs h. Bytes example_env example_Message = Inr bs \<and> ReadFrom example_env bs = Some (None, example_Message\<lparr>m_header := h\<rparr>)"
  using message_roundtrip [OF example_Message_ok] by blast

text \<open>C32. However a message is built from \<open>NewMessage\<close> with recipients, subjects, senders, bodies and attachments, its
  header gives the size of its body and one entry per attachment, in order, with the attachment's size.\<close>

theorem built_message_consistent:
  "msg_inv (fold (run_op env) ops (NewMessage env mid now t mycall))"
  using fold_invariant [of ops "\<lambda>_. True" msg_inv "NewMessage env mid now t mycall" "run_op env"] msg_inv_New msg_inv_run
  by auto

text \<open>An address without a colon means the same after being written into a header and read again.\<close>

theorem address_roundtrip:
  assumes "ascii s" "CHR '':'' \<notin> set s"
  shows "AddressFromString env (Address_String (AddressFromString env s)) = AddressFromString env s"
proof -
  have plain: "AddressFromString env t = \<lparr>Proto = [], Addr = ToUpper env t\<rparr>"
    if "CHR '':'' \<notin> set t" "CHR ''@'' \<notin> set t" for t
    using that by (simp add: AddressFromString_def Split_none)
  have upper: "AddressFromString env (ToUpper env t) = \<lparr>Proto = [], Addr = ToUpper env t\<rparr>"
    if "ascii t" "CHR '':'' \<notin> set t" "CHR ''@'' \<notin> set t" for t
    using plain [of "ToUpper env t"] ToUpper_no(1) [OF that(1,2)] ToUpper_no(1,3) [OF that(1,3)] by simp
  show ?thesis
  proof (cases "CHR ''@'' \<in> set s")
    case False
    then show ?thesis using plain [OF assms(2) False] upper [OF assms False] by (simp add: Address_String_def)
  next
    case True
    then obtain p q ps where p: "Split (CHR ''@'') s = p # q # ps" "CHR ''@'' \<notin> set p" "set p \<subseteq> set s"
      using Split_head by blast
    have a: "ascii p" "CHR '':'' \<notin> set p" using assms p(3) by (auto simp: ascii_def)
    show ?thesis
    proof (cases "EqualFold q ''winlink.org''")
      case True
      have "AddressFromString env s = \<lparr>Proto = [], Addr = ToUpper env p\<rparr>"
        using assms(2) p(1) True by (simp add: AddressFromString_def Split_none)
      then show ?thesis using upper [OF a p(2)] by (simp add: Address_String_def)
    next
      case False
      have "AddressFromString env s = \<lparr>Proto = ''SMTP'', Addr = s\<rparr>"
        using assms(2) p(1) False by (simp add: AddressFromString_def Split_none)
      moreover have "Split (CHR '':'') (''SMTP'' @ CHR '':'' # s) = [''SMTP'', s]"
        using assms(2) by (subst Split_cons) (simp_all add: Split_none)
      ultimately show ?thesis by (simp add: Address_String_def AddressFromString_def)
    qed
  qed
qed

theorem address_roundtrip_witness:
  "AddressFromString example_env (Address_String (AddressFromString example_env ''la5nta@winlink.org'')) =
   AddressFromString example_env ''la5nta@winlink.org''"
  by (rule address_roundtrip) (simp_all add: ascii_def)

text \<open>A body consists of lines of at most 998 characters, each ended by CRLF; put together they are the text
  that was scanned. The charset is one that leaves the text as it is.\<close>

theorem body_lines:
  assumes "\<forall>s. e_toCharset env cs s = Inr s"
  shows "\<exists>ls. fst (StringToBody env str cs) = concat (map (\<lambda>l. l @ CRLF) ls) \<and> concat ls = concat (scanLines str) \<and>
    (\<forall>l \<in> set ls. length l \<le> 998 \<and> LF \<notin> set l)"
  using wrap_all [of "scanLines str"] scanLines_no_LF assms by (simp add: StringToBody_def Let_def)

theorem body_lines_witness:
  "\<exists>ls. fst (StringToBody example_env ''ab'' DefaultCharset) = concat (map (\<lambda>l. l @ CRLF) ls)"
  using body_lines [of example_env DefaultCharset "''ab''"] by (auto simp: example_env_def)

text \<open>A line that does not fit the scanner's buffer makes the rest of the body disappear, without an error.\<close>

theorem long_line_lost:
  assumes "MaxScanTokenSize \<le> length (takeWhile (\<lambda>c. c \<noteq> LF) rest)" "length line < MaxScanTokenSize" "LF \<notin> set line"
    and "\<forall>s. e_toCharset env cs s = Inr s"
  shows "StringToBody env (line @ LF # rest) cs = StringToBody env (line @ [LF]) cs \<and> snd (StringToBody env (line @ LF # rest) cs) = None"
proof -
  have "scanLines rest = []" using assms(1) by (subst scanLines.simps) (simp add: Let_def)
  then have "scanLines (line @ LF # r) = [dropCR line]" if "r = rest \<or> r = []" for r
    using that assms(2) takeWhile_until [OF assms(3), of r]
    by (subst scanLines.simps) (auto simp: Let_def scanLines.simps [of "[]"])
  from this [of rest] this [of "[]"] show ?thesis using assms(4) by (simp add: StringToBody_def Let_def)
qed

theorem long_line_lost_witness:
  "StringToBody example_env (''Dear'' @ LF # replicate 65536 (CHR ''a'')) DefaultCharset =
   StringToBody example_env (''Dear'' @ [LF]) DefaultCharset \<and>
   snd (StringToBody example_env (''Dear'' @ LF # replicate 65536 (CHR ''a'')) DefaultCharset) = None"
  by (rule long_line_lost) (simp_all add: MaxScanTokenSize_def takeWhile_replicate example_env_def)

text \<open>A message whose header gives a negative size makes \<open>ReadFrom\<close> panic.\<close>

theorem negative_size_panics:
  "ReadFrom env (''Mid: A'' @ CRLF @ ''Body: -1'' @ CRLF @ CRLF @ rest) = None"
proof -
  let ?kvs = "[(''Mid'', ''A''), (''Body'', ''-1'')]"
  have "clean_key ''Mid''" "clean_key ''Body''" "clean_value ''A''" "clean_value ''-1''" by code_simp+
  then have "rdHeader [] (header_text ?kvs @ CRLF @ rest) = ((add_all ?kvs [], None), rest)"
    by (intro rdHeader_text) simp
  moreover have "header_text ?kvs @ CRLF @ rest = ''Mid: A'' @ CRLF @ ''Body: -1'' @ CRLF @ CRLF @ rest"
    by (simp add: headerLine_def)
  moreover have "add_all ?kvs [] = [(''Mid'', [''A'']), (''Body'', [''-1''])]" by (simp add: h_values_def)
  ultimately have h: "rdHeader [] (''Mid: A'' @ CRLF @ ''Body: -1'' @ CRLF @ CRLF @ rest) =
      (([(''Mid'', [''A'']), (''Body'', [''-1''])], None), rest)" by (simp only:)
  have a: "fst (Atoi ''-1'') = -1"
    by (simp add: Atoi_def ParseInt_def parseUint_def digit_val_def maxUint64_def)
  have "BodySize \<lparr>m_header = [(''Mid'', [''A'']), (''Body'', [''-1''])], m_body = [], m_files = []\<rparr> = -1"
    using a by (simp add: BodySize_def Header_Get_def get_def h_values_def) (simp add: HEADER_BODY_def)
  then show ?thesis using h by (simp add: ReadFrom_def trimLeftSpace_def asciiSpace_def readSection_def)
qed

end
