(* ===== verification/Fbb_Secure.thy ===== *)
theory Fbb_Secure
  imports Fbb_Proposal
begin

unbundle bit_operations_syntax

text \<open>
  The secure login response (\<^verbatim>\<open>src/fbb/secure.go\<close>) and message ids (\<^verbatim>\<open>src/fbb/mid.go\<close>), with MD5 and the base 32
  encoding of the standard library written out.
\<close>

section \<open>MD5\<close>

definition md5_K :: "32 word list" where
  "md5_K = [
     0xd76aa478, 0xe8c7b756, 0x242070db, 0xc1bdceee, 0xf57c0faf, 0x4787c62a,
     0xa8304613, 0xfd469501, 0x698098d8, 0x8b44f7af, 0xffff5bb1, 0x895cd7be,
     0x6b901122, 0xfd987193, 0xa679438e, 0x49b40821, 0xf61e2562, 0xc040b340,
     0x265e5a51, 0xe9b6c7aa, 0xd62f105d, 0x02441453, 0xd8a1e681, 0xe7d3fbc8,
     0x21e1cde6, 0xc33707d6, 0xf4d50d87, 0x455a14ed, 0xa9e3e905, 0xfcefa3f8,
     0x676f02d9, 0x8d2a4c8a, 0xfffa3942, 0x8771f681, 0x6d9d6122, 0xfde5380c,
     0xa4beea44, 0x4bdecfa9, 0xf6bb4b60, 0xbebfbc70, 0x289b7ec6, 0xeaa127fa,
     0xd4ef3085, 0x04881d05, 0xd9d4d039, 0xe6db99e5, 0x1fa27cf8, 0xc4ac5665,
     0xf4292244, 0x432aff97, 0xab9423a7, 0xfc93a039, 0x655b59c3, 0x8f0ccc92,
     0xffeff47d, 0x85845dd1, 0x6fa87e4f, 0xfe2ce6e0, 0xa3014314, 0x4e0811a1,
     0xf7537e82, 0xbd3af235, 0x2ad7d2bb, 0xeb86d391]"

definition md5_shift :: "nat \<Rightarrow> nat" where
  "md5_shift i = [[7, 12, 17, 22], [5, 9, 14, 20], [4, 11, 16, 23], [6, 10, 15, 21]] ! (i div 16) ! (i mod 4)"

type_synonym md5_state = "32 word \<times> 32 word \<times> 32 word \<times> 32 word"

definition md5_step :: "32 word list \<Rightarrow> nat \<Rightarrow> md5_state \<Rightarrow> md5_state" where
  "md5_step M i s =
     (case s of (a, b, c, d) \<Rightarrow>
        let (f, g) =
          (if i < 16 then ((b AND c) OR (NOT b AND d), i)
           else if i < 32 then ((d AND b) OR (NOT d AND c), (5 * i + 1) mod 16)
           else if i < 48 then (b XOR c XOR d, (3 * i + 5) mod 16)
           else (c XOR (b OR NOT d), (7 * i) mod 16))
        in (d, b + word_rotl (md5_shift i) (a + f + md5_K ! i + M ! g), b, c))"

definition md5_add :: "md5_state \<Rightarrow> md5_state \<Rightarrow> md5_state" where
  "md5_add s t = (case (s, t) of ((a, b, c, d), (a', b', c', d')) \<Rightarrow> (a + a', b + b', c + c', d + d'))"

fun le_word :: "byte list \<Rightarrow> 32 word" where
  "le_word [] = 0"
| "le_word (b # bs) = ucast b OR push_bit 8 (le_word bs)"

fun le_words :: "byte list \<Rightarrow> 32 word list" where
  "le_words (a # b # c # d # bs) = le_word [a, b, c, d] # le_words bs"
| "le_words bs = []"

definition le_bytes :: "nat \<Rightarrow> 'a::len word \<Rightarrow> byte list" where
  "le_bytes n w = map (\<lambda>i. ucast (drop_bit (8 * i) w)) [0..<n]"

definition md5_pad :: "byte list \<Rightarrow> byte list" where
  "md5_pad bs = bs @ [0x80] @ replicate ((119 - length bs mod 64) mod 64) 0 @ le_bytes 8 (of_nat (8 * length bs) :: 64 word)"

fun md5_blocks :: "nat \<Rightarrow> byte list \<Rightarrow> md5_state \<Rightarrow> md5_state" where
  "md5_blocks 0 bs s = s"
| "md5_blocks (Suc n) bs s = md5_blocks n (drop 64 bs) (md5_add s (fold (md5_step (le_words (take 64 bs))) [0..<64] s))"

text \<open>\<open>md5.Sum\<close>.\<close>

definition md5_Sum :: "string \<Rightarrow> byte list" where
  "md5_Sum data =
     (let bs = md5_pad (to_bytes data) in
      case md5_blocks (length bs div 64) bs (0x67452301, 0xefcdab89, 0x98badcfe, 0x10325476) of
        (a, b, c, d) \<Rightarrow> le_bytes 4 a @ le_bytes 4 b @ le_bytes 4 c @ le_bytes 4 d)"

section \<open>Secure login\<close>

definition winlinkSecureSalt :: "nat list" where
  "winlinkSecureSalt = [
     77, 197, 101, 206, 190, 249,
     93, 200, 51, 243, 93, 237,
     71, 94, 239, 138, 68, 108,
     70, 185, 225, 137, 217, 16,
     51, 122, 193, 48, 194, 195,
     198, 175, 172, 169, 70, 84,
     61, 62, 104, 186, 114, 52,
     61, 168, 66, 129, 192, 208,
     187, 249, 232, 193, 41, 113,
     41, 45, 240, 16, 29, 228,
     208, 228, 61, 20]"

definition responseNumber :: "byte list \<Rightarrow> 32 word" where
  "responseNumber md =
     fold (\<lambda>i pr. push_bit 8 pr OR ucast (md ! i)) [2, 1, 0] (ucast (md ! 3 AND 0x3f))"

definition secureLoginResponse :: "string \<Rightarrow> string \<Rightarrow> string" where
  "secureLoginResponse challenge password =
     (let md = md5_Sum (challenge @ password @ map char_of winlinkSecureSalt);
          pr = sint (responseNumber md);
          str = (if pr < 0 then CHR ''-'' # padLeft 7 (printNat 10 (nat (- pr))) else print08d (nat pr))
      in drop (length str - 8) str)"

section \<open>Message ids\<close>

definition MaxMIDLength :: nat where "MaxMIDLength = 12"

definition base32_char :: "nat \<Rightarrow> char" where
  "base32_char n = (if n < 26 then char_of (65 + n) else char_of (24 + n))"

text \<open>Groups of five bits, the most significant first; the padding of the last group is not reached by message ids.\<close>

fun base32_digits :: "bool list \<Rightarrow> string" where
  "base32_digits (a # b # c # d # e # bits) =
     base32_char (16 * of_bool a + 8 * of_bool b + 4 * of_bool c + 2 * of_bool d + of_bool e) # base32_digits bits"
| "base32_digits [] = []"
| "base32_digits [a] = [base32_char (16 * of_bool a)]"
| "base32_digits [a, b] = [base32_char (16 * of_bool a + 8 * of_bool b)]"
| "base32_digits [a, b, c] = [base32_char (16 * of_bool a + 8 * of_bool b + 4 * of_bool c)]"
| "base32_digits [a, b, c, d] = [base32_char (16 * of_bool a + 8 * of_bool b + 4 * of_bool c + 2 * of_bool d)]"

definition base32_Encode :: "byte list \<Rightarrow> string" where
  "base32_Encode bs =
     (let ds = base32_digits (stream_bits bs) in ds @ replicate ((8 - length ds mod 8) mod 8) (CHR ''=''))"

text \<open>The current time, printed, is an argument; the payload does not use the time it is given.\<close>

definition midPayload :: "string \<Rightarrow> string \<Rightarrow> string" where
  "midPayload now callsign = now @ ''-'' @ callsign"

definition GenerateMid :: "string \<Rightarrow> string \<Rightarrow> string" where
  "GenerateMid now callsign = take MaxMIDLength (base32_Encode (md5_Sum (midPayload now callsign)))"

section \<open>The form of responses and ids\<close>

definition bits_below :: "nat \<Rightarrow> 32 word \<Rightarrow> bool" where
  "bits_below k w \<longleftrightarrow> (\<forall>n. bit w n \<longrightarrow> n < k)"

lemma bits_below_step: "bits_below k w \<Longrightarrow> bits_below (k + 8) (push_bit 8 w OR ucast (b :: byte))"
  by (auto simp: bits_below_def bit_or_iff bit_push_bit_iff bit_ucast_iff dest: bit_imp_le_length)

lemma bits_below_start: "bits_below 6 (ucast (b AND 0x3f :: byte))"
proof -
  have m: "(0x3f :: byte) = mask 6" by (simp add: mask_eq_exp_minus_1)
  show ?thesis unfolding m by (auto simp: bits_below_def bit_ucast_iff bit_and_iff bit_mask_iff)
qed

lemma bits_below_sint:
  assumes "bits_below k w" and "k < 32"
  shows "0 \<le> sint w \<and> sint w < 2 ^ k"
proof -
  have "take_bit k w = w"
    using assms(1) by (intro bit_word_eqI) (auto simp: bit_take_bit_iff bits_below_def)
  then have u: "uint w = take_bit k (uint w)" by (metis unsigned_take_bit_eq)
  have "\<not> bit w 31" using assms by (auto simp: bits_below_def)
  then have "sint w = take_bit 31 (uint w)" by (simp add: sint_uint signed_take_bit_eq_if_positive bit_uint_iff)
  also have "\<dots> = take_bit 31 (take_bit k (uint w))" using u by simp
  also have "\<dots> = take_bit k (uint w)"
  proof -
    have "k \<le> 31" using assms(2) by linarith
    then show ?thesis by (simp add: min_absorb2)
  qed
  finally show ?thesis by simp
qed

lemma responseNumber_bound: "0 \<le> sint (responseNumber md) \<and> sint (responseNumber md) < 2 ^ 30"
proof -
  have "bits_below (6 + 8 + 8 + 8) (responseNumber md)"
    unfolding responseNumber_def fold.simps o_apply id_apply by (intro bits_below_step bits_below_start)
  then show ?thesis using bits_below_sint [of 30 "responseNumber md"] by simp
qed

lemma printNat_isDigit: "c \<in> set (printNat 10 n) \<Longrightarrow> isDigit c"
proof -
  assume "c \<in> set (printNat 10 n)"
  then obtain d where d: "d < 10" "c = digit_char d" using printNat_digits [of 10 c n] by auto
  have "\<forall>d \<in> set [0..<10]. isDigit (digit_char d)" by code_simp
  then show ?thesis using d by simp
qed

lemma secureLoginResponse_digits:
  "length (secureLoginResponse challenge password) = 8 \<and> (\<forall>c \<in> set (secureLoginResponse challenge password). isDigit c)"
proof -
  let ?pr = "sint (responseNumber (md5_Sum (challenge @ password @ map char_of winlinkSecureSalt)))"
  let ?str = "print08d (nat ?pr)"
  have s: "secureLoginResponse challenge password = drop (length ?str - 8) ?str"
    unfolding secureLoginResponse_def Let_def
    using responseNumber_bound [THEN conjunct1, THEN leD] by (simp only: if_False)
  have "8 \<le> length ?str" by (simp add: print08d_def padLeft_def)
  moreover have "isDigit c" if "c \<in> set ?str" for c
  proof -
    have "isDigit (CHR ''0'')" by (simp add: isDigit_def)
    then show ?thesis using that printNat_isDigit [of c] by (auto simp: print08d_def padLeft_def)
  qed
  ultimately show ?thesis unfolding s by (auto dest: in_set_dropD)
qed

text \<open>C40. A login response is always eight decimal digits, whatever the challenge and the password.\<close>

theorem secureLoginResponse_format:
  "length (secureLoginResponse challenge password) = 8 \<and> (\<forall>c \<in> set (secureLoginResponse challenge password). isDigit c)"
  by (rule secureLoginResponse_digits)

theorem secureLoginResponse_format_witness:
  "length (secureLoginResponse ''23753528'' ''FOOBAR'') = 8"
  using secureLoginResponse_format [of "''23753528''" "''FOOBAR''"] by simp


definition base32Char :: "char \<Rightarrow> bool" where
  "base32Char c \<longleftrightarrow> (65 \<le> byte_val c \<and> byte_val c \<le> 90) \<or> (50 \<le> byte_val c \<and> byte_val c \<le> 55)"

lemma base32Char_char: "n < 32 \<Longrightarrow> base32Char (base32_char n)"
  by (auto simp: base32Char_def base32_char_def byte_val_char_of)

lemma base32_digits_chars: "c \<in> set (base32_digits bits) \<Longrightarrow> base32Char c"
  by (induction bits rule: base32_digits.induct) (auto intro!: base32Char_char simp: of_bool_def)

lemma base32_digits_length: "length (base32_digits bits) = (length bits + 4) div 5"
  by (induction bits rule: base32_digits.induct) auto

lemma md5_Sum_length: "length (md5_Sum data) = 16"
  by (simp add: md5_Sum_def Let_def le_bytes_def split: prod.splits)

text \<open>A generated message id has twelve characters, all upper case letters or digits from 2 to 7; so it passes
  \<open>Validate\<close> and can stand in a proposal line.\<close>

theorem GenerateMid_format:
  "length (GenerateMid now callsign) = 12 \<and> (\<forall>c \<in> set (GenerateMid now callsign). base32Char c)"
proof -
  let ?ds = "base32_digits (stream_bits (md5_Sum (midPayload now callsign)))"
  have "length ?ds = 26" by (simp add: base32_digits_length md5_Sum_length)
  then have "GenerateMid now callsign = take 12 ?ds"
    by (simp add: GenerateMid_def base32_Encode_def MaxMIDLength_def Let_def)
  then show ?thesis using \<open>length ?ds = 26\<close> base32_digits_chars by (auto dest: in_set_takeD)
qed

theorem GenerateMid_format_witness: "length (GenerateMid ''now'' ''LA5NTA'') = 12"
  using GenerateMid_format [of "''now''" "''LA5NTA''"] by simp

end
