(* ===== verification/Fbb_Handshake.thy ===== *)
theory Fbb_Handshake
  imports Fbb_Message Fbb_Secure
begin

text \<open>
  The session object (\<^verbatim>\<open>src/fbb/wl2k.go\<close>) and the handshake (\<^verbatim>\<open>src/fbb/handshake.go\<close>). The mailbox handler of a
  session is not a field here: the operations that need it take it, together with the state of the mailbox.
  Loggers and the status updater are left out.
\<close>

section \<open>The session\<close>

datatype robustMode = RobustAuto | RobustForced | RobustDisabled

record UserAgent =
  ua_Name :: string
  ua_Version :: string

record TrafficStats =
  Received :: "string list"
  Sent :: "string list"

record Session =
  s_mycall :: string
  s_targetcall :: string
  s_locator :: string
  s_motd :: "string list"
  s_secureLoginHandleFunc :: "(Address \<Rightarrow> string \<times> go_err option) option"
  s_master :: bool
  s_robustMode :: robustMode
  s_remoteSID :: string
  s_remoteFW :: "Address list"
  s_localFW :: "Address list"
  s_trafficStats :: TrafficStats
  s_quitReceived :: bool
  s_quitSent :: bool
  s_remoteNoMsgs :: bool
  s_ua :: UserAgent

definition StdUA :: UserAgent where
  "StdUA = \<lparr>ua_Name = ''wl2kgo'', ua_Version = ''0.1a''\<rparr>"

definition NewSession :: "env \<Rightarrow> string \<Rightarrow> string \<Rightarrow> string \<Rightarrow> Session" where
  "NewSession env mycall targetcall locator =
     (let mycall = ToUpper env mycall; targetcall = ToUpper env targetcall in
      \<lparr>s_mycall = mycall, s_targetcall = targetcall, s_locator = locator, s_motd = [],
       s_secureLoginHandleFunc = None, s_master = False, s_robustMode = RobustAuto, s_remoteSID = [], s_remoteFW = [],
       s_localFW = [AddressFromString env mycall], s_trafficStats = \<lparr>Received = [], Sent = []\<rparr>,
       s_quitReceived = False, s_quitSent = False, s_remoteNoMsgs = False, s_ua = StdUA\<rparr>)"

definition SetRobustMode :: "robustMode \<Rightarrow> Session \<Rightarrow> Session" where "SetRobustMode mode s = s\<lparr>s_robustMode := mode\<rparr>"
definition SetMOTD :: "string list \<Rightarrow> Session \<Rightarrow> Session" where "SetMOTD line s = s\<lparr>s_motd := line\<rparr>"
definition IsMaster :: "bool \<Rightarrow> Session \<Rightarrow> Session" where "IsMaster isMaster s = s\<lparr>s_master := isMaster\<rparr>"
definition SetSecureLoginHandleFunc :: "(Address \<Rightarrow> string \<times> go_err option) \<Rightarrow> Session \<Rightarrow> Session" where
  "SetSecureLoginHandleFunc f s = s\<lparr>s_secureLoginHandleFunc := Some f\<rparr>"
definition AddAuxiliaryAddress :: "Address list \<Rightarrow> Session \<Rightarrow> Session" where
  "AddAuxiliaryAddress aux s = s\<lparr>s_localFW := s_localFW s @ aux\<rparr>"
definition SetUserAgent :: "UserAgent \<Rightarrow> Session \<Rightarrow> Session" where "SetUserAgent ua s = s\<lparr>s_ua := ua\<rparr>"

definition Done :: "Session \<Rightarrow> bool" where
  "Done s \<longleftrightarrow> s_quitReceived s \<or> s_quitSent s"

definition remoteErr :: "string \<Rightarrow> go_err option" where
  "remoteErr str =
     (if \<not> HasPrefix str ''***'' then None
      else case lastIndex (\<lambda>c. c = CHR ''*'') str of
             None \<Rightarrow> None
           | Some i \<Rightarrow> if length str \<le> i + 1 then None else Some (Errorf0 (TrimSpace (drop (i + 1) str))))"

section \<open>System identifiers\<close>

definition sFBBasic :: string where "sFBBasic = ''F''"
definition sFBComp2 :: string where "sFBComp2 = ''B2''"
definition sHL :: string where "sHL = ''H''"
definition sMID :: string where "sMID = ''M''"
definition sBID :: string where "sBID = ''$''"
definition sGzip :: string where "sGzip = ''G''"

definition localSID :: string where
  "localSID = sFBComp2 @ sFBBasic @ sHL @ sMID @ sBID"

lemmas sid_codes = sFBBasic_def sFBComp2_def sHL_def sMID_def sBID_def sGzip_def

definition writeSID :: "env \<Rightarrow> string \<Rightarrow> string \<Rightarrow> string" where
  "writeSID env appName appVersion =
     (let sid = localSID;
          sid = (if e_gzipExperiment env then take (length sid - 1) sid @ sGzip @ drop (length sid - 1) sid else sid)
      in ''['' @ appName @ ''-'' @ appVersion @ ''-'' @ sid @ '']'' @ [CR])"

definition isSID :: "string \<Rightarrow> bool" where
  "isSID str \<longleftrightarrow> HasPrefix str ''['' \<and> HasSuffix str '']''"

text \<open>The submatch of the regular expression \<^verbatim>\<open>\[.*-(.*)\]\<close>: between the last dash that has a closing bracket after it and
  the last closing bracket, of the first opening bracket for which there are any, within one line.\<close>

definition sidCode :: "string \<Rightarrow> string option" where
  "sidCode seg = do {
     e \<leftarrow> lastIndex (\<lambda>c. c = CHR '']'') seg;
     d \<leftarrow> lastIndex (\<lambda>c. c = CHR ''-'') (take e seg);
     Some (drop (d + 1) (take e seg))
   }"

fun sidMatch :: "string \<Rightarrow> string option" where
  "sidMatch [] = None"
| "sidMatch (c # s) =
     (if c = CHR ''['' then
        (case sidCode (takeWhile (\<lambda>c. c \<noteq> LF) s) of Some code \<Rightarrow> Some code | None \<Rightarrow> sidMatch s)
      else sidMatch s)"

definition parseSID :: "env \<Rightarrow> string \<Rightarrow> go_err + string" where
  "parseSID env str =
     (case sidMatch str of
        None \<Rightarrow> Inl (Msg (''Bad SID line: '' @ str))
      | Some code \<Rightarrow> Inr (ToUpper env code))"

definition Has :: "env \<Rightarrow> string \<Rightarrow> string \<Rightarrow> bool" where
  "Has env sid code \<longleftrightarrow> Contains sid (ToUpper env code)"

definition parseFW :: "env \<Rightarrow> string \<Rightarrow> go_err + Address list" where
  "parseFW env line =
     (if \<not> HasPrefix line '';FW: '' then Inl (Msg ''Malformed forward line'')
      else Inr (map (\<lambda>str. AddressFromString env (hd (Split (CHR ''|'') str))) (Split (CHR '' '') (drop 5 line))))"

section \<open>Reading the handshake\<close>

record handshakeData =
  SID :: string
  FW :: "Address list"
  SecureChallenge :: string

lemma nextLine_shrinks: "nextLineRemoteErr b c = Some ((l, None), c') \<Longrightarrow> length (c_in c') < length (c_in c)"
proof -
  assume *: "nextLineRemoteErr b c = Some ((l, None), c')"
  have "length (dropWhile (\<lambda>b. b \<noteq> CR) (c_in c)) \<le> length (c_in c)" by (rule length_dropWhile_le)
  then show ?thesis
    using * by (auto simp: nextLineRemoteErr_def conn_ReadString_def bind_eq_Some_conv split: list.splits option.splits if_splits)
qed

text \<open>One line of the handshake: the data with it, or the end with an error or with none. The slice for the challenge
  panics on a shorter line.\<close>

definition handshakeLine :: "env \<Rightarrow> string \<Rightarrow> handshakeData \<Rightarrow> (handshakeData \<times> go_err option option) option" where
  "handshakeLine env line data =
     (if isSID line then
        Some (case parseSID env line of
                Inl e \<Rightarrow> (data\<lparr>SID := []\<rparr>, Some (Some e))
              | Inr sid \<Rightarrow>
                  (data\<lparr>SID := sid\<rparr>,
                   if \<not> Has env sid sFBComp2 then Some (Some (Msg ''Remote does not support B2 Forwarding Protocol'')) else None))
      else if HasPrefix line '';FW'' then
        Some (case parseFW env line of
                Inl e \<Rightarrow> (data\<lparr>FW := []\<rparr>, Some (Some e))
              | Inr fw \<Rightarrow> (data\<lparr>FW := fw\<rparr>, None))
      else if HasPrefix line '';PQ'' then
        (if length line < 5 then None else Some (data\<lparr>SecureChallenge := drop 5 line\<rparr>, None))
      else if HasSuffix line ''>'' then Some (data, Some None)
      else Some (data, None))"

function readHandshake :: "env \<Rightarrow> bool \<Rightarrow> handshakeData \<Rightarrow> conn \<Rightarrow> ((handshakeData \<times> go_err option) \<times> conn) option" where
  "readHandshake env master data c =
     (case conn_Peek c of
        Inl e \<Rightarrow> Some ((data, Some e), c)
      | Inr b \<Rightarrow>
          if b = CHR ''F'' \<and> master then Some ((data, None), c)
          else
            (case nextLineRemoteErr False c of
               None \<Rightarrow> None
             | Some ((line, Some e), c) \<Rightarrow> Some ((data, Some e), c)
             | Some ((line, None), c) \<Rightarrow>
                 (case handshakeLine env line data of
                    None \<Rightarrow> None
                  | Some (data, Some e) \<Rightarrow> Some ((data, e), c)
                  | Some (data, None) \<Rightarrow> readHandshake env master data c)))"
  by pat_completeness auto
termination
  by (relation "measure (\<lambda>(env, m, d, c). length (c_in c))") (auto dest: nextLine_shrinks)

declare readHandshake.simps [simp del]

section \<open>Sending the handshake\<close>

definition forwardEntry :: "(Address \<Rightarrow> string \<times> go_err option) option \<Rightarrow> string \<Rightarrow> nat \<Rightarrow> Address \<Rightarrow> string" where
  "forwardEntry login secureChallenge i addr =
     (case login of
        Some f \<Rightarrow>
          if secureChallenge \<noteq> [] \<and> 0 < i \<and> fst (f addr) \<noteq> [] then
            '' '' @ Addr addr @ ''|'' @ secureLoginResponse secureChallenge (fst (f addr))
          else '' '' @ Addr addr
      | None \<Rightarrow> '' '' @ Addr addr)"

text \<open>A \<^verbatim>\<open>bufio.Writer\<close>: what went to the connection and what is in its buffer of 4096 bytes. What does not fit goes on,
  directly if the buffer is empty.\<close>

function bw_Write :: "string \<Rightarrow> string \<times> string \<Rightarrow> string \<times> string" where
  "bw_Write p (out, buf) =
     (let n = 4096 - length buf in
      if length p \<le> n then (out, buf @ p)
      else if buf = [] then (out @ p, [])
      else bw_Write (drop n p) (out @ buf @ take n p, []))"
  by pat_completeness auto
termination
  by (relation "measure (\<lambda>(p, out, buf). length buf)") auto

declare bw_Write.simps [simp del]

lemma bw_Write_all: "fst (bw_Write p (out, buf)) @ snd (bw_Write p (out, buf)) = out @ buf @ p"
proof (induction p "(out, buf)" arbitrary: out buf rule: bw_Write.induct)
  case (1 p out buf)
  then show ?case by (subst (1 2) bw_Write.simps) (auto simp: Let_def)
qed

text \<open>The handshake goes through a buffered writer that is flushed at the end. If there is no password for the own call,
  only what did not fit into the buffer was sent. With no address at all the password lookup panics.\<close>

definition sendHandshake :: "env \<Rightarrow> string \<Rightarrow> Session \<Rightarrow> conn \<Rightarrow> (go_err option \<times> conn) option" where
  "sendHandshake env secureChallenge s c =
     (if secureChallenge \<noteq> [] \<and> s_secureLoginHandleFunc s = None then
        Some (Some (Msg ''Got secure login challenge, please register a SecureLoginHandleFunc.''), c)
      else
        let fw = ['';FW:''] @ map2 (forwardEntry (s_secureLoginHandleFunc s) secureChallenge) [0..<length (s_localFW s)] (s_localFW s) @ [[CR]];
            sid = writeSID env (ua_Name (s_ua s)) (ua_Version (s_ua s));
            de = ''; '' @ s_targetcall s @ '' DE '' @ s_mycall s @ '' ('' @ s_locator s @ '')'' @
                   (if s_master s then ''>'' else []) @ [CR]
        in if secureChallenge \<noteq> [] then do {
             f \<leftarrow> s_secureLoginHandleFunc s;
             addr \<leftarrow> idx (s_localFW s) 0;
             case f addr of
               (password, Some e) \<Rightarrow> Some (Some e, conn_write (fst (fold bw_Write (fw @ [sid]) ([], []))) c)
             | (password, None) \<Rightarrow>
                 Some (conn_Write (concat fw @ sid @ '';PR: '' @ secureLoginResponse secureChallenge password @ [CR] @ de) c)
           }
           else Some (conn_Write (concat fw @ sid @ de) c))"

definition handshake :: "env \<Rightarrow> Session \<Rightarrow> conn \<Rightarrow> ((go_err option \<times> Session) \<times> conn) option" where
  "handshake env s c =
     (do {
        (e, c) \<leftarrow> (if s_master s then sendHandshake env [] s (fold (\<lambda>line. conn_write (line @ [CR])) (s_motd s) c)
                    else Some (None, c));
        if e \<noteq> None then Some ((e, s), c)
        else do {
          ((hs, e), c) \<leftarrow> readHandshake env (s_master s) \<lparr>SID = [], FW = [], SecureChallenge = []\<rparr> c;
          if e \<noteq> None then Some ((e, s), c)
          else if SID hs = [] then Some ((Some (Msg ''No sid in handshake''), s), c)
          else
            let s = s\<lparr>s_remoteSID := SID hs, s_remoteFW := FW hs\<rparr> in
            if \<not> s_master s then do {
              (e, c) \<leftarrow> sendHandshake env (SecureChallenge hs) s c;
              Some ((e, s), c)
            }
            else Some ((None, s), c)
        }
      })"

section \<open>Understanding the other side\<close>

definition printable :: "string \<Rightarrow> bool" where
  "printable s \<longleftrightarrow> (\<forall>c \<in> set s. visible c \<or> c = CHR '' '')"

definition fw_ok :: "env \<Rightarrow> Address \<Rightarrow> bool" where
  "fw_ok env a \<longleftrightarrow> AddressFromString env (Addr a) = a \<and> Addr a \<noteq> [] \<and> (\<forall>c \<in> set (Addr a). visible c \<and> c \<noteq> CHR ''|'')"

lemma printable_no_break: "printable s \<Longrightarrow> CR \<notin> set s \<and> LF \<notin> set s"
  by (auto simp: printable_def visible_def)

lemma nextLineRemoteErr_plain:
  assumes "plain_line s" "c_in c = s @ CR # rest"
  shows "nextLineRemoteErr False c = Some ((s, None), c\<lparr>c_in := rest\<rparr>)"
proof -
  have "CR \<notin> set s" using assms(1) by (simp add: plain_line_def)
  note ReadString_line [OF this assms(2)]
  then show ?thesis
    using cleanString_plain [OF assms(1)] by (simp add: nextLineRemoteErr_def split: option.splits)
qed

lemma readHandshake_line:
  assumes "plain_line s" "hd s \<noteq> CHR ''F''" "c_in c = s @ CR # rest" "handshakeLine env s data = Some (data', r)"
  shows "readHandshake env master data c =
    (case r of None \<Rightarrow> readHandshake env master data' (c\<lparr>c_in := rest\<rparr>) | Some e \<Rightarrow> Some ((data', e), c\<lparr>c_in := rest\<rparr>))"
proof -
  have "conn_Peek c = Inr (hd s)" using assms(1,3) by (cases s) (simp_all add: conn_Peek_def plain_line_def)
  then show ?thesis
    using assms nextLineRemoteErr_plain [OF assms(1,3)] by (subst readHandshake.simps) (simp split: option.splits)
qed

lemma lastIndex_append: "P c \<Longrightarrow> \<forall>x \<in> set t. \<not> P x \<Longrightarrow> lastIndex P (s @ c # t) = Some (length s)"
proof (induction s)
  case Nil
  have "lastIndex P t = None" using Nil(2) by (induction t) auto
  then show ?case using Nil by simp
qed simp

lemma sidCode_last:
  assumes "CHR '']'' \<notin> set code" "CHR ''-'' \<notin> set code"
  shows "sidCode (pre @ CHR ''-'' # code @ '']'') = Some code"
proof -
  have "lastIndex (\<lambda>c. c = CHR '']'') ((pre @ CHR ''-'' # code) @ CHR '']'' # []) = Some (length (pre @ CHR ''-'' # code))"
    by (rule lastIndex_append) simp_all
  moreover have "lastIndex (\<lambda>c. c = CHR ''-'') (pre @ CHR ''-'' # code) = Some (length pre)"
    using assms(2) by (intro lastIndex_append) auto
  ultimately show ?thesis by (simp add: sidCode_def)
qed

lemma parseSID_line:
  assumes "printable name" "printable version" "CHR '']'' \<notin> set sid" "CHR ''-'' \<notin> set sid" "ascii sid" "LF \<notin> set sid"
    and "map upperChar sid = sid"
  shows "parseSID env (''['' @ name @ ''-'' @ version @ ''-'' @ sid @ '']'') = Inr sid"
proof -
  let ?seg = "(name @ ''-'' @ version) @ CHR ''-'' # sid @ '']''"
  have "LF \<notin> set ?seg" using assms printable_no_break by auto
  then have "takeWhile (\<lambda>c. c \<noteq> LF) ?seg = ?seg" by (auto simp: takeWhile_eq_all_conv)
  then show ?thesis using sidCode_last [OF assms(3,4), of "name @ ''-'' @ version"] assms(5,7)
    by (simp add: parseSID_def ToUpper_ascii)
qed

definition sentSID :: "env \<Rightarrow> string" where
  "sentSID env = (if e_gzipExperiment env then ''B2FHMG$'' else ''B2FHM$'')"

lemma writeSID_line: "writeSID env n v = (''['' @ n @ ''-'' @ v @ ''-'' @ sentSID env @ '']'') @ [CR]"
  by (simp add: writeSID_def sentSID_def localSID_def sid_codes Let_def)

lemma sentSID_parsed:
  assumes "printable n" "printable v"
  shows "parseSID env (''['' @ n @ ''-'' @ v @ ''-'' @ sentSID env @ '']'') = Inr (sentSID env)"
proof (rule parseSID_line [OF assms])
  show "map upperChar (sentSID env) = sentSID env"
    by (simp add: sentSID_def upperChar_def isLower_def)
qed (simp_all add: sentSID_def ascii_def)

lemma sentSID_B2: "Has env (sentSID env) sFBComp2"
proof -
  have "ToUpper env sFBComp2 = ''B2''" by (simp add: ToUpper_ascii ascii_def sFBComp2_def upperChar_def isLower_def)
  then show ?thesis by (simp add: Has_def sentSID_def HasPrefix_def)
qed

lemma isDigit_plain: "isDigit c \<Longrightarrow> visible c \<and> c \<noteq> CHR ''|'' \<and> c \<noteq> CHR ''>'' \<and> c \<noteq> CHR '' ''"
  by (auto simp: isDigit_def visible_def)

text \<open>An entry of the forward line: an address, and the hash of its password if there is one.\<close>

definition fw_entry :: "Address \<Rightarrow> string \<Rightarrow> bool" where
  "fw_entry a e \<longleftrightarrow> (\<exists>t. e = Addr a @ t \<and> (t = [] \<or> (\<exists>d. t = CHR ''|'' # d \<and> (\<forall>c \<in> set d. isDigit c))))"

lemma forwardEntry_form: "\<exists>e. forwardEntry login sc i a = CHR '' '' # e \<and> fw_entry a e"
proof (cases "\<exists>f. login = Some f \<and> sc \<noteq> [] \<and> 0 < i \<and> fst (f a) \<noteq> []")
  case True
  then obtain f where "login = Some f" "sc \<noteq> []" "0 < i" "fst (f a) \<noteq> []" by blast
  then have "forwardEntry login sc i a = CHR '' '' # Addr a @ CHR ''|'' # secureLoginResponse sc (fst (f a))" by (simp add: forwardEntry_def)
  then show ?thesis using secureLoginResponse_digits unfolding fw_entry_def by blast
next
  case False
  then have "forwardEntry login sc i a = CHR '' '' # Addr a" by (auto simp: forwardEntry_def split: option.splits)
  then show ?thesis by (simp add: fw_entry_def)
qed

lemma forwardEntries_form:
  "\<exists>es. concat (map2 (forwardEntry login sc) [k..<k + length as] as) = concat (map (\<lambda>e. CHR '' '' # e) es) \<and> list_all2 fw_entry as es"
proof (induction as arbitrary: k)
  case (Cons a as)
  obtain e where e: "forwardEntry login sc k a = CHR '' '' # e" "fw_entry a e" using forwardEntry_form by blast
  obtain es where es: "concat (map2 (forwardEntry login sc) [Suc k..<Suc k + length as] as) = concat (map (\<lambda>e. CHR '' '' # e) es)"
      "list_all2 fw_entry as es" using Cons.IH by blast
  have "[k..<k + length (a # as)] = k # [Suc k..<Suc k + length as]" by (simp add: upt_conv_Cons del: upt_Suc)
  then show ?case using e es by (intro exI [of _ "e # es"]) (simp del: upt_Suc)
qed simp

lemma Split_joined:
  "\<forall>e \<in> set es. CHR '' '' \<notin> set e \<Longrightarrow> CHR '' '' \<notin> set x \<Longrightarrow>
   Split (CHR '' '') (x @ concat (map (\<lambda>e. CHR '' '' # e) es)) = x # es"
proof (induction es arbitrary: x)
  case (Cons e es)
  have "Split (CHR '' '') (x @ CHR '' '' # (e @ concat (map (\<lambda>e. CHR '' '' # e) es))) =
      x # Split (CHR '' '') (e @ concat (map (\<lambda>e. CHR '' '' # e) es))"
    by (rule Split_cons) (rule Cons.prems(2))
  moreover have "Split (CHR '' '') (e @ concat (map (\<lambda>e. CHR '' '' # e) es)) = e # es"
    using Cons.prems(1) by (intro Cons.IH) simp_all
  ultimately show ?case by simp
qed (simp add: Split_none)

lemma fw_entry_ok:
  assumes "fw_ok env a" "fw_entry a e"
  shows "AddressFromString env (hd (Split (CHR ''|'') e)) = a" "e \<noteq> []" "\<forall>c \<in> set e. visible c"
proof -
  have a: "CHR ''|'' \<notin> set (Addr a)" "Addr a \<noteq> []" "\<forall>c \<in> set (Addr a). visible c" "AddressFromString env (Addr a) = a"
    using assms(1) unfolding fw_ok_def by blast+
  obtain t where t: "e = Addr a @ t" "t = [] \<or> (\<exists>d. t = CHR ''|'' # d \<and> (\<forall>c \<in> set d. isDigit c))"
    using assms(2) unfolding fw_entry_def by blast
  have "hd (Split (CHR ''|'') e) = Addr a" using t a(1) by (auto simp: Split_none Split_cons)
  then show "AddressFromString env (hd (Split (CHR ''|'') e)) = a" using a(4) by simp
  show "e \<noteq> []" using t(1) a(2) by simp
  have "visible (CHR ''|'')" by (simp add: visible_def)
  then show "\<forall>c \<in> set e. visible c" using t a(3) isDigit_plain by auto
qed

lemma visible_not_blank: "visible c \<Longrightarrow> c \<noteq> CHR '' '' \<and> c \<noteq> CR"
  by (auto simp: visible_def)

lemma parseFW_line:
  assumes "as \<noteq> []" "\<forall>a \<in> set as. fw_ok env a" "list_all2 fw_entry as es"
  shows "parseFW env ('';FW:'' @ concat (map (\<lambda>e. CHR '' '' # e) es)) = Inr as"
proof -
  obtain x xs where es: "es = x # xs" using assms(1,3) by (cases es) auto
  have "\<forall>e \<in> set es. \<forall>c \<in> set e. visible c"
    using assms(2,3) fw_entry_ok(3) by (metis in_set_conv_nth list_all2_conv_all_nth)
  then have "Split (CHR '' '') (x @ concat (map (\<lambda>e. CHR '' '' # e) xs)) = x # xs"
    using es visible_not_blank by (intro Split_joined) auto
  moreover have "map (\<lambda>e. AddressFromString env (hd (Split (CHR ''|'') e))) es = as"
    using assms(2,3) fw_entry_ok(1) by (intro nth_equalityI) (auto simp: list_all2_conv_all_nth)
  ultimately show ?thesis by (simp add: parseFW_def es HasPrefix_def)
qed

text \<open>The lines of a handshake that answers a login challenge, or none.\<close>

definition handshakeText :: "env \<Rightarrow> string \<Rightarrow> Session \<Rightarrow> string list" where
  "handshakeText env challenge s =
     ['';FW:'' @ concat (map2 (forwardEntry (s_secureLoginHandleFunc s) challenge) [0..<length (s_localFW s)] (s_localFW s)),
      ''['' @ ua_Name (s_ua s) @ ''-'' @ ua_Version (s_ua s) @ ''-'' @ sentSID env @ '']''] @
     (if challenge = [] then []
      else ['';PR: '' @ secureLoginResponse challenge (fst (the (s_secureLoginHandleFunc s) (hd (s_localFW s))))]) @
     [''; '' @ s_targetcall s @ '' DE '' @ s_mycall s @ '' ('' @ s_locator s @ '')'' @ (if s_master s then ''>'' else [])]"

text \<open>There is a password for the own call if there is a challenge.\<close>

definition login_ok :: "string \<Rightarrow> Session \<Rightarrow> bool" where
  "login_ok challenge s \<longleftrightarrow> challenge = [] \<or> (\<exists>f. s_secureLoginHandleFunc s = Some f \<and> snd (f (hd (s_localFW s))) = None)"

definition session_ok :: "env \<Rightarrow> Session \<Rightarrow> bool" where
  "session_ok env s \<longleftrightarrow> s_localFW s \<noteq> [] \<and> (\<forall>a \<in> set (s_localFW s). fw_ok env a) \<and> printable (s_targetcall s) \<and>
     printable (s_mycall s) \<and> printable (s_locator s) \<and> printable (ua_Name (s_ua s)) \<and> printable (ua_Version (s_ua s))"

lemma sendHandshake_text:
  assumes "session_ok env s" "login_ok challenge s"
  shows "sendHandshake env challenge s c = Some (conn_Write (concat (map (\<lambda>l. l @ [CR]) (handshakeText env challenge s))) c)"
proof (cases "challenge = []")
  case True
  then show ?thesis by (simp add: sendHandshake_def handshakeText_def writeSID_line Let_def)
next
  case False
  then obtain f where f: "s_secureLoginHandleFunc s = Some f" "snd (f (hd (s_localFW s))) = None" using assms(2) by (auto simp: login_ok_def)
  have "idx (s_localFW s) 0 = Some (hd (s_localFW s))" using assms(1) by (simp add: session_ok_def idx_def hd_conv_nth)
  moreover obtain pw where "f (hd (s_localFW s)) = (pw, None)" using f(2) by (metis surjective_pairing)
  ultimately show ?thesis using False f(1) by (simp add: sendHandshake_def handshakeText_def writeSID_line Let_def)
qed

lemma sentSID_printable: "printable (sentSID env)"
  by (simp add: sentSID_def printable_def visible_def)

lemma fw_line_plain:
  assumes "as \<noteq> []" "\<forall>a \<in> set as. fw_ok env a" "list_all2 fw_entry as es"
  shows "plain_line ('';FW:'' @ concat (map (\<lambda>e. CHR '' '' # e) es))"
proof -
  have es: "es \<noteq> []" "\<forall>e \<in> set es. e \<noteq> [] \<and> (\<forall>c \<in> set e. visible c)"
    using assms fw_entry_ok(2,3) by (auto, metis in_set_conv_nth list_all2_conv_all_nth, metis in_set_conv_nth list_all2_conv_all_nth)
  have "es \<noteq> [] \<Longrightarrow> \<forall>e \<in> set es. e \<noteq> [] \<and> (\<forall>c \<in> set e. visible c) \<Longrightarrow> CR \<notin> set (concat (map (\<lambda>e. CHR '' '' # e) es)) \<and>
      concat (map (\<lambda>e. CHR '' '' # e) es) \<noteq> [] \<and> visible (last (concat (map (\<lambda>e. CHR '' '' # e) es)))"
    by (induction es rule: list_nonempty_induct) (auto simp: last_append visible_not_blank dest: visible_not_blank)
  then show ?thesis using es by (auto simp: plain_line_def visible_def last_append)
qed

lemma handshake_lines_plain:
  assumes "session_ok env s"
  shows "\<forall>l \<in> set (handshakeText env challenge s). plain_line l \<and> hd l \<noteq> CHR ''F''"
proof -
  obtain es where es: "concat (map2 (forwardEntry (s_secureLoginHandleFunc s) challenge) [0..<length (s_localFW s)] (s_localFW s)) =
      concat (map (\<lambda>e. CHR '' '' # e) es)" "list_all2 fw_entry (s_localFW s) es"
    using forwardEntries_form [of _ _ 0 "s_localFW s"] by force
  have 1: "plain_line ('';FW:'' @ concat (map (\<lambda>e. CHR '' '' # e) es))"
    using assms es(2) by (intro fw_line_plain) (auto simp: session_ok_def)
  have p: "CR \<notin> set (s_targetcall s)" "CR \<notin> set (s_mycall s)" "CR \<notin> set (s_locator s)" "CR \<notin> set (ua_Name (s_ua s))"
      "CR \<notin> set (ua_Version (s_ua s))" "CR \<notin> set (sentSID env)"
    using assms printable_no_break sentSID_printable [of env] by (auto simp: session_ok_def)
  have 2: "plain_line (''['' @ ua_Name (s_ua s) @ ''-'' @ ua_Version (s_ua s) @ ''-'' @ sentSID env @ '']'')"
    using p by (simp add: plain_line_def visible_def)
  have 3: "plain_line (''; '' @ s_targetcall s @ '' DE '' @ s_mycall s @ '' ('' @ s_locator s @ '')'' @ (if s_master s then ''>'' else []))"
    using p by (simp add: plain_line_def visible_def)
  have 4: "plain_line ('';PR: '' @ secureLoginResponse challenge pw)" for pw
  proof -
    have r: "secureLoginResponse challenge pw \<noteq> []" "\<forall>c \<in> set (secureLoginResponse challenge pw). visible c"
      using secureLoginResponse_digits [of challenge pw] isDigit_plain by fastforce+
    then have "visible (last (secureLoginResponse challenge pw))" "CR \<notin> set (secureLoginResponse challenge pw)" using visible_not_blank by auto
    then show ?thesis using r(1) by (simp add: plain_line_def visible_def)
  qed
  show ?thesis using 1 2 3 4 by (simp add: handshakeText_def es(1))
qed

lemma handshakeLine_fw:
  assumes "session_ok env s"
  shows "handshakeLine env ('';FW:'' @ concat (map2 (forwardEntry login challenge) [0..<length (s_localFW s)] (s_localFW s))) data =
    Some (data\<lparr>FW := s_localFW s\<rparr>, None)"
proof -
  obtain es where es: "concat (map2 (forwardEntry login challenge) [0..<length (s_localFW s)] (s_localFW s)) =
      concat (map (\<lambda>e. CHR '' '' # e) es)" "list_all2 fw_entry (s_localFW s) es"
    using forwardEntries_form [of _ _ 0 "s_localFW s"] by force
  have "parseFW env ('';FW:'' @ concat (map (\<lambda>e. CHR '' '' # e) es)) = Inr (s_localFW s)"
    using assms es(2) by (intro parseFW_line) (auto simp: session_ok_def)
  then show ?thesis by (simp add: handshakeLine_def isSID_def HasPrefix_def es(1))
qed

lemma handshakeLine_sid:
  assumes "session_ok env s"
  shows "handshakeLine env (''['' @ ua_Name (s_ua s) @ ''-'' @ ua_Version (s_ua s) @ ''-'' @ sentSID env @ '']'') data =
    Some (data\<lparr>SID := sentSID env\<rparr>, None)"
  using assms sentSID_parsed [of "ua_Name (s_ua s)" "ua_Version (s_ua s)" env] sentSID_B2
  by (simp add: handshakeLine_def isSID_def HasPrefix_def HasSuffix_def session_ok_def)

lemma HasSuffix_last: "HasSuffix s [c] \<longleftrightarrow> s \<noteq> [] \<and> last s = c"
proof (cases s rule: rev_cases)
  case (snoc t d)
  then show ?thesis by (simp add: HasSuffix_def)
qed (simp add: HasSuffix_def)

lemma handshakeLine_pr: "handshakeLine env ('';PR: '' @ secureLoginResponse challenge pw) data = Some (data, None)"
proof -
  have "secureLoginResponse challenge pw \<noteq> []" "\<forall>c \<in> set (secureLoginResponse challenge pw). c \<noteq> CHR ''>''"
    using secureLoginResponse_digits [of challenge pw] isDigit_plain by fastforce+
  then show ?thesis by (auto simp: handshakeLine_def isSID_def HasPrefix_def HasSuffix_last)
qed

lemma handshakeLine_de:
  "handshakeLine env (''; '' @ s_targetcall s @ '' DE '' @ s_mycall s @ '' ('' @ s_locator s @ '')'' @ (if s_master s then ''>'' else [])) data =
    Some (data, if s_master s then Some None else None)"
  by (simp add: handshakeLine_def isSID_def HasPrefix_def HasSuffix_last)

text \<open>Reading lines one after the other.\<close>

fun lines_read :: "env \<Rightarrow> string list \<Rightarrow> handshakeData \<Rightarrow> handshakeData option" where
  "lines_read env [] data = Some data"
| "lines_read env (l # ls) data = (case handshakeLine env l data of Some (data, None) \<Rightarrow> lines_read env ls data | _ \<Rightarrow> None)"

lemma readHandshake_lines:
  "lines_read env ls data = Some data' \<Longrightarrow> \<forall>l \<in> set ls. plain_line l \<and> hd l \<noteq> CHR ''F'' \<Longrightarrow>
   readHandshake env master data (rc\<lparr>c_in := concat (map (\<lambda>l. l @ [CR]) ls) @ rest\<rparr>) = readHandshake env master data' (rc\<lparr>c_in := rest\<rparr>)"
proof (induction ls arbitrary: data)
  case (Cons l ls)
  obtain d where d: "handshakeLine env l data = Some (d, None)" "lines_read env ls d = Some data'"
    using Cons.prems(1) by (auto split: option.splits)
  let ?rest = "concat (map (\<lambda>l. l @ [CR]) ls) @ rest"
  have "readHandshake env master data (rc\<lparr>c_in := l @ CR # ?rest\<rparr>) = readHandshake env master d (rc\<lparr>c_in := ?rest\<rparr>)"
    using readHandshake_line [of l "rc\<lparr>c_in := l @ CR # ?rest\<rparr>" ?rest env data d None master] Cons.prems(2) d(1) by simp
  then show ?case using Cons.IH [OF d(2)] Cons.prems(2) by simp
qed simp

lemma readHandshake_text:
  assumes "session_ok env s" "c_in rc = concat (map (\<lambda>l. l @ [CR]) (handshakeText env challenge s)) @ rest"
    and "s_master s \<or> (\<exists>r. rest = CHR ''F'' # r)"
  shows "readHandshake env (\<not> s_master s) \<lparr>SID = [], FW = [], SecureChallenge = []\<rparr> rc =
      Some ((\<lparr>SID = sentSID env, FW = s_localFW s, SecureChallenge = []\<rparr>, None), rc\<lparr>c_in := rest\<rparr>)"
proof -
  define ls de where "ls = butlast (handshakeText env challenge s)" and "de = last (handshakeText env challenge s)"
  let ?d0 = "\<lparr>SID = [], FW = [], SecureChallenge = []\<rparr> :: handshakeData"
  let ?d2 = "\<lparr>SID = sentSID env, FW = s_localFW s, SecureChallenge = []\<rparr> :: handshakeData"
  have t: "handshakeText env challenge s = ls @ [de]" by (simp add: ls_def de_def handshakeText_def)
  have plain: "\<forall>l \<in> set (ls @ [de]). plain_line l \<and> hd l \<noteq> CHR ''F''" using handshake_lines_plain [OF assms(1), of challenge] by (simp only: t)
  have "lines_read env ls ?d0 = Some ?d2"
    by (simp add: ls_def handshakeText_def butlast_append handshakeLine_fw [OF assms(1), simplified] handshakeLine_sid [OF assms(1), simplified]
      handshakeLine_pr [simplified])
  then have 0: "readHandshake env (\<not> s_master s) ?d0 (rc\<lparr>c_in := concat (map (\<lambda>l. l @ [CR]) ls) @ de @ CR # rest\<rparr>) =
      readHandshake env (\<not> s_master s) ?d2 (rc\<lparr>c_in := de @ CR # rest\<rparr>)"
    by (rule readHandshake_lines) (use plain in simp)
  have "handshakeLine env de ?d2 = Some (?d2, if s_master s then Some None else None)"
    using handshakeLine_de [of env s ?d2] by (simp add: de_def handshakeText_def)
  then have 1: "readHandshake env (\<not> s_master s) ?d2 (rc\<lparr>c_in := de @ CR # rest\<rparr>) =
      (if s_master s then Some ((?d2, None), rc\<lparr>c_in := rest\<rparr>) else readHandshake env True ?d2 (rc\<lparr>c_in := rest\<rparr>))"
    using readHandshake_line [of de "rc\<lparr>c_in := de @ CR # rest\<rparr>" rest env ?d2 ?d2] plain by simp
  have 2: "readHandshake env True ?d2 (rc\<lparr>c_in := rest\<rparr>) = Some ((?d2, None), rc\<lparr>c_in := rest\<rparr>)" if "\<not> s_master s"
    using assms(3) that by (subst readHandshake.simps) (auto simp: conn_Peek_def)
  have "rc = rc\<lparr>c_in := concat (map (\<lambda>l. l @ [CR]) ls) @ de @ CR # rest\<rparr>" using assms(2) by (simp add: t)
  then show ?thesis using 0 1 2 by simp
qed

text \<open>C7. What a session sends in the handshake is understood by the other side, with or without a login challenge: it
  learns the station identifier with the B2 protocol in it and the addresses to fetch messages for, without the password
  hashes some of them carry, and has consumed exactly the handshake, whether it ends with the master's prompt or with the
  first command of the other side. The session has addresses, texts that can be printed on a line, and a password for its
  own call if there is a challenge.\<close>

theorem handshake_understood:
  assumes "session_ok env s" "login_ok challenge s" "c_fail c = None" "sendHandshake env challenge s c = Some (e, c')"
    and "c_in rc = drop (length (c_out c)) (c_out c') @ rest"
    and "s_master s \<or> (\<exists>r. rest = CHR ''F'' # r)"
  shows "e = None \<and>
    readHandshake env (\<not> s_master s) \<lparr>SID = [], FW = [], SecureChallenge = []\<rparr> rc =
      Some ((\<lparr>SID = sentSID env, FW = s_localFW s, SecureChallenge = []\<rparr>, None), rc\<lparr>c_in := rest\<rparr>) \<and>
    Has env (sentSID env) sFBComp2"
proof -
  have "e = None" "c' = c\<lparr>c_out := c_out c @ concat (map (\<lambda>l. l @ [CR]) (handshakeText env challenge s))\<rparr>"
    using assms(3,4) by (simp_all add: sendHandshake_text [OF assms(1,2)])
  then show ?thesis using readHandshake_text [OF assms(1) _ assms(6), of rc challenge] assms(5) sentSID_B2 by simp
qed

definition example_Session :: Session where
  "example_Session = NewSession example_env ''LA5NTA'' ''N0CALL'' ''JP20QE''"

lemma example_Session_ok: "session_ok example_env example_Session"
proof -
  have u: "ToUpper example_env ''LA5NTA'' = ''LA5NTA''" "ToUpper example_env ''N0CALL'' = ''N0CALL''"
    by (simp_all add: ToUpper_ascii ascii_def upperChar_def isLower_def)
  have "AddressFromString example_env ''LA5NTA'' = \<lparr>Proto = [], Addr = ''LA5NTA''\<rparr>" by (simp add: AddressFromString_def u)
  then show ?thesis
    by (simp add: session_ok_def example_Session_def NewSession_def Let_def u fw_ok_def printable_def visible_def StdUA_def)
qed

text \<open>A session with an auxiliary address, the same as its own, that has a password.\<close>

definition example_login :: Session where
  "example_login = SetSecureLoginHandleFunc (\<lambda>_. (''FOOBAR'', None)) (AddAuxiliaryAddress (s_localFW example_Session) example_Session)"

theorem handshake_understood_witness:
  "readHandshake example_env True \<lparr>SID = [], FW = [], SecureChallenge = []\<rparr>
     (fresh_conn (c_out (snd (the (sendHandshake example_env ''23753528'' example_login (fresh_conn []))))  @ ''FF'')) =
   Some ((\<lparr>SID = ''B2FHMG$'', FW = s_localFW example_login, SecureChallenge = []\<rparr>, None), fresh_conn ''FF'')"
proof -
  let ?c = "fresh_conn []"
  have ok: "session_ok example_env example_login" "login_ok ''23753528'' example_login"
    using example_Session_ok by (auto simp: example_login_def session_ok_def login_ok_def SetSecureLoginHandleFunc_def AddAuxiliaryAddress_def)
  obtain e c' where w: "sendHandshake example_env ''23753528'' example_login ?c = Some (e, c')" by (simp add: sendHandshake_text [OF ok])
  have "\<not> s_master example_login" "sentSID example_env = ''B2FHMG$''"
    by (simp_all add: example_login_def SetSecureLoginHandleFunc_def AddAuxiliaryAddress_def example_Session_def NewSession_def Let_def sentSID_def example_env_def)
  then show ?thesis
    using handshake_understood [OF ok _ w, of "fresh_conn (c_out c' @ ''FF'')" "''FF''"] w by simp
qed

text \<open>A short challenge line makes the handshake panic.\<close>

theorem short_challenge_panics:
  "readHandshake env master data (c\<lparr>c_in := '';PQ'' @ CR # rest\<rparr>) = None"
proof -
  have "plain_line '';PQ''" by (simp add: plain_line_def visible_def)
  then have "nextLineRemoteErr False (c\<lparr>c_in := '';PQ'' @ CR # rest\<rparr>) = Some (('';PQ'', None), c\<lparr>c_in := rest\<rparr>)"
    using nextLineRemoteErr_plain [of "'';PQ''" "c\<lparr>c_in := '';PQ'' @ CR # rest\<rparr>" rest] by simp
  then show ?thesis
    by (subst readHandshake.simps) (simp add: conn_Peek_def handshakeLine_def isSID_def HasPrefix_def)
qed

end
