(* ===== verification/Fbb_Session.thy ===== *)
theory Fbb_Session
  imports Fbb_Handshake "HOL-Library.Sublist"
begin

text \<open>
  The exchange of messages: \<open>handleOutbound\<close>, \<open>sendOutbound\<close>, \<open>handleInbound\<close> (\<^verbatim>\<open>src/fbb/b2f.go\<close>), \<open>outbound\<close> and
  \<open>Exchange\<close> (\<^verbatim>\<open>src/fbb/wl2k.go\<close>). The mailbox handler is a record of functions on the mailbox's state, which is
  a type variable here; \<open>None\<close> is a panic or the end of the process. Go iterates over the map of sent messages in
  any order, the model in the order in which they were sent.
\<close>

section \<open>Mailbox handlers\<close>

record 'm MBoxHandler =
  Prepare :: "'m \<Rightarrow> go_err option \<times> 'm"
  GetOutbound :: "Address list \<Rightarrow> 'm \<Rightarrow> Message list option"
  SetSent :: "string \<Rightarrow> bool \<Rightarrow> 'm \<Rightarrow> 'm option"
  SetDeferred :: "string \<Rightarrow> 'm \<Rightarrow> 'm option"
  ProcessInbound :: "Message \<Rightarrow> 'm \<Rightarrow> go_err option \<times> 'm"
  GetInboundAnswer :: "Proposal \<Rightarrow> 'm \<Rightarrow> char"

section \<open>Outbound proposals\<close>

definition highestPropCode :: "env \<Rightarrow> Session \<Rightarrow> char" where
  "highestPropCode env s =
     (if Has env (s_remoteSID s) sGzip \<and> e_gzipExperiment env then GzipProposal else Wl2kProposal)"

fun prepareProposals :: "env \<Rightarrow> char \<Rightarrow> Message list \<Rightarrow> Proposal list option" where
  "prepareProposals env code [] = Some []"
| "prepareProposals env code (m # msgs) =
     (if Validate env m \<noteq> None then prepareProposals env code msgs
      else do {
        r \<leftarrow> Message_Proposal env code m;
        case r of
          Inr (prop, None) \<Rightarrow> do { props \<leftarrow> prepareProposals env code msgs; Some (prop # props) }
        | _ \<Rightarrow> prepareProposals env code msgs
      })"

definition outbound :: "env \<Rightarrow> 'm MBoxHandler option \<Rightarrow> Session \<Rightarrow> 'm \<Rightarrow> Proposal list option" where
  "outbound env h s m =
     (case h of
        None \<Rightarrow> Some []
      | Some h \<Rightarrow> do {
          msgs \<leftarrow> GetOutbound h (s_remoteFW s) m;
          props \<leftarrow> prepareProposals env (highestPropCode env s) msgs;
          Some (sortProposals props)
        })"

lemma outbound_None [simp]: "outbound env None s m = Some []"
  by (simp add: outbound_def)

section \<open>Sending\<close>

definition MaxBlockSize :: nat where "MaxBlockSize = 5"

definition promptLine :: "nat \<Rightarrow> string" where
  "promptLine checksum = ''F> '' @ print02X checksum @ [CR]"

definition sendBlock :: "Proposal list \<Rightarrow> conn \<Rightarrow> conn" where
  "sendBlock props c =
     conn_write (promptLine (blockSum (map proposalLine props)))
       (fold (\<lambda>p. conn_write (proposalLine p @ [CR])) props c)"

lemma nextLine_consumes: "nextLine c = Some ((l, None), c') \<Longrightarrow> length (c_in c') < length (c_in c)"
  unfolding nextLine_def by (rule nextLine_shrinks)

text \<open>Comments before the answer are skipped. The error for anything else prints the reply, which is empty.\<close>

function awaitAnswer :: "conn \<Rightarrow> ((go_err + string) \<times> conn) option" where
  "awaitAnswer c =
     (case nextLine c of
        None \<Rightarrow> None
      | Some ((line, Some e), c) \<Rightarrow> Some (Inl e, c)
      | Some ((line, None), c) \<Rightarrow>
          if HasPrefix line ''FS '' then Some (Inr line, c)
          else if HasPrefix line '';'' then awaitAnswer c
          else Some (Inl (Msg (''Expected proposal answer from remote. Got: '' @ quoted [])), c))"
  by pat_completeness auto
termination
  by (relation "measure (\<lambda>c. length (c_in c))") (auto dest: nextLine_consumes)

declare awaitAnswer.simps [simp del]

text \<open>What happens to each proposal after the answer. The map of sent messages: rejected or not.\<close>

fun deliver ::
  "'m MBoxHandler \<Rightarrow> Proposal list \<Rightarrow> (string \<times> bool) list \<Rightarrow> conn \<Rightarrow> 'm \<Rightarrow>
    (((string \<times> bool) list \<times> go_err option) \<times> conn \<times> 'm) option" where
  "deliver h [] sent c m = Some ((sent, None), c, m)"
| "deliver h (p # ps) sent c m =
     (if p_answer p = Defer then do { m \<leftarrow> SetDeferred h (p_mid p) m; deliver h ps sent c m }
      else if p_answer p = Reject then deliver h ps (AList.update (p_mid p) True sent) c m
      else if p_answer p = Accept then do {
        (e, c) \<leftarrow> writeCompressed p c;
        case e of
          Some e \<Rightarrow> Some ((sent, Some e), c, m)
        | None \<Rightarrow> deliver h ps (AList.update (p_mid p) False sent) c m
      }
      else deliver h ps sent c m)"

definition sendOutbound ::
  "env \<Rightarrow> 'm MBoxHandler \<Rightarrow> Session \<Rightarrow> conn \<Rightarrow> 'm \<Rightarrow> (((string \<times> bool) list \<times> go_err option) \<times> conn \<times> 'm) option" where
  "sendOutbound env h s c m = do {
     props \<leftarrow> outbound env (Some h) s m;
     let props = take MaxBlockSize props;
     (reply, c) \<leftarrow> awaitAnswer (sendBlock props c);
     case reply of
       Inl e \<Rightarrow> Some (([], Some e), c, m)
     | Inr reply \<Rightarrow>
         (case parseProposalAnswer reply props of
            (Some e, props) \<Rightarrow> Some (([], Some (Wrapped ''Unable to parse proposal answer: '' e)), c, m)
          | (None, props) \<Rightarrow>
              if props = [] then Some (([], None), c, m)
              else do {
                let auto = (c_robust c \<noteq> None \<and> s_robustMode s = RobustAuto);
                (r, c, m) \<leftarrow> deliver h props [] (if auto then SetRobust False c else c) m;
                Some (r, if auto then SetRobust True c else c, m)
              })
   }"

fun setAllSent :: "'m MBoxHandler \<Rightarrow> (string \<times> bool) list \<Rightarrow> 'm \<Rightarrow> 'm option" where
  "setAllSent h [] m = Some m"
| "setAllSent h ((mid, rej) # sent) m = do { m \<leftarrow> SetSent h mid rej m; setAllSent h sent m }"

text \<open>The turnover after a block: nothing to say, the end of the session, or the other side's turn; then the first byte
  of the answer tells whether the block was received.\<close>

definition confirmSent ::
  "'m MBoxHandler option \<Rightarrow> (string \<times> bool) list \<Rightarrow> Session \<Rightarrow> conn \<Rightarrow> 'm \<Rightarrow>
    ((bool \<times> go_err option) \<times> Session \<times> conn \<times> 'm) option" where
  "confirmSent h sent s c m =
     (if sent = [] \<and> s_remoteNoMsgs s then Some ((True, None), s, conn_write (''FQ'' @ [CR]) c, m)
      else
        let c = (if sent = [] then conn_write (''FF'' @ [CR]) c else c) in
        case conn_Peek c of
          Inl e \<Rightarrow> Some ((False, Some e), s, c, m)
        | Inr b \<Rightarrow>
            if b \<noteq> CHR ''F'' \<and> b \<noteq> CHR '';'' then do {
              ((line, e), c) \<leftarrow> nextLine c;
              Some ((False, Some (case e of Some e \<Rightarrow> e | None \<Rightarrow> Msg (''Unexpected response: '' @ quoted line))), s, c, m)
            }
            else do {
              m \<leftarrow> (case h of None \<Rightarrow> Some m | Some h \<Rightarrow> setAllSent h sent m);
              let stats = (s_trafficStats s)\<lparr>Sent := Sent (s_trafficStats s) @ map fst (filter (\<lambda>(mid, rej). \<not> rej) sent)\<rparr>;
              Some ((False, None), s\<lparr>s_trafficStats := stats\<rparr>, c, m)
            })"

lemma awaitAnswer_consumes: "awaitAnswer c = Some (Inr l, c') \<Longrightarrow> length (c_in c') < length (c_in c)"
proof (induction c rule: awaitAnswer.induct)
  case (1 c)
  from 1(2) obtain line c1 where n: "nextLine c = Some ((line, None), c1)"
    by (subst (asm) awaitAnswer.simps) (auto split: option.splits prod.splits)
  show ?case
  proof (cases "HasPrefix line ''FS ''")
    case True
    then show ?thesis using 1(2) n nextLine_consumes [OF n] by (subst (asm) awaitAnswer.simps) simp
  next
    case False
    then have "HasPrefix line '';''" "awaitAnswer c1 = Some (Inr l, c')"
      using 1(2) n by (subst (asm) awaitAnswer.simps, simp split: if_splits)+
    then show ?thesis using 1(1) [OF n refl refl refl False] nextLine_consumes [OF n] by simp
  qed
qed

lemma sendBlock_reads [simp]: "c_in (sendBlock ps c) = c_in c"
proof -
  have "c_in (fold (\<lambda>p. conn_write (proposalLine p @ [CR])) ps c) = c_in c" by (induction ps arbitrary: c) simp_all
  then show ?thesis by (simp add: sendBlock_def)
qed

lemma conn_keep_input [simp]: "c_in (SetRobust b c) = c_in c"
  by (simp add: SetRobust_def)

lemma conn_Write_in: "conn_Write s c = (e, c') \<Longrightarrow> c_in c' = c_in c"
  by (auto simp: conn_Write_def split: option.splits if_splits)

lemma writeChunks_reads: "c_in (snd (writeChunks k buf c)) = c_in c"
proof (induction k buf c rule: writeChunks.induct)
  case (1 k buf c)
  show ?case
  proof (cases "buf = []")
    case False
    let ?n = "min MaxMsgLength (length buf)"
    obtain e c1 where w: "conn_Write ([CHRSTX, byteOf ?n] @ take ?n buf) c = (e, c1)" by fastforce
    have "c_in c1 = c_in c" using conn_Write_in [OF w] .
    then show ?thesis using 1(1) [OF False refl refl w [symmetric]] w False
      by (subst writeChunks.simps) (auto simp: Let_def split: option.splits)
  qed (simp add: writeChunks.simps)
qed

lemma writeCompressed_reads: "writeCompressed p c = Some (e, c') \<Longrightarrow> c_in c' = c_in c"
proof -
  assume *: "writeCompressed p c = Some (e, c')"
  let ?c1 = "conn_write (transferHeader p) c" and ?d = "drop (nat (p_offset p)) (p_compressedData p)"
  obtain r s c2 where w: "writeChunks 0 ?d ?c1 = ((r, s), c2)" by (metis prod.exhaust)
  have 2: "c_in c2 = c_in c" using writeChunks_reads [of 0 ?d ?c1] w by simp
  show ?thesis
    using * w 2 conn_Write_in
    by (fastforce simp: writeCompressed_def finishTransfer_def Let_def split: if_splits option.splits prod.splits)
qed

lemma deliver_reads: "deliver h ps sent c m = Some (r, c', m') \<Longrightarrow> c_in c' = c_in c"
proof (induction ps arbitrary: sent c m)
  case (Cons p ps)
  show ?case
  proof (cases "p_answer p = Accept")
    case True
    then have "p_answer p \<noteq> Defer" "p_answer p \<noteq> Reject" by (auto simp: prop_answers)
    then obtain e c1 where w: "writeCompressed p c = Some (e, c1)" using Cons.prems True by (auto simp: bind_eq_Some_conv)
    show ?thesis
      using Cons.prems Cons.IH True w writeCompressed_reads [OF w] \<open>p_answer p \<noteq> Defer\<close> \<open>p_answer p \<noteq> Reject\<close>
      by (cases e) auto
  next
    case False
    then show ?thesis using Cons by (auto simp: bind_eq_Some_conv split: if_splits)
  qed
qed simp

text \<open>A block that was answered has consumed at least the answer line.\<close>

lemma sendOutbound_consumes:
  assumes "sendOutbound env h s c m = Some ((sent, None), c', m')"
  shows "length (c_in c') < length (c_in c)"
proof -
  obtain props reply c1 where a: "awaitAnswer (sendBlock (take MaxBlockSize props) c) = Some (reply, c1)"
      "outbound env (Some h) s m = Some props"
    using assms by (auto simp: sendOutbound_def bind_eq_Some_conv Let_def)
  obtain l where l: "reply = Inr l" using assms a by (cases reply) (auto simp: sendOutbound_def)
  have 1: "length (c_in c1) < length (c_in c)" using awaitAnswer_consumes a l by fastforce
  show ?thesis
    using assms a l 1 deliver_reads
    by (fastforce simp: sendOutbound_def bind_eq_Some_conv Let_def split: prod.splits option.splits if_splits)
qed

function handleOutbound ::
  "env \<Rightarrow> 'm MBoxHandler option \<Rightarrow> Session \<Rightarrow> conn \<Rightarrow> 'm \<Rightarrow> ((bool \<times> go_err option) \<times> Session \<times> conn \<times> 'm) option" where
  "handleOutbound env h s c m =
     (case outbound env h s m of
        None \<Rightarrow> None
      | Some props \<Rightarrow>
          (case (case h of
                   Some h \<Rightarrow> if props \<noteq> [] then sendOutbound env h s c m else Some (([], None), c, m)
                 | None \<Rightarrow> Some (([], None), c, m)) of
             None \<Rightarrow> None
           | Some ((sent, Some e), c, m) \<Rightarrow> Some ((False, Some e), s, c, m)
           | Some ((sent, None), c', m') \<Rightarrow>
               (case (case h of None \<Rightarrow> Some m' | Some h \<Rightarrow> setAllSent h (filter snd sent) m') of
                  None \<Rightarrow> None
                | Some m' \<Rightarrow>
                    let sent = filter (\<lambda>(mid, rej). \<not> rej) sent in
                    (case outbound env h s m' of
                       None \<Rightarrow> None
                     | Some props' \<Rightarrow>
                         if sent = [] \<and> props' \<noteq> [] then handleOutbound env h s c' m'
                         else confirmSent h sent s c' m'))))"
  by pat_completeness auto
termination
  by (relation "measure (\<lambda>(env, h, s, c, m). length (c_in c))")
    (auto split: option.splits if_splits dest: sendOutbound_consumes)

declare handleOutbound.simps [simp del]

section \<open>Receiving\<close>

text \<open>How the loop over the other side's lines ends: by returning, or with the proposals, how many of them were accepted,
  and whether the other side quits.\<close>

datatype inbound_end = LoopReturn bool "go_err option" | LoopBreak bool "Proposal list" nat

datatype inbound_step = Continue int "Proposal list" | LoopEnd inbound_end

text \<open>The prompt at the end of a block: the checksum is compared and the proposals are answered. If all of them were
  rejected or deferred, reading starts over. The slice of the prompt panics if there is nothing after \<open>F>\<close>.\<close>

definition inboundPrompt ::
  "(Proposal \<Rightarrow> char) option \<Rightarrow> int \<Rightarrow> Proposal list \<Rightarrow> string \<Rightarrow> conn \<Rightarrow> (inbound_step \<times> conn) option" where
  "inboundPrompt ask ourChecksum proposals line c =
     (if length line < 3 then None
      else Some
        (let their = fst (ParseInt 16 (drop 3 line)); ours = int (finalSum ourChecksum) in
         if their \<noteq> ours then
           (LoopEnd (LoopReturn False (Some (Msg (''Checksum error ('' @ printInt ours @ ''-'' @ printInt their @ '')'')))), c)
         else if proposals = [] then (LoopEnd (LoopReturn False None), c)
         else
           (case writeProposalsAnswer ask proposals c of
              ((nAccepted, Some e), props, c) \<Rightarrow> (LoopEnd (LoopReturn False (Some e)), c)
            | ((nAccepted, None), props, c) \<Rightarrow>
                (if 0 < nAccepted then LoopEnd (LoopBreak False props nAccepted) else Continue 0 [], c))))"

definition inboundLine ::
  "(Proposal \<Rightarrow> char) option \<Rightarrow> int \<Rightarrow> Proposal list \<Rightarrow> string \<Rightarrow> conn \<Rightarrow> (inbound_step \<times> conn) option" where
  "inboundLine ask ourChecksum proposals line c =
     (if line = [] \<or> line ! 0 = CHR '';'' then Some (Continue ourChecksum proposals, c)
      else if length line < 2 \<or> line ! 0 \<noteq> CHR ''F'' then
        Some (LoopEnd (LoopReturn False (Some (Msg (''Got unexpected protocol line: '' @ quoted line)))), c)
      else if line ! 1 \<in> set ''ABCD'' then do {
        (e, prop) \<leftarrow> parseProposal line new_Proposal;
        Some (case e of
                Some e \<Rightarrow> (LoopEnd (LoopReturn False (Some (Wrapped ''Unable to parse proposal: '' e))), c)
              | None \<Rightarrow> (Continue (ourChecksum + lineSum line) (proposals @ [prop]), c))
      }
      else if line ! 1 = CHR ''F'' then Some (LoopEnd (LoopBreak False proposals 0), c)
      else if line ! 1 = CHR ''Q'' then Some (LoopEnd (LoopBreak True proposals 0), c)
      else if line ! 1 = CHR ''>'' then inboundPrompt ask ourChecksum proposals line c
      else Some (LoopEnd (LoopReturn False (Some (Msg (''Unknown protocol command '' @ runeString (byte_val (line ! 1)))))), c))"

lemma answer_reads: "writeProposalsAnswer ask ps c = (r, ps', c') \<Longrightarrow> c_in c' = c_in c"
  using conn_Write_in by (auto simp: writeProposalsAnswer_def split: prod.splits)

lemma inboundLine_reads: "inboundLine ask k ps line c = Some (r, c') \<Longrightarrow> c_in c' = c_in c"
  by (auto simp: inboundLine_def inboundPrompt_def Let_def bind_eq_Some_conv dest: answer_reads
      split: if_splits option.splits prod.splits)

text \<open>The loop; \<open>ask\<close> is the handler's answer.\<close>

function inboundLoop ::
  "(Proposal \<Rightarrow> char) option \<Rightarrow> int \<Rightarrow> Proposal list \<Rightarrow> conn \<Rightarrow> (inbound_end \<times> conn) option" where
  "inboundLoop ask ourChecksum proposals c =
     (case nextLine c of
        None \<Rightarrow> None
      | Some ((line, Some e), c) \<Rightarrow> Some (LoopReturn False (Some e), c)
      | Some ((line, None), c) \<Rightarrow>
          (case inboundLine ask ourChecksum proposals line c of
             None \<Rightarrow> None
           | Some (LoopEnd r, c) \<Rightarrow> Some (r, c)
           | Some (Continue ourChecksum proposals, c) \<Rightarrow> inboundLoop ask ourChecksum proposals c))"
  by pat_completeness auto
termination
  by (relation "measure (\<lambda>(ask, n, ps, c). length (c_in c))") (auto dest!: nextLine_consumes inboundLine_reads)

declare inboundLoop.simps [simp del]

text \<open>Fetching the accepted messages; each is handed to the mailbox before the next one is read.\<close>

definition receiveOne ::
  "env \<Rightarrow> 'm MBoxHandler option \<Rightarrow> Proposal \<Rightarrow> Session \<Rightarrow> conn \<Rightarrow> 'm \<Rightarrow> (go_err option \<times> Session \<times> conn \<times> 'm) option" where
  "receiveOne env h p s c m = do {
     ((e, p), c) \<leftarrow> readCompressed (e_fromCharset env) p c;
     if e \<noteq> None then Some (e, s, c, m)
     else do {
       (e, msg) \<leftarrow> Proposal_Message env p;
       if e \<noteq> None then Some (e, s, c, m)
       else do {
         h \<leftarrow> h;
         Some (case ProcessInbound h msg m of
                 (Some e, m) \<Rightarrow> (Some e, s, c, m)
               | (None, m) \<Rightarrow>
                   (None, s\<lparr>s_trafficStats := (s_trafficStats s)\<lparr>Received := Received (s_trafficStats s) @ [p_mid p]\<rparr>\<rparr>, c, m))
       }
     }
   }"

fun receiveAll ::
  "env \<Rightarrow> 'm MBoxHandler option \<Rightarrow> Proposal list \<Rightarrow> Session \<Rightarrow> conn \<Rightarrow> 'm \<Rightarrow> (go_err option \<times> Session \<times> conn \<times> 'm) option" where
  "receiveAll env h [] s c m = Some (None, s, c, m)"
| "receiveAll env h (p # ps) s c m =
     (if p_answer p \<noteq> Accept then receiveAll env h ps s c m
      else do {
        (e, s, c, m) \<leftarrow> receiveOne env h p (s\<lparr>s_remoteNoMsgs := False\<rparr>) c m;
        if e \<noteq> None then Some (e, s, c, m) else receiveAll env h ps s c m
      })"

definition handleInbound ::
  "env \<Rightarrow> 'm MBoxHandler option \<Rightarrow> Session \<Rightarrow> conn \<Rightarrow> 'm \<Rightarrow> ((bool \<times> go_err option) \<times> Session \<times> conn \<times> 'm) option" where
  "handleInbound env h s c m = do {
     (r, c) \<leftarrow> inboundLoop (map_option (\<lambda>h p. GetInboundAnswer h p m) h) 0 [] c;
     case r of
       LoopReturn quitReceived err \<Rightarrow> Some ((quitReceived, err), s, c, m)
     | LoopBreak quitReceived proposals nAccepted \<Rightarrow>
         if quitReceived \<and> 0 < nAccepted then
           Some ((True, Some (Msg ''Got quit command when inbound proposals were pending'')), s, c, m)
         else do {
           (err, s, c, m) \<leftarrow> receiveAll env h proposals (s\<lparr>s_remoteNoMsgs := True\<rparr>) c m;
           Some ((quitReceived, err), s, c, m)
         }
   }"

section \<open>The exchange\<close>

fun errString :: "env \<Rightarrow> go_err \<Rightarrow> string" where
  "errString env (IoErr EOF) = ''EOF''"
| "errString env (IoErr ErrUnexpectedEOF) = ''unexpected EOF''"
| "errString env (IoErr (ErrIO s)) = s"
| "errString env (Msg s) = s"
| "errString env (Wrapped s e) = s @ errString env e"
| "errString env (Errorf0 s) = e_errorf env s"
| "errString env (NumError s ErrSyntax) = ''strconv.Atoi: parsing '' @ e_quote env s @ '': invalid syntax''"
| "errString env (NumError s ErrRange) = ''strconv.Atoi: parsing '' @ e_quote env s @ '': value out of range''"

definition ErrConnLost :: go_err where "ErrConnLost = Msg ''connection lost''"

definition Close :: "conn \<Rightarrow> conn" where "Close c = c\<lparr>c_closed := True\<rparr>"

text \<open>The deferred end of an exchange: an error that is not the end of the connection is told to the other side.\<close>

definition finishExchange :: "env \<Rightarrow> go_err option \<Rightarrow> conn \<Rightarrow> go_err option \<times> conn" where
  "finishExchange env err c =
     (case err of
        None \<Rightarrow> (None, Close c)
      | Some e \<Rightarrow>
          if isConnLost e then (Some ErrConnLost, Close c)
          else (Some e, Close (conn_write (''*** '' @ errString env e @ CRLF) c)))"

lemma confirmSent_reads: "confirmSent h sent s c m = Some ((q, None), s', c', m') \<Longrightarrow> c_in c' = c_in c"
  by (auto simp: confirmSent_def Let_def bind_eq_Some_conv split: sum.splits if_splits option.splits)

lemma handleOutbound_reads: "handleOutbound env h s c m = Some ((q, None), s', c', m') \<Longrightarrow> length (c_in c') \<le> length (c_in c)"
proof (induction env h s c m rule: handleOutbound.induct)
  case (1 env h s c m)
  note step = 1(2) [unfolded handleOutbound.simps [of env h s c m] Let_def]
  obtain props sent c1 m1 where a: "outbound env h s m = Some props"
      "(case h of Some h \<Rightarrow> if props \<noteq> [] then sendOutbound env h s c m else Some (([], None), c, m)
        | None \<Rightarrow> Some (([], None), c, m)) = Some ((sent, None), c1, m1)"
    using step by (auto split: option.splits)
  have le: "length (c_in c1) \<le> length (c_in c)"
    using a(2) by (auto split: option.splits if_splits dest!: sendOutbound_consumes)
  obtain m2 props' where b: "(case h of None \<Rightarrow> Some m1 | Some h \<Rightarrow> setAllSent h (filter snd sent) m1) = Some m2"
      "outbound env h s m2 = Some props'"
    using step a by (auto split: option.splits)
  show ?case
  proof (cases "filter (\<lambda>(mid, rej). \<not> rej) sent = [] \<and> props' \<noteq> []")
    case True
    then have "handleOutbound env h s c1 m2 = Some ((q, None), s', c', m')" using step a b by simp
    then have "length (c_in c') \<le> length (c_in c1)"
      using 1(1) [OF a(1) a(2) refl refl refl refl b(1) refl b(2) True] by simp
    then show ?thesis using le by simp
  next
    case False
    then have "confirmSent h (filter (\<lambda>(mid, rej). \<not> rej) sent) s c1 m2 = Some ((q, None), s', c', m')"
      using step a b by (auto split: if_splits)
    then show ?thesis using confirmSent_reads le by fastforce
  qed
qed

lemma readChunks_reads: "length (c_in (snd (readChunks k buf p c))) \<le> length (c_in c)"
proof (induction k buf p c rule: readChunks.induct)
  case (1 k buf p c)
  obtain r c1 where b: "conn_ReadByte c = (r, c1)" by fastforce
  have 1: "length (c_in c1) \<le> length (c_in c)" using b by (auto simp: conn_ReadByte_def split: list.splits)
  obtain x c2 where z: "readByteOrZero c1 = (x, c2)" by fastforce
  have 2: "length (c_in c2) \<le> length (c_in c1)" using read_shrinks(2) [OF z] .
  obtain ch c3 where ch: "readChunk (chunkLength x) c2 = (ch, c3)" by fastforce
  have 3: "length (c_in c3) \<le> length (c_in c2)" using read_shrinks(3) [OF ch] .
  show ?case
  proof (cases "\<exists>bs. r = Inr CHRSTX \<and> ch = Inr bs")
    case True
    then obtain bs where bs: "r = Inr CHRSTX" "ch = Inr bs" by blast
    have "readChunks k buf p c = readChunks (addSum k bs) (buf @ bs) p c3"
      using b z ch bs by (subst readChunks.simps) simp
    moreover have "length (c_in (snd (readChunks (addSum k bs) (buf @ bs) p c3))) \<le> length (c_in c3)"
      using "1.IH" [OF b [symmetric] bs(1) refl z [symmetric] ch [symmetric] bs(2)] .
    ultimately show ?thesis using 1 2 3 by simp
  next
    case False
    then have "c_in (snd (readChunks k buf p c)) \<in> {c_in c1, c_in c2, c_in c3}"
      using b z ch by (subst readChunks.simps) (auto simp: ctrl_chars split: sum.splits)
    then show ?thesis using 1 2 3 by auto
  qed
qed

lemma ReadString_reads: "length (c_in (snd (conn_ReadString d c))) \<le> length (c_in c)"
  using length_dropWhile_le [of "\<lambda>b. b \<noteq> d" "c_in c"] by (auto simp: conn_ReadString_def split: list.splits)

lemma ReadString_reads': "conn_ReadString d c = (r, c') \<Longrightarrow> length (c_in c') \<le> length (c_in c)"
  using ReadString_reads [of d c] by simp

lemma nextLineRemoteErr_reads: "nextLineRemoteErr b c = Some (r, c') \<Longrightarrow> length (c_in c') \<le> length (c_in c)"
  using ReadString_reads [of CR c]
  by (auto simp: nextLineRemoteErr_def bind_eq_Some_conv split: prod.splits option.splits if_splits)

lemma readChunks_reads': "readChunks k buf p c = (r, c') \<Longrightarrow> length (c_in c') \<le> length (c_in c)"
  using readChunks_reads [of k buf p c] by simp

lemma ReadByte_reads: "conn_ReadByte c = (r, c') \<Longrightarrow> length (c_in c') \<le> length (c_in c)"
  by (auto simp: conn_ReadByte_def split: list.splits)

lemma readCompressed_reads:
  assumes "readCompressed f p c = Some (r, c')"
  shows "length (c_in c') \<le> length (c_in c)"
proof -
  obtain b c1 where b: "conn_ReadByte c = (b, c1)" by fastforce
  obtain h c2 where h: "conn_ReadByte c1 = (h, c2)" by fastforce
  obtain t te c3 where t: "conn_ReadString CHRNUL c2 = ((t, te), c3)" by (metis prod.exhaust)
  obtain u ue c4 where u: "conn_ReadString CHRNUL c3 = ((u, ue), c4)" by (metis prod.exhaust)
  note le = ReadByte_reads [OF b] ReadByte_reads [OF h] ReadString_reads' [OF t] ReadString_reads' [OF u]
  consider "c' = c1" | "c' = c2" | "c' = c3" | "c' = c4" | "length (c_in c') \<le> length (c_in c4)"
    | "length (c_in c') \<le> length (c_in c1)"
    using assms unfolding readCompressed_def b h t u
    by (auto simp: h t u Let_def nextLine_def bind_eq_Some_conv dest!: nextLineRemoteErr_reads readChunks_reads'
        split: sum.splits option.splits if_splits prod.splits)
  then show ?thesis using le by cases auto
qed

lemma receiveOne_reads: "receiveOne env h p s c m = Some (e, s', c', m') \<Longrightarrow> length (c_in c') \<le> length (c_in c)"
proof -
  assume *: "receiveOne env h p s c m = Some (e, s', c', m')"
  then obtain e1 p1 c1 where r: "readCompressed (e_fromCharset env) p c = Some ((e1, p1), c1)"
    by (auto simp: receiveOne_def bind_eq_Some_conv)
  have "c' = c1"
    using * r
    by (auto simp: receiveOne_def bind_eq_Some_conv split: if_splits prod.splits option.splits) (metis not_None_eq surj_pair)
  then show ?thesis using readCompressed_reads [OF r] by simp
qed

lemma receiveAll_reads: "receiveAll env h ps s c m = Some (e, s', c', m') \<Longrightarrow> length (c_in c') \<le> length (c_in c)"
proof (induction ps arbitrary: s c m)
  case (Cons p ps)
  show ?case
  proof (cases "p_answer p = Accept")
    case True
    then obtain e1 s1 c1 m1 where r: "receiveOne env h p (s\<lparr>s_remoteNoMsgs := False\<rparr>) c m = Some (e1, s1, c1, m1)"
      using Cons.prems by (auto simp: bind_eq_Some_conv)
    have "c' = c1 \<or> receiveAll env h ps s1 c1 m1 = Some (e, s', c', m')"
      using Cons.prems True r by (auto split: if_splits)
    then show ?thesis using receiveOne_reads [OF r] Cons.IH by fastforce
  qed (use Cons in simp)
qed simp

lemma inboundLoop_reads:
  "inboundLoop ask k ps c = Some (r, c') \<Longrightarrow> (\<And>q e. r \<noteq> LoopReturn q (Some e)) \<Longrightarrow> length (c_in c') < length (c_in c)"
proof (induction ask k ps c rule: inboundLoop.induct)
  case (1 ask k ps c)
  note step = 1(2) [unfolded inboundLoop.simps [of ask k ps c]]
  obtain line c1 where n: "nextLine c = Some ((line, None), c1)"
    using step 1(3) by (auto split: option.splits prod.splits)
  obtain t c2 where t: "inboundLine ask k ps line c1 = Some (t, c2)"
    using step n by (auto split: option.splits)
  have c2: "length (c_in c2) < length (c_in c)" using nextLine_consumes [OF n] inboundLine_reads [OF t] by simp
  show ?case
  proof (cases t)
    case (Continue k' ps')
    then have "inboundLoop ask k' ps' c2 = Some (r, c')" using step n t by simp
    then show ?thesis using 1(1) [OF n refl refl refl t [unfolded Continue] refl refl] 1(3) c2 by simp
  next
    case LoopEnd
    then show ?thesis using step n t c2 by simp
  qed
qed

lemma handleInbound_reads:
  assumes "handleInbound env h s c m = Some ((q, None), s', c', m')"
  shows "length (c_in c') < length (c_in c)"
proof -
  obtain r c1 where r: "inboundLoop (map_option (\<lambda>h p. GetInboundAnswer h p m) h) 0 [] c = Some (r, c1)"
    using assms by (auto simp: handleInbound_def bind_eq_Some_conv)
  show ?thesis
  proof (cases r)
    case (LoopReturn q' e)
    then have "c' = c1" "e = None" using assms r by (auto simp: handleInbound_def)
    then show ?thesis using inboundLoop_reads [OF r] LoopReturn by simp
  next
    case (LoopBreak q' ps n)
    then obtain e s1 where "receiveAll env h ps (s\<lparr>s_remoteNoMsgs := True\<rparr>) c1 m = Some (e, s1, c', m')"
      using assms r by (auto simp: handleInbound_def bind_eq_Some_conv split: if_splits)
    then show ?thesis using receiveAll_reads inboundLoop_reads [OF r] LoopBreak by fastforce
  qed
qed

text \<open>The turns. Every turn of the other side consumes input, so the exchange ends with the input at the latest.\<close>

function exchangeLoop ::
  "env \<Rightarrow> 'm MBoxHandler option \<Rightarrow> bool \<Rightarrow> Session \<Rightarrow> conn \<Rightarrow> 'm \<Rightarrow> (go_err option \<times> Session \<times> conn \<times> 'm) option" where
  "exchangeLoop env h myTurn s c m =
     (if Done s then Some (None, s, c, m)
      else if myTurn then
        (case handleOutbound env h s c m of
           None \<Rightarrow> None
         | Some ((quitSent, Some e), s, c, m) \<Rightarrow> Some (Some e, s\<lparr>s_quitSent := quitSent\<rparr>, c, m)
         | Some ((quitSent, None), s, c, m) \<Rightarrow> exchangeLoop env h False (s\<lparr>s_quitSent := quitSent\<rparr>) c m)
      else
        (case handleInbound env h s c m of
           None \<Rightarrow> None
         | Some ((quitReceived, Some e), s, c, m) \<Rightarrow> Some (Some e, s\<lparr>s_quitReceived := quitReceived\<rparr>, c, m)
         | Some ((quitReceived, None), s, c, m) \<Rightarrow> exchangeLoop env h True (s\<lparr>s_quitReceived := quitReceived\<rparr>) c m))"
  by pat_completeness auto
termination
  by (relation "measure (\<lambda>(env, h, t, s, c, m). 2 * length (c_in c) + (if t then 1 else 0))")
    (auto dest!: handleOutbound_reads handleInbound_reads)

declare exchangeLoop.simps [simp del]

definition Exchange ::
  "env \<Rightarrow> 'm MBoxHandler option \<Rightarrow> Session \<Rightarrow> conn \<Rightarrow> 'm \<Rightarrow> ((TrafficStats \<times> go_err option) \<times> Session \<times> conn \<times> 'm) option" where
  "Exchange env h s c m =
     (if Done s then Some ((\<lparr>Received = [], Sent = []\<rparr>, None), s, c, m)
      else
        let s = (if e_fwAuxOnly env \<and> 1 < length (s_localFW s) then s\<lparr>s_localFW := tl (s_localFW s)\<rparr> else s);
            none = \<lparr>Received = [], Sent = []\<rparr>
        in case (case h of None \<Rightarrow> (None, m) | Some h \<Rightarrow> Prepare h m) of
             (Some e, m) \<Rightarrow> (case finishExchange env (Some e) c of (e, c) \<Rightarrow> Some ((none, e), s, c, m))
           | (None, m) \<Rightarrow> do {
               let c = SetRobust (s_robustMode s \<noteq> RobustDisabled) c;
               ((e, s), c) \<leftarrow> handshake env s c;
               case e of
                 Some e \<Rightarrow> (case finishExchange env (Some e) (SetRobust False c) of (e, c) \<Rightarrow> Some ((none, e), s, c, m))
               | None \<Rightarrow> do {
                   (e, s, c, m) \<leftarrow> exchangeLoop env h (\<not> s_master s) s c m;
                   let (e, c) = (if e = None then (c_closeErr c, Close c) else (e, c));
                   case finishExchange env e (SetRobust False c) of (e, c) \<Rightarrow> Some ((s_trafficStats s, e), s, c, m)
                 }
             })"


section \<open>Failures\<close>

text \<open>What the answers to a block allow the mailbox to be told before the block is confirmed: that a message was deferred,
  if that was its answer, and that the other side has it already, if it was rejected.\<close>

inductive settles :: "'m MBoxHandler \<Rightarrow> Proposal list \<Rightarrow> 'm \<Rightarrow> 'm \<Rightarrow> bool" for h ps where
  settles_refl: "settles h ps m m"
| settles_deferred: "settles h ps m m' \<Longrightarrow> p \<in> set ps \<Longrightarrow> p_answer p = Defer \<Longrightarrow> SetDeferred h (p_mid p) m' = Some m'' \<Longrightarrow> settles h ps m m''"
| settles_rejected: "settles h ps m m' \<Longrightarrow> p \<in> set ps \<Longrightarrow> p_answer p = Reject \<Longrightarrow> SetSent h (p_mid p) True m' = Some m'' \<Longrightarrow> settles h ps m m''"

lemma settles_trans: "settles h ps m' m'' \<Longrightarrow> settles h ps m m' \<Longrightarrow> settles h ps m m''"
  by (induction rule: settles.induct) (auto intro: settles.intros)

text \<open>A line that the other side sent, as \<open>cleanString\<close> leaves it.\<close>

definition line_of :: "string \<Rightarrow> string \<Rightarrow> bool" where
  "line_of input l \<longleftrightarrow> (\<exists>raw. sublist raw input \<and> cleanString raw = Some l)"

text \<open>A mailbox \<open>m'\<close> that comes from \<open>m\<close> by what the answers in \<open>input\<close> to the blocks proposed from it allow.\<close>

inductive answeredBy :: "env \<Rightarrow> 'm MBoxHandler \<Rightarrow> Session \<Rightarrow> string \<Rightarrow> 'm \<Rightarrow> 'm \<Rightarrow> bool" for env h s input where
  answeredBy_refl: "answeredBy env h s input m m"
| answeredBy_block: "answeredBy env h s input m m' \<Longrightarrow> outbound env (Some h) s m' = Some props \<Longrightarrow> line_of input l \<Longrightarrow>
    parseProposalAnswer l (take MaxBlockSize props) = (None, ps) \<Longrightarrow> settles h ps m' m'' \<Longrightarrow> answeredBy env h s input m m''"

lemma answeredBy_mono: "answeredBy env h s i m m' \<Longrightarrow> suffix i input \<Longrightarrow> answeredBy env h s input m m'"
proof (induction rule: answeredBy.induct)
  case (answeredBy_block m m' props l ps m'')
  have "line_of input l" using answeredBy_block.hyps(3) answeredBy_block.prems unfolding line_of_def
    by (meson sublist_order.order_trans suffix_imp_sublist)
  then show ?case using answeredBy_block answeredBy.answeredBy_block by metis
qed (rule answeredBy_refl)

lemma answeredBy_trans: "answeredBy env h s input m' m'' \<Longrightarrow> answeredBy env h s input m m' \<Longrightarrow> answeredBy env h s input m m''"
  by (induction rule: answeredBy.induct) (auto intro: answeredBy.intros)

lemma suffix_dropWhile': "dropWhile P xs = d # rest \<Longrightarrow> suffix rest xs"
  by (metis suffix_dropWhile suffix_ConsD)

lemma nextLine_line: "nextLine c = Some ((l, None), c') \<Longrightarrow> line_of (c_in c) l \<and> suffix (c_in c') (c_in c)"
proof -
  assume n: "nextLine c = Some ((l, None), c')"
  show ?thesis
  proof (cases "dropWhile (\<lambda>b. b \<noteq> CR) (c_in c)")
    case Nil
    have "conn_ReadString CR c = ((c_in c, Some (c_end c)), c\<lparr>c_in := []\<rparr>)" unfolding conn_ReadString_def by (simp only: Nil list.case)
    then show ?thesis using n by (simp add: nextLine_def nextLineRemoteErr_def)
  next
    case (Cons d rest)
    let ?raw = "takeWhile (\<lambda>b. b \<noteq> CR) (c_in c) @ [d]"
    have r: "conn_ReadString CR c = ((?raw, None), c\<lparr>c_in := rest\<rparr>)" by (simp add: conn_ReadString_def Cons)
    have "cleanString ?raw = Some l" "c' = c\<lparr>c_in := rest\<rparr>"
      using n by (auto simp: nextLine_def nextLineRemoteErr_def r bind_eq_Some_conv split: option.splits)
    moreover have "c_in c = ?raw @ rest" using takeWhile_dropWhile_id [of "\<lambda>b. b \<noteq> CR" "c_in c"] Cons by simp
    then have "sublist ?raw (c_in c)" by (metis append_Nil sublist_appendI)
    ultimately show ?thesis using suffix_dropWhile' [OF Cons] by (auto simp: line_of_def)
  qed
qed

lemma line_of_suffix: "line_of i l \<Longrightarrow> suffix i input \<Longrightarrow> line_of input l"
  unfolding line_of_def by (meson sublist_order.order_trans suffix_imp_sublist)

lemma awaitAnswer_from: "awaitAnswer c = Some (Inr l, c') \<Longrightarrow> line_of (c_in c) l \<and> suffix (c_in c') (c_in c)"
proof (induction c rule: awaitAnswer.induct)
  case (1 c)
  from 1(2) obtain line c1 where n: "nextLine c = Some ((line, None), c1)"
    by (subst (asm) awaitAnswer.simps) (auto split: option.splits prod.splits)
  note nl = nextLine_line [OF n]
  show ?case
  proof (cases "HasPrefix line ''FS ''")
    case True
    then have "l = line" "c' = c1" using 1(2) n by (simp_all add: awaitAnswer.simps [of c])
    then show ?thesis using nl by simp
  next
    case False
    then have "HasPrefix line '';''" "awaitAnswer c1 = Some (Inr l, c')"
      using 1(2) n by (subst (asm) awaitAnswer.simps, simp split: if_splits)+
    then have "line_of (c_in c1) l \<and> suffix (c_in c') (c_in c1)" by (rule 1(1) [OF n refl refl refl False])
    then show ?thesis using nl line_of_suffix suffix_order.order_trans by blast
  qed
qed

lemma sent_entries: "x \<in> set (AList.update k v al) \<Longrightarrow> x = (k, v) \<or> x \<in> set al"
  by (induction al) (auto split: if_splits)

lemma deliver_answered:
  "deliver h qs sent c m = Some ((sent', r), c', m') \<Longrightarrow> set qs \<subseteq> set ps \<Longrightarrow>
   (\<forall>(mid, rej) \<in> set sent. rej \<longrightarrow> (\<exists>p \<in> set ps. p_mid p = mid \<and> p_answer p = Reject)) \<Longrightarrow>
   settles h ps m m' \<and> (\<forall>(mid, rej) \<in> set sent'. rej \<longrightarrow> (\<exists>p \<in> set ps. p_mid p = mid \<and> p_answer p = Reject))"
proof (induction qs arbitrary: sent c m)
  case Nil
  then show ?case by (auto intro: settles_refl)
next
  case (Cons p qs)
  have p: "p \<in> set ps" and qs: "set qs \<subseteq> set ps" using Cons.prems(2) by auto
  consider (def) "p_answer p = Defer" | (rej) "p_answer p = Reject" "p_answer p \<noteq> Defer"
    | (acc) "p_answer p = Accept" "p_answer p \<noteq> Defer" "p_answer p \<noteq> Reject" | (other) "p_answer p \<notin> {Defer, Reject, Accept}" by blast
  then show ?case
  proof cases
    case def
    then obtain m1 where m1: "SetDeferred h (p_mid p) m = Some m1" "deliver h qs sent c m1 = Some ((sent', r), c', m')"
      using Cons.prems(1) by (auto simp: bind_eq_Some_conv)
    have "settles h ps m m1" by (rule settles_deferred [OF settles_refl p def m1(1)])
    then show ?thesis using Cons.IH [OF m1(2) qs Cons.prems(3)] settles_trans [of h ps m1 m' m] by simp
  next
    case rej
    have d: "deliver h qs (AList.update (p_mid p) True sent) c m = Some ((sent', r), c', m')" using Cons.prems(1) rej by simp
    show ?thesis by (rule Cons.IH [OF d qs]) (use Cons.prems(3) p rej in \<open>auto dest!: sent_entries\<close>)
  next
    case acc
    then obtain e c1 where w: "writeCompressed p c = Some (e, c1)" using Cons.prems(1) by (auto simp: bind_eq_Some_conv)
    show ?thesis
    proof (cases e)
      case None
      then have d: "deliver h qs (AList.update (p_mid p) False sent) c1 m = Some ((sent', r), c', m')" using Cons.prems(1) acc w by simp
      show ?thesis by (rule Cons.IH [OF d qs]) (use Cons.prems(3) in \<open>auto dest!: sent_entries\<close>)
    next
      case (Some x)
      then have "sent' = sent" "m' = m" using Cons.prems(1) acc w by simp_all
      then show ?thesis using Cons.prems(3) settles_refl [of h ps m] by simp
    qed
  next
    case other
    then show ?thesis using Cons.IH [OF _ qs Cons.prems(3)] Cons.prems(1) by simp
  qed
qed

lemma setAllSent_answered:
  "setAllSent h sent m = Some m' \<Longrightarrow> (\<forall>(mid, rej) \<in> set sent. rej \<and> (\<exists>p \<in> set ps. p_mid p = mid \<and> p_answer p = Reject)) \<Longrightarrow> settles h ps m m'"
proof (induction h sent m rule: setAllSent.induct)
  case (2 h mid rej sent m)
  then obtain p where p: "rej" "p \<in> set ps" "mid = p_mid p" "p_answer p = Reject" by auto
  then obtain m1 where m1: "SetSent h (p_mid p) True m = Some m1" "setAllSent h sent m1 = Some m'" using 2(2) by (auto simp: bind_eq_Some_conv)
  have "settles h ps m1 m'" by (rule 2(1) [OF _ m1(2)]) (use 2(3) m1(1) p in auto)
  then show ?case by (rule settles_trans [OF _ settles_rejected [OF settles_refl p(2,4) m1(1)]])
qed (simp add: settles_refl)

text \<open>A block: its answers, if they were read, and what was done with them.\<close>

lemma sendOutbound_answeredBy:
  assumes "sendOutbound env h s c m = Some ((sent, r), c', m')"
  shows "suffix (c_in c') (c_in c) \<or> r \<noteq> None"
    and "answeredBy env h s (c_in c) m m'"
    and "r = None \<Longrightarrow> setAllSent h (filter snd sent) m' = Some m2 \<Longrightarrow> answeredBy env h s (c_in c) m m2"
proof -
  obtain props reply c1 where a: "outbound env (Some h) s m = Some props"
      "awaitAnswer (sendBlock (take MaxBlockSize props) c) = Some (reply, c1)"
    using assms by (auto simp: sendOutbound_def bind_eq_Some_conv Let_def)
  have "(suffix (c_in c') (c_in c) \<or> r \<noteq> None) \<and> answeredBy env h s (c_in c) m m' \<and>
    (r = None \<longrightarrow> setAllSent h (filter snd sent) m' = Some m2 \<longrightarrow> answeredBy env h s (c_in c) m m2)"
  proof (cases reply)
    case (Inl e)
    then show ?thesis using assms a answeredBy_refl by (auto simp: sendOutbound_def)
  next
    case (Inr l)
    have l: "line_of (c_in c) l" "suffix (c_in c1) (c_in c)" using awaitAnswer_from [of "sendBlock (take MaxBlockSize props) c"] a(2) Inr by simp_all
    obtain e ps where p: "parseProposalAnswer l (take MaxBlockSize props) = (e, ps)" by fastforce
    show ?thesis
    proof (cases "e = None \<and> ps \<noteq> []")
      case False
      then show ?thesis using assms a Inr p l answeredBy_refl by (cases e) (auto simp: sendOutbound_def Let_def)
    next
      case True
      define auto where "auto \<longleftrightarrow> c_robust c1 \<noteq> None \<and> s_robustMode s = RobustAuto"
      obtain c2 where d: "deliver h ps [] (if auto then SetRobust False c1 else c1) m = Some ((sent, r), c2, m')" "c_in c' = c_in c2"
        using assms a Inr p True by (auto simp: sendOutbound_def bind_eq_Some_conv Let_def auto_def split: if_splits)
      note ds = deliver_answered [OF d(1) subset_refl, simplified]
      have b: "answeredBy env h s (c_in c) m m''" if "settles h ps m m''" for m''
        by (rule answeredBy_block [OF answeredBy_refl a(1) l(1) _ that]) (use p True in simp)
      have "settles h ps m' m2" if "setAllSent h (filter snd sent) m' = Some m2"
        by (rule setAllSent_answered [OF that]) (use ds in fastforce)
      then have "answeredBy env h s (c_in c) m m2" if "setAllSent h (filter snd sent) m' = Some m2" using that ds b settles_trans by meson
      then show ?thesis using ds b deliver_reads [OF d(1)] d(2) l(2) by (auto split: if_splits)
    qed
  qed
  then show "suffix (c_in c') (c_in c) \<or> r \<noteq> None" "answeredBy env h s (c_in c) m m'"
    "r = None \<Longrightarrow> setAllSent h (filter snd sent) m' = Some m2 \<Longrightarrow> answeredBy env h s (c_in c) m m2" by blast+
qed

lemma confirmSent_error: "confirmSent h sent s c m = Some ((q, Some e), s', c', m') \<Longrightarrow> s' = s \<and> m' = m"
  by (auto simp: confirmSent_def Let_def bind_eq_Some_conv split: sum.splits if_splits option.splits)

lemma handleOutbound_error:
  "handleOutbound env h' s c m = Some ((q, Some e), s', c', m') \<Longrightarrow> h' = Some h \<Longrightarrow> s' = s \<and> answeredBy env h s (c_in c) m m'"
proof (induction env h' s c m rule: handleOutbound.induct)
  case (1 env h' s c m)
  have "handleOutbound env (Some h) s c m = Some ((q, Some e), s', c', m')" using 1(2,3) by simp
  note step = this [unfolded handleOutbound.simps [of env "Some h" s c m] Let_def option.case]
  obtain props sent r c1 m1 where a: "outbound env (Some h) s m = Some props"
      "(if props \<noteq> [] then sendOutbound env h s c m else Some (([], None), c, m)) = Some ((sent, r), c1, m1)"
    using step by (auto split: option.splits)
  have q1: "answeredBy env h s (c_in c) m m1" and sf: "suffix (c_in c1) (c_in c) \<or> r \<noteq> None"
    using a(2) sendOutbound_answeredBy(1,2) [of env h s c m sent r c1 m1] answeredBy_refl by (auto split: if_splits)
  show ?case
  proof (cases r)
    case (Some e')
    then show ?thesis using step a q1 by (auto split: option.splits if_splits)
  next
    case None
    then obtain m2 props' where b: "setAllSent h (filter snd sent) m1 = Some m2" "outbound env (Some h) s m2 = Some props'"
      using step a by (auto split: option.splits)
    have q2: "answeredBy env h s (c_in c) m m2"
      using a(2) sendOutbound_answeredBy(3) [OF _ None b(1)] b(1) answeredBy_refl by (cases "props = []") auto
    let ?sent = "filter (\<lambda>(mid, rej). \<not> rej) sent"
    show ?thesis
    proof (cases "?sent = [] \<and> props' \<noteq> []")
      case True
      then have "handleOutbound env (Some h) s c1 m2 = Some ((q, Some e), s', c', m')" using step a b None by simp
      then have h0: "handleOutbound env h' s c1 m2 = Some ((q, Some e), s', c', m')" using 1(3) by simp
      have h1: "outbound env h' s m = Some props" and
        h2: "(case h' of Some h \<Rightarrow> if props \<noteq> [] then sendOutbound env h s c m else Some (([], None), c, m)
          | None \<Rightarrow> Some (([], None), c, m)) = Some ((sent, None), c1, m1)" and
        h3: "(case h' of None \<Rightarrow> Some m1 | Some h \<Rightarrow> setAllSent h (filter snd sent) m1) = Some m2" and
        h4: "outbound env h' s m2 = Some props'"
        using 1(3) a b None by simp_all
      have "s' = s \<and> answeredBy env h s (c_in c1) m2 m'"
        by (rule 1(1) [OF h1 h2 refl refl refl refl h3 refl h4 True h0 1(3)])
      moreover have "suffix (c_in c1) (c_in c)" using sf None by simp
      ultimately show ?thesis using answeredBy_trans [OF answeredBy_mono q2] by blast
    next
      case False
      then have "confirmSent (Some h) ?sent s c1 m2 = Some ((q, Some e), s', c', m')" using step a b None by (auto split: if_splits)
      then show ?thesis using confirmSent_error [of "Some h" ?sent s c1 m2] q2 by simp
    qed
  qed
qed


text \<open>A mailbox that has nothing to send and takes nothing.\<close>

definition idle_handler :: "unit MBoxHandler" where
  "idle_handler = \<lparr>Prepare = (\<lambda>m. (None, m)), GetOutbound = (\<lambda>fw m. Some []), SetSent = (\<lambda>mid rej m. Some m),
     SetDeferred = (\<lambda>mid m. Some m), ProcessInbound = (\<lambda>msg m. (None, m)), GetInboundAnswer = (\<lambda>p m. Defer)\<rparr>"

end
