(* ===== verification/Lzhuf_Links.thy ===== *)
theory Lzhuf_Links
  imports Lzhuf_Codec
begin

unbundle bit_operations_syntax

text \<open>
  The search trees of the dictionary (\<^verbatim>\<open>src/lzhuf/lzhuf.go\<close>). The arrays \<open>dad\<close>, \<open>lson\<close> and \<open>rson\<close> are a
  forest of binary trees, one for every first byte. The slots in the trees, their colour (the first byte) and a rank that
  grows from a node to its sons describe it. \<open>InsertNode\<close>, \<open>DeleteNode\<close> and \<open>InitTree\<close> keep it a forest, so their loops
  end and no index is out of range, and the match that \<open>InsertNode\<close> leaves is a real one.
\<close>

section \<open>Forests of slots\<close>

text \<open>A slot is a place for a son: a node and a side, \<open>True\<close> for the right one. The roots have right slots only.
  \<open>S\<close> gives the content of a slot, \<open>\<sigma>\<close> the slot of a node, \<open>V\<close> are the nodes. \<open>col\<close> names the tree of a
  node, \<open>rk\<close> grows on the way down.\<close>

definition valid_slot :: "nat set \<Rightarrow> nat \<times> bool \<Rightarrow> bool" where
  "valid_slot V s \<longleftrightarrow> fst s \<in> V \<or> (\<exists>c<256. s = (lz_N + 1 + c, True))"

definition forest :: "(nat \<times> bool \<Rightarrow> nat) \<Rightarrow> (nat \<Rightarrow> nat \<times> bool) \<Rightarrow> nat set \<Rightarrow> (nat \<Rightarrow> nat) \<Rightarrow> (nat \<Rightarrow> nat) \<Rightarrow> bool" where
  "forest S \<sigma> V col rk \<longleftrightarrow> V \<subseteq> {..<lz_N} \<and>
     (\<forall>a \<in> V. S (\<sigma> a) = a \<and> valid_slot V (\<sigma> a) \<and>
        (if fst (\<sigma> a) \<in> V then col (fst (\<sigma> a)) = col a \<and> rk (fst (\<sigma> a)) < rk a else fst (\<sigma> a) = lz_N + 1 + col a)) \<and>
     (\<forall>s. valid_slot V s \<longrightarrow> S s = lz_NIL \<or> S s \<in> V \<and> \<sigma> (S s) = s)"

lemma forestD:
  assumes "forest S \<sigma> V col rk"
  shows "V \<subseteq> {..<lz_N}" "a \<in> V \<Longrightarrow> S (\<sigma> a) = a" "a \<in> V \<Longrightarrow> valid_slot V (\<sigma> a)"
    "a \<in> V \<Longrightarrow> fst (\<sigma> a) \<in> V \<Longrightarrow> col (fst (\<sigma> a)) = col a" "a \<in> V \<Longrightarrow> fst (\<sigma> a) \<in> V \<Longrightarrow> rk (fst (\<sigma> a)) < rk a"
    "a \<in> V \<Longrightarrow> fst (\<sigma> a) \<notin> V \<Longrightarrow> fst (\<sigma> a) = lz_N + 1 + col a"
    "valid_slot V s \<Longrightarrow> S s \<noteq> lz_NIL \<Longrightarrow> S s \<in> V" "valid_slot V s \<Longrightarrow> S s \<noteq> lz_NIL \<Longrightarrow> \<sigma> (S s) = s"
    "lz_NIL \<notin> V"
  using assms by (auto simp: forest_def lz_consts simp del: split_paired_All)

lemma forestI:
  assumes "V \<subseteq> {..<lz_N}" "\<And>a. a \<in> V \<Longrightarrow> S (\<sigma> a) = a" "\<And>a. a \<in> V \<Longrightarrow> valid_slot V (\<sigma> a)"
    "\<And>a. a \<in> V \<Longrightarrow> fst (\<sigma> a) \<in> V \<Longrightarrow> col (fst (\<sigma> a)) = col a \<and> rk (fst (\<sigma> a)) < rk a"
    "\<And>a. a \<in> V \<Longrightarrow> fst (\<sigma> a) \<notin> V \<Longrightarrow> fst (\<sigma> a) = lz_N + 1 + col a"
    "\<And>s. valid_slot V s \<Longrightarrow> S s \<noteq> lz_NIL \<Longrightarrow> S s \<in> V \<and> \<sigma> (S s) = s"
  shows "forest S \<sigma> V col rk"
  using assms by (auto simp: forest_def simp del: split_paired_All)

lemma forest_inj: "forest S \<sigma> V col rk \<Longrightarrow> a \<in> V \<Longrightarrow> b \<in> V \<Longrightarrow> \<sigma> a = \<sigma> b \<longleftrightarrow> a = b"
  by (metis forestD(2))

lemma valid_son: "p \<in> V \<Longrightarrow> valid_slot V (p, b)"
  by (simp add: valid_slot_def)

lemma forest_cong:
  assumes f: "forest S \<sigma> V col rk" and e: "\<And>s. valid_slot V s \<Longrightarrow> S' s = S s" "\<And>a. a \<in> V \<Longrightarrow> \<sigma>' a = \<sigma> a"
    "\<And>a. a \<in> V \<Longrightarrow> col' a = col a" "\<And>a. a \<in> V \<Longrightarrow> rk' a = rk a"
  shows "forest S' \<sigma>' V col' rk'"
proof (rule forestI)
  show "V \<subseteq> {..<lz_N}" by (rule forestD [OF f])
  fix a assume a: "a \<in> V"
  show "S' (\<sigma>' a) = a" using a e forestD(2,3) [OF f a] by simp
  show "valid_slot V (\<sigma>' a)" using a e forestD(3) [OF f a] by simp
  show "fst (\<sigma>' a) \<in> V \<Longrightarrow> col' (fst (\<sigma>' a)) = col' a \<and> rk' (fst (\<sigma>' a)) < rk' a"
    using a e forestD(4,5) [OF f a] by simp
  show "fst (\<sigma>' a) \<notin> V \<Longrightarrow> fst (\<sigma>' a) = lz_N + 1 + col' a" using a e forestD(6) [OF f a] by simp
next
  fix s assume "valid_slot V s" "S' s \<noteq> lz_NIL"
  then show "S' s \<in> V \<and> \<sigma>' (S' s) = s" using e forestD(7,8) [OF f, of s] by simp
qed

text \<open>A new node in a free slot.\<close>

lemma forest_attach:
  assumes f: "forest S \<sigma> V col rk" and s: "valid_slot V s" "S s = lz_NIL" and r: "r \<notin> V" "r < lz_N" "S (r, False) = lz_NIL" "S (r, True) = lz_NIL"
    and c: "if fst s \<in> V then col (fst s) = col r else fst s = lz_N + 1 + col r"
  shows "forest (S(s := r)) (\<sigma>(r := s)) (insert r V) col (rk(r := if fst s \<in> V then rk (fst s) + 1 else 0))"
proof (rule forestI)
  note fD = forestD [OF f]
  have s': "\<sigma> a \<noteq> s" if "a \<in> V" for a using fD(2) [OF that] fD(9) s(2) that by metis
  have rs: "fst s \<noteq> r" using s(1) r by (auto simp: valid_slot_def)
  have vs: "valid_slot V t \<Longrightarrow> fst t \<noteq> r" for t using r by (auto simp: valid_slot_def)
  show "insert r V \<subseteq> {..<lz_N}" using fD(1) r(2) by auto
  fix a assume a: "a \<in> insert r V"
  show "(S(s := r)) ((\<sigma>(r := s)) a) = a" using a fD(2) s' by auto
  show "valid_slot (insert r V) ((\<sigma>(r := s)) a)" using a fD(3) s(1) by (auto simp: valid_slot_def)
  show "fst ((\<sigma>(r := s)) a) \<in> insert r V \<Longrightarrow>
    col (fst ((\<sigma>(r := s)) a)) = col a \<and> (rk(r := if fst s \<in> V then rk (fst s) + 1 else 0)) (fst ((\<sigma>(r := s)) a)) < (rk(r := if fst s \<in> V then rk (fst s) + 1 else 0)) a"
    using a c rs fD(4,5) [of a] vs [OF fD(3), of a] by (auto split: if_splits)
  show "fst ((\<sigma>(r := s)) a) \<notin> insert r V \<Longrightarrow> fst ((\<sigma>(r := s)) a) = lz_N + 1 + col a"
    using a c fD(6) [of a] by (auto split: if_splits)
next
  fix t assume t: "valid_slot (insert r V) t" "(S(s := r)) t \<noteq> lz_NIL"
  note fD = forestD [OF f]
  show "(S(s := r)) t \<in> insert r V \<and> (\<sigma>(r := s)) ((S(s := r)) t) = t"
  proof (cases "t = s")
    case False
    then have "fst t \<noteq> r" using t r(3,4) by (cases t; cases "snd t") auto
    then have "valid_slot V t" using t(1) by (auto simp: valid_slot_def)
    then show ?thesis using fD(7,8) [of t] t(2) False r(1) by auto
  qed simp
qed

text \<open>A node with at most one son is taken out; the son gets its slot.\<close>

lemma forest_remove:
  assumes f: "forest S \<sigma> V col rk" and p: "p \<in> V" "S (p, b) = lz_NIL" and q: "q = S (p, \<not> b)"
  shows "forest (S(\<sigma> p := q)) (\<sigma>(q := \<sigma> p)) (V - {p}) col rk"
proof (rule forestI)
  note fD = forestD [OF f]
  have qV: "q \<in> V \<Longrightarrow> \<sigma> q = (p, \<not> b)" using fD(9) fD(7,8) [of "(p, \<not> b)"] valid_son [OF p(1)] q by (cases "q = lz_NIL") auto
  have sons: "a = q" if "a \<in> V" "fst (\<sigma> a) = p" for a
    using fD(2) [OF that(1)] that p(2) q fD(9) by (cases "\<sigma> a"; cases "snd (\<sigma> a) = b") auto
  have pp: "fst (\<sigma> p) \<noteq> p" using fD(5) [OF p(1)] p(1) by auto
  have up: "valid_slot (V - {p}) (\<sigma> p)" using fD(3) [OF p(1)] pp by (auto simp: valid_slot_def)
  show "V - {p} \<subseteq> {..<lz_N}" using fD(1) by auto
  fix a assume a: "a \<in> V - {p}"
  have ap: "\<sigma> a \<noteq> \<sigma> p" using a p(1) forest_inj [OF f] by auto
  show "(S(\<sigma> p := q)) ((\<sigma>(q := \<sigma> p)) a) = a" using a fD(2) [of a] ap by auto
  show "valid_slot (V - {p}) ((\<sigma>(q := \<sigma> p)) a)"
    using a up fD(3) [of a] sons [of a] by (auto simp: valid_slot_def)
  show "fst ((\<sigma>(q := \<sigma> p)) a) \<in> V - {p} \<Longrightarrow> col (fst ((\<sigma>(q := \<sigma> p)) a)) = col a \<and> rk (fst ((\<sigma>(q := \<sigma> p)) a)) < rk a"
    using a p(1) qV fD(4,5) [of a] fD(4,5) [of p] by (cases "a = q") auto
  show "fst ((\<sigma>(q := \<sigma> p)) a) \<notin> V - {p} \<Longrightarrow> fst ((\<sigma>(q := \<sigma> p)) a) = lz_N + 1 + col a"
  proof (cases "a = q")
    case True
    then have "\<sigma> a = (p, \<not> b)" using qV a by auto
    then have "col p = col a" using fD(4) [of a] a p(1) by auto
    then show "fst ((\<sigma>(q := \<sigma> p)) a) \<notin> V - {p} \<Longrightarrow> ?thesis" using True pp fD(6) [OF p(1)] by auto
  next
    case False
    then have "fst (\<sigma> a) \<noteq> p" using sons [of a] a by auto
    then show "fst ((\<sigma>(q := \<sigma> p)) a) \<notin> V - {p} \<Longrightarrow> ?thesis" using False fD(6) [of a] a by auto
  qed
next
  note fD = forestD [OF f]
  fix t assume t: "valid_slot (V - {p}) t" "(S(\<sigma> p := q)) t \<noteq> lz_NIL"
  have qV: "q \<noteq> lz_NIL \<Longrightarrow> q \<in> V \<and> \<sigma> q = (p, \<not> b)" using fD(7,8) [of "(p, \<not> b)"] valid_son [OF p(1)] q by auto
  have "p \<noteq> q" using fD(5) [OF p(1)] qV p(1) fD(1) by (auto simp: lz_consts)
  have v: "valid_slot V t" "fst t \<noteq> p" using t(1) p(1) fD(1) by (auto simp: valid_slot_def)
  show "(S(\<sigma> p := q)) t \<in> V - {p} \<and> (\<sigma>(q := \<sigma> p)) ((S(\<sigma> p := q)) t) = t"
  proof (cases "t = \<sigma> p")
    case True
    then show ?thesis using t(2) qV \<open>p \<noteq> q\<close> by simp
  next
    case False
    then have "S t \<in> V" "\<sigma> (S t) = t" using fD(7,8) [OF v(1)] t(2) by auto
    moreover have "S t \<noteq> q" using calculation qV fD(9) v(2) by (metis fst_conv)
    ultimately show ?thesis using False v(2) by auto
  qed
qed

text \<open>A node takes the place of another one.\<close>

lemma forest_replace:
  assumes f: "forest S \<sigma> V col rk" and p: "p \<in> V" and r: "r \<notin> V" "r < lz_N" "col r = col p"
  shows "forest (S((r, False) := S (p, False), (r, True) := S (p, True), \<sigma> p := r))
    (\<sigma>(S (p, False) := (r, False), S (p, True) := (r, True), r := \<sigma> p)) (insert r (V - {p})) col (rk(r := rk p))"
    (is "forest ?S ?\<sigma> ?V col ?rk")
proof (rule forestI)
  note fD = forestD [OF f]
  have pp: "fst (\<sigma> p) \<noteq> p" using fD(5) [OF p] p by auto
  have vr: "valid_slot V t \<Longrightarrow> fst t \<noteq> r" for t using r by (auto simp: valid_slot_def)
  have sp: "\<sigma> p \<noteq> (r, b)" for b using vr [OF fD(3) [OF p]] by auto
  have up: "valid_slot ?V (\<sigma> p)" using fD(3) [OF p] pp by (auto simp: valid_slot_def)
  have son: "S (p, b) \<in> V \<Longrightarrow> \<sigma> (S (p, b)) = (p, b)" for b using fD(9) fD(8) [of "(p, b)"] valid_son [OF p] by metis
  have sonp: "S (p, b) \<noteq> p" for b using son [of b] pp p by (metis fst_conv)
  have sonr: "S (p, b) \<noteq> r" for b using fD(7) [OF valid_son [OF p], of b] r by (auto simp: lz_consts)
  have two: "S (p, False) \<in> V \<Longrightarrow> S (p, True) \<noteq> S (p, False)" using son [of False] son [of True] by auto
  have sons: "a = S (p, snd (\<sigma> a))" if "a \<in> V" "fst (\<sigma> a) = p" for a using fD(2) [OF that(1)] that by (cases "\<sigma> a") auto
  have sig: "?\<sigma> a = (if a = r then \<sigma> p else if fst (\<sigma> a) = p then (r, snd (\<sigma> a)) else \<sigma> a)" if "a \<in> ?V" for a
    using that sons [of a] son [of False] son [of True] two sonr by (cases "snd (\<sigma> a)") (auto simp: fun_upd_def)
  have SV: "?S t = (if t = \<sigma> p then r else if fst t = r then S (p, snd t) else S t)" for t
    by (cases t; cases "snd t") (use sp in auto)
  show "?V \<subseteq> {..<lz_N}" using fD(1) r(2) by auto
  fix a assume a: "a \<in> ?V"
  have ap: "\<sigma> a \<noteq> \<sigma> p" if "a \<noteq> r" using a p that forest_inj [OF f] by auto
  show "?S (?\<sigma> a) = a" unfolding sig [OF a] SV using a ap sons [of a] fD(2) [of a] vr [OF fD(3), of a] sp sp [symmetric] by auto
  show "valid_slot ?V (?\<sigma> a)" unfolding sig [OF a] using a up fD(3) [of a] by (auto simp: valid_slot_def)
  show "fst (?\<sigma> a) \<in> ?V \<Longrightarrow> col (fst (?\<sigma> a)) = col a \<and> ?rk (fst (?\<sigma> a)) < ?rk a"
    unfolding sig [OF a] using a p r fD(4,5) [of a] fD(4,5) [of p] vr [OF fD(3), of a] vr [OF fD(3) [OF p]]
    by (auto split: if_splits)
  show "fst (?\<sigma> a) \<notin> ?V \<Longrightarrow> fst (?\<sigma> a) = lz_N + 1 + col a"
    unfolding sig [OF a] using a p r pp fD(6) [of a] fD(6) [of p] by (auto split: if_splits)
next
  note fD = forestD [OF f]
  have pp: "fst (\<sigma> p) \<noteq> p" using fD(5) [OF p] p by auto
  have vr: "valid_slot V t \<Longrightarrow> fst t \<noteq> r" for t using r by (auto simp: valid_slot_def)
  have sp: "\<sigma> p \<noteq> (r, b)" for b using vr [OF fD(3) [OF p]] by auto
  have SV: "?S t = (if t = \<sigma> p then r else if fst t = r then S (p, snd t) else S t)" for t
    by (cases t; cases "snd t") (use sp in auto)
  have son: "S (p, b) \<in> V \<Longrightarrow> \<sigma> (S (p, b)) = (p, b)" for b using fD(9) fD(8) [of "(p, b)"] valid_son [OF p] by metis
  have sonp: "S (p, b) \<noteq> p" for b using son [of b] pp p by (metis fst_conv)
  have sonr: "S (p, b) \<noteq> r" for b using fD(7) [OF valid_son [OF p], of b] r by (auto simp: lz_consts)
  have two: "S (p, False) \<in> V \<Longrightarrow> S (p, True) \<noteq> S (p, False)" using son [of False] son [of True] by auto
  fix t assume t: "valid_slot ?V t" "?S t \<noteq> lz_NIL"
  consider "t = \<sigma> p" | b where "t = (r, b)" | "valid_slot V t" "fst t \<noteq> p" "t \<noteq> \<sigma> p" "fst t \<noteq> r"
  proof (cases "t = \<sigma> p \<or> fst t = r")
    case False
    moreover have "p < lz_N" using p fD(1) by auto
    ultimately have "valid_slot V t" "fst t \<noteq> p" using t(1) by (auto simp: valid_slot_def)
    then show ?thesis using False that(3) by simp
  qed (use that(1,2) in \<open>auto simp: prod_eq_iff\<close>)
  then show "?S t \<in> ?V \<and> ?\<sigma> (?S t) = t"
  proof cases
    case 1
    then show ?thesis unfolding SV by simp
  next
    case (2 b)
    then have "S (p, b) \<in> V" using t(2) sp fD(7) [OF valid_son [OF p]] unfolding SV by (metis fst_conv snd_conv)
    then show ?thesis using 2 sp sp [symmetric] son sonp sonr two unfolding SV by (cases b) auto
  next
    case 3
    then have v: "S t \<in> V" "\<sigma> (S t) = t" using t(2) fD(7,8) [of t] unfolding SV by auto
    have n: "S t \<noteq> p" "S t \<noteq> r" using v 3 r by auto
    have "S t \<noteq> S (p, b)" for b using v 3 son by (metis fst_conv)
    from this [of True] this [of False] n show ?thesis using 3 v unfolding SV by auto
  qed
qed

section \<open>The links of the dictionary\<close>

definition sons :: "lzhuf \<Rightarrow> nat \<times> bool \<Rightarrow> nat" where
  "sons z s = (if snd s then rson z ! fst s else lson z ! fst s)"

definition dict_wf :: "lzhuf \<Rightarrow> bool" where
  "dict_wf z \<longleftrightarrow> length (dad z) = lz_N + 1 \<and> length (lson z) = lz_N + 1 \<and> length (rson z) = lz_N + 257"

text \<open>Only the links have changed.\<close>

definition relinked :: "lzhuf \<Rightarrow> lzhuf \<Rightarrow> bool" where
  "relinked z z' \<longleftrightarrow> freq z' = freq z \<and> prnt z' = prnt z \<and> son z' = son z \<and> textBuf z' = textBuf z \<and>
     matchLength z' = matchLength z \<and> matchPosition z' = matchPosition z \<and> dict_wf z'"

lemma relinked_trans: "relinked z1 z2 \<Longrightarrow> relinked z2 z3 \<Longrightarrow> relinked z1 z3"
  by (simp add: relinked_def)

lemma relinked_wf: "relinked z z' \<Longrightarrow> dict_wf z'"
  by (simp add: relinked_def)

lemma nth_update_fun: "i < length xs \<Longrightarrow> (!) (xs[i := v]) = ((!) xs)(i := v)"
  by (auto simp: fun_eq_iff)

lemma relinked_refl: "dict_wf z \<Longrightarrow> relinked z z"
  by (simp add: relinked_def)

lemma set_dad_ok:
  assumes "dict_wf z" "i \<le> lz_N"
  shows "\<exists>z'. set_dad i v z = Some z' \<and> relinked z z' \<and> sons z' = sons z \<and> (!) (dad z') = ((!) (dad z))(i := v)"
  using assms by (auto simp: set_dad_def array_simps dict_wf_def relinked_def sons_def [abs_def] nth_update_fun fun_eq_iff)

lemma set_lson_ok:
  assumes "dict_wf z" "i \<le> lz_N"
  shows "\<exists>z'. set_lson i v z = Some z' \<and> relinked z z' \<and> sons z' = (sons z)((i, False) := v) \<and> dad z' = dad z"
  using assms by (auto simp: set_lson_def array_simps dict_wf_def relinked_def sons_def [abs_def] nth_update_fun fun_eq_iff)

lemma set_rson_ok:
  assumes "dict_wf z" "i \<le> lz_N + 256"
  shows "\<exists>z'. set_rson i v z = Some z' \<and> relinked z z' \<and> sons z' = (sons z)((i, True) := v) \<and> dad z' = dad z"
  using assms by (auto simp: set_rson_def array_simps dict_wf_def relinked_def sons_def [abs_def] nth_update_fun fun_eq_iff)

lemma get_links:
  assumes "dict_wf z"
  shows "i \<le> lz_N \<Longrightarrow> idx (dad z) i = Some (dad z ! i)" "i \<le> lz_N \<Longrightarrow> idx (lson z) i = Some (sons z (i, False))"
    "i \<le> lz_N + 256 \<Longrightarrow> idx (rson z) i = Some (sons z (i, True))"
  using assms by (simp_all add: dict_wf_def idx_def sons_def)

text \<open>The dictionary with the nodes \<open>V\<close>; \<open>col\<close> is the first byte of the string of a node.\<close>

definition dict_ok :: "lzhuf \<Rightarrow> nat set \<Rightarrow> (nat \<Rightarrow> nat) \<Rightarrow> bool" where
  "dict_ok z V col \<longleftrightarrow> dict_wf z \<and> (\<forall>a < lz_N. a \<in> V \<longleftrightarrow> dad z ! a \<noteq> lz_NIL) \<and>
     (\<exists>\<sigma> rk. forest (sons z) \<sigma> V col rk \<and> (\<forall>a \<in> V. fst (\<sigma> a) = dad z ! a))"

lemma dict_okE:
  assumes "dict_ok z V col"
  obtains \<sigma> rk where "dict_wf z" "\<And>a. a < lz_N \<Longrightarrow> a \<in> V \<longleftrightarrow> dad z ! a \<noteq> lz_NIL" "forest (sons z) \<sigma> V col rk" "\<And>a. a \<in> V \<Longrightarrow> dad z ! a = fst (\<sigma> a)"
  using assms by (auto simp: dict_ok_def)

lemma slot_bound: "V \<subseteq> {..<lz_N} \<Longrightarrow> valid_slot V s \<Longrightarrow> fst s \<le> lz_N + 256 \<and> (\<not> snd s \<longrightarrow> fst s < lz_N)"
  by (auto simp: valid_slot_def)

lemma replaceBelowDad_ok:
  assumes "dict_wf z" "V \<subseteq> {..<lz_N}" "valid_slot V s" "p < lz_N" "dad z ! p = fst s" "sons z s = p" "\<not> snd s \<Longrightarrow> sons z (fst s, True) \<noteq> p"
  shows "\<exists>z'. replaceBelowDad p q z = Some z' \<and> relinked z z' \<and> sons z' = (sons z)(s := q) \<and> dad z' = dad z"
proof -
  have b: "fst s \<le> lz_N + 256" "\<not> snd s \<Longrightarrow> fst s < lz_N" using slot_bound [OF assms(2,3)] by auto
  have e: "replaceBelowDad p q z = (if sons z (fst s, True) = p then set_rson (fst s) q z else set_lson (fst s) q z)"
    using assms(4,5) b by (simp add: replaceBelowDad_def get_links [OF assms(1)])
  show ?thesis
  proof (cases "snd s")
    case True
    then have s: "s = (fst s, True)" by (simp add: prod_eq_iff)
    then have "sons z (fst s, True) = p" using assms(6) by simp
    then show ?thesis unfolding e using set_rson_ok [OF assms(1) b(1), of q] s by simp
  next
    case False
    then have s: "s = (fst s, False)" by (simp add: prod_eq_iff)
    then show ?thesis unfolding e using assms(7) False set_lson_ok [OF assms(1), of "fst s" q] b(2) by simp
  qed
qed

lemma forest_side:
  assumes "forest S \<sigma> V col rk" "p \<in> V" "\<not> snd (\<sigma> p)"
  shows "S (fst (\<sigma> p), True) \<noteq> p"
proof
  assume a: "S (fst (\<sigma> p), True) = p"
  have "fst (\<sigma> p) \<in> V" using forestD(3) [OF assms(1,2)] assms(3) by (auto simp: valid_slot_def)
  then have "\<sigma> p = (fst (\<sigma> p), True)"
    using forestD(8,9) [OF assms(1)] valid_son a assms(2) by metis
  then show False using assms(3) by (metis snd_conv)
qed

section \<open>Deleting a node\<close>

lemma rightmost_ok:
  assumes "forest (sons z) \<sigma> V col rk" "dict_wf z" "q \<in> V"
  shows "\<exists>q'. rightmost z q = Some q' \<and> q' \<in> V \<and> sons z (q', True) = lz_NIL \<and> col q' = col q \<and>
    (q' = q \<or> snd (\<sigma> q') \<and> fst (\<sigma> q') \<in> V \<and> rk q \<le> rk (fst (\<sigma> q')))"
  using assms(3)
proof (induction "card {x \<in> V. rk q < rk x}" arbitrary: q rule: less_induct)
  case less
  note fD = forestD [OF assms(1)]
  let ?s = "sons z (q, True)"
  have q: "q < lz_N" using less.prems fD(1) by auto
  have i: "idx (rson z) q = Some ?s" using q by (simp add: get_links [OF assms(2)])
  show ?case
  proof (cases "?s = lz_NIL")
    case True
    then show ?thesis using i less.prems by (subst rightmost.simps) simp
  next
    case False
    have s: "?s \<in> V" "\<sigma> ?s = (q, True)" using fD(7,8) [of "(q, True)"] valid_son [OF less.prems] False by auto
    then have r: "rk q < rk ?s" "col ?s = col q" using fD(4,5) [of ?s] less.prems by auto
    have "finite V" using fD(1) finite_subset by blast
    then have "card {x \<in> V. rk ?s < rk x} < card {x \<in> V. rk q < rk x}"
      using r s(1) by (intro psubset_card_mono) auto
    from less.hyps [OF this s(1)] obtain q' where q': "rightmost z ?s = Some q'" "q' \<in> V" "sons z (q', True) = lz_NIL" "col q' = col ?s"
      "q' = ?s \<or> snd (\<sigma> q') \<and> fst (\<sigma> q') \<in> V \<and> rk ?s \<le> rk (fst (\<sigma> q'))" by blast
    moreover have "rightmost z q = Some q'" using i False q'(1) by (subst rightmost.simps) simp
    ultimately show ?thesis using s r less.prems by auto
  qed
qed

lemma dict_okI:
  assumes "dict_wf z" "forest (sons z) \<sigma> V col rk" "\<And>a. a \<in> V \<Longrightarrow> dad z ! a = fst (\<sigma> a)" "\<And>a. a < lz_N \<Longrightarrow> a \<notin> V \<Longrightarrow> dad z ! a = lz_NIL"
  shows "dict_ok z V col"
proof -
  have "dad z ! a \<noteq> lz_NIL" if "a \<in> V" for a
    using assms(3) [OF that] forestD(3) [OF assms(2) that] forestD(1) [OF assms(2)] by (auto simp: valid_slot_def lz_consts)
  then show ?thesis using assms by (auto simp: dict_ok_def)
qed

lemma forest_sons:
  assumes "forest S \<sigma> V col rk" "p \<in> V"
  shows "S (p, b) \<le> lz_N" "S (p, b) \<noteq> p" "S (p, b) \<noteq> lz_NIL \<Longrightarrow> S (p, b) \<in> V \<and> \<sigma> (S (p, b)) = (p, b)"
    "S (p, b) \<noteq> lz_NIL \<Longrightarrow> rk p < rk (S (p, b)) \<and> col (S (p, b)) = col p" "p < lz_N"
proof -
  note fD = forestD [OF assms(1)]
  show p: "p < lz_N" using assms(2) fD(1) by auto
  show *: "S (p, b) \<noteq> lz_NIL \<Longrightarrow> S (p, b) \<in> V \<and> \<sigma> (S (p, b)) = (p, b)" using fD(7,8) [OF valid_son [OF assms(2)]] by blast
  show **: "S (p, b) \<noteq> lz_NIL \<Longrightarrow> rk p < rk (S (p, b)) \<and> col (S (p, b)) = col p" using * fD(4,5) [of "S (p, b)"] assms(2) by auto
  show "S (p, b) \<le> lz_N" using * fD(1) by (cases "S (p, b) = lz_NIL") (auto simp: lz_consts)
  show "S (p, b) \<noteq> p" using ** p by (auto simp: lz_consts)
qed

text \<open>The state in which \<open>q\<close> is ready to take the slot of \<open>p\<close>.\<close>

definition ready_to_move :: "lzhuf \<Rightarrow> lzhuf \<Rightarrow> nat \<Rightarrow> nat \<Rightarrow> (nat \<Rightarrow> nat \<times> bool) \<Rightarrow> nat set \<Rightarrow> (nat \<Rightarrow> nat) \<Rightarrow> bool" where
  "ready_to_move z z1 p q \<sigma> V col \<longleftrightarrow> relinked z z1 \<and> q \<le> lz_N \<and> q \<noteq> p \<and> (q = lz_NIL \<or> q \<in> V) \<and> dad z1 ! p = dad z ! p \<and>
     sons z1 (\<sigma> p) = p \<and> (\<not> snd (\<sigma> p) \<longrightarrow> sons z1 (fst (\<sigma> p), True) \<noteq> p) \<and>
     (\<forall>a < lz_N. a \<notin> V \<longrightarrow> dad z1 ! a = dad z ! a) \<and>
     (\<exists>\<sigma>' rk'. forest ((sons z1)(\<sigma> p := q)) \<sigma>' (V - {p}) col rk' \<and>
        (\<forall>a \<in> V - {p}. fst (\<sigma>' a) = (if a = q then dad z ! p else dad z1 ! a)))"

lemma one_son:
  assumes "dict_wf z" "forest (sons z) \<sigma> V col rk" "\<And>a. a \<in> V \<Longrightarrow> dad z ! a = fst (\<sigma> a)" "p \<in> V" "sons z (p, b) = lz_NIL"
  shows "ready_to_move z z p (sons z (p, \<not> b)) \<sigma> V col"
proof -
  note s = forest_sons [OF assms(2,4)]
  have "fst ((\<sigma>(sons z (p, \<not> b) := \<sigma> p)) a) = (if a = sons z (p, \<not> b) then dad z ! p else dad z ! a)" if "a \<in> V - {p}" for a
    using that assms(3,4) by auto
  then show ?thesis
    using s(1-3) [of "\<not> b"] relinked_refl [OF assms(1)] forestD(2) [OF assms(2,4)] forest_side [OF assms(2,4)]
      forest_remove [OF assms(2,4,5) refl]
    unfolding ready_to_move_def by blast
qed

text \<open>\<open>q\<close>, the largest node on the left of \<open>p\<close>, leaves its slot to its left son and takes the sons of \<open>p\<close>.\<close>

lemma largest_moves:
  assumes f: "forest (sons z) \<sigma> V col rk" and d: "\<And>a. a \<in> V \<Longrightarrow> dad z ! a = fst (\<sigma> a)" and p: "p \<in> V"
    and q: "q \<in> V" "sons z (q, True) = lz_NIL" "col q = col p" "rk p < rk q" "(p, True) \<noteq> \<sigma> q"
    and x: "x = ((sons z)(\<sigma> q := sons z (q, False))) (p, False)" and rel: "relinked z z1"
    and S1: "\<And>s. s \<noteq> (p, False) \<Longrightarrow> sons z1 s = ((sons z)(\<sigma> q := sons z (q, False), (q, False) := x, (q, True) := sons z (p, True))) s"
    and D1: "\<And>a. a < lz_N \<Longrightarrow> dad z1 ! a = (((!) (dad z))(sons z (q, False) := fst (\<sigma> q), x := q, sons z (p, True) := q)) a"
  shows "ready_to_move z z1 p q \<sigma> V col"
proof -
  let ?S = "sons z" let ?lq = "?S (q, False)" and ?rp = "?S (p, True)"
  note fD = forestD [OF f] and sp = forest_sons [OF f p] and sq = forest_sons [OF f q(1)]
  have qp: "q \<noteq> p" using q(4) by auto
  have lqp: "?lq \<noteq> p" using q(4) sq(4) [of False] sp(5) by (auto simp: lz_consts)
  have pl: "p < lz_N" "p \<noteq> lz_NIL" using sp(5) by (auto simp: lz_consts)
  have upq: "fst (\<sigma> p) \<noteq> q" "fst (\<sigma> p) \<noteq> p" using fD(5) [OF p] q(1,4) p by auto
  have upn: "\<sigma> p \<noteq> \<sigma> q" using forest_inj [OF f p q(1)] qp by simp
  have xs: "x = lz_NIL \<or> x \<in> V" "x \<noteq> p" using x sq(3) [of False] sp(3) [of False] lqp sp(2) [of False] by auto
  have fA: "forest (?S(\<sigma> q := ?lq)) (\<sigma>(?lq := \<sigma> q)) (V - {q}) col rk" using forest_remove [OF f q(1,2)] by simp
  have V: "insert q (V - {q} - {p}) = V - {p}" using q(1) qp by auto
  obtain rk' where fB: "forest (?S(\<sigma> q := ?lq, (q, False) := x, (q, True) := ?rp, \<sigma> p := q))
      (\<sigma>(?lq := \<sigma> q, x := (q, False), ?rp := (q, True), q := \<sigma> p)) (V - {p}) col rk'"
    using forest_replace [OF fA, of p q] p q qp sq(5) lqp V x by auto
  have "forest ((sons z1)(\<sigma> p := q)) (\<sigma>(?lq := \<sigma> q, x := (q, False), ?rp := (q, True), q := \<sigma> p)) (V - {p}) col rk'"
  proof (rule forest_cong [OF fB])
    fix s assume "valid_slot (V - {p}) s"
    then have "s \<noteq> (p, False)" using pl by (auto simp: valid_slot_def)
    then show "((sons z1)(\<sigma> p := q)) s = (?S(\<sigma> q := ?lq, (q, False) := x, (q, True) := ?rp, \<sigma> p := q)) s" using S1 by simp
  qed simp_all
  moreover have "fst ((\<sigma>(?lq := \<sigma> q, x := (q, False), ?rp := (q, True), q := \<sigma> p)) a) = (if a = q then dad z ! p else dad z1 ! a)"
    if "a \<in> V - {p}" for a
    using that D1 [of a] d [of a] d [OF p] fD(1) by auto
  moreover have "dad z1 ! p = dad z ! p" using D1 [OF pl(1)] lqp xs(2) sp(2) [of True] by auto
  moreover have "sons z1 (\<sigma> p) = p" using S1 [of "\<sigma> p"] upq upn fD(2) [OF p] by (cases "\<sigma> p") auto
  moreover have "sons z1 (fst (\<sigma> p), True) \<noteq> p" if "\<not> snd (\<sigma> p)"
    using S1 [of "(fst (\<sigma> p), True)"] upq lqp forest_side [OF f p that] by auto
  moreover have "dad z1 ! a = dad z ! a" if "a < lz_N" "a \<notin> V" for a
    using D1 [OF that(1)] that sq(3) [of False] xs(1) sp(3) [of True] by (auto simp: lz_consts)
  ultimately show ?thesis using rel qp q(1) sq(5) unfolding ready_to_move_def by (auto simp del: fun_upd_apply)
qed

lemma detachLargest_ok:
  assumes wf: "dict_wf z" and f: "forest (sons z) \<sigma> V col rk" and d: "\<And>a. a \<in> V \<Longrightarrow> dad z ! a = fst (\<sigma> a)" and p: "p \<in> V"
    and l: "sons z (p, False) \<noteq> lz_NIL" and r: "sons z (p, True) \<noteq> lz_NIL"
  shows "\<exists>q z1. detachLargest p z = Some (q, z1) \<and> ready_to_move z z1 p q \<sigma> V col"
proof -
  let ?S = "sons z" let ?lp = "?S (p, False)" and ?rp = "?S (p, True)"
  note fD = forestD [OF f] and sp = forest_sons [OF f p]
  have lp: "?lp \<in> V" "\<sigma> ?lp = (p, False)" "rk p < rk ?lp" "col ?lp = col p" using sp(3,4) [of False] l by auto
  obtain q where q: "rightmost z ?lp = Some q" "q \<in> V" "?S (q, True) = lz_NIL" "col q = col p"
      "q = ?lp \<or> snd (\<sigma> q) \<and> fst (\<sigma> q) \<in> V \<and> rk ?lp \<le> rk (fst (\<sigma> q))"
    using rightmost_ok [OF f wf lp(1)] lp(4) by auto
  note sq = forest_sons [OF f q(2)]
  let ?lq = "?S (q, False)"
  have rkq: "rk p < rk q" "(p, True) \<noteq> \<sigma> q" using q(5) lp(2,3) fD(5) [OF q(2)] by (auto dest: arg_cong [where f = fst])
  have qp: "q \<noteq> p" using rkq by auto
  show ?thesis
  proof (cases "?S (?lp, True) = lz_NIL")
    case True
    then have ql: "q = ?lp" using q(1) forest_sons(5) [OF f lp(1)] by (subst (asm) rightmost.simps) (simp add: get_links [OF wf])
    obtain z1 where z1: "set_rson q ?rp z = Some z1" "relinked z z1" "sons z1 = ?S((q, True) := ?rp)" "dad z1 = dad z"
      using set_rson_ok [OF wf, of q ?rp] sq(5) by auto
    obtain z2 where z2: "set_dad ?rp q z1 = Some z2" "relinked z1 z2" "sons z2 = sons z1" "(!) (dad z2) = ((!) (dad z))(?rp := q)"
      using set_dad_ok [OF relinked_wf [OF z1(2)], of ?rp q] sp(1) z1(4) by auto
    have "detachLargest p z = Some (q, z2)"
      using True sp(5,1) sq(5) ql z1 z2 qp forest_sons(5) [OF f lp(1)]
      by (simp add: detachLargest_def get_links [OF wf] get_links [OF relinked_wf [OF z1(2)]])
    moreover have "ready_to_move z z2 p q \<sigma> V col"
    proof (rule largest_moves [OF f d p q(2,3,4) rkq refl relinked_trans [OF z1(2) z2(2)]])
      have "dad z ! ?lq = q" if "?lq < lz_N" using sq(3) [of False] d that by (auto simp: lz_consts)
      then show "a < lz_N \<Longrightarrow> dad z2 ! a = (((!) (dad z))(?lq := fst (\<sigma> q), (?S(\<sigma> q := ?lq)) (p, False) := q, ?rp := q)) a" for a
        unfolding z2(4) using lp(2) ql by auto
    qed (use z1(3) z2(3) lp(2) ql in auto)
    ultimately show ?thesis by blast
  next
    case False
    have "q \<noteq> ?lp" using False q(3) by auto
    then have sq': "\<sigma> q = (dad z ! q, True)" "dad z ! q \<noteq> p" "dad z ! q < lz_N"
      using q(5) rkq lp(3) d [OF q(2)] fD(1) by (auto simp: prod_eq_iff)
    let ?dq = "dad z ! q"
    have bounds: "?lq \<le> lz_N" "?lp \<le> lz_N" "?rp \<le> lz_N" "q \<le> lz_N" "p \<le> lz_N" "?dq \<le> lz_N" "?lp < lz_N"
      using sp(1,5) sq(1,5) sq'(3) forest_sons(5) [OF f lp(1)] by auto
    obtain z1 where z1: "set_rson ?dq ?lq z = Some z1" "relinked z z1" "sons z1 = ?S((?dq, True) := ?lq)" "dad z1 = dad z"
      using set_rson_ok [OF wf, of ?dq ?lq] bounds by auto
    obtain z2 where z2: "set_dad ?lq ?dq z1 = Some z2" "relinked z1 z2" "sons z2 = sons z1" "(!) (dad z2) = ((!) (dad z))(?lq := ?dq)"
      using set_dad_ok [OF relinked_wf [OF z1(2)], of ?lq ?dq] bounds z1(4) by auto
    obtain z3 where z3: "set_lson q ?lp z2 = Some z3" "relinked z2 z3" "sons z3 = (sons z1)((q, False) := ?lp)" "dad z3 = dad z2"
      using set_lson_ok [OF relinked_wf [OF z2(2)], of q ?lp] bounds z2(3) by auto
    obtain z4 where z4: "set_dad ?lp q z3 = Some z4" "relinked z3 z4" "sons z4 = sons z3" "(!) (dad z4) = ((!) (dad z2))(?lp := q)"
      using set_dad_ok [OF relinked_wf [OF z3(2)], of ?lp q] bounds z3(4) by auto
    obtain z5 where z5: "set_rson q ?rp z4 = Some z5" "relinked z4 z5" "sons z5 = (sons z3)((q, True) := ?rp)" "dad z5 = dad z4"
      using set_rson_ok [OF relinked_wf [OF z4(2)], of q ?rp] bounds z4(3) by auto
    obtain z6 where z6: "set_dad ?rp q z5 = Some z6" "relinked z5 z6" "sons z6 = sons z5" "(!) (dad z6) = ((!) (dad z4))(?rp := q)"
      using set_dad_ok [OF relinked_wf [OF z5(2)], of ?rp q] bounds z5(4) by auto
    note rel = relinked_trans [OF relinked_trans [OF relinked_trans [OF z1(2) z2(2)] relinked_trans [OF z3(2) z4(2)]] relinked_trans [OF z5(2) z6(2)]]
    note wfs = get_links [OF wf] get_links [OF relinked_wf [OF z1(2)]] get_links [OF relinked_wf [OF z2(2)]]
      get_links [OF relinked_wf [OF z3(2)]] get_links [OF relinked_wf [OF z4(2)]] get_links [OF relinked_wf [OF z5(2)]]
    have "detachLargest p z = Some (q, z6)"
      using False bounds qp sq'(2) q(1) z1(1,3,4) z2(1,3) z3(1,3) z4(1,3) z5(1,3) z6(1,3) by (simp add: detachLargest_def wfs)
    moreover have "ready_to_move z z6 p q \<sigma> V col"
      by (rule largest_moves [OF f d p q(2,3,4) rkq refl rel])
        (use z1(3) z2(3,4) z3(3) z4(3,4) z5(3) z6(3,4) sq' in auto)
    ultimately show ?thesis by blast
  qed
qed

text \<open>Nothing but the links changes, and a node that is not there is left alone.\<close>

lemma DeleteNode_ok:
  assumes "dict_ok z V col" "p < lz_N"
  shows "\<exists>z'. DeleteNode p z = Some z' \<and> relinked z z' \<and> dict_ok z' (V - {p}) col"
proof -
  obtain \<sigma> rk where wf: "dict_wf z" and reg: "\<And>a. a < lz_N \<Longrightarrow> a \<in> V \<longleftrightarrow> dad z ! a \<noteq> lz_NIL" and f: "forest (sons z) \<sigma> V col rk"
    and d: "\<And>a. a \<in> V \<Longrightarrow> dad z ! a = fst (\<sigma> a)" using assms(1) by (auto simp: dict_ok_def)
  show ?thesis
  proof (cases "p \<in> V")
    case False
    then show ?thesis using reg [OF assms(2)] assms relinked_refl [OF wf] by (simp add: DeleteNode_def get_links [OF wf])
  next
    case p: True
    note fD = forestD [OF f]
    have "\<exists>q z1. (if sons z (p, True) = lz_NIL then Some (sons z (p, False), z) else if sons z (p, False) = lz_NIL then Some (sons z (p, True), z)
       else detachLargest p z) = Some (q, z1) \<and> ready_to_move z z1 p q \<sigma> V col"
      using one_son [OF wf f d p, of True] one_son [OF wf f d p, of False] detachLargest_ok [OF wf f d p] by auto
    then obtain q z1 where qz: "(if sons z (p, True) = lz_NIL then Some (sons z (p, False), z) else if sons z (p, False) = lz_NIL then Some (sons z (p, True), z)
       else detachLargest p z) = Some (q, z1)" and m: "ready_to_move z z1 p q \<sigma> V col" by blast
    have rel: "relinked z z1" and qb: "q \<le> lz_N" "q \<noteq> p" "q = lz_NIL \<or> q \<in> V" and dp: "dad z1 ! p = dad z ! p" and sp: "sons z1 (\<sigma> p) = p"
      and side: "\<not> snd (\<sigma> p) \<Longrightarrow> sons z1 (fst (\<sigma> p), True) \<noteq> p" and un: "\<And>a. a < lz_N \<Longrightarrow> a \<notin> V \<Longrightarrow> dad z1 ! a = dad z ! a"
      using m by (auto simp: ready_to_move_def)
    obtain \<sigma>' rk' where f': "forest ((sons z1)(\<sigma> p := q)) \<sigma>' (V - {p}) col rk'"
      and d': "\<And>a. a \<in> V - {p} \<Longrightarrow> fst (\<sigma>' a) = (if a = q then dad z ! p else dad z1 ! a)" using m by (auto simp: ready_to_move_def)
    obtain z2 where z2: "set_dad q (dad z ! p) z1 = Some z2" "relinked z1 z2" "sons z2 = sons z1" "(!) (dad z2) = ((!) (dad z1))(q := dad z ! p)"
      using set_dad_ok [OF relinked_wf [OF rel] qb(1)] by blast
    obtain z3 where z3: "replaceBelowDad p q z2 = Some z3" "relinked z2 z3" "sons z3 = (sons z2)(\<sigma> p := q)" "dad z3 = dad z2"
      using replaceBelowDad_ok [OF relinked_wf [OF z2(2)] fD(1) fD(3) [OF p] assms(2)] sp side z2(3,4) qb(2) dp d [OF p] by auto
    obtain z4 where z4: "set_dad p lz_NIL z3 = Some z4" "relinked z3 z4" "sons z4 = sons z3" "(!) (dad z4) = ((!) (dad z3))(p := lz_NIL)"
      using set_dad_ok [OF relinked_wf [OF z3(2)], of p lz_NIL] assms(2) by auto
    have "DeleteNode p z = Some z4"
      using reg [OF assms(2)] p assms(2) qz dp z2(1) z3(1) z4(1)
      by (simp add: DeleteNode_def get_links [OF wf] get_links [OF relinked_wf [OF rel]])
    moreover have "relinked z z4" using rel z2(2) z3(2) z4(2) relinked_trans by blast
    moreover have "dict_ok z4 (V - {p}) col"
    proof (rule dict_okI)
      show "dict_wf z4" using z4(2) by (rule relinked_wf)
      show "forest (sons z4) \<sigma>' (V - {p}) col rk'" using f' z2(3) z3(3) z4(3) by simp
      show "dad z4 ! a = fst (\<sigma>' a)" if "a \<in> V - {p}" for a using d' [OF that] that z2(4) z3(4) z4(4) by auto
      show "dad z4 ! a = lz_NIL" if "a < lz_N" "a \<notin> V - {p}" for a
        using that un [OF that(1)] reg [OF that(1)] qb(3) z2(4) z3(4) z4(4) by (auto simp: lz_consts)
    qed
    ultimately show ?thesis by blast
  qed
qed

section \<open>Inserting a node\<close>

lemma matchLoop_ok:
  assumes "i \<le> lz_F" "r + lz_F \<le> length tb" "p + lz_F \<le> length tb"
  shows "\<exists>j cmp'. matchLoop tb r p i cmp = Some (j, cmp') \<and> i \<le> j \<and> j \<le> lz_F \<and> (\<forall>k. i \<le> k \<and> k < j \<longrightarrow> tb ! (r + k) = tb ! (p + k))"
  using assms
proof (induction tb r p i cmp rule: matchLoop.induct)
  case (1 tb r p i cmp)
  show ?case
  proof (cases "i < lz_F")
    case True
    then have i: "idx tb (r + i) = Some (tb ! (r + i))" "idx tb (p + i) = Some (tb ! (p + i))" using 1 by (simp_all add: idx_def)
    show ?thesis
    proof (cases "tb ! (r + i) = tb ! (p + i)")
      case eq: True
      from 1(1) [OF True i refl] eq 1(2-4) True
      obtain j cmp' where j: "matchLoop tb r p (i + 1) 0 = Some (j, cmp')" "i + 1 \<le> j" "j \<le> lz_F"
          "\<forall>k. i + 1 \<le> k \<and> k < j \<longrightarrow> tb ! (r + k) = tb ! (p + k)" by auto
      have "tb ! (r + k) = tb ! (p + k)" if "i \<le> k" "k < j" for k
        using eq j(4) that by (cases "k = i") auto
      then show ?thesis using j True i eq by (subst matchLoop.simps) (auto simp: Let_def)
    next
      case False
      then have "uint (tb ! (r + i)) \<noteq> uint (tb ! (p + i))" by (simp add: word_uint_eq_iff)
      then show ?thesis using True i by (subst matchLoop.simps) (auto simp: Let_def)
    qed
  next
    case False
    then show ?thesis using 1(2) by (subst matchLoop.simps) auto
  qed
qed

text \<open>What \<open>InsertNode\<close> says about a match: the string of a node of the same tree agrees from the second byte on.\<close>

definition match_ok :: "nat set \<Rightarrow> (nat \<Rightarrow> nat) \<Rightarrow> nat \<Rightarrow> lzhuf \<Rightarrow> bool" where
  "match_ok V col r z \<longleftrightarrow> matchLength z \<le> lz_F \<and> (lz_Threshold < matchLength z \<longrightarrow>
     (\<exists>q \<in> V. col q = col r \<and> matchPosition z = matchDist r q \<and>
        (\<forall>i. 1 \<le> i \<and> i < matchLength z \<longrightarrow> textBuf z ! (r + i) = textBuf z ! (q + i))))"

definition text_same :: "lzhuf \<Rightarrow> lzhuf \<Rightarrow> bool" where
  "text_same z z' \<longleftrightarrow> freq z' = freq z \<and> prnt z' = prnt z \<and> son z' = son z \<and> textBuf z' = textBuf z"

definition links_same :: "lzhuf \<Rightarrow> lzhuf \<Rightarrow> bool" where
  "links_same z z' \<longleftrightarrow> dad z' = dad z \<and> lson z' = lson z \<and> rson z' = rson z \<and> text_same z z'"

lemma recordMatch_ok:
  assumes "match_ok V col r z" "p \<in> V" "col p = col r" "i \<le> lz_F" "\<forall>k. 1 \<le> k \<and> k < i \<longrightarrow> textBuf z ! (r + k) = textBuf z ! (p + k)"
    and "recordMatch r p i z = (stop, z')"
  shows "match_ok V col r z' \<and> links_same z z'"
proof -
  have "z' \<in> {z, z\<lparr>matchPosition := matchDist r p, matchLength := i\<rparr>}"
    using assms(6) by (auto simp: recordMatch_def Let_def split: if_splits)
  moreover have "match_ok V col r (z\<lparr>matchPosition := matchDist r p, matchLength := i\<rparr>)"
    using assms(2-5) by (auto simp: match_ok_def)
  ultimately show ?thesis using assms(1) by (auto simp: links_same_def text_same_def)
qed

lemma insertLoop_ok:
  assumes wf: "dict_wf z" and f: "forest (sons z) \<sigma> V col rk" and d: "\<And>a. a \<in> V \<Longrightarrow> dad z ! a = fst (\<sigma> a)"
    and un: "\<And>a. a < lz_N \<Longrightarrow> a \<notin> V \<Longrightarrow> dad z ! a = lz_NIL"
    and r: "r \<notin> V" "r < lz_N" "sons z (r, False) = lz_NIL" "sons z (r, True) = lz_NIL" and tb: "length (textBuf z) = lz_N + lz_F - 1"
    and s: "valid_slot V (p, 0 \<le> cmp)" "if p \<in> V then col p = col r else p = lz_N + 1 + col r" and m: "match_ok V col r z"
  shows "\<exists>res z'. insertLoop r p cmp z = Some (res, z') \<and> text_same z z' \<and> match_ok V col r z' \<and>
    (case res of None \<Rightarrow> dict_ok z' (insert r V) col | Some q \<Rightarrow> q \<in> V \<and> col q = col r \<and> links_same z z')"
  using assms
proof (induction "if p \<in> V then card {x \<in> V. rk p < rk x} else card V + 1" arbitrary: p cmp z rule: less_induct)
  case less
  note wf = less.prems(1) and f = less.prems(2) and d = less.prems(3) and un = less.prems(4) and r = less.prems(5-8) and tb = less.prems(9)
    and s = less.prems(10,11) and m = less.prems(12)
  note fD = forestD [OF f]
  have fin: "finite V" using fD(1) finite_subset by blast
  let ?s = "sons z (p, 0 \<le> cmp)"
  have pb: "p \<le> lz_N + 256" "\<not> 0 \<le> cmp \<Longrightarrow> p < lz_N" using slot_bound [OF fD(1) s(1)] by auto
  have get: "(if 0 \<le> cmp then idx (rson z) p else idx (lson z) p) = Some ?s"
    using pb by (auto simp: get_links [OF wf])
  show ?case
  proof (cases "?s = lz_NIL")
    case True
    obtain z1 where z1: "(if 0 \<le> cmp then set_rson p r z else set_lson p r z) = Some z1" "relinked z z1" "sons z1 = (sons z)((p, 0 \<le> cmp) := r)" "dad z1 = dad z"
      using set_rson_ok [OF wf pb(1), of r] set_lson_ok [OF wf, of p r] pb(2) by (cases "0 \<le> cmp") auto
    obtain z2 where z2: "set_dad r p z1 = Some z2" "relinked z1 z2" "sons z2 = sons z1" "(!) (dad z2) = ((!) (dad z))(r := p)"
      using set_dad_ok [OF relinked_wf [OF z1(2)], of r p] r(2) z1(4) by auto
    have l: "insertLoop r p cmp z = Some (None, z2)" using get True z1(1) z2(1) by (subst insertLoop.simps) simp
    have "dict_ok z2 (insert r V) col"
    proof (rule dict_okI)
      show "dict_wf z2" using z2(2) by (rule relinked_wf)
      show "forest (sons z2) (\<sigma>(r := (p, 0 \<le> cmp))) (insert r V) col (rk(r := if p \<in> V then rk p + 1 else 0))"
        using forest_attach [OF f s(1) True r] s(2) z1(3) z2(3) by (cases "p \<in> V") auto
      show "a \<in> insert r V \<Longrightarrow> dad z2 ! a = fst ((\<sigma>(r := (p, 0 \<le> cmp))) a)" for a using z2(4) d [of a] by auto
      show "a < lz_N \<Longrightarrow> a \<notin> insert r V \<Longrightarrow> dad z2 ! a = lz_NIL" for a using z2(4) un [of a] by auto
    qed
    moreover have "text_same z z2" "match_ok V col r z2"
      using z1(2) z2(2) m by (simp_all add: relinked_def text_same_def match_ok_def)
    ultimately show ?thesis using l by auto
  next
    case False
    have sV: "?s \<in> V" "\<sigma> ?s = (p, 0 \<le> cmp)" using fD(7,8) [OF s(1) False] by auto
    have sN: "?s < lz_N" using sV fD(1) by auto
    have sc: "col ?s = col r" using fD(4,6) [OF sV(1)] sV(2) s(2) by (auto split: if_splits)
    obtain i cmp' where i: "matchLoop (textBuf z) r ?s 1 cmp = Some (i, cmp')" "1 \<le> i" "i \<le> lz_F"
        "\<forall>k. 1 \<le> k \<and> k < i \<longrightarrow> textBuf z ! (r + k) = textBuf z ! (?s + k)"
      using matchLoop_ok [of 1 r "textBuf z" ?s cmp] r(2) sN tb by (auto simp: lz_consts)
    obtain stop z1 where z1: "recordMatch r ?s i z = (stop, z1)" by fastforce
    have m1: "match_ok V col r z1" "links_same z z1" using recordMatch_ok [OF m sV(1) sc i(3,4) z1] by auto
    have e: "insertLoop r p cmp z = (if stop then Some (Some ?s, z1) else insertLoop r ?s cmp' z1)"
      using get False i(1) z1 by (subst insertLoop.simps) simp
    show ?thesis
    proof (cases stop)
      case True
      then show ?thesis using e m1 sV(1) sc by (auto simp: links_same_def)
    next
      case go: False
      have "card {x \<in> V. rk ?s < rk x} < (if p \<in> V then card {x \<in> V. rk p < rk x} else card V + 1)"
      proof (cases "p \<in> V")
        case True
        then have "rk p < rk ?s" using fD(5) [OF sV(1)] sV(2) by simp
        then have "card {x \<in> V. rk ?s < rk x} < card {x \<in> V. rk p < rk x}" using fin sV(1) by (intro psubset_card_mono) auto
        then show ?thesis using True by simp
      next
        case False
        then show ?thesis using card_mono [OF fin, of "{x \<in> V. rk ?s < rk x}"] by auto
      qed
      then have "(if ?s \<in> V then card {x \<in> V. rk ?s < rk x} else card V + 1) < (if p \<in> V then card {x \<in> V. rk p < rk x} else card V + 1)"
        using sV(1) by simp
      moreover have fields: "dict_wf z1" "sons z1 = sons z" "dad z1 = dad z" "textBuf z1 = textBuf z" "text_same z z1"
        using m1(2) wf by (auto simp: links_same_def dict_wf_def sons_def [abs_def] text_same_def)
      ultimately obtain res z' where "insertLoop r ?s cmp' z1 = Some (res, z')" "text_same z1 z'" "match_ok V col r z'"
          "case res of None \<Rightarrow> dict_ok z' (insert r V) col | Some q \<Rightarrow> q \<in> V \<and> col q = col r \<and> links_same z1 z'"
        using less.hyps [of ?s z1 cmp'] f d un r tb valid_son [OF sV(1)] sc sV(1) m1(1) by auto
      then show ?thesis using e go fields(5) m1(2) by (auto simp: text_same_def links_same_def split: option.splits)
    qed
  qed
qed

lemma links_same_dict: "links_same z z' \<Longrightarrow> dict_wf z' = dict_wf z \<and> sons z' = sons z \<and> dad z' = dad z"
  by (auto simp: links_same_def dict_wf_def sons_def [abs_def])

lemma replaceNode_ok:
  assumes wf: "dict_wf z" and f: "forest (sons z) \<sigma> V col rk" and d: "\<And>a. a \<in> V \<Longrightarrow> dad z ! a = fst (\<sigma> a)"
    and un: "\<And>a. a < lz_N \<Longrightarrow> a \<notin> V \<Longrightarrow> dad z ! a = lz_NIL" and r: "r \<notin> V" "r < lz_N" "col p = col r" and p: "p \<in> V"
  shows "\<exists>z'. do {
         dp \<leftarrow> idx (dad z) p;
         z \<leftarrow> set_dad r dp z;
         lp \<leftarrow> idx (lson z) p;
         z \<leftarrow> set_lson r lp z;
         rp \<leftarrow> idx (rson z) p;
         z \<leftarrow> set_rson r rp z;
         lp \<leftarrow> idx (lson z) p;
         z \<leftarrow> set_dad lp r z;
         rp \<leftarrow> idx (rson z) p;
         z \<leftarrow> set_dad rp r z;
         z \<leftarrow> replaceBelowDad p r z;
         set_dad p lz_NIL z
       } = Some z' \<and> relinked z z' \<and> dict_ok z' (insert r (V - {p})) col"
proof -
  let ?S = "sons z" let ?lp = "?S (p, False)" and ?rp = "?S (p, True)" and ?dp = "dad z ! p"
  note fD = forestD [OF f] and sp = forest_sons [OF f p]
  have rp: "r \<noteq> p" using r(1) p by auto
  have upr: "fst (\<sigma> p) \<noteq> r" using fD(3) [OF p] r by (auto simp: valid_slot_def)
  have upp: "fst (\<sigma> p) \<noteq> p" using fD(5) [OF p] p by auto
  have sr: "?S (p, b) \<noteq> r" for b using sp(3) [of b] r by (auto simp: lz_consts)
  have b: "?lp \<le> lz_N" "?rp \<le> lz_N" "p < lz_N" "p \<le> lz_N" "r \<le> lz_N" using sp(1,5) r(2) by auto
  obtain z1 where z1: "set_dad r ?dp z = Some z1" "relinked z z1" "sons z1 = ?S" "(!) (dad z1) = ((!) (dad z))(r := ?dp)"
    using set_dad_ok [OF wf b(5)] by blast
  obtain z2 where z2: "set_lson r ?lp z1 = Some z2" "relinked z1 z2" "sons z2 = ?S((r, False) := ?lp)" "dad z2 = dad z1"
    using set_lson_ok [OF relinked_wf [OF z1(2)] b(5), of ?lp] z1(3) by auto
  obtain z3 where z3: "set_rson r ?rp z2 = Some z3" "relinked z2 z3" "sons z3 = (sons z2)((r, True) := ?rp)" "dad z3 = dad z2"
    using set_rson_ok [OF relinked_wf [OF z2(2)], of r ?rp] b(5) by auto
  obtain z4 where z4: "set_dad ?lp r z3 = Some z4" "relinked z3 z4" "sons z4 = sons z3" "(!) (dad z4) = ((!) (dad z1))(?lp := r)"
    using set_dad_ok [OF relinked_wf [OF z3(2)] b(1), of r] z2(4) z3(4) by auto
  obtain z5 where z5: "set_dad ?rp r z4 = Some z5" "relinked z4 z5" "sons z5 = sons z4" "(!) (dad z5) = ((!) (dad z4))(?rp := r)"
    using set_dad_ok [OF relinked_wf [OF z4(2)] b(2), of r] by auto
  have S5: "sons z5 = ?S((r, False) := ?lp, (r, True) := ?rp)" using z2(3) z3(3) z4(3) z5(3) by simp
  have D5: "(!) (dad z5) = ((!) (dad z))(r := ?dp, ?lp := r, ?rp := r)" using z1(4) z4(4) z5(4) by simp
  have "sons z5 (\<sigma> p) = p" using S5 upr fD(2) [OF p] by (cases "\<sigma> p") auto
  moreover have "dad z5 ! p = fst (\<sigma> p)" using D5 rp sp(2) [of True, symmetric] sp(2) [of False, symmetric] d [OF p] by (auto simp: fun_upd_def)
  moreover have "sons z5 (fst (\<sigma> p), True) \<noteq> p" if "\<not> snd (\<sigma> p)" using S5 upr forest_side [OF f p that] by auto
  ultimately obtain z6 where z6: "replaceBelowDad p r z5 = Some z6" "relinked z5 z6" "sons z6 = (sons z5)(\<sigma> p := r)" "dad z6 = dad z5"
    using replaceBelowDad_ok [OF relinked_wf [OF z5(2)] fD(1) fD(3) [OF p] b(3)] by blast
  obtain z7 where z7: "set_dad p lz_NIL z6 = Some z7" "relinked z6 z7" "sons z7 = sons z6" "(!) (dad z7) = ((!) (dad z5))(p := lz_NIL)"
    using set_dad_ok [OF relinked_wf [OF z6(2)] b(4), of lz_NIL] z6(4) by auto
  note wfs = get_links [OF wf] get_links [OF relinked_wf [OF z1(2)]] get_links [OF relinked_wf [OF z2(2)]]
      get_links [OF relinked_wf [OF z3(2)]] get_links [OF relinked_wf [OF z4(2)]] get_links [OF relinked_wf [OF z5(2)]]
  note rel = relinked_trans [OF relinked_trans [OF relinked_trans [OF z1(2) z2(2)] relinked_trans [OF z3(2) z4(2)]]
      relinked_trans [OF z5(2) relinked_trans [OF z6(2) z7(2)]]]
  have "dict_ok z7 (insert r (V - {p})) col"
  proof (rule dict_okI)
    show "dict_wf z7" using z7(2) by (rule relinked_wf)
    show "forest (sons z7) (\<sigma>(?lp := (r, False), ?rp := (r, True), r := \<sigma> p)) (insert r (V - {p})) col (rk(r := rk p))"
      using forest_replace [OF f p r(1,2)] r(3) S5 z6(3) z7(3) by simp
    show "a \<in> insert r (V - {p}) \<Longrightarrow> dad z7 ! a = fst ((\<sigma>(?lp := (r, False), ?rp := (r, True), r := \<sigma> p)) a)" for a
      using z7(4) D5 d [of a] d [OF p] rp sr [of True] sr [of False] by (auto simp: fun_upd_def)
    show "dad z7 ! a = lz_NIL" if a: "a < lz_N" "a \<notin> insert r (V - {p})" for a
    proof (cases "a = p")
      case False
      then have "a \<notin> V" using a(2) by auto
      moreover from this have "a \<noteq> ?lp" "a \<noteq> ?rp" using a(1) sp(3) [of True] sp(3) [of False] by (auto simp: lz_consts)
      moreover have "dad z7 ! a = (((!) (dad z))(r := ?dp, ?lp := r, ?rp := r, p := lz_NIL)) a" using z7(4) D5 by simp
      ultimately show ?thesis using False a un [OF a(1)] by simp
    qed (use z7(4) in simp)
  qed
  moreover have "sons z1 (p, False) = ?lp" "sons z2 (p, True) = ?rp" "sons z3 (p, False) = ?lp" "sons z4 (p, True) = ?rp"
    using z1(3) z2(3) z3(3) z4(3) rp by auto
  note this z1(1) z2(1) z3(1) z4(1) z5(1) z6(1) z7(1)
  ultimately show ?thesis using b rel by (intro exI [of _ z7] conjI) (simp_all add: wfs)
qed

lemma InsertNode_ok:
  assumes "dict_ok z V col" "r < lz_N" "r \<notin> V" "length (textBuf z) = lz_N + lz_F - 1" "col r = unat (textBuf z ! r)"
  shows "\<exists>z' V'. InsertNode r z = Some z' \<and> dict_ok z' V' col \<and> V' \<subseteq> insert r V \<and> text_same z z' \<and> match_ok V col r z'"
proof -
  obtain \<sigma> rk where wf: "dict_wf z" and reg: "\<And>a. a < lz_N \<Longrightarrow> a \<in> V \<longleftrightarrow> dad z ! a \<noteq> lz_NIL" and f: "forest (sons z) \<sigma> V col rk"
    and d: "\<And>a. a \<in> V \<Longrightarrow> dad z ! a = fst (\<sigma> a)" using assms(1) by (auto simp: dict_ok_def)
  let ?p = "lz_N + 1 + unat (textBuf z ! r)"
  have c: "unat (textBuf z ! r) < 256" using unsigned_less [of "textBuf z ! r", where 'a = nat] by simp
  obtain z1 where z1: "set_rson r lz_NIL z = Some z1" "relinked z z1" "sons z1 = (sons z)((r, True) := lz_NIL)" "dad z1 = dad z"
    using set_rson_ok [OF wf, of r lz_NIL] assms(2) by auto
  obtain z2 where z2: "set_lson r lz_NIL z1 = Some z2" "relinked z1 z2" "sons z2 = (sons z)((r, True) := lz_NIL, (r, False) := lz_NIL)" "dad z2 = dad z"
    using set_lson_ok [OF relinked_wf [OF z1(2)], of r lz_NIL] assms(2) z1(3,4) by auto
  let ?z = "z2\<lparr>matchLength := 0\<rparr>"
  have fz: "dict_wf ?z" "sons ?z = sons z2" "dad ?z = dad z" "length (textBuf ?z) = lz_N + lz_F - 1"
    using relinked_wf [OF z2(2)] z1(2) z2(2,4) assms(4) by (auto simp: dict_wf_def sons_def [abs_def] relinked_def)
  have f2: "forest (sons ?z) \<sigma> V col rk"
  proof (rule forest_cong [OF f])
    fix s assume "valid_slot V s"
    then have "fst s \<noteq> r" using assms(2,3) by (auto simp: valid_slot_def)
    then show "sons ?z s = sons z s" unfolding fz(2) z2(3) by auto
  qed simp_all
  have vs: "valid_slot V (?p, 0 \<le> (1 :: int))" using c by (auto simp: valid_slot_def)
  have pc: "if ?p \<in> V then col ?p = col r else ?p = lz_N + 1 + col r" using forestD(1) [OF f] assms(5) by auto
  have un: "\<And>a. a < lz_N \<Longrightarrow> a \<notin> V \<Longrightarrow> dad ?z ! a = lz_NIL" using reg fz(3) by auto
  have sr: "sons ?z (r, False) = lz_NIL" "sons ?z (r, True) = lz_NIL" unfolding fz(2) z2(3) by simp_all
  obtain res z3 where z3: "insertLoop r ?p 1 ?z = Some (res, z3)" "text_same ?z z3" "match_ok V col r z3"
      "case res of None \<Rightarrow> dict_ok z3 (insert r V) col | Some q \<Rightarrow> q \<in> V \<and> col q = col r \<and> links_same ?z z3"
    using insertLoop_ok [OF fz(1) f2 _ un assms(3,2) sr fz(4) vs pc] d fz(3) by (auto simp: match_ok_def)
  have ts: "text_same z z3" using z3(2) z1(2) z2(2) by (simp add: text_same_def relinked_def)
  have k: "idx (textBuf z) r = Some (textBuf z ! r)" using assms(2,4) by (simp add: idx_def lz_consts)
  show ?thesis
  proof (cases res)
    case None
    then have "InsertNode r z = Some z3" using k z1(1) z2(1) z3(1) by (simp add: InsertNode_def Let_def)
    then show ?thesis using z3(3,4) ts None by auto
  next
    case (Some q)
    then have q: "q \<in> V" "col q = col r" "links_same ?z z3" using z3(4) by auto
    have l: "dict_wf z3" "sons z3 = sons ?z" "dad z3 = dad ?z" using links_same_dict [OF q(3)] fz(1) by auto
    obtain z4 where z4: "do {
         dp \<leftarrow> idx (dad z3) q;
         z \<leftarrow> set_dad r dp z3;
         lp \<leftarrow> idx (lson z) q;
         z \<leftarrow> set_lson r lp z;
         rp \<leftarrow> idx (rson z) q;
         z \<leftarrow> set_rson r rp z;
         lp \<leftarrow> idx (lson z) q;
         z \<leftarrow> set_dad lp r z;
         rp \<leftarrow> idx (rson z) q;
         z \<leftarrow> set_dad rp r z;
         z \<leftarrow> replaceBelowDad q r z;
         set_dad q lz_NIL z
       } = Some z4" "relinked z3 z4" "dict_ok z4 (insert r (V - {q})) col"
      using replaceNode_ok [OF l(1) f2 [folded l(2)] _ _ assms(3,2) q(2,1)] d un unfolding l(3) fz(3) by auto
    have "InsertNode r z = Some z4" using k z1(1) z2(1) z3(1) z4(1) Some by (simp add: InsertNode_def Let_def)
    moreover have "text_same z z4" "match_ok V col r z4" using ts z3(3) z4(2) by (simp_all add: text_same_def relinked_def match_ok_def)
    ultimately show ?thesis using z4(3) by blast
  qed
qed

lemma InitTree_ok:
  assumes "dict_wf z"
  shows "\<exists>z'. InitTree z = Some z' \<and> dict_ok z' {} col \<and> text_same z z'"
proof -
  have "\<exists>z1. foldM (\<lambda>i z. do { rs \<leftarrow> upd (rson z) i lz_NIL; Some (z\<lparr>rson := rs\<rparr>) }) [lz_N + 1..<lz_N + 257] z = Some z1 \<and>
    (dict_wf z1 \<and> text_same z z1 \<and> (\<forall>j. lz_N + 1 \<le> j \<and> j < lz_N + 257 \<longrightarrow> rson z1 ! j = lz_NIL))"
    by (rule foldM_invariant [where I = "\<lambda>i z1. dict_wf z1 \<and> text_same z z1 \<and> (\<forall>j. lz_N + 1 \<le> j \<and> j < i \<longrightarrow> rson z1 ! j = lz_NIL)"])
      (use assms in \<open>auto simp: dict_wf_def text_same_def upd_def nth_list_update less_Suc_eq\<close>)
  then obtain z1 where 1: "foldM (\<lambda>i z. do { rs \<leftarrow> upd (rson z) i lz_NIL; Some (z\<lparr>rson := rs\<rparr>) }) [lz_N + 1..<lz_N + 257] z = Some z1"
    "dict_wf z1" "text_same z z1" "\<forall>j. lz_N + 1 \<le> j \<and> j < lz_N + 257 \<longrightarrow> rson z1 ! j = lz_NIL" by blast
  have "\<exists>z2. foldM (\<lambda>i z. do { ds \<leftarrow> upd (dad z) i lz_NIL; Some (z\<lparr>dad := ds\<rparr>) }) [0..<lz_N] z1 = Some z2 \<and>
    (dict_wf z2 \<and> text_same z z2 \<and> rson z2 = rson z1 \<and> (\<forall>j < lz_N. dad z2 ! j = lz_NIL))"
    by (rule foldM_invariant [where I = "\<lambda>i z2. dict_wf z2 \<and> text_same z z2 \<and> rson z2 = rson z1 \<and> (\<forall>j < i. dad z2 ! j = lz_NIL)"])
      (use 1 in \<open>auto simp: dict_wf_def text_same_def upd_def nth_list_update less_Suc_eq\<close>)
  then obtain z2 where 2: "foldM (\<lambda>i z. do { ds \<leftarrow> upd (dad z) i lz_NIL; Some (z\<lparr>dad := ds\<rparr>) }) [0..<lz_N] z1 = Some z2"
    "dict_wf z2" "text_same z z2" "rson z2 = rson z1" "\<forall>j < lz_N. dad z2 ! j = lz_NIL" by blast
  have "forest (sons z2) \<sigma> {} col rk" for \<sigma> rk
    by (rule forestI) (use 1(4) 2(4) in \<open>auto simp: valid_slot_def sons_def\<close>)
  then have "dict_ok z2 {} col" using 2(2,5) by (intro dict_okI) auto
  then show ?thesis using 1(1) 2(1,3) by (auto simp: InitTree_def)
qed

end
