(* ===== verification/Lzhuf_Window.thy ===== *)
theory Lzhuf_Window
  imports Lzhuf_Links
begin

unbundle bit_operations_syntax

text \<open>
  What the compressor and the decompressor have in common: the ring buffer as a window on the data, and tokens, which are
  the literals and the references to earlier data that a compressed stream consists of. A token knows its bits and what
  it adds to the data. \<open>encode\<close> emits the bits of one token.
\<close>

section \<open>The Huffman part of the state\<close>

definition graft :: "lzhuf \<Rightarrow> lzhuf \<Rightarrow> lzhuf" where
  "graft z y = y\<lparr>dad := dad z, lson := lson z, rson := rson z, textBuf := textBuf z, matchLength := matchLength z, matchPosition := matchPosition z\<rparr>"

definition huff_eq :: "lzhuf \<Rightarrow> lzhuf \<Rightarrow> bool" where
  "huff_eq z y \<longleftrightarrow> freq z = freq y \<and> prnt z = prnt y \<and> son z = son y"

lemma graft_fields [simp]:
  "freq (graft z y) = freq y" "prnt (graft z y) = prnt y" "son (graft z y) = son y"
  "textBuf (graft z y) = textBuf z" "dict_part (graft z y) = dict_part z"
  by (simp_all add: graft_def dict_part_def)

lemma graft_update [simp]:
  "(graft z y)\<lparr>freq := f\<rparr> = graft z (y\<lparr>freq := f\<rparr>)" "(graft z y)\<lparr>prnt := p\<rparr> = graft z (y\<lparr>prnt := p\<rparr>)" "(graft z y)\<lparr>son := s\<rparr> = graft z (y\<lparr>son := s\<rparr>)"
  by (simp_all add: graft_def)

lemma huff_eq_graft: "huff_eq z y \<Longrightarrow> graft z y = z"
  by (simp add: huff_eq_def graft_def)

lemma foldM_commute:
  assumes "\<And>i s s'. f i s = Some s' \<Longrightarrow> f i (g s) = Some (g s')"
  shows "foldM f is s = Some s' \<Longrightarrow> foldM f is (g s) = Some (g s')"
proof (induction "is" arbitrary: s)
  case (Cons i "is")
  then show ?case using assms by (auto simp: bind_eq_Some_conv)
qed simp

lemma reconst_graft:
  assumes "reconst y = Some y'"
  shows "reconst (graft z y) = Some (graft z y')"
proof -
  let ?g = "map_prod id (graft z) :: nat \<times> lzhuf \<Rightarrow> nat \<times> lzhuf"
  from assms obtain j y1 i y2 where 1: "foldM reconst_collect [0..<lz_T] (0, y) = Some (j, y1)"
      and 2: "foldM reconst_connect [lz_NumChar..<lz_T] (0, y1) = Some (i, y2)"
      and 3: "foldM reconst_parents [0..<lz_T] y2 = Some y'"
    by (auto simp: reconst_def bind_eq_Some_conv)
  have "reconst_collect i (?g s) = Some (?g s')" if "reconst_collect i s = Some s'" for i s s'
    using that by (auto simp: reconst_collect_def bind_eq_Some_conv split: prod.splits if_splits)
  from foldM_commute [of reconst_collect ?g, OF this 1]
  have a: "foldM reconst_collect [0..<lz_T] (0, graft z y) = Some (j, graft z y1)" by simp
  have "reconst_connect i (?g s) = Some (?g s')" if "reconst_connect i s = Some s'" for i s s'
    using that by (auto simp: reconst_connect_def bind_eq_Some_conv split: prod.splits if_splits)
  from foldM_commute [of reconst_connect ?g, OF this 2]
  have b: "foldM reconst_connect [lz_NumChar..<lz_T] (0, graft z y1) = Some (i, graft z y2)" by simp
  have "reconst_parents i (graft z s) = Some (graft z s')" if "reconst_parents i s = Some s'" for i s s'
    using that by (auto simp: reconst_parents_def bind_eq_Some_conv split: prod.splits if_splits)
  from foldM_commute [of reconst_parents "graft z", OF this 3] a b show ?thesis by (simp add: reconst_def)
qed

lemma swapNodes_graft: "swapNodes c l k y = Some y' \<Longrightarrow> swapNodes c l k (graft z y) = Some (graft z y')"
  unfolding swapNodes_def bind_eq_Some_conv by (elim exE conjE) auto

lemma update_step_graft:
  assumes "update_step c y = Some (c', y')"
  shows "update_step c (graft z y) = Some (c', graft z y')"
  using assms swapNodes_graft unfolding update_step_def
  by (auto simp: bind_eq_Some_conv Let_def split: if_splits)

lemma update_loop_graft:
  assumes "update_loop c y = Some y'"
  shows "update_loop c (graft z y) = Some (graft z y')"
proof (rule update_loop.raw_induct [OF _ assms])
  fix f :: "nat \<Rightarrow> lzhuf \<Rightarrow> lzhuf option" and c y y'
  assume IH: "\<And>c y y'. f c y = Some y' \<Longrightarrow> update_loop c (graft z y) = Some (graft z y')"
    and "do { (c, z) \<leftarrow> update_step c y; if c = 0 then Some z else f c z } = Some y'"
  then obtain c1 y1 where 1: "update_step c y = Some (c1, y1)" "(if c1 = 0 then Some y1 else f c1 y1) = Some y'"
    by (auto simp: bind_eq_Some_conv)
  then show "update_loop c (graft z y) = Some (graft z y')"
    using IH [of c1 y1 y'] update_step_graft [OF 1(1)] by (subst update_loop.simps) (auto split: if_splits)
qed

lemma update_graft:
  assumes "update c y = Some y'"
  shows "update c (graft z y) = Some (graft z y')"
  using assms reconst_graft update_loop_graft by (auto simp: update_def bind_eq_Some_conv split: if_splits)

lemma update_huff:
  assumes "huff_eq z y" "update c y = Some y'"
  shows "\<exists>z'. update c z = Some z' \<and> huff_eq z' y' \<and> dict_part z' = dict_part z"
  using update_graft [OF assms(2), of z] huff_eq_graft [OF assms(1)] by (simp add: huff_eq_def)

lemma tree_inv_huff: "huff_eq z y \<Longrightarrow> tree_inv z = tree_inv y"
  by (simp add: huff_eq_def tree_inv_def tree_shape_def child_def freq_order_def freq_sums_def weight_def)

lemma node_path_huff:
  assumes "prnt z = prnt y"
  shows "node_path z k = node_path y k"
proof (induction "lz_R - k" arbitrary: k rule: less_induct)
  case less
  show ?case
  proof (cases "k < lz_R \<and> k < prnt y ! k")
    case True
    then have "node_path z (prnt y ! k) = node_path y (prnt y ! k)" by (intro less) auto
    then show ?thesis using True assms unfolding node_path.simps [of z k] node_path.simps [of y k] by simp
  next
    case False
    then show ?thesis unfolding node_path.simps [of z k] node_path.simps [of y k] assms by (simp only: if_False)
  qed
qed

lemma char_code_huff: "huff_eq z y \<Longrightarrow> char_code z c = char_code y c"
  using node_path_huff [of z y "prnt y ! (c + lz_T)"] by (simp add: huff_eq_def char_code_def)

section \<open>The ring buffer\<close>

text \<open>The place of the byte number \<open>j\<close> in the ring, with byte 0 at \<open>base\<close>. The writer and the reader start at
  different places. Before the first byte there are spaces.\<close>

definition ring :: "nat \<Rightarrow> int \<Rightarrow> nat" where
  "ring base j = nat ((int base + j) mod int lz_N)"

definition byteAt :: "byte list \<Rightarrow> int \<Rightarrow> byte" where
  "byteAt data j = (if 0 \<le> j \<and> j < int (length data) then data ! nat j else 0x20)"

lemma N_pos [simp]: "0 < lz_N" "0 < int lz_N"
  by (simp_all add: lz_consts)

lemma ring_less [simp]: "ring base j < lz_N"
  by (simp add: ring_def nat_less_iff)

lemma int_ring: "int (ring base j) = (int base + j) mod int lz_N"
  by (simp add: ring_def)

lemma ring_add: "ring base (j + int i) = (ring base j + i) mod lz_N"
proof -
  have "int (ring base (j + int i)) = int ((ring base j + i) mod lz_N)"
    unfolding int_ring of_nat_mod of_nat_add by (simp add: mod_add_left_eq add.assoc)
  then show ?thesis by simp
qed

lemma ring_Suc: "(ring base j + 1) AND (lz_N - 1) = ring base (j + 1)"
  using ring_add [of base j 1] and_ring(2) by simp

lemma ring_eq:
  assumes "\<bar>j - k\<bar> < int lz_N"
  shows "ring base j = ring base k \<longleftrightarrow> j = k"
proof
  assume "ring base j = ring base k"
  then have "(int base + j) mod int lz_N = (int base + k) mod int lz_N" by (metis int_ring)
  then have "int lz_N dvd j - k" by (simp add: mod_eq_dvd_iff)
  then show "j = k" using assms dvd_imp_le_int [of "j - k" "int lz_N"] by (cases "j = k") auto
qed simp

lemma ring_start: "base < lz_N \<Longrightarrow> 0 \<le> int base + j \<Longrightarrow> int base + j < int lz_N \<Longrightarrow> ring base j = nat (int base + j)"
  by (simp add: ring_def)

lemma ring_dist: "(int (ring base j) - int (ring base k)) mod int lz_N = (j - k) mod int lz_N"
  unfolding int_ring by (simp add: mod_diff_eq)

lemma and_ring_int: "(x :: int) AND (int lz_N - 1) = x mod int lz_N"
proof -
  have "int lz_N - 1 = mask 11" by (simp add: lz_N_def mask_eq_exp_minus_1)
  then show ?thesis by (simp only: take_bit_eq_mask [symmetric] take_bit_eq_mod) (simp add: lz_N_def)
qed

lemma matchDist_ring:
  assumes "k < j" "j - k < int lz_N"
  shows "matchDist (ring base j) (ring base k) = j - k - 1"
  using assms ring_dist [of base j k] by (simp add: matchDist_def and_ring_int)

text \<open>The ring holds the bytes from \<open>lo\<close> up to \<open>hi\<close>; the first places are repeated after the end of the ring.\<close>

definition holds :: "nat \<Rightarrow> byte list \<Rightarrow> int \<Rightarrow> int \<Rightarrow> byte list \<Rightarrow> bool" where
  "holds base data lo hi tb \<longleftrightarrow> length tb = lz_N + lz_F - 1 \<and> (\<forall>j. lo \<le> j \<and> j < hi \<longrightarrow> tb ! ring base j = byteAt data j)"

definition mirrors :: "nat \<Rightarrow> byte list \<Rightarrow> int \<Rightarrow> int \<Rightarrow> byte list \<Rightarrow> bool" where
  "mirrors base data lo hi tb \<longleftrightarrow> (\<forall>j. lo \<le> j \<and> j < hi \<and> ring base j < lz_F - 1 \<longrightarrow> tb ! (lz_N + ring base j) = byteAt data j)"

lemma holds_ahead:
  assumes "holds base data lo hi tb" "mirrors base data lo hi tb" "i < lz_F" "lo \<le> j + int i" "j + int i < hi"
  shows "tb ! (ring base j + i) = byteAt data (j + int i)"
proof (cases "ring base j + i < lz_N")
  case True
  then have "ring base (j + int i) = ring base j + i" by (simp add: ring_add)
  then show ?thesis using assms(1,4,5) unfolding holds_def by metis
next
  case False
  have "ring base j + i < 2 * lz_N" using ring_less [of base j] assms(3) by (simp add: lz_consts)
  then have r: "ring base (j + int i) = ring base j + i - lz_N" using False by (simp add: ring_add mod_if le_mod_geq)
  then have "ring base (j + int i) < lz_F - 1" "lz_N + ring base (j + int i) = ring base j + i"
    using False ring_less [of base j] assms(3) by linarith+
  then show ?thesis using assms(2,4,5) unfolding mirrors_def by metis
qed

lemma holds_store:
  assumes "holds base data lo hi tb" "lo \<le> lo'" "hi - int lz_N < lo'" "b = byteAt data hi"
  shows "holds base data lo' (hi + 1) (tb[ring base hi := b])"
proof -
  have l: "ring base hi < length tb" using assms(1) ring_less [of base hi] by (simp add: holds_def lz_consts)
  have "tb[ring base hi := b] ! ring base j = byteAt data j" if "lo' \<le> j" "j < hi + 1" for j
  proof (cases "j = hi")
    case True
    then show ?thesis using l assms(4) by simp
  next
    case False
    then have "ring base j \<noteq> ring base hi" using that assms(3) ring_eq [of j hi base] by auto
    then show ?thesis using assms(1,2) that False by (simp add: holds_def)
  qed
  then show ?thesis using assms(1) by (simp add: holds_def)
qed

lemma mirrors_store:
  assumes "mirrors base data lo hi tb" "length tb = lz_N + lz_F - 1" "lo \<le> lo'" "hi - int lz_N < lo'" "b = byteAt data hi"
  shows "mirrors base data lo' (hi + 1) (if ring base hi < lz_F - 1 then tb[ring base hi := b, ring base hi + lz_N := b] else tb[ring base hi := b])"
    (is "mirrors _ _ _ _ ?tb")
proof -
  have "?tb ! (lz_N + ring base j) = byteAt data j" if "lo' \<le> j" "j < hi + 1" "ring base j < lz_F - 1" for j
  proof (cases "j = hi")
    case True
    then show ?thesis using that assms(2,5) by (simp add: add.commute)
  next
    case False
    then have "ring base j \<noteq> ring base hi" using that assms(4) ring_eq [of j hi base] by auto
    moreover have "ring base hi \<noteq> lz_N + ring base j" using ring_less [of base hi] by linarith
    ultimately have "?tb ! (lz_N + ring base j) = tb ! (lz_N + ring base j)" by auto
    then show ?thesis using assms(1,3) that False by (simp add: mirrors_def)
  qed
  then show ?thesis by (auto simp: mirrors_def)
qed

lemma holds_mono: "holds base data lo hi tb \<Longrightarrow> lo \<le> lo' \<Longrightarrow> hi' \<le> hi \<Longrightarrow> holds base data lo' hi' tb"
  by (auto simp: holds_def)

lemma mirrors_mono: "mirrors base data lo hi tb \<Longrightarrow> lo \<le> lo' \<Longrightarrow> hi' \<le> hi \<Longrightarrow> mirrors base data lo' hi' tb"
  by (auto simp: mirrors_def)

section \<open>Tokens\<close>

text \<open>What the writer emits: a byte, or the distance less one and the length of a repetition.\<close>

datatype token = Lit byte | Ref nat nat

fun tok_char :: "token \<Rightarrow> nat" where
  "tok_char (Lit b) = unat b"
| "tok_char (Ref p m) = 255 - lz_Threshold + m"

fun tok_len :: "token \<Rightarrow> nat" where
  "tok_len (Lit b) = 1"
| "tok_len (Ref p m) = m"

fun tok_bits :: "lzhuf \<Rightarrow> token \<Rightarrow> bool list" where
  "tok_bits z (Lit b) = char_code z (unat b)"
| "tok_bits z (Ref p m) = char_code z (255 - lz_Threshold + m) @ pos_bits p"

abbreviation tok_next :: "lzhuf \<Rightarrow> token \<Rightarrow> lzhuf option" where
  "tok_next z t \<equiv> update (tok_char t) z"

text \<open>A token says what is at byte \<open>P\<close> of the data.\<close>

fun tok_ok :: "byte list \<Rightarrow> nat \<Rightarrow> token \<Rightarrow> bool" where
  "tok_ok data P (Lit b) \<longleftrightarrow> P < length data \<and> b = data ! P"
| "tok_ok data P (Ref p m) \<longleftrightarrow> lz_Threshold < m \<and> m \<le> lz_F \<and> P + m \<le> length data \<and> p + 1 \<le> P + lz_F \<and> p + 1 \<le> lz_N - lz_F \<and>
     (\<forall>k < m. byteAt data (int P - int p - 1 + int k) = byteAt data (int P + int k))"

fun toks_ok :: "byte list \<Rightarrow> nat \<Rightarrow> token list \<Rightarrow> bool" where
  "toks_ok data P [] \<longleftrightarrow> True"
| "toks_ok data P (t # ts) \<longleftrightarrow> tok_ok data P t \<and> toks_ok data (P + tok_len t) ts"

definition toks_len :: "token list \<Rightarrow> nat" where
  "toks_len ts = sum_list (map tok_len ts)"

lemma toks_ok_append: "toks_ok data P (ts @ us) \<longleftrightarrow> toks_ok data P ts \<and> toks_ok data (P + toks_len ts) us"
  by (induction ts arbitrary: P) (simp_all add: toks_len_def add.assoc)

lemma toks_len_append [simp]: "toks_len (ts @ us) = toks_len ts + toks_len us"
  by (simp add: toks_len_def)

lemma toks_len_simps [simp]: "toks_len [] = 0" "toks_len (t # ts) = tok_len t + toks_len ts"
  by (simp_all add: toks_len_def)

lemma tok_len_pos: "tok_ok data P t \<Longrightarrow> 0 < tok_len t"
  by (cases t) auto

lemma toks_count: "toks_ok data P ts \<Longrightarrow> length ts \<le> toks_len ts"
proof (induction ts arbitrary: P)
  case (Cons t ts)
  then have "length ts \<le> toks_len ts" "0 < tok_len t" using tok_len_pos by auto
  then show ?case by simp
qed simp

lemma tok_char_less: "tok_ok data P t \<Longrightarrow> tok_char t < lz_NumChar"
proof (cases t)
  case (Lit b)
  then show ?thesis using unsigned_less [of b, where 'a = nat] by (simp add: lz_consts)
qed (auto simp: lz_consts)

lemma code_all_snoc:
  "foldM (\<lambda>t z. tok_next z t) ts z = Some z' \<Longrightarrow>
   code_all tok_bits tok_next z (ts @ us) = code_all tok_bits tok_next z ts @ code_all tok_bits tok_next z' us"
  by (induction ts arbitrary: z) (auto simp: bind_eq_Some_conv split: option.splits)

section \<open>What the writer has emitted\<close>

definition total_weight :: "lzhuf \<Rightarrow> nat" where
  "total_weight z = (\<Sum>d < lz_NumChar. weight z d)"

text \<open>\<open>y\<close> is the Huffman tree after the tokens \<open>ts\<close>, starting with \<open>z0\<close>. As long as no code can be longer than 16
  bits, the codes of the tokens are what has been written.\<close>

definition emitted :: "lzhuf \<Rightarrow> byte list \<Rightarrow> token list \<Rightarrow> Writer \<Rightarrow> bool" where
  "emitted z0 data ts w \<longleftrightarrow> werr w = None \<and> toks_ok data 0 ts \<and>
     (\<exists>y. foldM (\<lambda>t z. tok_next z t) ts z0 = Some y \<and> huff_eq (w_z w) y \<and> tree_inv y \<and>
        (length ts \<le> 3867 \<longrightarrow> wf_out w \<and> out_bits w = code_all tok_bits tok_next z0 ts \<and> length (out_bits w) \<le> 30 * length ts \<and>
          total_weight y = lz_NumChar + length ts))"

lemma total_update:
  assumes "tree_inv z" "c < lz_NumChar" "total_weight z < lz_MaxFreq"
  shows "\<exists>z'. update c z = Some z' \<and> tree_inv z' \<and> total_weight z' = total_weight z + 1"
proof -
  obtain z' where z': "update c z = Some z'" "tree_inv z'" "\<forall>d < lz_NumChar. weight z' d = count_char c (weight z) d"
    using update_ok [of z c] assms(1,2) by auto
  have "total_weight z' = (\<Sum>d < lz_NumChar. ((weight z)(c := weight z c + 1)) d)"
    unfolding total_weight_def using z'(3) count_char_below [of "weight z" c] assms(3) by (intro sum.cong) (auto simp: total_weight_def)
  also have "\<dots> = total_weight z + 1" using total_bump assms(2) by (simp add: total_weight_def)
  finally show ?thesis using z' by blast
qed

text \<open>A few fields of the writer have changed that do not matter for what is emitted.\<close>

lemma emitted_cong:
  assumes "emitted z0 data ts w" "huff_eq (w_z w') (w_z w)" "wbuf w' = wbuf w" "putbuf w' = putbuf w" "putlen w' = putlen w" "werr w' = werr w"
  shows "emitted z0 data ts w'"
  using assms by (auto simp: emitted_def huff_eq_def wf_out_def out_bits_def)

lemma putCode_werr [simp]: "werr (putCode l c w) = werr w"
  by (simp add: putCode_def WriteByte_def Let_def)

lemma encodeChar_total:
  assumes inv: "tree_inv (w_z w)" and c: "c < lz_NumChar"
  shows "\<exists>w'. encodeChar c w = Some w' \<and> update c (w_z w) = Some (w_z w') \<and> werr w' = werr w"
proof -
  let ?z = "w_z w" let ?k = "prnt ?z ! (c + lz_T)"
  have z: "tree_shape ?z" using inv by (simp add: tree_inv_def)
  have k: "?k < lz_R" "idx (prnt ?z) (c + lz_T) = Some ?k"
    using prnt_leaf(1) [OF z c] tree_shape_lengths(2) [OF z] c by (auto simp: array_simps)
  obtain j i where "encodeChar_loop ?z 0 0 ?k = Some (j, i)" using encodeChar_loop_ok [OF z k(1), of 0 0] by blast
  moreover have "w_z (putCode j i w) = ?z" by (simp add: putCode_def WriteByte_def Let_def)
  moreover obtain z' where "update c ?z = Some z'" using update_total [OF inv c] by blast
  ultimately show ?thesis using k(2) putCode_werr [of j i w] by (simp add: encodeChar_def)
qed

lemma encodeChar_emits:
  assumes e: "emitted z0 data ts w" and c: "c < lz_NumChar" and y: "foldM (\<lambda>t z. tok_next z t) ts z0 = Some y"
  shows "\<exists>w' y'. encodeChar c w = Some w' \<and> werr w' = None \<and> update c y = Some y' \<and> huff_eq (w_z w') y' \<and> tree_inv y' \<and>
    (length ts < 3867 \<longrightarrow> wf_out w' \<and> out_bits w' = out_bits w @ char_code y c \<and> length (char_code y c) \<le> 16 \<and> total_weight y' = total_weight y + 1) \<and>
    w' = w\<lparr>wbuf := wbuf w', putbuf := putbuf w', putlen := putlen w', werr := werr w', w_z := w_z w'\<rparr> \<and>
    dict_part (w_z w') = dict_part (w_z w)"
proof -
  have y': "huff_eq (w_z w) y" "tree_inv y" "werr w = None" using e y by (auto simp: emitted_def)
  have inv: "tree_inv (w_z w)" using tree_inv_huff [OF y'(1)] y'(2) by simp
  obtain w' where w': "encodeChar c w = Some w'" "update c (w_z w) = Some (w_z w')" "werr w' = None"
    using encodeChar_total [OF inv c] y'(3) by auto
  obtain y1 where y1: "update c y = Some y1" "tree_inv y1" using update_total [OF y'(2) c] by blast
  have "wf_out w' \<and> out_bits w' = out_bits w @ char_code y c \<and> length (char_code y c) \<le> 16 \<and> total_weight y1 = total_weight y + 1" if "length ts < 3867"
  proof -
    have t: "total_weight y = lz_NumChar + length ts" "wf_out w" using e y that by (auto simp: emitted_def)
    have short: "length (char_code y c) \<le> 16"
      using code_length_short [OF y'(2) c] t(1) that by (simp add: total_weight_def lz_consts)
    have cc: "char_code (w_z w) c = char_code y c" by (rule char_code_huff [OF y'(1)])
    have "wf_out w'" "out_bits w' = out_bits w @ char_code y c"
      using encodeChar_ok [OF t(2) inv c] short w'(1) unfolding cc by auto
    moreover have "total_weight y1 = total_weight y + 1"
      using total_update [OF y'(2) c] t(1) that y1(1) by (auto simp: lz_consts)
    ultimately show ?thesis using short by blast
  qed
  moreover have "huff_eq (w_z w') y1" "dict_part (w_z w') = dict_part (w_z w)" using update_huff [OF y'(1) y1(1)] w'(2) by auto
  moreover have "w' = w\<lparr>wbuf := wbuf w', putbuf := putbuf w', putlen := putlen w', werr := werr w', w_z := w_z w'\<rparr>"
    using w'(1) by (auto simp: encodeChar_def bind_eq_Some_conv putCode_def WriteByte_def Let_def split: if_splits)
  ultimately show ?thesis using w' y1 by blast
qed

definition coded :: "Writer \<Rightarrow> Writer \<Rightarrow> bool" where
  "coded w w' \<longleftrightarrow> w_out w' = w_out w \<and> w_crc16 w' = w_crc16 w \<and> w_len w' = w_len w \<and> w_r w' = w_r w \<and> w_s w' = w_s w \<and>
     w_preFilled w' = w_preFilled w \<and> w_fileSize w' = w_fileSize w \<and>
     dad (w_z w') = dad (w_z w) \<and> lson (w_z w') = lson (w_z w) \<and> rson (w_z w') = rson (w_z w) \<and> textBuf (w_z w') = textBuf (w_z w)"

lemma coded_trans: "coded w1 w2 \<Longrightarrow> coded w2 w3 \<Longrightarrow> coded w1 w3"
  by (simp add: coded_def)

lemma encodeChar_coded:
  assumes "w' = w\<lparr>wbuf := wbuf w', putbuf := putbuf w', putlen := putlen w', werr := werr w', w_z := w_z w'\<rparr>" "dict_part (w_z w') = dict_part (w_z w)"
  shows "coded w w'" "w_lastMatchLength w' = w_lastMatchLength w"
proof -
  have "w_out w' = w_out w" "w_crc16 w' = w_crc16 w" "w_len w' = w_len w" "w_r w' = w_r w" "w_s w' = w_s w" "w_preFilled w' = w_preFilled w"
    "w_fileSize w' = w_fileSize w" "w_lastMatchLength w' = w_lastMatchLength w"
    by (subst assms(1), simp)+
  then show "coded w w'" "w_lastMatchLength w' = w_lastMatchLength w" using assms(2) by (simp_all add: coded_def dict_part_def)
qed

lemma putCode_keeps:
  fixes w :: Writer
  shows "coded w (putCode l c w) \<and> w_z (putCode l c w) = w_z w \<and> w_lastMatchLength (putCode l c w) = w_lastMatchLength w"
  by (simp add: putCode_def WriteByte_def Let_def coded_def)

lemma encodePosition_total: "p < 4096 \<Longrightarrow> \<exists>w'. encodePosition p w = Some w'"
proof -
  assume "p < 4096"
  then have "drop_bit 6 p < 64" by (simp add: drop_bit_eq_div less_mult_imp_div_less)
  moreover have "length pLen = 64" "length pCode = 64" by (simp_all add: pLen_def pCode_def)
  ultimately show ?thesis by (simp add: encodePosition_def idx_def Let_def)
qed

lemma encodePosition_coded:
  assumes "p < 4096" "encodePosition p w = Some w'"
  shows "(wf_out w \<longrightarrow> wf_out w' \<and> out_bits w' = out_bits w @ pos_bits p) \<and> coded w w' \<and> w_z w' = w_z w \<and>
    w_lastMatchLength w' = w_lastMatchLength w \<and> werr w' = werr w"
proof -
  obtain l1 c1 l2 c2 where "w' = putCode l2 c2 (putCode l1 c1 w)"
    using assms(2) by (auto simp: encodePosition_def bind_eq_Some_conv Let_def)
  then have "coded w w'" "w_z w' = w_z w" "w_lastMatchLength w' = w_lastMatchLength w" "werr w' = werr w"
    using putCode_keeps [of w l1 c1] putCode_keeps [of "putCode l1 c1 w" l2 c2] coded_trans by auto
  then show ?thesis using encodePosition_out [OF _ assms(1), of w] assms(2) by auto
qed

lemma length_pos_bits: "p < 4096 \<Longrightarrow> length (pos_bits p) \<le> 14"
proof -
  assume "p < 4096"
  then have "drop_bit 6 p < 64" by (simp add: drop_bit_eq_div less_mult_imp_div_less)
  then show ?thesis using pos_table_nth(4) by (simp add: pos_bits_def)
qed

lemma emitted_snoc:
  assumes "emitted z0 data ts w" "foldM (\<lambda>t z. tok_next z t) ts z0 = Some y" "tok_ok data (toks_len ts) t"
    and "werr w' = None" "tok_next y t = Some y'" "huff_eq (w_z w') y'" "tree_inv y'"
    and "length ts < 3867 \<Longrightarrow> wf_out w' \<and> out_bits w' = out_bits w @ tok_bits y t \<and> length (tok_bits y t) \<le> 30 \<and> total_weight y' = total_weight y + 1"
  shows "emitted z0 data (ts @ [t]) w'"
proof -
  have f: "foldM (\<lambda>t z. tok_next z t) (ts @ [t]) z0 = Some y'" using assms(2,5) by (simp add: foldM_append)
  have "wf_out w' \<and> out_bits w' = code_all tok_bits tok_next z0 (ts @ [t]) \<and> length (out_bits w') \<le> 30 * length (ts @ [t]) \<and>
      total_weight y' = lz_NumChar + length (ts @ [t])" if "length (ts @ [t]) \<le> 3867"
  proof -
    have w: "out_bits w = code_all tok_bits tok_next z0 ts" "length (out_bits w) \<le> 30 * length ts" "total_weight y = lz_NumChar + length ts"
      using assms(1,2) that by (auto simp: emitted_def)
    have w': "wf_out w'" "out_bits w' = out_bits w @ tok_bits y t" "length (tok_bits y t) \<le> 30" "total_weight y' = total_weight y + 1"
      using assms(8) that by auto
    have "length (out_bits w') \<le> 30 * length (ts @ [t])" unfolding w'(2) using w(2) w'(3) by simp
    then show ?thesis using w w' code_all_snoc [OF assms(2), of "[t]"] assms(5) by simp
  qed
  then show ?thesis using assms(1,3,4,6,7) f unfolding emitted_def by (auto simp: toks_ok_append simp del: length_append)
qed

text \<open>The token that \<open>encode\<close> emits.\<close>

definition next_token :: "Writer \<Rightarrow> token" where
  "next_token w = (let m = min (matchLength (w_z w)) (w_len w) in
     if m \<le> lz_Threshold then Lit (textBuf (w_z w) ! w_r w) else Ref (nat (matchPosition (w_z w))) m)"

lemma encode_ok:
  assumes e: "emitted z0 data ts w" and len: "0 < w_len w" and r: "w_r w < length (textBuf (w_z w))"
    and t: "tok_ok data (toks_len ts) (next_token w)"
    and pos: "lz_Threshold < min (matchLength (w_z w)) (w_len w) \<Longrightarrow> 0 \<le> matchPosition (w_z w)"
  shows "\<exists>w'. encode w = Some w' \<and> emitted z0 data (ts @ [next_token w]) w' \<and> coded w w' \<and> w_lastMatchLength w' = int (tok_len (next_token w))"
proof -
  define m where "m = min (matchLength (w_z w)) (w_len w)"
  define w1 where "w1 = (if w_len w < matchLength (w_z w) then w\<lparr>w_z := (w_z w)\<lparr>matchLength := w_len w\<rparr>\<rparr> else w)"
  have w1: "matchLength (w_z w1) = m" "coded w w1" "matchPosition (w_z w1) = matchPosition (w_z w)" "w_len w1 = w_len w"
    by (auto simp: w1_def m_def coded_def)
  have e1: "emitted z0 data ts w1" by (rule emitted_cong [OF e]) (simp_all add: w1_def huff_eq_def)
  obtain y where y: "foldM (\<lambda>t z. tok_next z t) ts z0 = Some y" using e by (auto simp: emitted_def)
  show ?thesis
  proof (cases "m \<le> lz_Threshold")
    case True
    let ?b = "textBuf (w_z w) ! w_r w" let ?w2 = "w1\<lparr>w_z := (w_z w1)\<lparr>matchLength := 1\<rparr>\<rparr>"
    have nt: "next_token w = Lit ?b" using True by (simp add: next_token_def m_def [symmetric])
    have e2: "emitted z0 data ts ?w2" by (rule emitted_cong [OF e1]) (simp_all add: huff_eq_def)
    have c2: "coded w ?w2" using w1(2) by (simp add: coded_def)
    have "tok_char (Lit ?b) < lz_NumChar" using tok_char_less t nt by metis
    then obtain w3 y' where w3: "encodeChar (unat ?b) ?w2 = Some w3" "werr w3 = None" "update (unat ?b) y = Some y'" "huff_eq (w_z w3) y'" "tree_inv y'"
        "length ts < 3867 \<Longrightarrow> wf_out w3 \<and> out_bits w3 = out_bits ?w2 @ char_code y (unat ?b) \<and> length (char_code y (unat ?b)) \<le> 16 \<and> total_weight y' = total_weight y + 1" "dict_part (w_z w3) = dict_part (w_z ?w2)"
        "w3 = ?w2\<lparr>wbuf := wbuf w3, putbuf := putbuf w3, putlen := putlen w3, werr := werr w3, w_z := w_z w3\<rparr>"
      using encodeChar_emits [OF e2 _ y, of "unat ?b"] by auto
    let ?w4 = "w3\<lparr>w_lastMatchLength := int (matchLength (w_z w3))\<rparr>"
    have i: "idx (textBuf (w_z w1)) (w_r w1) = Some ?b" using w1(2) r by (simp add: coded_def idx_def)
    have "encode w = Some ?w4"
      using len True w1(1) i w3(1) unfolding encode_def Let_def w1_def [symmetric] by (simp add: w1_def)
    moreover have "emitted z0 data (ts @ [Lit ?b]) w3"
      by (rule emitted_snoc [OF e2 y _ w3(2) _ w3(4,5)]) (use t nt w3(3,6) in simp_all)
    then have "emitted z0 data (ts @ [Lit ?b]) ?w4" by (rule emitted_cong) (simp_all add: huff_eq_def)
    moreover have "coded w ?w4" using encodeChar_coded(1) [OF w3(8,7)] c2 by (simp add: coded_def)
    moreover have "matchLength (w_z w3) = 1" using w3(7) by (simp add: dict_part_def)
    ultimately show ?thesis using nt by auto
  next
    case False
    let ?p = "nat (matchPosition (w_z w))" let ?c = "255 - lz_Threshold + m"
    have nt: "next_token w = Ref ?p m" using False by (simp add: next_token_def m_def [symmetric] Let_def)
    have p: "?p < 4096" "\<not> matchPosition (w_z w) < 0" using t nt pos False by (auto simp: m_def lz_consts)
    have "tok_char (Ref ?p m) < lz_NumChar" using tok_char_less t nt by metis
    then obtain w3 y' where w3: "encodeChar ?c w1 = Some w3" "werr w3 = None" "update ?c y = Some y'" "huff_eq (w_z w3) y'" "tree_inv y'"
        "length ts < 3867 \<Longrightarrow> wf_out w3 \<and> out_bits w3 = out_bits w1 @ char_code y ?c \<and> length (char_code y ?c) \<le> 16 \<and> total_weight y' = total_weight y + 1" "dict_part (w_z w3) = dict_part (w_z w1)"
        "w3 = w1\<lparr>wbuf := wbuf w3, putbuf := putbuf w3, putlen := putlen w3, werr := werr w3, w_z := w_z w3\<rparr>"
      using encodeChar_emits [OF e1 _ y, of ?c] by auto
    have z3: "matchPosition (w_z w3) = matchPosition (w_z w)" "matchLength (w_z w3) = m" using w3(7) w1(1,3) by (simp_all add: dict_part_def)
    obtain w4 where w4: "encodePosition ?p w3 = Some w4" using encodePosition_total [OF p(1)] by blast
    note p4 = encodePosition_coded [OF p(1) w4]
    let ?w5 = "w4\<lparr>w_lastMatchLength := int (matchLength (w_z w4))\<rparr>"
    have "encode w = Some ?w5"
      using len False w1(1) w3(1) w4 z3 p(2) unfolding encode_def Let_def w1_def [symmetric] by (simp add: w1_def)
    moreover have "emitted z0 data (ts @ [Ref ?p m]) w4"
      by (rule emitted_snoc [OF e1 y _ _ _ _ w3(5)]) (use t nt w3(2,3,4,6) p4 length_pos_bits [OF p(1)] in simp_all)
    then have "emitted z0 data (ts @ [Ref ?p m]) ?w5" by (rule emitted_cong) (simp_all add: huff_eq_def)
    moreover have "coded w ?w5" using encodeChar_coded(1) [OF w3(8,7)] w1(2) p4 by (simp add: coded_def)
    moreover have "matchLength (w_z w4) = m" using p4 z3 by simp
    ultimately show ?thesis using nt by auto
  qed
qed

end
