(* ===== verification/Lzhuf_Compress.thy ===== *)
theory Lzhuf_Compress
  imports Lzhuf_Window
begin

unbundle bit_operations_syntax

text \<open>
  The compressor as a whole (\<^verbatim>\<open>src/lzhuf/writer.go\<close>): an invariant that connects the position in the data, the ring
  buffer, the dictionary and the tokens emitted so far is kept by \<open>Write\<close> and by the draining of the lookahead buffer in
  \<open>Close\<close>. At the end the tokens stand for exactly the data.
\<close>

section \<open>The writer\<close>

abbreviation wpos :: "int \<Rightarrow> nat" where
  "wpos \<equiv> ring (lz_N - lz_F)"

abbreviation oldest :: "nat \<Rightarrow> int" where
  "oldest E \<equiv> max (- int lz_F) (int E - int lz_N)"

text \<open>The first byte of the string at a place of the ring, seen from byte \<open>R\<close>.\<close>

definition first_byte :: "byte list \<Rightarrow> nat \<Rightarrow> nat \<Rightarrow> nat" where
  "first_byte data R a = unat (byteAt data (int R - (int (wpos (int R)) - int a) mod int lz_N))"

lemma first_byte_wpos: "int R - int lz_N < j \<Longrightarrow> j \<le> int R \<Longrightarrow> first_byte data R (wpos j) = unat (byteAt data j)"
  using ring_dist [of "lz_N - lz_F" "int R" j] by (simp add: first_byte_def)

lemma ring_period: "ring base (j - int lz_N) = ring base j"
proof -
  have "int (ring base (j - int lz_N)) = int (ring base j)"
    unfolding int_ring using mod_diff_right_eq [of "int base + j" "int lz_N" "int lz_N"] by (simp add: add_diff_eq)
  then show ?thesis by simp
qed

lemma dict_ok_col: "dict_ok z V col \<Longrightarrow> (\<And>a. a \<in> V \<Longrightarrow> col' a = col a) \<Longrightarrow> dict_ok z V col'"
  unfolding dict_ok_def using forest_cong by metis

lemma insert_current:
  assumes h: "holds (lz_N - lz_F) data (oldest E) (int E) (textBuf z)" "mirrors (lz_N - lz_F) data (oldest E) (int E) (textBuf z)"
    and E: "R < E" "E \<le> R + lz_F + 1" "E \<le> length data"
    and d: "dict_ok z V (first_byte data R)" "V \<subseteq> wpos ` {j. - int lz_F \<le> j \<and> int R + int lz_F - int lz_N \<le> j \<and> j < int R}"
  shows "\<exists>z' V'. InsertNode (wpos (int R)) z = Some z' \<and> dict_ok z' V' (first_byte data R) \<and> V' \<subseteq> insert (wpos (int R)) V \<and> text_same z z' \<and>
    textBuf z ! wpos (int R) = data ! R \<and>
    (lz_Threshold < min (matchLength z') (E - R) \<longrightarrow> 0 \<le> matchPosition z' \<and> tok_ok data R (Ref (nat (matchPosition z')) (min (matchLength z') (E - R))))"
proof -
  let ?r = "wpos (int R)"
  have tb: "length (textBuf z) = lz_N + lz_F - 1" using h(1) by (simp add: holds_def)
  have oR: "oldest E \<le> int R" using E by (simp add: lz_consts)
  have here: "textBuf z ! ?r = byteAt data (int R)" using h(1) oR E(1) by (simp add: holds_def)
  then have here': "textBuf z ! ?r = data ! R" using E by (simp add: byteAt_def)
  have rV: "?r \<notin> V"
  proof
    assume "?r \<in> V"
    then obtain j where "wpos (int R) = wpos j" "int R + int lz_F - int lz_N \<le> j" "j < int R" using d(2) by auto
    then show False using ring_eq [of "int R" j] by (simp add: lz_consts)
  qed
  have "first_byte data R ?r = unat (textBuf z ! ?r)" using first_byte_wpos [of R "int R" data] here by simp
  then obtain z' V' where z': "InsertNode ?r z = Some z'" "dict_ok z' V' (first_byte data R)" "V' \<subseteq> insert ?r V" "text_same z z'"
      "match_ok V (first_byte data R) ?r z'"
    using InsertNode_ok [OF d(1) _ rV tb] by auto
  have "0 \<le> matchPosition z' \<and> tok_ok data R (Ref (nat (matchPosition z')) (min (matchLength z') (E - R)))"
    if m: "lz_Threshold < min (matchLength z') (E - R)"
  proof -
    have tx: "textBuf z' = textBuf z" using z'(4) by (simp add: text_same_def)
    obtain q where q: "q \<in> V" "first_byte data R q = first_byte data R ?r" "matchPosition z' = matchDist ?r q"
        "\<And>i. 1 \<le> i \<Longrightarrow> i < matchLength z' \<Longrightarrow> textBuf z ! (?r + i) = textBuf z ! (q + i)" and F: "matchLength z' \<le> lz_F"
      using z'(5) m unfolding match_ok_def tx by auto
    obtain j where j: "q = wpos j" "- int lz_F \<le> j" "int R + int lz_F - int lz_N \<le> j" "j < int R" using q(1) d(2) by auto
    have pos: "matchPosition z' = int R - j - 1" unfolding q(3) j(1) using j by (intro matchDist_ring) (auto simp: lz_consts)
    have first: "byteAt data j = byteAt data (int R)"
      using q(2) j first_byte_wpos [of R j data] first_byte_wpos [of R "int R" data] by (simp add: lz_consts word_unat_eq_iff)
    have "byteAt data (j + int k) = byteAt data (int R + int k)" if k: "k < min (matchLength z') (E - R)" for k
    proof (cases "k = 0")
      case False
      have "textBuf z ! (?r + k) = byteAt data (int R + int k)"
        by (rule holds_ahead [OF h]) (use k F oR E in auto)
      moreover have "textBuf z ! (wpos j + k) = byteAt data (j + int k)"
        by (rule holds_ahead [OF h]) (use k F False E j in auto)
      ultimately show ?thesis using q(4) [of k] False k unfolding j(1) by simp
    qed (simp add: first)
    moreover have "int R - int (nat (matchPosition z')) - 1 = j" using pos j by simp
    ultimately show ?thesis using pos j m F E by (auto simp: lz_consts)
  qed
  then show ?thesis using z' here' by blast
qed

definition winv :: "lzhuf \<Rightarrow> byte list \<Rightarrow> token list \<Rightarrow> nat \<Rightarrow> nat \<Rightarrow> Writer \<Rightarrow> bool" where
  "winv z0 data ts R E w \<longleftrightarrow> R \<le> E \<and> E \<le> length data \<and> E \<le> R + lz_F \<and>
     w_len w = E - R \<and> w_r w = wpos (int R) \<and> w_s w = wpos (int R + int lz_F) \<and>
     holds (lz_N - lz_F) data (oldest E) (int E) (textBuf (w_z w)) \<and> mirrors (lz_N - lz_F) data (oldest E) (int E) (textBuf (w_z w)) \<and>
     (\<exists>V. dict_ok (w_z w) V (first_byte data R) \<and>
        V \<subseteq> wpos ` {j. - int (min E lz_F) \<le> j \<and> int R + int lz_F - int lz_N \<le> j \<and> j < int R}) \<and>
     emitted z0 data ts w \<and> R \<le> toks_len ts \<and> toks_len ts \<le> E \<and> (0 < E \<longrightarrow> w_lastMatchLength w = int (toks_len ts) - int R + 1)"


lemma winvE:
  assumes "winv z0 data ts R E w"
  obtains V where "R \<le> E" "E \<le> length data" "E \<le> R + lz_F" "w_len w = E - R" "w_r w = wpos (int R)" "w_s w = wpos (int R + int lz_F)"
    "holds (lz_N - lz_F) data (oldest E) (int E) (textBuf (w_z w))" "mirrors (lz_N - lz_F) data (oldest E) (int E) (textBuf (w_z w))"
    "dict_ok (w_z w) V (first_byte data R)" "V \<subseteq> wpos ` {j. - int (min E lz_F) \<le> j \<and> int R + int lz_F - int lz_N \<le> j \<and> j < int R}"
    "emitted z0 data ts w" "R \<le> toks_len ts" "toks_len ts \<le> E" "0 < E \<Longrightarrow> w_lastMatchLength w = int (toks_len ts) - int R + 1"
  using assms by (auto simp: winv_def)

text \<open>The next byte of the data goes to the place \<open>s\<close>, which is the oldest of the ring.\<close>

lemma storeByte_ok:
  assumes i: "winv z0 data ts R E w" and E: "E = R + lz_F" "E < length data"
  shows "\<exists>tb. storeByte (data ! E) w = Some (w\<lparr>w_z := (w_z w)\<lparr>textBuf := tb\<rparr>, w_len := w_len w + 1\<rparr>) \<and>
    holds (lz_N - lz_F) data (oldest (E + 1)) (int (E + 1)) tb \<and> mirrors (lz_N - lz_F) data (oldest (E + 1)) (int (E + 1)) tb"
  using i
proof (rule winvE)
  let ?s = "wpos (int E)" and ?tb = "textBuf (w_z w)" and ?b = "data ! E"
  assume s: "w_s w = wpos (int R + int lz_F)" and h: "holds (lz_N - lz_F) data (oldest E) (int E) ?tb" "mirrors (lz_N - lz_F) data (oldest E) (int E) ?tb"
  have s': "w_s w = ?s" using s E by simp
  have b: "?b = byteAt data (int E)" using E(2) by (simp add: byteAt_def)
  have l: "length ?tb = lz_N + lz_F - 1" using h(1) by (simp add: holds_def)
  let ?t1 = "?tb[?s := ?b]" let ?t2 = "if ?s < lz_F - 1 then ?t1[?s + lz_N := ?b] else ?t1"
  have h1: "holds (lz_N - lz_F) data (oldest (E + 1)) (int E + 1) ?t1"
    by (rule holds_store [OF h(1) _ _ b]) (simp_all add: max_def)
  have "holds (lz_N - lz_F) data (oldest (E + 1)) (int E + 1) ?t2"
  proof -
    have "?t1[?s + lz_N := ?b] ! wpos j = ?t1 ! wpos j" for j using ring_less [of "lz_N - lz_F" j] by (intro nth_list_update_neq) linarith
    then show ?thesis using h1 by (simp add: holds_def)
  qed
  moreover have "mirrors (lz_N - lz_F) data (oldest (E + 1)) (int E + 1) ?t2"
    using mirrors_store [OF h(2) l _ _ b, of "oldest (E + 1)"] by (simp add: max_def)
  moreover have "storeByte ?b w = Some (w\<lparr>w_z := (w_z w)\<lparr>textBuf := ?t2\<rparr>, w_len := w_len w + 1\<rparr>)"
    using l ring_less [of "lz_N - lz_F" "int E"] unfolding storeByte_def s' by (simp add: upd_def lz_consts del: ring_less)
  ultimately show ?thesis by (intro exI [of _ ?t2]) (simp add: add.commute)
qed

lemma dict_ok_links: "dict_ok z V col \<Longrightarrow> dad z' = dad z \<Longrightarrow> lson z' = lson z \<Longrightarrow> rson z' = rson z \<Longrightarrow> dict_ok z' V col"
proof -
  assume a: "dict_ok z V col" "dad z' = dad z" "lson z' = lson z" "rson z' = rson z"
  then have "dict_wf z' = dict_wf z" "sons z' = sons z" by (simp_all add: dict_wf_def sons_def fun_eq_iff)
  then show ?thesis using a unfolding dict_ok_def by simp
qed

definition same_header :: "Writer \<Rightarrow> Writer \<Rightarrow> bool" where
  "same_header w w' \<longleftrightarrow> w_preFilled w' = w_preFilled w \<and> w_fileSize w' = w_fileSize w \<and> w_out w' = w_out w \<and> w_crc16 w' = w_crc16 w"

text \<open>The second half of \<open>advance\<close>: the string at \<open>r\<close> is inserted and, if the last match is used up, encoded.\<close>

lemma encode_current:
  assumes h: "holds (lz_N - lz_F) data (oldest E) (int E) (textBuf (w_z w))" "mirrors (lz_N - lz_F) data (oldest E) (int E) (textBuf (w_z w))"
    and E: "R < E" "E \<le> R + lz_F + 1" "E \<le> length data"
    and d: "dict_ok (w_z w) V (first_byte data R)" "V \<subseteq> wpos ` {j. - int lz_F \<le> j \<and> int R + int lz_F - int lz_N \<le> j \<and> j < int R}"
    and w: "w_len w = E - R" "w_r w = wpos (int R)" "emitted z0 data ts w" "R \<le> toks_len ts" "toks_len ts \<le> E"
      "w_lastMatchLength w = int (toks_len ts) - int R + 1"
  shows "\<exists>z w' ts' V'. InsertNode (w_r w) (w_z w) = Some z \<and>
    (let w = w\<lparr>w_z := z, w_lastMatchLength := w_lastMatchLength w - 1\<rparr> in if w_lastMatchLength w = 0 then encode w else Some w) = Some w' \<and>
    coded (w\<lparr>w_z := z\<rparr>) w' \<and> textBuf z = textBuf (w_z w) \<and> dict_ok (w_z w') V' (first_byte data R) \<and> V' \<subseteq> insert (wpos (int R)) V \<and> emitted z0 data ts' w' \<and>
    R + 1 \<le> toks_len ts' \<and> toks_len ts' \<le> E \<and> w_lastMatchLength w' = int (toks_len ts') - int R"
proof -
  obtain z V' where z: "InsertNode (wpos (int R)) (w_z w) = Some z" "dict_ok z V' (first_byte data R)" "V' \<subseteq> insert (wpos (int R)) V" "text_same (w_z w) z"
      "textBuf (w_z w) ! wpos (int R) = data ! R"
      "lz_Threshold < min (matchLength z) (E - R) \<Longrightarrow> 0 \<le> matchPosition z \<and> tok_ok data R (Ref (nat (matchPosition z)) (min (matchLength z) (E - R)))"
    using insert_current [OF h E(1-3) d] by blast
  have tx: "textBuf z = textBuf (w_z w)" using z(4) by (simp add: text_same_def)
  let ?w = "w\<lparr>w_z := z, w_lastMatchLength := w_lastMatchLength w - 1\<rparr>"
  have e: "emitted z0 data ts ?w" by (rule emitted_cong [OF w(3)]) (use z(4) in \<open>simp_all add: text_same_def huff_eq_def\<close>)
  show ?thesis
  proof (cases "toks_len ts = R")
    case False
    then show ?thesis
      using z(1-3) w e tx by (intro exI [of _ z] exI [of _ ?w] exI [of _ ts] exI [of _ V']) (auto simp: coded_def)
  next
    case True
    have nt: "next_token ?w = (if min (matchLength z) (E - R) \<le> lz_Threshold then Lit (data ! R) else Ref (nat (matchPosition z)) (min (matchLength z) (E - R)))"
      using w(1,2) z(5) tx by (simp add: next_token_def Let_def)
    have "tok_ok data R (next_token ?w) \<and> tok_len (next_token ?w) \<le> E - R"
    proof (cases "min (matchLength z) (E - R) \<le> lz_Threshold")
      case True
      then show ?thesis unfolding nt using E by simp
    next
      case False
      then have "lz_Threshold < min (matchLength z) (E - R)" by (simp only: not_le)
      then show ?thesis unfolding nt using z(6) False by (simp del: tok_ok.simps min_less_iff_conj)
    qed
    then have t: "tok_ok data R (next_token ?w)" "tok_len (next_token ?w) \<le> E - R" by simp_all
    have "w_r ?w < length (textBuf (w_z ?w))" using w(2) h(1) tx ring_less [of "lz_N - lz_F" "int R"] by (simp add: holds_def lz_consts del: ring_less)
    then obtain w' where w': "encode ?w = Some w'" "emitted z0 data (ts @ [next_token ?w]) w'" "coded ?w w'" "w_lastMatchLength w' = int (tok_len (next_token ?w))"
      using encode_ok [OF e, of] t(1) True w(1) E(1) z(6) by auto
    have "dict_ok (w_z w') V' (first_byte data R)" using dict_ok_links [OF z(2)] w'(3) by (simp add: coded_def)
    then show ?thesis
      using z(1,3) w(2,6) w' True t(2) tok_len_pos [OF t(1)] E(1) tx
      by (intro exI [of _ z] exI [of _ w'] exI [of _ "ts @ [next_token ?w]"] exI [of _ V']) (auto simp: coded_def)
  qed
qed

lemma advance_ok:
  assumes i: "winv z0 data ts R E w"
    and c: "c = None \<and> E' = E \<and> R < E \<or> c = Some (data ! E) \<and> E = R + lz_F \<and> E < length data \<and> E' = E + 1"
  shows "\<exists>w' ts'. advance c w = Some w' \<and> winv z0 data ts' (R + 1) E' w' \<and> same_header w w'"
  using i
proof (rule winvE)
  fix V
  assume w: "R \<le> E" "E \<le> length data" "E \<le> R + lz_F" "w_len w = E - R" "w_r w = wpos (int R)" "w_s w = wpos (int R + int lz_F)"
    "holds (lz_N - lz_F) data (oldest E) (int E) (textBuf (w_z w))" "mirrors (lz_N - lz_F) data (oldest E) (int E) (textBuf (w_z w))"
    and d: "dict_ok (w_z w) V (first_byte data R)" "V \<subseteq> wpos ` {j. - int (min E lz_F) \<le> j \<and> int R + int lz_F - int lz_N \<le> j \<and> j < int R}"
    and e: "emitted z0 data ts w" "R \<le> toks_len ts" "toks_len ts \<le> E" "0 < E \<Longrightarrow> w_lastMatchLength w = int (toks_len ts) - int R + 1"
  have E: "R < E'" "E' \<le> R + lz_F + 1" "E' \<le> length data" "0 < E" "E \<le> E'" "E' \<le> (R + 1) + lz_F" using c w(2,3) by (auto simp: lz_consts)
  have "\<exists>tb. (case c of None \<Rightarrow> Some w | Some c \<Rightarrow> storeByte c w) = Some (w\<lparr>w_z := (w_z w)\<lparr>textBuf := tb\<rparr>, w_len := E' - R\<rparr>) \<and>
    holds (lz_N - lz_F) data (oldest E') (int E') tb \<and> mirrors (lz_N - lz_F) data (oldest E') (int E') tb"
    using c
  proof
    assume a: "c = None \<and> E' = E \<and> R < E"
    have "w\<lparr>w_z := (w_z w)\<lparr>textBuf := textBuf (w_z w)\<rparr>, w_len := E' - R\<rparr> = w" using a w(4) by simp
    then show ?thesis using a w(7,8) by (intro exI [of _ "textBuf (w_z w)"]) simp
  next
    assume a: "c = Some (data ! E) \<and> E = R + lz_F \<and> E < length data \<and> E' = E + 1"
    then show ?thesis using storeByte_ok [OF i, of] w(4) by (auto simp: Suc_diff_le)
  qed
  then obtain tb where tb: "(case c of None \<Rightarrow> Some w | Some c \<Rightarrow> storeByte c w) = Some (w\<lparr>w_z := (w_z w)\<lparr>textBuf := tb\<rparr>, w_len := E' - R\<rparr>)"
      "holds (lz_N - lz_F) data (oldest E') (int E') tb" "mirrors (lz_N - lz_F) data (oldest E') (int E') tb" by blast
  let ?w1 = "w\<lparr>w_z := (w_z w)\<lparr>textBuf := tb\<rparr>, w_len := E' - R\<rparr>"
  have e1: "emitted z0 data ts ?w1" by (rule emitted_cong [OF e(1)]) (simp_all add: huff_eq_def)
  have d1: "dict_ok (w_z ?w1) V (first_byte data R)" by (rule dict_ok_links [OF d(1)]) simp_all
  have V: "V \<subseteq> wpos ` {j. - int lz_F \<le> j \<and> int R + int lz_F - int lz_N \<le> j \<and> j < int R}" using d(2) by (auto simp: min_def split: if_splits)
  obtain z w2 ts' V' where w2: "InsertNode (w_r ?w1) (w_z ?w1) = Some z"
      "(let w = ?w1\<lparr>w_z := z, w_lastMatchLength := w_lastMatchLength ?w1 - 1\<rparr> in if w_lastMatchLength w = 0 then encode w else Some w) = Some w2"
      "coded (?w1\<lparr>w_z := z\<rparr>) w2" "textBuf z = tb" "dict_ok (w_z w2) V' (first_byte data R)" "V' \<subseteq> insert (wpos (int R)) V" "emitted z0 data ts' w2"
      "R + 1 \<le> toks_len ts'" "toks_len ts' \<le> E'" "w_lastMatchLength w2 = int (toks_len ts') - int R"
    using encode_current [of data E' ?w1, OF _ _ E(1-3) d1 V _ _ e1 e(2)] tb(2,3) w(5) e(3,4) E by auto
  have f2: "w_len w2 = E' - R" "w_r w2 = wpos (int R)" "w_s w2 = wpos (int R + int lz_F)" "textBuf (w_z w2) = tb" "same_header w w2"
    using w2(3,4) w(5,6) by (auto simp: coded_def same_header_def)
  obtain z3 where z3: "DeleteNode (w_s w2) (w_z w2) = Some z3" "relinked (w_z w2) z3" "dict_ok z3 (V' - {w_s w2}) (first_byte data R)"
    using DeleteNode_ok [OF w2(5), of "w_s w2"] f2(3) by auto
  let ?w3 = "w2\<lparr>w_z := z3, w_s := (w_s w2 + 1) AND (lz_N - 1), w_r := (w_r w2 + 1) AND (lz_N - 1), w_len := w_len w2 - 1\<rparr>"
  have adv: "advance c w = Some ?w3" 
    unfolding advance_def tb(1) bind.bind_lunit w2(1) by (simp only: Let_def w2(2) [unfolded Let_def] z3(1) bind.bind_lunit)
  have V3: "a \<in> wpos ` {j. - int (min E' lz_F) \<le> j \<and> int (R + 1) + int lz_F - int lz_N \<le> j \<and> j < int (R + 1)}" if "a \<in> V' - {w_s w2}" for a
  proof -
    have "a = wpos (int R) \<or> a \<in> V" "a \<noteq> wpos (int R + int lz_F)" using that w2(6) f2(3) by auto
    then obtain j where j: "a = wpos j" "- int (min E lz_F) \<le> j" "int R + int lz_F - int lz_N \<le> j" "j \<le> int R"
      using d(2) by (auto simp: lz_consts)
    moreover have "j \<noteq> int R + int lz_F - int lz_N" using j(1) \<open>a \<noteq> wpos (int R + int lz_F)\<close> ring_period by auto
    ultimately show ?thesis using E(5) by (intro image_eqI [of _ _ j]) auto
  qed
  have "dict_ok z3 (V' - {w_s w2}) (first_byte data (R + 1))"
  proof (rule dict_ok_col [OF z3(3)])
    fix a assume "a \<in> V' - {w_s w2}"
    from V3 [OF this] obtain j where "a = wpos j" "int (R + 1) + int lz_F - int lz_N \<le> j" "j \<le> int R" by auto
    then show "first_byte data (R + 1) a = first_byte data R a"
      using first_byte_wpos [of R j data] first_byte_wpos [of "R + 1" j data] by (simp add: lz_consts)
  qed
  moreover have "emitted z0 data ts' ?w3" by (rule emitted_cong [OF w2(7)]) (use z3(2) in \<open>simp_all add: relinked_def huff_eq_def\<close>)
  moreover have "textBuf z3 = tb" using z3(2) f2(4) by (simp add: relinked_def)
  moreover have "w_r ?w3 = wpos (int (R + 1))" "w_s ?w3 = wpos (int (R + 1) + int lz_F)"
    using f2(2,3) ring_Suc [of "lz_N - lz_F" "int R"] ring_Suc [of "lz_N - lz_F" "int R + int lz_F"] by (simp_all add: ac_simps)
  moreover have "w_len ?w3 = E' - (R + 1)" using f2(1) by simp
  ultimately have "winv z0 data ts' (R + 1) E' ?w3"
    using V3 E tb(2,3) w2(8-10) unfolding winv_def by (auto intro!: exI [of _ "V' - {w_s w2}"])
  then show ?thesis using adv f2(5) by (auto simp: same_header_def)
qed

text \<open>The writer after \<open>E\<close> bytes of the data.\<close>

definition wstate :: "lzhuf \<Rightarrow> byte list \<Rightarrow> bool \<Rightarrow> nat \<Rightarrow> Writer \<Rightarrow> bool" where
  "wstate z0 data crc16 E w \<longleftrightarrow> (\<exists>ts. winv z0 data ts (E - lz_F) E w \<and> (E \<le> lz_F \<longrightarrow> ts = [])) \<and>
     w_preFilled w = (lz_F \<le> E) \<and> w_fileSize w = of_nat E \<and> w_out w = [] \<and> w_crc16 w = crc16"

lemma wpos_small: "- int lz_F \<le> j \<Longrightarrow> j < int lz_F \<Longrightarrow> wpos j = nat (int (lz_N - lz_F) + j)"
  by (rule ring_start) (auto simp: lz_consts)

lemma preFill_step:
  assumes s: "wstate z0 data crc16 E w" and E: "E < lz_F" "E < length data"
  shows "\<exists>w'. preFill (data ! E # p) w = preFill p w' \<and> wstate z0 data crc16 (E + 1) w'"
proof -
  let ?tb = "textBuf (w_z w)"
  have i: "winv z0 data [] 0 E w" and f: "\<not> w_preFilled w" "w_fileSize w = of_nat E" "w_out w = []" "w_crc16 w = crc16"
    using s E(1) by (auto simp: wstate_def)
  obtain V where w: "w_len w = E" "w_r w = wpos 0" "w_s w = wpos (int lz_F)" "holds (lz_N - lz_F) data (oldest E) (int E) ?tb" "mirrors (lz_N - lz_F) data (oldest E) (int E) ?tb"
    and d: "dict_ok (w_z w) V (first_byte data 0)" "V \<subseteq> wpos ` {j. - int (min E lz_F) \<le> j \<and> int lz_F - int lz_N \<le> j \<and> j < 0}" and e: "emitted z0 data [] w"
    using i by (rule winvE) auto
  have len: "length ?tb = lz_N + lz_F - 1" using w(4) by (simp add: holds_def)
  have b: "data ! E = byteAt data (int E)" using E(2) by (simp add: byteAt_def)
  have r: "w_r w + w_len w = wpos (int E)" "w_r w - (w_len w + 1) = wpos (- int (E + 1))" "\<not> wpos (int E) < lz_F - 1"
    using w(1,2) E(1) wpos_small [of 0] wpos_small [of "int E"] wpos_small [of "- int (E + 1)"] by (auto simp: lz_consts)
  let ?t = "?tb[wpos (int E) := data ! E]"
  have h1: "holds (lz_N - lz_F) data (oldest (E + 1)) (int (E + 1)) ?t"
    using holds_store [OF w(4) _ _ b, of "oldest (E + 1)"] by (simp add: max_def add.commute)
  have m1: "mirrors (lz_N - lz_F) data (oldest (E + 1)) (int (E + 1)) ?t"
    using mirrors_store [OF w(5) len _ _ b, of "oldest (E + 1)"] r(3) by (simp add: max_def add.commute)
  let ?z1 = "(w_z w)\<lparr>textBuf := ?t\<rparr>" let ?a = "wpos (- int (E + 1))"
  have d1: "dict_ok ?z1 V (first_byte data 0)" by (rule dict_ok_links [OF d(1)]) simp_all
  have aV: "?a \<notin> V"
  proof
    assume "?a \<in> V"
    then obtain j where "wpos (- int (E + 1)) = wpos j" "- int E \<le> j" "j < 0" using d(2) by auto
    then show False using ring_eq [of "- int (E + 1)" j] E(1) by (simp add: lz_consts)
  qed
  have t1: "length (textBuf ?z1) = lz_N + lz_F - 1" using len by simp
  have "textBuf ?z1 ! ?a = byteAt data (- int (E + 1))" using h1 E(1) by (simp add: holds_def max_def lz_consts)
  then have "first_byte data 0 ?a = unat (textBuf ?z1 ! ?a)" using first_byte_wpos [of 0 "- int (E + 1)" data] E(1) by (simp add: lz_consts)
  then obtain z2 V2 where z2: "InsertNode ?a ?z1 = Some z2" "dict_ok z2 V2 (first_byte data 0)" "V2 \<subseteq> insert ?a V" "text_same ?z1 z2"
    using InsertNode_ok [OF d1 _ aV t1] by auto
  let ?w1 = "w\<lparr>w_z := ?z1, w_fileSize := w_fileSize w + 1, w_len := w_len w + 1\<rparr>"
  let ?w2 = "?w1\<lparr>w_z := z2, w_lastMatchLength := 1, w_preFilled := w_len w + 1 = lz_F\<rparr>"
  have u: "upd ?tb (wpos (int E)) (data ! E) = Some ?t" using len ring_less [of "lz_N - lz_F" "int E"] by (simp add: upd_def lz_consts del: ring_less)
  have "preFill (data ! E # p) w = preFill p ?w2" using f(1) u r(1) r(2) z2(1) by (simp add: Let_def)
  moreover have "V2 \<subseteq> wpos ` {j. - int (min (E + 1) lz_F) \<le> j \<and> int lz_F - int lz_N \<le> j \<and> j < 0}"
  proof
    fix x assume "x \<in> V2"
    then consider "x = ?a" | "x \<in> V" using z2(3) by auto
    then show "x \<in> wpos ` {j. - int (min (E + 1) lz_F) \<le> j \<and> int lz_F - int lz_N \<le> j \<and> j < 0}"
      by cases (use d(2) E(1) in \<open>auto simp: lz_consts\<close>)
  qed
  moreover have "emitted z0 data [] ?w2" by (rule emitted_cong [OF e]) (use z2(4) in \<open>simp_all add: text_same_def huff_eq_def\<close>)
  moreover have "textBuf z2 = ?t" using z2(4) by (simp add: text_same_def)
  ultimately have "winv z0 data [] 0 (E + 1) ?w2 \<and> preFill (data ! E # p) w = preFill p ?w2"
    using E w(1-3) h1 m1 z2(2) unfolding winv_def by (auto intro!: exI [of _ V2])
  moreover have "w_preFilled ?w2 = (lz_F \<le> E + 1)" "w_fileSize ?w2 = of_nat (E + 1)" using E(1) w(1) f(2) by auto
  ultimately show ?thesis using E(1) f(3,4) unfolding wstate_def by (intro exI [of _ ?w2]) auto
qed

lemma chunk_Cons:
  assumes "b # p = take (length (b # p)) (drop E data)" "E < length data"
  shows "b = data ! E \<and> p = take (length p) (drop (E + 1) data)"
proof -
  have "drop E data = data ! E # drop (E + 1) data" using assms(2) by (metis Cons_nth_drop_Suc Suc_eq_plus1)
  then have "b # p = data ! E # take (length p) (drop (E + 1) data)" using assms(1) by simp
  then show ?thesis by simp
qed

lemma preFill_ok:
  assumes "wstate z0 data crc16 E w" "E + length p \<le> length data" "p = take (length p) (drop E data)"
  shows "\<exists>w' n. preFill p w = Some (drop n p, w') \<and> n \<le> length p \<and> wstate z0 data crc16 (E + n) w' \<and> (n < length p \<longrightarrow> lz_F \<le> E + n)"
  using assms
proof (induction p arbitrary: E w)
  case Nil
  then show ?case by (intro exI [of _ w] exI [of _ 0]) simp
next
  case (Cons b p)
  have b: "b = data ! E" "p = take (length p) (drop (E + 1) data)"
    using chunk_Cons [of b p E data] Cons.prems by simp_all
  show ?case
  proof (cases "w_preFilled w")
    case True
    then show ?thesis using Cons.prems(1) by (intro exI [of _ w] exI [of _ 0]) (auto simp: wstate_def)
  next
    case False
    then have "E < lz_F" using Cons.prems(1) by (simp add: wstate_def)
    then obtain w1 where w1: "preFill (data ! E # p) w = preFill p w1" "wstate z0 data crc16 (E + 1) w1"
      using preFill_step [OF Cons.prems(1)] Cons.prems(2) by auto
    obtain w' n where "preFill p w1 = Some (drop n p, w')" "n \<le> length p" "wstate z0 data crc16 (E + 1 + n) w'" "n < length p \<longrightarrow> lz_F \<le> E + 1 + n"
      using Cons.IH [OF w1(2) _ b(2)] Cons.prems(2) by auto
    then show ?thesis using w1(1) b(1) by (intro exI [of _ w'] exI [of _ "Suc n"]) simp
  qed
qed

lemma advanceAll_ok:
  assumes "wstate z0 data crc16 E w" "E + length p \<le> length data" "p = take (length p) (drop E data)" "p \<noteq> [] \<longrightarrow> lz_F \<le> E"
  shows "\<exists>w'. advanceAll p w = Some w' \<and> wstate z0 data crc16 (E + length p) w'"
  using assms
proof (induction p arbitrary: E w)
  case (Cons b p)
  have b: "b = data ! E" "p = take (length p) (drop (E + 1) data)"
    using chunk_Cons [of b p E data] Cons.prems by simp_all
  obtain ts where i: "winv z0 data ts (E - lz_F) E w" using Cons.prems(1) by (auto simp: wstate_def)
  have F: "lz_F \<le> E" using Cons.prems(4) by simp
  have "Some b = None \<and> E + 1 = E \<and> E - lz_F < E \<or> Some b = Some (data ! E) \<and> E = E - lz_F + lz_F \<and> E < length data \<and> E + 1 = E + 1"
    using b(1) F Cons.prems(2) by auto
  then obtain w1 ts1 where w1: "advance (Some b) w = Some w1" "winv z0 data ts1 (E - lz_F + 1) (E + 1) w1" "same_header w w1"
    using advance_ok [OF i] by blast
  let ?w = "w1\<lparr>w_fileSize := w_fileSize w1 + 1\<rparr>"
  have "winv z0 data ts1 (E + 1 - lz_F) (E + 1) ?w"
    using w1(2) F emitted_cong [of z0 data ts1 w1 ?w] by (simp add: winv_def Suc_diff_le huff_eq_def)
  then have "wstate z0 data crc16 (E + 1) ?w" using Cons.prems(1) w1(3) F by (auto simp: wstate_def same_header_def)
  then obtain w' where "advanceAll p ?w = Some w'" "wstate z0 data crc16 (E + 1 + length p) w'"
    using Cons.IH [of "E + 1" ?w] b(2) Cons.prems F by auto
  then show ?case using w1(1) by simp
qed auto

lemma Writer_Write_ok:
  assumes "wstate z0 data crc16 E w" "E + length p \<le> length data" "p = take (length p) (drop E data)"
  shows "\<exists>w'. Writer_Write p w = Some (length p, w') \<and> wstate z0 data crc16 (E + length p) w'"
proof -
  have "werr w = None" using assms(1) by (auto simp: wstate_def winv_def emitted_def wf_out_def)
  moreover obtain w1 n where w1: "preFill p w = Some (drop n p, w1)" "n \<le> length p" "wstate z0 data crc16 (E + n) w1" "n < length p \<longrightarrow> lz_F \<le> E + n"
    using preFill_ok [OF assms(1-3)] by blast
  have "drop n p = take (length p - n) (drop (E + n) data)" by (subst assms(3)) (simp add: drop_take add.commute)
  then obtain w' where "advanceAll (drop n p) w1 = Some w'" "wstate z0 data crc16 (E + length p) w'"
    using advanceAll_ok [OF w1(3), of "drop n p"] w1(2,4) assms(2) by auto
  ultimately show ?thesis using w1(1) by (simp add: Writer_Write_def)
qed

lemma NewWriter_ok:
  assumes z: "newLZHUFF = Some z"
  shows "\<exists>w. NewWriter crc16 = Some w \<and> wstate z data crc16 0 w"
proof -
  obtain zi where zi: "newLZHUFF = Some zi" "tree_inv zi" "total_weight zi = lz_NumChar"
  proof -
    obtain z' where z': "newLZHUFF = Some z'" "tree_inv z'" "\<forall>d < lz_NumChar. weight z' d = 1" using newLZHUFF_ok by blast
    have "total_weight z' = (\<Sum>d < lz_NumChar. 1)" unfolding total_weight_def using z'(3) by (intro sum.cong) auto
    then show thesis using that z' by simp
  qed
  have "zi = z" using z zi(1) by (metis option.inject)
  then have inv: "tree_inv z" "total_weight z = lz_NumChar" using zi(2,3) by simp_all
  have f: "dict_part z = dict_part zero_lzhuf" using z by (rule newLZHUFF_dict)
  then have "dict_wf z" by (simp add: dict_part_def dict_wf_def zero_lzhuf_def)
  then obtain z1 where z1: "InitTree z = Some z1" "dict_ok z1 {} (first_byte data 0)" "text_same z z1" using InitTree_ok by blast
  have tb: "textBuf z1 = replicate (lz_N + lz_F - 1) 0" using f z1(3) by (simp add: dict_part_def text_same_def zero_lzhuf_def)
  let ?tb = "replicate (lz_N - lz_F) 0x20 @ drop (lz_N - lz_F) (textBuf z1)"
  have fill: "foldM (\<lambda>i tb. upd tb i 0x20) [0..<lz_N - lz_F] (textBuf z1) = Some ?tb"
    by (rule fill_spaces) (simp add: tb lz_consts)
  let ?w = "\<lparr>wbuf = [], putbuf = 0, putlen = 0, werr = None, w_out = [], w_z = z1\<lparr>textBuf := ?tb\<rparr>, w_crc16 = crc16,
       w_len = 0, w_r = lz_N - lz_F, w_s = 0, w_lastMatchLength = 0, w_preFilled = False, w_fileSize = 0\<rparr>"
  have "wpos j = nat (int (lz_N - lz_F) + j) \<and> wpos j < lz_N - lz_F \<and> \<not> wpos j < lz_F - 1" if "- int lz_F \<le> j" "j < 0" for j
    using that wpos_small [of j] by (auto simp: lz_consts)
  then have "holds (lz_N - lz_F) data (oldest 0) 0 ?tb" "mirrors (lz_N - lz_F) data (oldest 0) 0 ?tb"
    by (auto simp: holds_def mirrors_def byteAt_def tb nth_append) (simp_all add: lz_consts)
  moreover have "wpos 0 = lz_N - lz_F" "wpos (int lz_F) = 0" using wpos_small [of 0] ring_period [of "lz_N - lz_F" "int lz_F"] by (auto simp: ring_def lz_consts)
  moreover have "dict_ok (z1\<lparr>textBuf := ?tb\<rparr>) {} (first_byte data 0)" by (rule dict_ok_links [OF z1(2)]) simp_all
  moreover have "emitted z data [] ?w"
    using inv z1(3) by (simp add: emitted_def wf_out_def out_bits_def code_bits_def huff_eq_def text_same_def)
  ultimately have "wstate z data crc16 0 ?w" by (auto simp: wstate_def winv_def lz_F_def)
  moreover have "NewWriter crc16 = Some ?w" 
    unfolding NewWriter_def z bind.bind_lunit z1(1) Let_def fill ..
  ultimately show ?thesis by blast
qed

lemma drain_ok:
  assumes "winv z0 data ts R E w"
  shows "\<exists>w' ts'. drain w = Some w' \<and> winv z0 data ts' E E w' \<and> same_header w w'"
  using assms
proof (induction "E - R" arbitrary: ts R w)
  case 0
  then have "R = E" "w_len w = 0" by (auto simp: winv_def)
  then show ?case using 0(2) by (subst drain.simps) (auto simp: same_header_def)
next
  case (Suc n)
  then have R: "R < E" "0 < w_len w" by (auto simp: winv_def)
  obtain w1 ts1 where w1: "advance None w = Some w1" "winv z0 data ts1 (R + 1) E w1" "same_header w w1"
    using advance_ok [OF Suc.prems, of None E] R by auto
  have "n = E - (R + 1)" using Suc.hyps(2) by simp
  then obtain w' ts' where "drain w1 = Some w'" "winv z0 data ts' E E w'" "same_header w1 w'"
    using Suc.hyps(1) [OF _ w1(2)] by blast
  then show ?case using R w1 by (subst drain.simps) (auto simp: same_header_def)
qed

text \<open>The header and the body of the compressed data.\<close>

definition packed :: "bool \<Rightarrow> byte list \<Rightarrow> byte list \<Rightarrow> byte list" where
  "packed crc16 data body = (if crc16 then le16 (crc (le32 (of_nat (length data)) @ body)) else []) @ le32 (of_nat (length data)) @ body"

lemma Writer_Close_ok:
  assumes "wstate z0 data crc16 (length data) w"
  shows "\<exists>w'. Writer_Close w = Some (None, w') \<and> (length data \<le> 3867 \<longrightarrow>
    (\<exists>ts k body. toks_ok data 0 ts \<and> toks_len ts = length data \<and> k < 8 \<and> w_out w' = packed crc16 data body \<and>
       stream_bits body = code_all tok_bits tok_next z0 ts @ replicate k False \<and> length body \<le> 4 * length data + 1))"
proof -
  obtain ts where i: "winv z0 data ts (length data - lz_F) (length data) w" using assms by (auto simp: wstate_def)
  have f: "w_out w = []" "w_crc16 w = crc16" "w_fileSize w = of_nat (length data)" using assms by (auto simp: wstate_def)
  obtain w1 ts1 where w1: "drain w = Some w1" "winv z0 data ts1 (length data) (length data) w1" "same_header w w1"
    using drain_ok [OF i] by blast
  have e: "w_len w1 = 0" "emitted z0 data ts1 w1" "toks_len ts1 = length data" using w1(2) by (auto simp: winv_def)
  have ok: "toks_ok data 0 ts1" using e(2) by (simp add: emitted_def)
  let ?w = "encodeEnd w1"
  have en: "encode w1 = Some w1" using e(1) by (simp add: encode_def)
  have "\<exists>k < 8. stream_bits (wbuf ?w) = code_all tok_bits tok_next z0 ts1 @ replicate k False \<and> length (wbuf ?w) \<le> 4 * length data + 1" if "length data \<le> 3867"
  proof -
    have n: "length ts1 \<le> length data" using toks_count [OF ok] e(3) by simp
    moreover from this that have "length ts1 \<le> 3867" by simp
    ultimately obtain k where k: "k < 8" "stream_bits (wbuf ?w) = code_all tok_bits tok_next z0 ts1 @ replicate k False"
        "length (code_all tok_bits tok_next z0 ts1) \<le> 30 * length ts1"
      using encodeEnd_out [of w1] e(2) by (auto simp: emitted_def)
    then have "8 * length (wbuf ?w) < 30 * length ts1 + 8" using length_stream_bits [of "wbuf ?w"] by simp
    then show ?thesis using k n by auto
  qed
  moreover have "werr w = None" using i by (auto simp: winv_def emitted_def)
  moreover have h: "w_out ?w = []" "w_crc16 ?w = crc16" "w_fileSize ?w = of_nat (length data)"
    using w1(3) f by (auto simp: same_header_def encodeEnd_def WriteByte_def)
  moreover have "Writer_Close w = Some (None, ?w\<lparr>w_out := packed crc16 data (wbuf ?w), wbuf := []\<rparr>)"
    using \<open>werr w = None\<close> w1(1) en h by (simp add: Writer_Close_def Let_def packed_def)
  ultimately show ?thesis using e(3) ok by auto
qed

text \<open>Data written in any pieces.\<close>

definition write_all :: "byte list list \<Rightarrow> Writer \<Rightarrow> Writer option" where
  "write_all ps w = foldM (\<lambda>p w. do { (n, w) \<leftarrow> Writer_Write p w; Some w }) ps w"

lemma write_all_ok:
  assumes "wstate z0 data crc16 E w" "E + length (concat ps) = length data" "concat ps = drop E data"
  shows "\<exists>w'. write_all ps w = Some w' \<and> wstate z0 data crc16 (length data) w'"
  using assms
proof (induction ps arbitrary: E w)
  case Nil
  then show ?case by (simp add: write_all_def)
next
  case (Cons p ps)
  have "p = take (length p) (drop E data)" "concat ps = drop (E + length p) data"
    using Cons.prems(3) by (metis append_eq_conv_conj concat.simps(2), metis append_eq_conv_conj concat.simps(2) drop_drop add.commute)
  moreover obtain w1 where "Writer_Write p w = Some (length p, w1)" "wstate z0 data crc16 (E + length p) w1"
    using Writer_Write_ok [OF Cons.prems(1) _ calculation(1)] Cons.prems(2) by auto
  ultimately show ?case using Cons.IH [of "E + length p" w1] Cons.prems(2) by (simp add: write_all_def)
qed

end
