(* ===== verification/Lzhuf_Roundtrip.thy ===== *)
theory Lzhuf_Roundtrip
  imports Lzhuf_Compress
begin

unbundle bit_operations_syntax

text \<open>
  The decompressor on what the compressor wrote (\<^verbatim>\<open>src/lzhuf/reader.go\<close>): it follows the tokens, its ring buffer is the
  same window on the data although it starts at another place, and its checksum covers everything it has taken from its
  source. The result is the round trip of the whole codec.
\<close>

section \<open>The reader\<close>

abbreviation rpos :: "int \<Rightarrow> nat" where
  "rpos \<equiv> ring (lz_N - lz_R)"

text \<open>The ring of the reader when it has decoded \<open>P\<close> bytes.\<close>

definition rtext :: "byte list \<Rightarrow> Reader \<Rightarrow> nat \<Rightarrow> bool" where
  "rtext data d P \<longleftrightarrow> holds (lz_N - lz_R) data (oldest P) (int P) (textBuf (d_z d)) \<and> d_state_r d = rpos (int P) \<and> d_state_pos d = of_nat P"

text \<open>Everything that decoding a byte leaves alone.\<close>

definition decoded :: "Reader \<Rightarrow> Reader \<Rightarrow> bool" where
  "decoded d d' \<longleftrightarrow> d_r d' = d_r d \<and> huff_eq (d_z d') (d_z d) \<and> d_err d' = d_err d \<and> d_crc16 d' = d_crc16 d \<and>
     d_header_crc d' = d_header_crc d \<and> d_header_size d' = d_header_size d"

lemma emitRing_ok:
  assumes "rtext data d P" "P < length data"
  shows "\<exists>d'. emitRing (data ! P) d = Some d' \<and> rtext data d' (P + 1) \<and> decoded d d' \<and> d_state_buf d' = d_state_buf d"
proof -
  let ?tb = "textBuf (d_z d)" let ?t = "?tb[rpos (int P) := data ! P]"
  have h: "holds (lz_N - lz_R) data (oldest P) (int P) ?tb" "d_state_r d = rpos (int P)" "d_state_pos d = of_nat P"
    using assms(1) by (auto simp: rtext_def)
  have b: "data ! P = byteAt data (int P)" using assms(2) by (simp add: byteAt_def)
  have h1: "holds (lz_N - lz_R) data (oldest (P + 1)) (int P + 1) ?t" by (rule holds_store [OF h(1) _ _ b]) (simp_all add: max_def)
  have u: "upd ?tb (d_state_r d) (data ! P) = Some ?t"
    using h ring_less [of "lz_N - lz_R" "int P"] by (simp add: holds_def upd_def lz_consts del: ring_less)
  let ?d = "advanceState (d\<lparr>d_z := (d_z d)\<lparr>textBuf := ?t\<rparr>\<rparr>)"
  have "rtext data ?d (P + 1)"
    using h1 h(2,3) ring_Suc [of "lz_N - lz_R" "int P"] by (simp add: rtext_def advanceState_def add.commute)
  moreover have "decoded d ?d" "d_state_buf ?d = d_state_buf d" by (simp_all add: decoded_def advanceState_def huff_eq_def)
  ultimately show ?thesis using u by (simp add: emitRing_def)
qed

lemma decoded_trans: "decoded d1 d2 \<Longrightarrow> decoded d2 d3 \<Longrightarrow> decoded d1 d3"
  by (simp add: decoded_def huff_eq_def)

lemma copyMatch_ok:
  assumes "rtext data d (P + k)" "P + k + j \<le> length data" "p + 1 \<le> P + lz_F" "p + 1 \<le> lz_N - lz_F"
    and "\<And>i. k \<le> i \<Longrightarrow> i < k + j \<Longrightarrow> byteAt data (int P - int p - 1 + int i) = byteAt data (int P + int i)"
  shows "\<exists>d'. copyMatch n (rpos (int P - int p - 1)) k j out d = Some (out @ take (n - length out) (take j (drop (P + k) data)), d') \<and>
    rtext data d' (P + k + j) \<and> decoded d d' \<and> d_state_buf d' = d_state_buf d @ drop (n - length out) (take j (drop (P + k) data))"
  using assms
proof (induction j arbitrary: k out d)
  case 0
  then show ?case by (simp add: decoded_def huff_eq_def)
next
  case (Suc j)
  let ?i = "rpos (int P - int p - 1)" and ?b = "data ! (P + k)"
  have idx: "(?i + k) AND (lz_N - 1) = rpos (int P - int p - 1 + int k)" using ring_add [of "lz_N - lz_R" "int P - int p - 1" k] and_ring(2) by simp
  have b: "textBuf (d_z d) ! rpos (int P - int p - 1 + int k) = ?b"
  proof -
    have "textBuf (d_z d) ! rpos (int P - int p - 1 + int k) = byteAt data (int P - int p - 1 + int k)"
      using Suc.prems(1,3,4) by (auto simp: rtext_def holds_def lz_consts)
    also have "\<dots> = byteAt data (int P + int k)" using Suc.prems(5) [of k] by simp
    also have "\<dots> = ?b" using Suc.prems(2) by (simp add: byteAt_def flip: of_nat_add)
    finally show ?thesis .
  qed
  have len: "length (textBuf (d_z d)) = lz_N + lz_F - 1" using Suc.prems(1) by (simp add: rtext_def holds_def)
  have get: "idx (textBuf (d_z d)) ((?i + k) AND (lz_N - 1)) = Some ?b"
    unfolding idx using len ring_less [of "lz_N - lz_R" "int P - int p - 1 + int k"] b by (simp add: idx_def lz_consts del: ring_less)
  define d1 where "d1 = (if length out < n then d else d\<lparr>d_state_buf := d_state_buf d @ [?b]\<rparr>)"
  define out1 where "out1 = (if length out < n then out @ [?b] else out)"
  have d1: "rtext data d1 (P + k)" "decoded d d1" using Suc.prems(1) by (auto simp: d1_def rtext_def decoded_def huff_eq_def)
  obtain d2 where d2: "emitRing ?b d1 = Some d2" "rtext data d2 (P + k + 1)" "decoded d1 d2" "d_state_buf d2 = d_state_buf d1"
    using emitRing_ok [OF d1(1)] Suc.prems(2) by auto
  have seg: "take (Suc j) (drop (P + k) data) = ?b # take j (drop (P + k + 1) data)"
    using Cons_nth_drop_Suc [of "P + k" data, symmetric] Suc.prems(2) by simp
  obtain d' where d': "copyMatch n ?i (k + 1) j out1 d2 = Some (out1 @ take (n - length out1) (take j (drop (P + k + 1) data)), d')"
      "rtext data d' (P + k + 1 + j)" "decoded d2 d'" "d_state_buf d' = d_state_buf d2 @ drop (n - length out1) (take j (drop (P + k + 1) data))"
    using Suc.IH [of d2 "k + 1" out1] d2(2) Suc.prems(2-5) by (auto simp: add.assoc)
  have "copyMatch n ?i k (Suc j) out d = copyMatch n ?i (k + 1) j out1 d2"
    using get d2(1) by (cases "length out < n") (simp_all add: d1_def out1_def)
  moreover have "out1 @ take (n - length out1) (take j (drop (P + k + 1) data)) = out @ take (n - length out) (take (Suc j) (drop (P + k) data))"
    unfolding seg by (auto simp: out1_def take_Cons' Suc_diff_Suc)
  moreover have "d_state_buf d' = d_state_buf d @ drop (n - length out) (take (Suc j) (drop (P + k) data))"
    unfolding seg using d'(4) d2(4) by (auto simp: d1_def out1_def drop_Cons' Suc_diff_Suc)
  moreover have "decoded d d'" using d1(2) d2(3) d'(3) decoded_trans by blast
  ultimately show ?case using d'(1,2) by (auto simp: add.assoc)
qed

text \<open>The reader before the tokens \<open>ts\<close>, with \<open>P\<close> bytes decoded.\<close>

definition read_inv :: "byte list \<Rightarrow> nat \<Rightarrow> token list \<Rightarrow> Reader \<Rightarrow> bool" where
  "read_inv data P ts d \<longleftrightarrow> rtext data d P \<and> toks_ok data P ts \<and> P + toks_len ts = length data \<and> d_header_size d = of_nat (length data) \<and>
     d_err d = None \<and> tree_inv (d_z d) \<and> wf_in (d_r d) \<and>
     (\<exists>k < 8. in_bits (d_r d) = code_all tok_bits tok_next (d_z d) ts @ replicate k False)"

lemma code_all_huff:
  "huff_eq z y \<Longrightarrow> tree_inv y \<Longrightarrow> toks_ok data P ts \<Longrightarrow> code_all tok_bits tok_next z ts = code_all tok_bits tok_next y ts"
proof (induction ts arbitrary: z y P)
  case (Cons t ts)
  have c: "tok_char t < lz_NumChar" using tok_char_less Cons.prems(3) by auto
  obtain y' where y': "tok_next y t = Some y'" "tree_inv y'" using update_total [OF Cons.prems(2) c] by blast
  obtain z' where z': "tok_next z t = Some z'" "huff_eq z' y'" using update_huff [OF Cons.prems(1) y'(1)] by blast
  have "tok_bits z t = tok_bits y t" using char_code_huff [OF Cons.prems(1)] by (cases t) simp_all
  then show ?case using Cons.IH [OF z'(2) y'(2)] Cons.prems(3) y'(1) z'(1) by auto
qed simp

lemma sint_small: "n \<le> 3867 \<Longrightarrow> sint (of_nat n :: 32 word) = int n"
  by (simp add: signed_of_nat signed_take_bit_int_eq_self)

lemma read_token:
  assumes i: "read_inv data P (t # ts) d" and n: "length data \<le> 3867" and out: "length out < n"
  shows "\<exists>d'. readLoop n out d = readLoop n (out @ take (n - length out) (take (tok_len t) (drop P data))) d' \<and>
    read_inv data (P + tok_len t) ts d' \<and> d_state_buf d' = d_state_buf d @ drop (n - length out) (take (tok_len t) (drop P data))"
proof -
  have r: "rtext data d P" "tok_ok data P t" "toks_ok data (P + tok_len t) ts" "P + (tok_len t + toks_len ts) = length data"
      "d_header_size d = of_nat (length data)" "d_err d = None" "tree_inv (d_z d)" "wf_in (d_r d)" using i by (auto simp: read_inv_def)
  obtain k where k: "k < 8" "in_bits (d_r d) = code_all tok_bits tok_next (d_z d) (t # ts) @ replicate k False" using i by (auto simp: read_inv_def)
  have c: "tok_char t < lz_NumChar" by (rule tok_char_less [OF r(2)])
  obtain z1 where z1: "tok_next (d_z d) t = Some z1" "tree_inv z1" using update_total [OF r(7) c] by blast
  have bits: "in_bits (d_r d) = tok_bits (d_z d) t @ code_all tok_bits tok_next z1 ts @ replicate k False" using k(2) z1(1) by simp
  have tl: "0 < tok_len t" by (rule tok_len_pos [OF r(2)])
  have go: "length out < n \<and> br_err (d_r d) = None \<and> sint (d_state_pos d) < sint (d_header_size d)"
    using out r(1,4,5,8) tl n sint_small [of P] sint_small [of "length data"] by (auto simp: rtext_def wf_in_def)
  show ?thesis
  proof (cases t)
    case (Lit b)
    obtain d1 where d1: "decodeChar d = Some (unat b, d1)" "wf_in (d_r d1)" "in_bits (d_r d1) = code_all tok_bits tok_next z1 ts @ replicate k False" "d_z d1 = z1"
        "d1 = d\<lparr>d_r := d_r d1, d_z := z1\<rparr>"
      using decodeChar_ok [OF r(7) _ r(8), of "unat b"] c bits z1(1) Lit by auto
    have dp: "textBuf z1 = textBuf (d_z d)" using update_dict [OF z1(1)] by (simp add: dict_part_def)
    have f1: "d_state_r d1 = d_state_r d" "d_state_pos d1 = d_state_pos d" "d_state_buf d1 = d_state_buf d" "d_header_size d1 = d_header_size d" "d_err d1 = d_err d"
      by (subst d1(5), simp)+
    have t1: "rtext data d1 P" using r(1) f1 d1(4) dp by (simp add: rtext_def)
    have b: "P < length data" "data ! P = b" using r(2) Lit by auto
    obtain d2 where d2: "emitRing b d1 = Some d2" "rtext data d2 (P + 1)" "decoded d1 d2" "d_state_buf d2 = d_state_buf d1"
      using emitRing_ok [OF t1 b(1)] b(2) by auto
    have seg: "take 1 (drop P data) = [b]" using b by (simp add: take_Suc_conv_app_nth hd_drop_conv_nth take_Suc)
    have "unat b < 256" using unsigned_less [of b, where 'a = nat] by simp
    then have "readLoop n out d = readLoop n (out @ [b]) d2" using go d1(1) d2(1) by (subst readLoop.simps) simp
    moreover have "huff_eq (d_z d2) z1" "d_r d2 = d_r d1" using d2(3) d1(4) by (simp_all add: decoded_def)
    then have "read_inv data (P + 1) ts d2"
      using d1 d2 r f1 k(1) Lit z1(2) tree_inv_huff [of "d_z d2" z1] code_all_huff [of "d_z d2" z1 data "P + 1" ts]
      by (auto simp: read_inv_def decoded_def)
    ultimately show ?thesis using Lit seg out d2(4) f1(3) by auto
  next
    case (Ref p m)
    let ?c = "255 - lz_Threshold + m"
    obtain d1 where d1: "decodeChar d = Some (?c, d1)" "wf_in (d_r d1)" "in_bits (d_r d1) = pos_bits p @ code_all tok_bits tok_next z1 ts @ replicate k False" "d_z d1 = z1"
        "d1 = d\<lparr>d_r := d_r d1, d_z := z1\<rparr>"
      using decodeChar_ok [OF r(7) _ r(8), of ?c] c bits z1(1) Ref by auto
    have tr: "lz_Threshold < m" "P + m \<le> length data" "p + 1 \<le> P + lz_F" "p + 1 \<le> lz_N - lz_F"
        "\<And>k. k < m \<Longrightarrow> byteAt data (int P - int p - 1 + int k) = byteAt data (int P + int k)" using r(2) Ref by auto
    have p: "p < 4096" using tr(4) by (simp add: lz_consts)
    obtain br where br: "decodePosition (d_r d1) = (p, br)" "wf_in br" "in_bits br = code_all tok_bits tok_next z1 ts @ replicate k False"
      using decodePosition_ok [OF d1(2) p d1(3)] by blast
    let ?d1 = "d1\<lparr>d_r := br\<rparr>"
    have dp: "textBuf z1 = textBuf (d_z d)" using update_dict [OF z1(1)] by (simp add: dict_part_def)
    have f1: "d_state_r d1 = d_state_r d" "d_state_pos d1 = d_state_pos d" "d_state_buf d1 = d_state_buf d" "d_header_size d1 = d_header_size d" "d_err d1 = d_err d"
      by (subst d1(5), simp)+
    have t1: "rtext data ?d1 (P + 0)" using r(1) f1 d1(4) dp by (simp add: rtext_def)
    obtain d2 where d2: "copyMatch n (rpos (int P - int p - 1)) 0 m out ?d1 = Some (out @ take (n - length out) (take m (drop P data)), d2)"
        "rtext data d2 (P + m)" "decoded ?d1 d2" "d_state_buf d2 = d_state_buf d @ drop (n - length out) (take m (drop P data))"
      using copyMatch_ok [OF t1, of m p n out] tr f1(3) by auto
    have i: "nat ((int (d_state_r d1) - int p - 1) AND (int lz_N - 1)) = rpos (int P - int p - 1)"
    proof -
      have "d_state_r d1 = rpos (int P)" using f1(1) r(1) by (simp add: rtext_def)
      then have "(int (d_state_r d1) - int p - 1) mod int lz_N = (int (lz_N - lz_R) + (int P - int p - 1)) mod int lz_N"
        by (simp add: int_ring mod_simps algebra_simps)
      then show ?thesis by (simp only: and_ring_int ring_def)
    qed
    have "\<not> ?c < 256" "?c - 255 + lz_Threshold = m" using tr(1) by (auto simp: lz_consts)
    then have "readLoop n out d = readLoop n (out @ take (n - length out) (take m (drop P data))) d2"
      using go d1(1) br(1) d2(1) i by (subst readLoop.simps) (simp add: Let_def)
    moreover have "huff_eq (d_z d2) z1" "d_r d2 = br" using d2(3) d1(4) by (simp_all add: decoded_def)
    then have "read_inv data (P + m) ts d2"
      using br d2 r f1 k(1) Ref z1(2) tree_inv_huff [of "d_z d2" z1] code_all_huff [of "d_z d2" z1 data "P + m" ts]
      by (auto simp: read_inv_def decoded_def)
    ultimately show ?thesis using Ref d2(4) by auto
  qed
qed

lemma readLoop_stop: "\<not> (length out < n \<and> br_err (d_r d) = None \<and> sint (d_state_pos d) < sint (d_header_size d)) \<Longrightarrow> readLoop n out d = Some (out, d)"
  by (subst readLoop.simps) (rule if_not_P)

lemma readLoop_ok:
  assumes "read_inv data P ts d" "length data \<le> 3867" "Q \<le> P" "out = take (P - Q) (drop Q data)" "P - Q \<le> n" "d_state_buf d = []"
  shows "\<exists>d' P' ts'. readLoop n out d = Some (take n (drop Q data), d') \<and> read_inv data P' ts' d' \<and> Q + min n (length data - Q) \<le> P' \<and>
    d_state_buf d' = take (P' - (Q + n)) (drop (Q + n) data)"
  using assms
proof (induction ts arbitrary: P d out)
  case Nil
  then have P: "P = length data" by (simp add: read_inv_def)
  have "sint (d_state_pos d) = sint (d_header_size d)" using Nil.prems(1) P by (simp add: read_inv_def rtext_def)
  then have "readLoop n out d = Some (out, d)" by (intro readLoop_stop) simp
  then show ?case using Nil.prems P by (intro exI [of _ d] exI [of _ P] exI [of _ "[]"]) auto
next
  case (Cons t ts)
  have P: "P + tok_len t + toks_len ts = length data" "0 < tok_len t" using Cons.prems(1) tok_len_pos by (auto simp: read_inv_def)
  have lo: "length out = P - Q" using Cons.prems(3,4) P by simp
  show ?case
  proof (cases "P - Q = n")
    case True
    then have "readLoop n out d = Some (out, d)" using lo by (intro readLoop_stop) simp
    then show ?thesis using Cons.prems True by (intro exI [of _ d] exI [of _ P] exI [of _ "t # ts"]) auto
  next
    case False
    then have ln: "length out < n" using Cons.prems(5) lo by simp
    let ?seg = "take (tok_len t) (drop P data)" let ?out = "out @ take (n - length out) ?seg"
    obtain d1 where d1: "readLoop n out d = readLoop n ?out d1" "read_inv data (P + tok_len t) ts d1" "d_state_buf d1 = drop (n - length out) ?seg"
      using read_token [OF Cons.prems(1,2) ln] Cons.prems(6) by auto
    have PQ: "P = Q + (P - Q)" using Cons.prems(3) by simp
    have all: "out @ ?seg = take (P + tok_len t - Q) (drop Q data)"
    proof -
      have "take (P + tok_len t - Q) (drop Q data) = take (P - Q + tok_len t) (drop Q data)" using Cons.prems(3) by (simp add: Nat.add_diff_assoc2)
      also have "\<dots> = take (P - Q) (drop Q data) @ take (tok_len t) (drop (P - Q) (drop Q data))" by (rule take_add)
      finally show ?thesis using Cons.prems(3,4) by simp
    qed
    show ?thesis
    proof (cases "P + tok_len t - Q \<le> n")
      case True
      have ls: "length ?seg = tok_len t" using P by simp
      have le: "tok_len t \<le> n - length out" using True lo Cons.prems(3) by simp
      then have "?out = take (P + tok_len t - Q) (drop Q data)" "d_state_buf d1 = []" using all d1(3) ls by simp_all
      then show ?thesis using Cons.IH [OF d1(2) Cons.prems(2) _ _ True] d1(1) Cons.prems(3) by auto
    next
      case big: False
      have o: "?out = take n (drop Q data)"
      proof -
        have "?out = take n (out @ ?seg)" using ln by simp
        also have "\<dots> = take n (drop Q data)" unfolding all using big by simp
        finally show ?thesis .
      qed
      have "length ?out = n" using o big P Cons.prems(3) by simp
      then have "readLoop n ?out d1 = Some (?out, d1)" by (intro readLoop_stop) simp
      moreover have "d_state_buf d1 = take (P + tok_len t - (Q + n)) (drop (Q + n) data)"
      proof -
        have "d_state_buf d1 = drop n (out @ ?seg)" using d1(3) ln by simp
        also have "\<dots> = take (P + tok_len t - Q - n) (drop n (drop Q data))" unfolding all by (rule drop_take)
        finally show ?thesis by (simp add: add.commute)
      qed
      ultimately show ?thesis using d1(1,2) o big by (intro exI [of _ d1] exI [of _ "P + tok_len t"] exI [of _ ts]) auto
    qed
  qed
qed

text \<open>The reader after \<open>Q\<close> bytes have been returned.\<close>

definition rstate :: "byte list \<Rightarrow> nat \<Rightarrow> Reader \<Rightarrow> bool" where
  "rstate data Q d \<longleftrightarrow> (\<exists>P ts. read_inv data P ts d \<and> Q \<le> P \<and> d_state_buf d = take (P - Q) (drop Q data))"

lemma Reader_Read_ok:
  assumes "rstate data Q d" "length data \<le> 3867"
  shows "Q = length data \<Longrightarrow> Reader_Read n d = Some (([], Some EOF), d)"
    and "Q < length data \<Longrightarrow> \<exists>d'. Reader_Read n d = Some ((take n (drop Q data), None), d') \<and> rstate data (min (Q + n) (length data)) d'"
proof -
  obtain P ts where i: "read_inv data P ts d" "Q \<le> P" "d_state_buf d = take (P - Q) (drop Q data)" using assms(1) by (auto simp: rstate_def)
  have f: "br_err (d_r d) = None" "d_state_pos d = of_nat P" "d_header_size d = of_nat (length data)" "d_err d = None" "P \<le> length data"
    using i(1) by (auto simp: read_inv_def rtext_def wf_in_def)
  show "Reader_Read n d = Some (([], Some EOF), d)" if "Q = length data"
    using that f i(2,3) by (simp add: Reader_Read_def Let_def)
  assume Q: "Q < length data"
  have "\<not> (d_state_pos d = d_header_size d \<and> d_state_buf d = [])"
  proof
    assume a: "d_state_pos d = d_header_size d \<and> d_state_buf d = []"
    then have "sint (d_state_pos d) = sint (d_header_size d)" by simp
    then have "P = length data" using f(2,3,5) assms(2) sint_small [of P] sint_small [of "length data"] by simp
    then show False using a i(3) Q by simp
  qed
  then have e: "Reader_Read n d = do {
      (out, d) \<leftarrow> readLoop n (take n (d_state_buf d)) (d\<lparr>d_state_buf := drop n (d_state_buf d)\<rparr>); Some ((out, None), d) }"
    using f by (auto simp: Reader_Read_def Let_def)
  let ?d = "d\<lparr>d_state_buf := drop n (d_state_buf d)\<rparr>"
  have i': "read_inv data P ts ?d" using i(1) by (simp add: read_inv_def rtext_def)
  show "\<exists>d'. Reader_Read n d = Some ((take n (drop Q data), None), d') \<and> rstate data (min (Q + n) (length data)) d'"
  proof (cases "P - Q \<le> n")
    case True
    have b: "take n (d_state_buf d) = take (P - Q) (drop Q data)" "d_state_buf ?d = []" using True i(3) f(5) by (simp_all add: min_def)
    obtain d' P' ts' where "readLoop n (take n (d_state_buf d)) ?d = Some (take n (drop Q data), d')" "read_inv data P' ts' d'" "Q + min n (length data - Q) \<le> P'"
        "d_state_buf d' = take (P' - (Q + n)) (drop (Q + n) data)"
      using readLoop_ok [OF i' assms(2) i(2) b(1) True b(2)] by blast
    moreover from this have "rstate data (min (Q + n) (length data)) d'" using Q
      by (auto simp: rstate_def min_def intro!: exI [of _ P'] exI [of _ ts'] split: if_splits)
    ultimately show ?thesis using e by simp
  next
    case False
    have "readLoop n (take n (d_state_buf d)) ?d = Some (take n (d_state_buf d), ?d)" using False i(3) f(5) by (intro readLoop_stop) auto
    moreover have "take n (d_state_buf d) = take n (drop Q data)" using False i(3) by simp
    moreover have "rstate data (min (Q + n) (length data)) ?d"
      using i' i(2,3) False f(5) by (auto simp: rstate_def drop_take add.commute min_def intro!: exI [of _ P] exI [of _ ts])
    ultimately show ?thesis using e by simp
  qed
qed

section \<open>The checksum of the reader\<close>

text \<open>What the reader has taken from its source has gone through the checksum.\<close>

definition tee_ok :: "byte list \<Rightarrow> bitReader \<Rightarrow> bool" where
  "tee_ok whole br \<longleftrightarrow> (\<exists>x. tee_crcw (br_r br) = crcw_Write x newCRCWriter \<and> x @ tee_src (br_r br) = whole)"

lemma ReadByte_tee:
  assumes "tee_ok whole br" "ReadByte (br_r br) = (res, r)"
  shows "tee_ok whole (br'\<lparr>br_r := r\<rparr>)"
proof -
  obtain x where x: "tee_crcw (br_r br) = crcw_Write x newCRCWriter" "x @ tee_src (br_r br) = whole" using assms(1) by (auto simp: tee_ok_def)
  have app: "crcw_Write (y @ v) w = crcw_Write v (crcw_Write y w)" for y v w by (simp add: crcw_Write_def)
  show ?thesis
  proof (cases "tee_buf (br_r br)")
    case (Cons b bs)
    then show ?thesis using assms(2) x by (auto simp: ReadByte_def tee_ok_def)
  next
    case Nil
    show ?thesis
    proof (cases "take bufio_size (tee_src (br_r br))")
      case (Cons b bs)
      then have "b # bs @ drop bufio_size (tee_src (br_r br)) = tee_src (br_r br)" by (metis append_Cons append_take_drop_id)
      then show ?thesis using Nil Cons assms(2) x
        by (auto simp: ReadByte_def tee_ok_def app intro!: exI [of _ "x @ b # bs"])
    next
      case [simp]: Nil
      show ?thesis using \<open>tee_buf (br_r br) = []\<close> assms(2) x by (auto simp: ReadByte_def tee_ok_def)
    qed
  qed
qed

lemma tee_ok_cong: "br_r br' = br_r br \<Longrightarrow> tee_ok whole br' = tee_ok whole br"
  by (simp add: tee_ok_def)

lemma fillBits_tee: "tee_ok whole br \<Longrightarrow> tee_ok whole (snd (fillBits k br))"
proof (induction k br rule: fillBits.induct)
  case (1 k br)
  obtain res r where r: "ReadByte (br_r br) = (res, r)" by (cases "ReadByte (br_r br)")
  show ?case
  proof (cases "br_bits br < k")
    case True
    then show ?thesis using ReadByte_tee [OF "1.prems" r] r 1
      by (cases res; subst fillBits.simps) (auto simp: tee_ok_def)
  next
    case False
    then show ?thesis using "1.prems" by (simp add: fillBits.simps)
  qed
qed

lemma ReadBits_tee: "tee_ok whole br \<Longrightarrow> ReadBits k br = (v, br') \<Longrightarrow> tee_ok whole br'"
  using fillBits_tee [of whole br k]
  by (auto simp: ReadBits_def ReadBits64_def tee_ok_def split: prod.splits bool.splits)

lemma decodeLow_tee: "tee_ok whole br \<Longrightarrow> decodeLow j i br = (v, br') \<Longrightarrow> tee_ok whole br'"
  by (induction j arbitrary: i br) (auto simp: getBit_def dest: ReadBits_tee split: prod.splits)

lemma decodePosition_tee: "tee_ok whole br \<Longrightarrow> decodePosition br = (p, br') \<Longrightarrow> tee_ok whole br'"
  by (auto simp: decodePosition_def getByte_def Let_def dest: ReadBits_tee decodeLow_tee split: prod.splits)

lemma decodeChar_loop_tee:
  assumes "decodeChar_loop z c br = Some (c', br')" "tee_ok whole br"
  shows "tee_ok whole br'"
proof -
  have "tee_ok whole br \<longrightarrow> tee_ok whole (snd (c', br'))"
  proof (rule decodeChar_loop.raw_induct [OF _ assms(1), of "\<lambda>z c br r. tee_ok whole br \<longrightarrow> tee_ok whole (snd r)"])
    fix f :: "lzhuf \<Rightarrow> nat \<Rightarrow> bitReader \<Rightarrow> (nat \<times> bitReader) option" and z c br r
    assume IH: "\<And>z c br r. f z c br = Some r \<Longrightarrow> tee_ok whole br \<longrightarrow> tee_ok whole (snd r)"
      and "(if c < lz_T then case getBit br of (b, br) \<Rightarrow> do { c \<leftarrow> idx (son z) (c + b); f z c br } else Some (c, br)) = Some r"
    then show "tee_ok whole br \<longrightarrow> tee_ok whole (snd r)"
    proof (cases "c < lz_T")
      case True
      obtain b br1 where b: "getBit br = (b, br1)" by (cases "getBit br")
      then obtain c1 where "f z c1 br1 = Some r" using True \<open>_ = Some r\<close> by (auto simp: bind_eq_Some_conv)
      then show ?thesis using IH ReadBits_tee [of whole br 1 b br1] b by (auto simp: getBit_def)
    qed auto
  qed
  then show ?thesis using assms(2) by simp
qed

text \<open>The fields of the reader that reading keeps.\<close>

definition same_file :: "byte list \<Rightarrow> Reader \<Rightarrow> Reader \<Rightarrow> bool" where
  "same_file whole d d' \<longleftrightarrow> (tee_ok whole (d_r d) \<longrightarrow> tee_ok whole (d_r d')) \<and> d_crc16 d' = d_crc16 d \<and> d_header_crc d' = d_header_crc d"

lemma same_file_trans: "same_file whole a b \<Longrightarrow> same_file whole b c \<Longrightarrow> same_file whole a c"
  by (auto simp: same_file_def)

lemma decodeChar_file: "decodeChar d = Some (c, d') \<Longrightarrow> same_file whole d d'"
  by (auto simp: decodeChar_def same_file_def bind_eq_Some_conv Let_def dest: decodeChar_loop_tee)

lemma emitRing_file: "emitRing b d = Some d' \<Longrightarrow> same_file whole d d'"
  by (auto simp: emitRing_def advanceState_def same_file_def bind_eq_Some_conv)

lemma copyMatch_file: "copyMatch n i k j out d = Some (out', d') \<Longrightarrow> same_file whole d d'"
proof (induction j arbitrary: k out d)
  case (Suc j)
  from Suc.prems obtain b d1 d2 out2 where "d1 = d \<or> d1 = d\<lparr>d_state_buf := d_state_buf d @ [b]\<rparr>" and
      e: "emitRing b d1 = Some d2" "copyMatch n i (k + 1) j out2 d2 = Some (out', d')"
    by (cases "length out < n") (auto simp: bind_eq_Some_conv)
  then have "same_file whole d d1" by (auto simp: same_file_def)
  then show ?case using Suc.IH [OF e(2)] emitRing_file [OF e(1)] same_file_trans by blast
qed (simp add: same_file_def)

lemma readLoop_file:
  assumes "readLoop n out d = Some (out', d')"
  shows "same_file whole d d'"
proof -
  have "same_file whole d (snd (out', d'))"
  proof (rule readLoop.raw_induct [OF _ assms, of "\<lambda>n out d r. same_file whole d (snd r)"])
    fix f :: "nat \<Rightarrow> byte list \<Rightarrow> Reader \<Rightarrow> (byte list \<times> Reader) option" and n out d r
    assume IH: "\<And>n out d r. f n out d = Some r \<Longrightarrow> same_file whole d (snd r)"
      and step: "(if length out < n \<and> br_err (d_r d) = None \<and> sint (d_state_pos d) < sint (d_header_size d) then do {
        (c, d) \<leftarrow> decodeChar d;
        if c < 256 then do {
          d \<leftarrow> emitRing (of_nat c) d;
          f n (out @ [of_nat c]) d
        } else do {
          let (p, br) = decodePosition (d_r d);
          let d = d\<lparr>d_r := br\<rparr>;
          let i = nat ((int (d_state_r d) - int p - 1) AND (int lz_N - 1));
          (out, d) \<leftarrow> copyMatch n i 0 (c - 255 + lz_Threshold) out d;
          f n out d
        }
      } else Some (out, d)) = Some r"
    show "same_file whole d (snd r)"
    proof (cases "length out < n \<and> br_err (d_r d) = None \<and> sint (d_state_pos d) < sint (d_header_size d)")
      case False
      then have "Some (out, d) = Some r" using step by (simp only: if_False)
      then show ?thesis by (auto simp: same_file_def)
    next
      case True
      then obtain c d1 where c: "decodeChar d = Some (c, d1)" using step by (auto simp: bind_eq_Some_conv)
      have f1: "same_file whole d d1" by (rule decodeChar_file [OF c])
      show ?thesis
      proof (cases "c < 256")
        case l: True
        then obtain d2 where "emitRing (of_nat c) d1 = Some d2" "f n (out @ [of_nat c]) d2 = Some r"
          using step c True by (auto simp: bind_eq_Some_conv)
        then show ?thesis using f1 emitRing_file [of _ d1 d2 whole] IH [of n _ d2 r] same_file_trans [of whole] by metis
      next
        case l: False
        obtain p br where p: "decodePosition (d_r d1) = (p, br)" by (cases "decodePosition (d_r d1)")
        then have "same_file whole d1 (d1\<lparr>d_r := br\<rparr>)" using decodePosition_tee [of whole "d_r d1" p br] by (simp add: same_file_def)
        moreover obtain i out2 d2 where "copyMatch n i 0 (c - 255 + lz_Threshold) out (d1\<lparr>d_r := br\<rparr>) = Some (out2, d2)" "f n out2 d2 = Some r"
          using step c True l p by (auto simp: bind_eq_Some_conv Let_def)
        ultimately show ?thesis using f1 copyMatch_file [of n _ _ _ _ _ out2 d2 whole] IH [of n out2 d2 r] same_file_trans [of whole] by metis
      qed
    qed
  qed
  then show ?thesis by simp
qed

lemma Reader_Read_file: "Reader_Read n d = Some (r, d') \<Longrightarrow> same_file whole d d'"
proof -
  assume a: "Reader_Read n d = Some (r, d')"
  define d1 where "d1 = (if br_err (d_r d) = Some EOF \<and> sint (d_state_pos d) < sint (d_header_size d)
    then d\<lparr>d_err := Some ErrUnexpectedEOF\<rparr> else if br_err (d_r d) \<noteq> None then d\<lparr>d_err := br_err (d_r d)\<rparr> else d)"
  have 1: "same_file whole d d1" by (simp add: d1_def same_file_def)
  have 2: "same_file whole d1 (d1\<lparr>d_state_buf := drop n (d_state_buf d1)\<rparr>)" by (simp add: same_file_def)
  have "d' = d1 \<or> (\<exists>out out'. readLoop n out (d1\<lparr>d_state_buf := drop n (d_state_buf d1)\<rparr>) = Some (out', d'))"
    using a unfolding Reader_Read_def Let_def d1_def [symmetric] by (auto simp: bind_eq_Some_conv split: if_splits)
  then show ?thesis using 1 2 readLoop_file same_file_trans by blast
qed

section \<open>The header\<close>

lemma crcw_Sum_crc: "crcw_Sum (crcw_Write x newCRCWriter) = crc x"
proof -
  have "crcw_Sum (crcw_Write x newCRCWriter) = crc_ref (stream_bits [0, 0]) (crc_ref (stream_bits x) 0)"
    unfolding crcw_Sum_def fold_udpCRC16 crcw_Write_sum by (simp add: newCRCWriter_def)
  then show ?thesis by (simp only: crc_def fold_udpCRC16 stream_bits_append crc_ref_append)
qed

text \<open>The reader on what the writer left, with its header.\<close>

definition opened :: "byte list \<Rightarrow> bool \<Rightarrow> byte list \<Rightarrow> Reader \<Rightarrow> bool" where
  "opened data crc16 body d \<longleftrightarrow> d_crc16 d = crc16 \<and> tee_ok (le32 (of_nat (length data)) @ body) (d_r d) \<and>
     (crc16 \<longrightarrow> d_header_crc d = crc (le32 (of_nat (length data)) @ body))"

lemma NewReader_ok:
  assumes z: "newLZHUFF = Some z" and ts: "toks_ok data 0 ts" "toks_len ts = length data" and k: "k < 8"
    and body: "stream_bits body = code_all tok_bits tok_next z ts @ replicate k False"
  shows "\<exists>d. NewReader crc16 (packed crc16 data body) end = Some (Some d, None) \<and> rstate data 0 d \<and> opened data crc16 body d"
proof -
  obtain zi where zi: "newLZHUFF = Some zi" "tree_inv zi" using newLZHUFF_ok by blast
  have "zi = z" using z zi(1) by (metis option.inject)
  then have inv: "tree_inv z" using zi(2) by simp
  have tb: "textBuf z = replicate (lz_N + lz_F - 1) 0"
    using newLZHUFF_dict [OF z] by (simp add: dict_part_def zero_lzhuf_def)
  let ?tb = "replicate (lz_N - lz_F) 0x20 @ drop (lz_N - lz_F) (textBuf z)"
  have fill: "foldM (\<lambda>i tb. upd tb i 0x20) [0..<lz_N - lz_F] (textBuf z) = Some ?tb"
    by (rule fill_spaces) (simp add: tb lz_consts)
  let ?h = "le32 (of_nat (length data))"
  let ?d = "\<lparr>d_r = newBitReader \<lparr>tee_buf = [], tee_src = body, tee_end = end, tee_crcw = crcw_Write ?h newCRCWriter\<rparr>,
      d_z = z\<lparr>textBuf := ?tb\<rparr>, d_err = None, d_crc16 = crc16,
      d_header_crc = (if crc16 then crc (?h @ body) else 0), d_header_size = of_nat (length data),
      d_state_pos = 0, d_state_r = lz_N - lz_R, d_state_buf = []\<rparr>"
  have "NewReader crc16 (packed crc16 data body) end = Some (Some ?d, None)"
    unfolding NewReader_def z bind.bind_lunit fill Let_def
    by (cases crc16) (simp_all add: packed_def readFull_def of_le16_le16 of_le32_le32)
  moreover have "rpos j = nat (int (lz_N - lz_R) + j) \<and> rpos j < lz_N - lz_F" if "- int lz_F \<le> j" "j < 0" for j
    using that ring_start [of "lz_N - lz_R" j] by (auto simp: lz_consts)
  then have "holds (lz_N - lz_R) data (oldest 0) 0 ?tb"
    by (auto simp: holds_def byteAt_def tb nth_append) (simp_all add: lz_consts)
  moreover have "rpos 0 = lz_N - lz_R" using ring_start [of "lz_N - lz_R" 0] by (simp add: lz_consts)
  ultimately have "rtext data ?d 0" by (simp add: rtext_def)
  moreover have h: "huff_eq (z\<lparr>textBuf := ?tb\<rparr>) z" by (simp add: huff_eq_def)
  then have "tree_inv (d_z ?d)" "code_all tok_bits tok_next (d_z ?d) ts = code_all tok_bits tok_next z ts"
    using tree_inv_huff [OF h] inv code_all_huff [OF h inv ts(1)] by simp_all
  moreover have "in_bits (d_r ?d) = stream_bits body" "wf_in (d_r ?d)" by (simp_all add: in_bits_def wf_in_def newBitReader_def low_bits_def)
  ultimately have "read_inv data 0 ts ?d" using ts k body by (auto simp: read_inv_def)
  then have "rstate data 0 ?d" unfolding rstate_def by (intro exI [of _ 0] exI [of _ ts]) simp
  moreover have "opened data crc16 body ?d" by (auto simp: opened_def tee_ok_def newBitReader_def)
  ultimately show ?thesis using \<open>NewReader _ _ _ = _\<close> by blast
qed

lemma Reader_Close_ok:
  assumes "rstate data (length data) d" "opened data crc16 body d" "length data \<le> 3867"
  shows "Reader_Close d = None"
proof -
  obtain P ts where i: "read_inv data P ts d" "length data \<le> P" using assms(1) by (auto simp: rstate_def)
  then have P: "P = length data" "d_state_buf d = []" using assms(1) by (auto simp: read_inv_def rstate_def)
  then have "toks_len ts = 0" using i(1) by (simp add: read_inv_def)
  moreover have "0 < toks_len ts" if "toks_ok data P ts" "ts \<noteq> []"
    using that by (cases ts) (auto dest: tok_len_pos)
  ultimately have "ts = []" using i(1) by (auto simp: read_inv_def)
  then obtain k where k: "k < 8" "in_bits (d_r d) = replicate k False" using i(1) by (auto simp: read_inv_def)
  have "length (in_bits (d_r d)) < 8" using k by simp
  then have e: "tee_src (br_r (d_r d)) = []" by (cases "tee_src (br_r (d_r d))") (auto simp: in_bits_def)
  have "crcw_Sum (tee_crcw (br_r (d_r d))) = crc (le32 (of_nat (length data)) @ body)"
    using assms(2) e by (auto simp: opened_def tee_ok_def crcw_Sum_crc)
  then show ?thesis using i(1) P assms(2) by (auto simp: Reader_Close_def read_inv_def wf_in_def rtext_def opened_def)
qed

section \<open>Properties\<close>

lemma opened_Read: "opened data crc16 body d \<Longrightarrow> Reader_Read n d = Some (r, d') \<Longrightarrow> opened data crc16 body d'"
  using Reader_Read_file [of n d r d' "le32 (of_nat (length data)) @ body"] by (auto simp: opened_def same_file_def)

text \<open>Everything a caller gets that reads with slices of the given lengths.\<close>

definition read_all :: "nat list \<Rightarrow> Reader \<Rightarrow> (byte list \<times> Reader) option" where
  "read_all ns d = foldM (\<lambda>n (bs, d). do { ((out, e), d) \<leftarrow> Reader_Read n d; Some (bs @ out, d) }) ns ([], d)"

lemma read_more:
  assumes "rstate data Q d" "opened data crc16 body d" "Q \<le> length data" "length data \<le> 3867"
  shows "\<exists>d'. foldM (\<lambda>n (bs, d). do { ((out, e), d) \<leftarrow> Reader_Read n d; Some (bs @ out, d) }) ns (bs, d) =
      Some (bs @ take (sum_list ns) (drop Q data), d') \<and> rstate data (min (Q + sum_list ns) (length data)) d' \<and> opened data crc16 body d'"
  using assms
proof (induction ns arbitrary: Q bs d)
  case Nil
  then show ?case by (simp add: min_def)
next
  case (Cons n ns)
  show ?case
  proof (cases "Q = length data")
    case True
    then show ?thesis using Reader_Read_ok(1) [OF Cons.prems(1,4)] Cons.IH [OF Cons.prems, of bs] by simp
  next
    case False
    then obtain d1 where d1: "Reader_Read n d = Some ((take n (drop Q data), None), d1)" "rstate data (min (Q + n) (length data)) d1"
      using Reader_Read_ok(2) [OF Cons.prems(1,4)] Cons.prems(3) by auto
    have eq: "drop (min (Q + n) (length data)) data = drop n (drop Q data)" by (simp add: min_def add.commute)
    have m: "min (min (Q + n) (length data) + sum_list ns) (length data) = min (Q + sum_list (n # ns)) (length data)" by simp
    obtain d' where "foldM (\<lambda>n (bs, d). do { ((out, e), d) \<leftarrow> Reader_Read n d; Some (bs @ out, d) }) ns (bs @ take n (drop Q data), d1) =
        Some ((bs @ take n (drop Q data)) @ take (sum_list ns) (drop n (drop Q data)), d')"
        "rstate data (min (Q + sum_list (n # ns)) (length data)) d'" "opened data crc16 body d'"
      using Cons.IH [OF d1(2) opened_Read [OF Cons.prems(2) d1(1)] _ Cons.prems(4), of "bs @ take n (drop Q data)"] unfolding eq m by auto
    then show ?thesis using d1(1) by (simp add: take_add del: drop_drop)
  qed
qed

lemma compressed:
  assumes "concat ps = data"
  shows "\<exists>w w1 w2. NewWriter crc16 = Some w \<and> write_all ps w = Some w1 \<and> Writer_Close w1 = Some (None, w2) \<and>
    (length data \<le> 3867 \<longrightarrow> (\<forall>end. \<exists>d body. NewReader crc16 (w_out w2) end = Some (Some d, None) \<and> rstate data 0 d \<and> opened data crc16 body d) \<and>
      6 \<le> length (w_out w2) + (if crc16 then 0 else 2) \<and> length (w_out w2) \<le> 4 * length data + 7)"
proof -
  obtain z where z: "newLZHUFF = Some z" using newLZHUFF_ok by blast
  obtain w where w: "NewWriter crc16 = Some w" "wstate z data crc16 0 w" using NewWriter_ok [OF z] by blast
  obtain w1 where w1: "write_all ps w = Some w1" "wstate z data crc16 (length data) w1" using write_all_ok [OF w(2), of ps] assms by auto
  obtain w2 where w2: "Writer_Close w1 = Some (None, w2)" "length data \<le> 3867 \<Longrightarrow>
    (\<exists>ts k body. toks_ok data 0 ts \<and> toks_len ts = length data \<and> k < 8 \<and> w_out w2 = packed crc16 data body \<and>
       stream_bits body = code_all tok_bits tok_next z ts @ replicate k False \<and> length body \<le> 4 * length data + 1)" using Writer_Close_ok [OF w1(2)] by blast
  have "\<exists>d body. NewReader crc16 (w_out w2) end = Some (Some d, None) \<and> rstate data 0 d \<and> opened data crc16 body d" if "length data \<le> 3867" for "end"
    using w2(2) [OF that] NewReader_ok [OF z, of data _ _ _ crc16 "end"] by metis
  moreover have "6 \<le> length (w_out w2) + (if crc16 then 0 else 2) \<and> length (w_out w2) \<le> 4 * length data + 7" if "length data \<le> 3867"
    using w2(2) [OF that] by (auto simp: packed_def)
  ultimately show ?thesis using w(1) w1(1) w2(1) by blast
qed

text \<open>C2. What the writer compresses the reader decompresses: data of up to 3867 bytes, written in any pieces, is read back
  unchanged with reads of any sizes, every later read gives the end of the file, also one into an empty slice, and \<open>Close\<close> then finds the checksum and the size in
  order.\<close>

theorem lzhuf_roundtrip:
  assumes "concat ps = data" "length data \<le> 3867"
  shows "\<exists>w w1 w2 d. NewWriter crc16 = Some w \<and> write_all ps w = Some w1 \<and> Writer_Close w1 = Some (None, w2) \<and>
    NewReader crc16 (w_out w2) EOF = Some (Some d, None) \<and>
    (\<forall>ns. \<exists>d'. read_all ns d = Some (take (sum_list ns) data, d') \<and>
       (length data \<le> sum_list ns \<longrightarrow> Reader_Read n d' = Some (([], Some EOF), d') \<and> Reader_Close d' = None))"
proof -
  obtain w w1 w2 d body where w: "NewWriter crc16 = Some w" "write_all ps w = Some w1" "Writer_Close w1 = Some (None, w2)"
      "NewReader crc16 (w_out w2) EOF = Some (Some d, None)" "rstate data 0 d" "opened data crc16 body d"
    using compressed [OF assms(1)] assms(2) by blast
  have "\<exists>d'. read_all ns d = Some (take (sum_list ns) data, d') \<and>
       (length data \<le> sum_list ns \<longrightarrow> Reader_Read n d' = Some (([], Some EOF), d') \<and> Reader_Close d' = None)" for ns
  proof -
    obtain d' where d': "read_all ns d = Some (take (sum_list ns) data, d')" "rstate data (min (sum_list ns) (length data)) d'" "opened data crc16 body d'"
      using read_more [OF w(5,6) _ assms(2), of ns "[]"] by (auto simp: read_all_def)
    have "rstate data (length data) d'" if "length data \<le> sum_list ns" using d'(2) that by (simp add: min_absorb2)
    then show ?thesis using d'(1) Reader_Read_ok(1) [OF _ assms(2), of "length data" d' n] Reader_Close_ok [OF _ d'(3) assms(2)] by blast
  qed
  then show ?thesis using w by blast
qed

theorem lzhuf_roundtrip_witness:
  "\<exists>w w1 w2 d d'. NewWriter True = Some w \<and> write_all [[97, 98], [], [97, 98, 97, 98, 97]] w = Some w1 \<and> Writer_Close w1 = Some (None, w2) \<and>
    NewReader True (w_out w2) EOF = Some (Some d, None) \<and> read_all [3, 0, 100] d = Some ([97, 98, 97, 98, 97, 98, 97], d') \<and>
    Reader_Read 1 d' = Some (([], Some EOF), d') \<and> Reader_Close d' = None"
proof -
  obtain w w1 w2 d where w: "NewWriter True = Some w" "write_all [[97, 98], [], [97, 98, 97, 98, 97]] w = Some w1" "Writer_Close w1 = Some (None, w2)"
      "NewReader True (w_out w2) EOF = Some (Some d, None)"
      "\<And>ns. \<exists>d'. read_all ns d = Some (take (sum_list ns) [97, 98, 97, 98, 97, 98, 97], d') \<and>
       (length [97, 98, 97, 98, 97, 98, 97 :: byte] \<le> sum_list ns \<longrightarrow> Reader_Read 1 d' = Some (([], Some EOF), d') \<and> Reader_Close d' = None)"
    using lzhuf_roundtrip [of "[[97, 98], [], [97, 98, 97, 98, 97]]" "[97, 98, 97, 98, 97, 98, 97]" True 1] by auto
  show ?thesis using w(1-4) w(5) [of "[3, 0, 100]"] by auto
qed

text \<open>C14. Compression always ends: whatever is written, in whatever pieces and of whatever size, the dictionary searches,
  the tree updates and the final emptying of the lookahead buffer return, no array access is out of range and \<open>Close\<close>
  reports no error.\<close>

theorem Writer_never_panics:
  "\<exists>w w1 w2. NewWriter crc16 = Some w \<and> write_all ps w = Some w1 \<and> Writer_Close w1 = Some (None, w2)"
  using compressed [of ps] by blast

end
