(* ===== verification/Fbb_Codec.thy ===== *)
theory Fbb_Codec
  imports Fbb_Proposal Lzhuf_Roundtrip
begin

text \<open>
  The compression of proposals: what \<open>NewProposal\<close> compresses with lzhuf, \<open>Data\<close> decompresses
  (\<^verbatim>\<open>src/fbb/proposal.go\<close>).
\<close>

lemma copyAll_ok:
  assumes "rstate data Q d" "Q \<le> length data" "length data \<le> 3867"
  shows "copyAll acc d = Some (Inr (acc @ drop Q data))"
  using assms
proof (induction "length data - Q" arbitrary: Q acc d rule: less_induct)
  case less
  show ?case
  proof (cases "Q = length data")
    case True
    then show ?thesis using Reader_Read_ok(1) [OF less.prems(1,3)] by (subst copyAll.simps) simp
  next
    case False
    then obtain d1 where d1: "Reader_Read 512 d = Some ((take 512 (drop Q data), None), d1)" "rstate data (min (Q + 512) (length data)) d1"
      using Reader_Read_ok(2) [OF less.prems(1,3)] less.prems(2) by auto
    have "drop (min (Q + 512) (length data)) data = drop 512 (drop Q data)" by (simp add: min_def add.commute)
    then have "copyAll (acc @ take 512 (drop Q data)) d1 = Some (Inr (acc @ take 512 (drop Q data) @ drop 512 (drop Q data)))"
      using less.hyps [OF _ d1(2), of "acc @ take 512 (drop Q data)"] less.prems(2,3) False by (simp del: drop_drop)
    then show ?thesis using d1(1) by (subst copyAll.simps) (simp del: drop_drop)
  qed
qed

lemma lzhufCompress_ok:
  "\<exists>buf. lzhufCompress data = Some buf \<and> (length data \<le> 3867 \<longrightarrow> 6 \<le> length buf \<and> length buf \<le> 4 * length data + 7 \<and>
     (\<forall>gunzip p. p_code p \<noteq> GzipProposal \<and> p_compressedData p = buf \<longrightarrow> Data gunzip p = Some data))"
proof -
  let ?bs = "to_bytes data"
  obtain w w1 w2 where w: "NewWriter True = Some w" "write_all [?bs] w = Some w1" "Writer_Close w1 = Some (None, w2)"
    "length ?bs \<le> 3867 \<Longrightarrow> (\<forall>end. \<exists>d body. NewReader True (w_out w2) end = Some (Some d, None) \<and> rstate ?bs 0 d \<and> opened ?bs True body d) \<and>
      6 \<le> length (w_out w2) \<and> length (w_out w2) \<le> 4 * length ?bs + 7"
    using compressed [of "[?bs]" ?bs True] by auto
  have "lzhufCompress data = Some (of_bytes (w_out w2))"
    using w(1-3) by (auto simp: lzhufCompress_def NewB2Writer_def write_all_def bind_eq_Some_conv)
  moreover have "Data gunzip p = Some data" if n: "length data \<le> 3867" and p: "p_code p \<noteq> GzipProposal" "p_compressedData p = of_bytes (w_out w2)" for gunzip p
  proof -
    obtain d where "NewReader True (w_out w2) EOF = Some (Some d, None)" "rstate ?bs 0 d" using w(4) n by force
    then show ?thesis using copyAll_ok [of ?bs 0 d "[]"] p n by (simp add: Data_def NewB2Reader_def)
  qed
  ultimately show ?thesis using w(4) by auto
qed

text \<open>A proposal made of up to 3867 bytes with lzhuf compression can be made and gives its data back, whatever the
  gzip implementation is.\<close>

theorem proposal_data_roundtrip:
  assumes "code \<noteq> GzipProposal" "length data \<le> 3867"
  shows "\<exists>p. NewProposal gzip mid title code data = Some p \<and> Data gunzip p = Some data \<and> DataIsComplete p \<and>
    p_size p = int (length data) \<and> p_compressedSize p \<le> 4 * p_size p + 7"
proof -
  obtain buf where buf: "lzhufCompress data = Some buf" "length buf \<le> 4 * length data + 7"
      "\<And>gunzip p. p_code p \<noteq> GzipProposal \<Longrightarrow> p_compressedData p = buf \<Longrightarrow> Data gunzip p = Some data"
    using lzhufCompress_ok assms(2) by blast
  have "int (length buf) \<le> 4 * int (length data) + 7" using buf(2) by linarith
  then show ?thesis using assms(1) buf(1,3) by (simp add: NewProposal_def Let_def DataIsComplete_def)
qed

theorem proposal_data_roundtrip_witness:
  "\<exists>p. NewProposal (\<lambda>x. x) ''TJKYEIMMHSRB'' ''Hi'' Wl2kProposal ''Hello'' = Some p \<and> Data (\<lambda>x. None) p = Some ''Hello'' \<and> DataIsComplete p \<and>
    p_size p = 5 \<and> p_compressedSize p \<le> 27"
  using proposal_data_roundtrip [of Wl2kProposal "''Hello''" "\<lambda>x. x" "''TJKYEIMMHSRB''" "''Hi''" "\<lambda>x. None"]
  by (auto simp: prop_codes)

end
