(* ===== verification/Fbb_Exchange.thy ===== *)
theory Fbb_Exchange
  imports Fbb_Session Fbb_Codec
begin

text \<open>
  What the two ends of an exchange do together: the text of a block (\<open>blockText\<close>) and of a transfer
  (\<open>transferText\<close>) as the sending side writes them, the receiving side on that text, and the two sides put together
  for messages of a mailbox.
\<close>

section \<open>A block of messages from one side to the other\<close>

subsection \<open>The proposals arrive\<close>

definition blockText :: "Proposal list \<Rightarrow> string" where
  "blockText ps = concat (map (\<lambda>p. proposalLine p @ [CR]) ps) @ promptLine (blockSum (map proposalLine ps))"

lemma finalSum_bound: "finalSum x < 256"
  using pos_mod_bound [of 256 "- x"] by (simp add: finalSum_mod nat_less_iff)

lemma printNat_16: "n < 256 \<Longrightarrow> length (printNat 16 n) \<le> 2"
  by (auto simp: printNat.simps [of 16 n] printNat.simps [of 16 "n div 16"] div_less_iff_less_mult)

lemma print02X_parse: "n < 256 \<Longrightarrow> ParseInt 16 (print02X n) = (int n, None)"
proof -
  assume n: "n < 256"
  let ?d = "printNat 16 n"
  show ?thesis
  proof (cases "length ?d = 2")
    case True
    then show ?thesis using n ParseInt_printNat [of 16 n] by (simp add: print02X_def padLeft_def)
  next
    case False
    have "?d \<noteq> []" by (rule printNat_nonempty) simp
    then have "length ?d = 1" using False printNat_16 [OF n] by (cases ?d) (auto simp: le_Suc_eq)
    then have s: "print02X n = CHR ''0'' # ?d" by (simp add: print02X_def padLeft_def)
    have "parseDigits 16 0 (CHR ''0'' # ?d) = (n, None)"
      using parseDigits_print [of 16 n] n padLeft_0 [of 16 1 ?d] by (simp add: maxUint64_def)
    then show ?thesis using n by (simp add: s ParseInt_def parseUint_def)
  qed
qed

lemma promptLine_plain:
  "promptLine n = (''F> '' @ print02X n) @ [CR]" "plain_line (''F> '' @ print02X n)"
proof -
  show "promptLine n = (''F> '' @ print02X n) @ [CR]" by (simp add: promptLine_def)
  have v: "visible c" if "c \<in> set (print02X n)" for c
    using that printNat_visible [of 16 c n] by (auto simp: print02X_def padLeft_def visible_def)
  have ne: "print02X n \<noteq> []" using printNat_nonempty [of 16 n] by (simp add: print02X_def padLeft_def)
  then have "visible (last (print02X n))" using v last_in_set by blast
  moreover have "CR \<notin> set (print02X n)" using v [of CR] by (auto simp: visible_def)
  ultimately show "plain_line (''F> '' @ print02X n)" using ne by (simp add: plain_line_def visible_def)
qed

lemma inboundLine_proposal:
  assumes "wire_ok p"
  shows "inboundLine ask k ps (proposalLine p) c = Some (Continue (k + lineSum (proposalLine p)) (ps @ [wire_part p]), c)"
proof -
  have "proposalLine p ! 0 = CHR ''F''" "proposalLine p ! 1 = p_code p" "\<not> length (proposalLine p) < 2" "proposalLine p \<noteq> []"
    by (simp_all add: proposalLine_def)
  moreover have "p_code p \<in> set ''ABCD''" using assms by (auto simp: wire_ok_def prop_codes)
  ultimately show ?thesis using parse_proposalLine [OF assms] by (simp add: inboundLine_def)
qed

lemma inboundLoop_proposals:
  "\<forall>p \<in> set qs. wire_ok p \<Longrightarrow> c_in c = concat (map (\<lambda>p. proposalLine p @ [CR]) qs) @ rest \<Longrightarrow>
   inboundLoop ask k ps c =
     inboundLoop ask (k + (\<Sum>l\<leftarrow>map proposalLine qs. lineSum l)) (ps @ map wire_part qs) (c\<lparr>c_in := rest\<rparr>)"
proof (induction qs arbitrary: k ps c)
  case (Cons q qs)
  let ?r = "concat (map (\<lambda>p. proposalLine p @ [CR]) qs) @ rest"
  have w: "wire_ok q" using Cons.prems(1) by simp
  have "hd (proposalLine q) \<noteq> CHR ''*''" using proposalLine_plain(2) [OF w] by simp
  then have n: "nextLine c = Some ((proposalLine q, None), c\<lparr>c_in := ?r\<rparr>)"
    using proposalLine_plain(1) [OF w] Cons.prems(2) by (intro nextLine_plain) simp_all
  have "inboundLoop ask k ps c =
      inboundLoop ask (k + lineSum (proposalLine q)) (ps @ [wire_part q]) (c\<lparr>c_in := ?r\<rparr>)"
    using n inboundLine_proposal [OF w] by (subst inboundLoop.simps) simp
  also have "\<dots> = inboundLoop ask (k + lineSum (proposalLine q) + (\<Sum>l\<leftarrow>map proposalLine qs. lineSum l))
      ((ps @ [wire_part q]) @ map wire_part qs) (c\<lparr>c_in := ?r\<rparr>\<lparr>c_in := rest\<rparr>)"
    using Cons.prems(1) by (intro Cons.IH) simp_all
  finally show ?case by (simp add: add.assoc)
next
  case Nil
  then have "c\<lparr>c_in := rest\<rparr> = c" by simp
  then show ?case by simp
qed

text \<open>Reading a block: the checksum agrees, the proposals are answered, and accepted ones are announced.\<close>

lemma inboundLoop_block:
  assumes "\<forall>p \<in> set qs. wire_ok p" "qs \<noteq> []" "c_fail c = None" "c_in c = blockText qs @ rest"
    and "answerAll ask [] (map wire_part qs) = (n, props)" "0 < n"
  shows "inboundLoop ask 0 [] c = Some (LoopBreak False props n, c\<lparr>c_in := rest, c_out := c_out c @ ''FS '' @ map p_answer props @ [CR]\<rparr>)"
proof -
  let ?k = "\<Sum>l\<leftarrow>map proposalLine qs. lineSum l" and ?c1 = "c\<lparr>c_in := promptLine (blockSum (map proposalLine qs)) @ rest\<rparr>"
  let ?p = "''F> '' @ print02X (finalSum ?k)"
  have 1: "inboundLoop ask 0 [] c = inboundLoop ask ?k (map wire_part qs) ?c1"
    using inboundLoop_proposals [OF assms(1), of c "promptLine (blockSum (map proposalLine qs)) @ rest" ask 0 "[]"] assms(4)
    by (simp add: blockText_def)
  have "nextLine ?c1 = Some ((?p, None), c\<lparr>c_in := rest\<rparr>)"
    using nextLine_plain [OF promptLine_plain(2), of "finalSum ?k" ?c1 rest] promptLine_plain(1) [of "finalSum ?k"]
    by (simp add: blockSum_def)
  moreover have "inboundLine ask ?k (map wire_part qs) ?p (c\<lparr>c_in := rest\<rparr>) =
      Some (LoopEnd (LoopBreak False props n), c\<lparr>c_in := rest, c_out := c_out c @ ''FS '' @ map p_answer props @ [CR]\<rparr>)"
    using assms(2,3,5,6) print02X_parse [OF finalSum_bound, of ?k] promptLine_plain(2) [of "finalSum ?k"]
    by (simp add: inboundLine_def inboundPrompt_def Let_def writeProposalsAnswer_def)
  ultimately show ?thesis unfolding 1 by (subst inboundLoop.simps) simp
qed


subsection \<open>The messages arrive\<close>

definition transferable :: "Proposal \<Rightarrow> bool" where
  "transferable p \<longleftrightarrow> p_offset p = 0 \<and> 6 \<le> p_compressedSize p \<and> DataIsComplete p \<and>
     (needsEncoding (p_title p) \<or> Index (p_title p) ''=?'' = None) \<and> length (QEncode ''utf-8'' (p_title p)) \<le> 252"

definition transferText :: "Proposal \<Rightarrow> string" where
  "transferText p = transferHeader p @ chunked (p_compressedData p) @
     [CHREOT, byteOf (finalSum (byteSum (p_compressedData p)))]"

definition delivered :: "Proposal \<Rightarrow> Proposal" where
  "delivered p = (wire_part p)\<lparr>p_answer := Accept, p_title := p_title p, p_compressedData := p_compressedData p\<rparr>"

lemma title_decoded:
  "needsEncoding t \<or> Index t ''=?'' = None \<Longrightarrow> fst (DecodeHeader f (QEncode ''utf-8'' t)) = t"
  by (cases "needsEncoding t") (simp_all add: DecodeHeader_def QEncode_decode, simp add: QEncode_def validUtf8_plain)

lemma readCompressed_transfer:
  assumes "transferable p" "c_in c = transferText p @ rest"
  shows "readCompressed f ((wire_part p)\<lparr>p_answer := Accept\<rparr>) c = Some ((None, delivered p), c\<lparr>c_in := rest\<rparr>)"
proof -
  let ?q = "(wire_part p)\<lparr>p_answer := Accept\<rparr>" and ?k = "byteOf (finalSum (byteSum (p_compressedData p)))"
  have "c_in c = transferHeader p @ chunked (p_compressedData p) @ CHREOT # ?k # rest"
    using assms(2) by (simp add: transferText_def)
  moreover have "p_offset ?q = 0" "p_compressedSize ?q = p_compressedSize p" by (simp_all add: wire_part_def new_Proposal_def)
  ultimately show ?thesis
    using received_header [of p c "chunked (p_compressedData p) @ CHREOT # ?k # rest" ?q f] assms(1) checksum_cancels [of "p_compressedData p"]
      title_decoded [of "p_title p" f]
    by (simp add: transferable_def printInt_0 readChunks_chunked DataIsComplete_def delivered_def)
qed

lemma writeCompressed_transfer:
  assumes "transferable p" "c_fail c = None" "c_flush c = None"
  shows "writeCompressed p c = Some (None, c\<lparr>c_out := c_out c @ transferText p\<rparr>)"
  using assms writeCompressed_works [of c p] by (simp add: transferable_def transferText_def)

fun processAll :: "'m MBoxHandler \<Rightarrow> Message list \<Rightarrow> 'm \<Rightarrow> 'm option" where
  "processAll h [] m = Some m"
| "processAll h (msg # msgs) m = (case ProcessInbound h msg m of (None, m) \<Rightarrow> processAll h msgs m | (Some e, m) \<Rightarrow> None)"

abbreviation accepted :: "char list \<Rightarrow> Proposal list \<Rightarrow> Proposal list" where
  "accepted as ps \<equiv> map snd (filter (\<lambda>(a, p). a = Accept) (zip as ps))"

lemma receiveAll_block:
  assumes "length as = length qs"
    and "\<forall>p \<in> set (accepted as qs). transferable p \<and> Proposal_Message env (delivered p) = Some (None, msg p)"
    and "c_in c = concat (map transferText (accepted as qs)) @ rest"
    and "processAll h (map msg (accepted as qs)) m = Some m'"
  shows "receiveAll env (Some h) (map2 (\<lambda>a p. (wire_part p)\<lparr>p_answer := a\<rparr>) as qs) s c m =
    Some (None, s\<lparr>s_remoteNoMsgs := s_remoteNoMsgs s \<and> accepted as qs = [],
      s_trafficStats := (s_trafficStats s)\<lparr>Received := Received (s_trafficStats s) @ map p_mid (accepted as qs)\<rparr>\<rparr>, c\<lparr>c_in := rest\<rparr>, m')"
  using assms
proof (induction as qs arbitrary: s c m rule: list_induct2)
  case Nil
  have "c\<lparr>c_in := rest\<rparr> = c" using Nil by simp
  then show ?case using Nil by simp
next
  case (Cons a as q qs)
  show ?case
  proof (cases "a = Accept")
    case True
    let ?r = "concat (map transferText (accepted as qs)) @ rest"
    have t: "transferable q" "Proposal_Message env (delivered q) = Some (None, msg q)" "c_in c = transferText q @ ?r"
      using Cons.prems True by auto
    obtain m1 where m1: "ProcessInbound h (msg q) m = (None, m1)" "processAll h (map msg (accepted as qs)) m1 = Some m'"
      using Cons.prems(3) True by (auto split: prod.splits option.splits)
    have mid: "p_mid (delivered q) = p_mid q" by (simp add: delivered_def wire_part_def)
    let ?s1 = "s\<lparr>s_remoteNoMsgs := False, s_trafficStats := (s_trafficStats s)\<lparr>Received := Received (s_trafficStats s) @ [p_mid q]\<rparr>\<rparr>"
    have "receiveOne env (Some h) ((wire_part q)\<lparr>p_answer := Accept\<rparr>) (s\<lparr>s_remoteNoMsgs := False\<rparr>) c m = Some (None, ?s1, c\<lparr>c_in := ?r\<rparr>, m1)"
      using readCompressed_transfer [OF t(1,3), of "e_fromCharset env"] t(2) m1(1) mid by (simp add: receiveOne_def)
    then show ?thesis
      using Cons.IH [of "c\<lparr>c_in := ?r\<rparr>" m1 ?s1] Cons.prems(1) m1(2) True by simp
  next
    case False
    then show ?thesis using Cons.IH [of c m s] Cons.prems by simp
  qed
qed


subsection \<open>The sending side\<close>

lemma transfer_answer [simp]:
  "transferText (p\<lparr>p_answer := a\<rparr>) = transferText p" "transferable (p\<lparr>p_answer := a\<rparr>) = transferable p"
  by (simp_all add: transferText_def transferHeader_def transferable_def DataIsComplete_def)

lemma update_fresh: "k \<notin> fst ` set al \<Longrightarrow> AList.update k v al = al @ [(k, v)]"
  by (induction al) auto

definition reported :: "char list \<Rightarrow> Proposal list \<Rightarrow> (string \<times> bool) list" where
  "reported as ps = map (\<lambda>(a, p). (p_mid p, a = Reject)) (filter (\<lambda>(a, p). a \<noteq> Defer) (zip as ps))"

text \<open>A mailbox that does not abort the program: \<open>sinv\<close> is what its state satisfies and \<open>off\<close> are the ids of the messages
  that can still be deferred or marked as sent.\<close>

definition sender_ok :: "env \<Rightarrow> 'm MBoxHandler \<Rightarrow> Session \<Rightarrow> ('m \<Rightarrow> bool) \<Rightarrow> ('m \<Rightarrow> string set) \<Rightarrow> bool" where
  "sender_ok env h s sinv off \<longleftrightarrow>
     (\<forall>m. sinv m \<longrightarrow> outbound env (Some h) s m \<noteq> None) \<and>
     (\<forall>m mid. sinv m \<longrightarrow> mid \<in> off m \<longrightarrow> (\<exists>m'. SetDeferred h mid m = Some m' \<and> sinv m' \<and> off m - {mid} \<subseteq> off m')) \<and>
     (\<forall>m mid r. sinv m \<longrightarrow> mid \<in> off m \<longrightarrow> (\<exists>m'. SetSent h mid r m = Some m' \<and> sinv m' \<and> off m - {mid} \<subseteq> off m'))"

lemma sender_okD:
  assumes "sender_ok env h s sinv off" "sinv m"
  shows "\<exists>ps. outbound env (Some h) s m = Some ps"
    and "mid \<in> off m \<Longrightarrow> \<exists>m'. SetDeferred h mid m = Some m' \<and> sinv m' \<and> off m - {mid} \<subseteq> off m'"
    and "mid \<in> off m \<Longrightarrow> \<exists>m'. SetSent h mid r m = Some m' \<and> sinv m' \<and> off m - {mid} \<subseteq> off m'"
  using assms unfolding sender_ok_def by auto

lemma deliver_block:
  assumes "length as = length qs" "\<forall>a \<in> set as. is_answer a" "\<forall>p \<in> set qs. transferable p"
    and "distinct (map p_mid qs)" "fst ` set sent \<inter> p_mid ` set qs = {}" "c_fail c = None" "c_flush c = None"
    and "sender_ok env h s sinv off" "sinv m" "p_mid ` set qs \<subseteq> off m"
  shows "\<exists>m'. deliver h (map2 (\<lambda>a p. p\<lparr>p_answer := a\<rparr>) as qs) sent c m =
    Some ((sent @ reported as qs, None), c\<lparr>c_out := c_out c @ concat (map transferText (accepted as qs))\<rparr>, m') \<and>
    sinv m' \<and> fst ` set (reported as qs) \<subseteq> off m' \<and> off m - p_mid ` set qs \<subseteq> off m'"
  using assms
proof (induction as qs arbitrary: sent c m rule: list_induct2)
  case Nil
  then show ?case by (simp add: reported_def)
next
  case (Cons a as q qs)
  have ans: "Defer \<noteq> Accept" "Reject \<noteq> Accept" "Accept \<noteq> Defer" "Reject \<noteq> Defer" "Accept \<noteq> Reject" "Defer \<noteq> Reject"
    by (simp_all add: prop_answers)
  have fresh: "p_mid q \<notin> fst ` set sent" using Cons.prems(4) by auto
  have new: "p_mid q \<notin> p_mid ` set qs" using Cons.prems(3) by auto
  have IH: "\<exists>m'. deliver h (map2 (\<lambda>a p. p\<lparr>p_answer := a\<rparr>) as qs) sent' c' m1 =
      Some ((sent' @ reported as qs, None), c'\<lparr>c_out := c_out c' @ concat (map transferText (accepted as qs))\<rparr>, m') \<and>
      sinv m' \<and> fst ` set (reported as qs) \<subseteq> off m' \<and> off m1 - p_mid ` set qs \<subseteq> off m'"
    if "sent' = sent \<or> sent' = sent @ [(p_mid q, r)]" "c_fail c' = None" "c_flush c' = None" "sinv m1" "p_mid ` set qs \<subseteq> off m1" for sent' c' m1 r
  proof -
    have "fst ` set sent' \<inter> p_mid ` set qs = {}" using that(1) Cons.prems(3,4) by (elim disjE) simp_all
    then show ?thesis using that(2-) Cons.prems by (intro Cons.IH) simp_all
  qed
  consider "a = Accept" | "a = Reject" | "a = Defer" using Cons.prems(1) by (auto simp: is_answer_def)
  then show ?case
  proof cases
    case 1
    have w: "writeCompressed (q\<lparr>p_answer := Accept\<rparr>) c = Some (None, c\<lparr>c_out := c_out c @ transferText q\<rparr>)"
      using writeCompressed_transfer [of "q\<lparr>p_answer := Accept\<rparr>" c] Cons.prems by simp
    obtain m' where "deliver h (map2 (\<lambda>a p. p\<lparr>p_answer := a\<rparr>) as qs) (sent @ [(p_mid q, False)]) (c\<lparr>c_out := c_out c @ transferText q\<rparr>) m =
        Some ((sent @ (p_mid q, False) # reported as qs, None), c\<lparr>c_out := c_out c @ transferText q @ concat (map transferText (accepted as qs))\<rparr>, m')"
        "sinv m'" "fst ` set (reported as qs) \<subseteq> off m'" "off m - p_mid ` set qs \<subseteq> off m'"
      using IH [of "sent @ [(p_mid q, False)]" False "c\<lparr>c_out := c_out c @ transferText q\<rparr>" m] Cons.prems(5,6,8,9) by auto
    then show ?thesis
      using w 1 ans update_fresh [OF fresh, of False] Cons.prems(9) new
      by (intro exI [of _ m']) (auto simp: reported_def)
  next
    case 2
    obtain m' where "deliver h (map2 (\<lambda>a p. p\<lparr>p_answer := a\<rparr>) as qs) (sent @ [(p_mid q, True)]) c m =
        Some ((sent @ (p_mid q, True) # reported as qs, None), c\<lparr>c_out := c_out c @ concat (map transferText (accepted as qs))\<rparr>, m')"
        "sinv m'" "fst ` set (reported as qs) \<subseteq> off m'" "off m - p_mid ` set qs \<subseteq> off m'"
      using IH [of "sent @ [(p_mid q, True)]" True c m] Cons.prems(5,6,8,9) by auto
    then show ?thesis
      using 2 ans update_fresh [OF fresh, of True] Cons.prems(9) new
      by (intro exI [of _ m']) (auto simp: reported_def)
  next
    case 3
    obtain m1 where m1: "SetDeferred h (p_mid q) m = Some m1" "sinv m1" "off m - {p_mid q} \<subseteq> off m1"
      using sender_okD(2) [OF Cons.prems(7,8), of "p_mid q"] Cons.prems(9) by auto
    have "p_mid ` set qs \<subseteq> off m - {p_mid q}" using Cons.prems(9) new by (simp add: subset_Diff_insert)
    then have "p_mid ` set qs \<subseteq> off m1" using m1(3) by (rule subset_trans)
    then obtain m' where "deliver h (map2 (\<lambda>a p. p\<lparr>p_answer := a\<rparr>) as qs) sent c m1 =
        Some ((sent @ reported as qs, None), c\<lparr>c_out := c_out c @ concat (map transferText (accepted as qs))\<rparr>, m')"
        "sinv m'" "fst ` set (reported as qs) \<subseteq> off m'" "off m1 - p_mid ` set qs \<subseteq> off m'"
      using IH [of sent True c m1] Cons.prems(5,6) m1(2) by auto
    then show ?thesis using 3 ans m1 by (intro exI [of _ m']) (auto simp: reported_def)
  qed
qed

lemma answerLine_plain:
  assumes "as \<noteq> []" "\<forall>a \<in> set as. is_answer a"
  shows "plain_line (''FS '' @ as)"
proof -
  have v: "visible a \<and> a \<noteq> CR" if "is_answer a" for a
    using that by (auto simp: is_answer_def prop_answers visible_def)
  have "visible (last as)" using v assms last_in_set [OF assms(1)] by blast
  moreover have "CR \<notin> set as" using v assms(2) by blast
  ultimately show ?thesis using assms(1) by (simp add: plain_line_def visible_def)
qed

lemma sendBlock_text: "c_fail c = None \<Longrightarrow> sendBlock ps c = c\<lparr>c_out := c_out c @ blockText ps\<rparr>"
proof -
  assume "c_fail c = None"
  then have "fold (\<lambda>p. conn_write (proposalLine p @ [CR])) ps c =
      c\<lparr>c_out := c_out c @ concat (map (\<lambda>p. proposalLine p @ [CR]) ps)\<rparr>" for ps
    by (induction ps rule: rev_induct) simp_all
  then show ?thesis using \<open>c_fail c = None\<close> by (simp add: sendBlock_def blockText_def)
qed

lemma awaitAnswer_line:
  assumes "as \<noteq> []" "\<forall>a \<in> set as. is_answer a" "c_in c = ''FS '' @ as @ CR # rest"
  shows "awaitAnswer c = Some (Inr (''FS '' @ as), c\<lparr>c_in := rest\<rparr>)"
  using nextLine_plain [OF answerLine_plain [OF assms(1,2)], of c rest] assms(3) HasPrefix_append [of "''FS ''" as]
  by (subst awaitAnswer.simps) simp

lemma sendOutbound_block:
  assumes "outbound env (Some h) s m = Some props" "qs = take MaxBlockSize props" "qs \<noteq> []"
    and "\<forall>p \<in> set qs. transferable p" "distinct (map p_mid qs)"
    and "length as = length qs" "\<forall>a \<in> set as. is_answer a"
    and "c_fail c = None" "c_flush c = None" "c_robust c = None"
    and "c_in c = ''FS '' @ as @ CR # rest" "sender_ok env h s sinv off" "sinv m" "p_mid ` set qs \<subseteq> off m"
  shows "\<exists>m'. sendOutbound env h s c m = Some ((reported as qs, None),
    c\<lparr>c_in := rest, c_out := c_out c @ blockText qs @ concat (map transferText (accepted as qs))\<rparr>, m') \<and>
    sinv m' \<and> fst ` set (reported as qs) \<subseteq> off m'"
proof -
  have as: "as \<noteq> []" using assms(3,6) by auto
  let ?c1 = "c\<lparr>c_in := rest, c_out := c_out c @ blockText qs\<rparr>"
  have "c_in (c\<lparr>c_out := c_out c @ blockText qs\<rparr>) = ''FS '' @ as @ CR # rest" using assms(11) by simp
  then have a: "awaitAnswer (sendBlock qs c) = Some (Inr (''FS '' @ as), ?c1)"
    using awaitAnswer_line [OF as assms(7), of "c\<lparr>c_out := c_out c @ blockText qs\<rparr>" rest]
    by (simp add: sendBlock_text [OF assms(8)])
  have p: "parseProposalAnswer (''FS '' @ as) qs = (None, map2 (\<lambda>a p. p\<lparr>p_answer := a\<rparr>) as qs)"
    unfolding parseProposalAnswer_def TrimPrefix_append using assms(6,7) by (intro parseAnswers_plain) simp_all
  obtain m' where d: "deliver h (map2 (\<lambda>a p. p\<lparr>p_answer := a\<rparr>) as qs) [] ?c1 m =
      Some (([] @ reported as qs, None), ?c1\<lparr>c_out := c_out ?c1 @ concat (map transferText (accepted as qs))\<rparr>, m')"
      "sinv m'" "fst ` set (reported as qs) \<subseteq> off m'"
    using deliver_block [OF assms(6,7,4,5) _ _ _ assms(12-14), of "[]" ?c1] assms(8,9) by auto
  have "map2 (\<lambda>a p. p\<lparr>p_answer := a\<rparr>) as qs \<noteq> []" using as assms(3) by (cases as; cases qs) auto
  then show ?thesis
    using assms(1,2,10) a p d by (intro exI [of _ m']) (simp add: sendOutbound_def Let_def)
qed


lemma setAllSent_total:
  "sender_ok env h s sinv off \<Longrightarrow> sinv m \<Longrightarrow> distinct (map fst sent) \<Longrightarrow> fst ` set sent \<subseteq> off m \<Longrightarrow>
   \<exists>m'. setAllSent h sent m = Some m' \<and> sinv m' \<and> off m - fst ` set sent \<subseteq> off m'"
proof (induction sent arbitrary: m)
  case (Cons x sent)
  obtain mid r where x: "x = (mid, r)" by (cases x)
  obtain m1 where m1: "SetSent h mid r m = Some m1" "sinv m1" "off m - {mid} \<subseteq> off m1"
    using sender_okD(3) [OF Cons.prems(1,2), of mid r] Cons.prems(4) x by auto
  have "fst ` set sent \<subseteq> off m1" using m1(3) Cons.prems(3,4) x by auto
  then obtain m' where "setAllSent h sent m1 = Some m'" "sinv m'" "off m1 - fst ` set sent \<subseteq> off m'"
    using Cons.IH [OF Cons.prems(1) m1(2)] Cons.prems(3) by auto
  then show ?case using m1 x by (intro exI [of _ m']) auto
qed simp

lemma accepted_distinct: "distinct (map p_mid qs) \<Longrightarrow> distinct (map p_mid (accepted as qs))"
  by (induction as qs rule: list_induct2') (auto dest: set_zip_rightD)

lemma reported_distinct: "distinct (map p_mid qs) \<Longrightarrow> distinct (map fst (reported as qs))"
proof (induction as arbitrary: qs)
  case (Cons a as)
  show ?case
  proof (cases qs)
    case (Cons q qs')
    then show ?thesis using Cons.prems Cons.IH [of qs'] by (auto simp: reported_def dest: set_zip_rightD)
  qed (simp add: reported_def)
qed (simp add: reported_def)

lemma reported_accepted:
  "\<forall>a \<in> set as. is_answer a \<Longrightarrow> filter (\<lambda>(mid, rej). \<not> rej) (reported as qs) = map (\<lambda>p. (p_mid p, False)) (accepted as qs)"
proof (induction as arbitrary: qs)
  case (Cons a as)
  show ?case
  proof (cases qs)
    case (Cons q qs')
    have "Accept \<noteq> Defer" "Accept \<noteq> Reject" "Reject \<noteq> Accept" "Reject \<noteq> Defer" "Defer \<noteq> Accept" by (simp_all add: prop_answers)
    then show ?thesis using Cons.IH [of qs'] Cons.prems Cons by (auto simp: reported_def is_answer_def)
  qed (simp add: reported_def)
qed (simp add: reported_def)

lemma handleOutbound_block:
  assumes "outbound env (Some h) s m = Some props" "qs = take MaxBlockSize props" "qs \<noteq> []"
    and "\<forall>p \<in> set qs. transferable p" "distinct (map p_mid qs)"
    and "length as = length qs" "\<forall>a \<in> set as. is_answer a" "accepted as qs \<noteq> []"
    and "c_fail c = None" "c_flush c = None" "c_robust c = None" "c_in c = ''FS '' @ as @ CR # CHR ''F'' # rest"
    and "sender_ok env h s sinv off" "sinv m" "p_mid ` set qs \<subseteq> off m"
  shows "\<exists>m'. handleOutbound env (Some h) s c m = Some ((False, None),
    s\<lparr>s_trafficStats := (s_trafficStats s)\<lparr>Sent := Sent (s_trafficStats s) @ map p_mid (accepted as qs)\<rparr>\<rparr>,
    c\<lparr>c_in := CHR ''F'' # rest, c_out := c_out c @ blockText qs @ concat (map transferText (accepted as qs))\<rparr>, m')"
proof -
  let ?c1 = "c\<lparr>c_in := CHR ''F'' # rest, c_out := c_out c @ blockText qs @ concat (map transferText (accepted as qs))\<rparr>"
  let ?sent = "map (\<lambda>p. (p_mid p, False)) (accepted as qs)"
  obtain m1 where s1: "sendOutbound env h s c m = Some ((reported as qs, None), ?c1, m1)" "sinv m1" "fst ` set (reported as qs) \<subseteq> off m1"
    using sendOutbound_block [OF assms(1-7,9-15)] by blast
  note d = reported_distinct [OF assms(5), of as]
  have "distinct (map fst (filter snd (reported as qs)))" "fst ` set (filter snd (reported as qs)) \<subseteq> off m1"
    using d s1(3) by (auto simp: distinct_map_filter)
  then obtain m2 where m2: "setAllSent h (filter snd (reported as qs)) m1 = Some m2" "sinv m2"
      "off m1 - fst ` set (filter snd (reported as qs)) \<subseteq> off m2"
    using setAllSent_total [OF assms(13) s1(2)] by blast
  obtain props' where o: "outbound env (Some h) s m2 = Some props'" using sender_okD(1) [OF assms(13) m2(2)] by blast
  note r = reported_accepted [OF assms(7), of qs, symmetric]
  have "fst ` set ?sent \<subseteq> off m2"
  proof -
    have "fst x \<in> off m1 - fst ` set (filter snd (reported as qs))" if "x \<in> set (filter (\<lambda>(mid, rej). \<not> rej) (reported as qs))" for x
      using that s1(3) d by (force simp: distinct_map inj_on_def)
    then show ?thesis using m2(3) unfolding r by blast
  qed
  moreover have "distinct (map fst ?sent)" unfolding r using d by (rule distinct_map_filter)
  ultimately obtain m3 where m3: "setAllSent h ?sent m2 = Some m3" using setAllSent_total [OF assms(13) m2(2)] by blast
  have f: "map fst (filter (\<lambda>(mid, rej). \<not> rej) ?sent) = map p_mid (accepted as qs)"
    by (induction "accepted as qs") (simp_all add: filter_map comp_def split_def)
  have p: "props \<noteq> []" using assms(2,3) by auto
  have "confirmSent (Some h) ?sent s ?c1 m2 = Some ((False, None),
      s\<lparr>s_trafficStats := (s_trafficStats s)\<lparr>Sent := Sent (s_trafficStats s) @ map p_mid (accepted as qs)\<rparr>\<rparr>, ?c1, m3)"
    using assms(8) m3 f by (simp add: confirmSent_def Let_def conn_Peek_def)
  then show ?thesis
    using assms(1,8) s1(1) m2(1) o p reported_accepted [OF assms(7), of qs]
    by (subst handleOutbound.simps) (simp add: Let_def)
qed


subsection \<open>Both sides\<close>

lemma answerAll_map:
  "snd (answerAll ask seen ps) = map2 (\<lambda>a p. p\<lparr>p_answer := a\<rparr>) (map p_answer (snd (answerAll ask seen ps))) ps"
  by (induction ps arbitrary: seen) (simp_all add: Let_def split_beta)

lemma answered_block:
  assumes "answerAll ask [] (map wire_part qs) = (n, props)"
  shows "props = map2 (\<lambda>a p. (wire_part p)\<lparr>p_answer := a\<rparr>) (map p_answer props) qs" "length props = length qs"
proof -
  show "length props = length qs" using answerAll_length [of ask "[]" "map wire_part qs"] assms by simp
  show "props = map2 (\<lambda>a p. (wire_part p)\<lparr>p_answer := a\<rparr>) (map p_answer props) qs"
    using answerAll_map [of ask "[]" "map wire_part qs"] assms by (simp add: zip_map2 comp_def split_def)
qed

lemma accepted_count:
  assumes "answerAll ask [] (map wire_part qs) = (n, props)"
  shows "n = length (accepted (map p_answer props) qs)"
proof -
  have "length (filter (\<lambda>p. p_answer p = Accept) props) = length (accepted (map p_answer props) qs)"
    using answered_block(2) [OF assms]
    by (induction props qs rule: list_induct2) simp_all
  then show ?thesis using answerAll_accepted [OF assms] by simp
qed

definition block_ok :: "Proposal list \<Rightarrow> bool" where
  "block_ok qs \<longleftrightarrow> qs \<noteq> [] \<and> distinct (map p_mid qs) \<and> (\<forall>p \<in> set qs. wire_ok p \<and> transferable p)"

definition line_ok :: "conn \<Rightarrow> bool" where
  "line_ok c \<longleftrightarrow> c_fail c = None \<and> c_flush c = None \<and> c_robust c = None"

text \<open>One turn of an exchange, both sides. The sender's input is the receiver's answer line followed by the first
  command of its own turn, the receiver's input is what the sender wrote. If at least one proposal of the block is
  accepted, then both turns succeed, the receiver hands exactly the accepted messages to its mailbox, in order, and
  both sides have the same message ids in their statistics.\<close>

lemma block_delivered:
  assumes "outbound env (Some h) s m = Some ps" "qs = take MaxBlockSize ps" "block_ok qs"
    and "sender_ok env h s sinv off" "sinv m" "p_mid ` set qs \<subseteq> off m" "\<forall>p. is_answer (GetInboundAnswer rh p rm)"
    and "answerAll (Some (\<lambda>p. GetInboundAnswer rh p rm)) [] (map wire_part qs) = (n, props)" "0 < n"
    and "as = map p_answer props" "acc = accepted as qs"
    and "\<forall>p \<in> set acc. Proposal_Message renv (delivered p) = Some (None, msg p)"
    and "processAll rh (map msg acc) rm = Some rm'"
    and "line_ok c" "c_in c = ''FS '' @ as @ CR # CHR ''F'' # nxt"
  shows "\<exists>s' c' m'. handleOutbound env (Some h) s c m = Some ((False, None), s', c', m') \<and>
    Sent (s_trafficStats s') = Sent (s_trafficStats s) @ map p_mid acc \<and>
    (\<forall>rc rs rest. line_ok rc \<longrightarrow> c_in rc = drop (length (c_out c)) (c_out c') @ rest \<longrightarrow>
      (\<exists>rs'. handleInbound renv (Some rh) rs rc rm =
         Some ((False, None), rs', rc\<lparr>c_in := rest, c_out := c_out rc @ ''FS '' @ as @ [CR]\<rparr>, rm') \<and>
         Received (s_trafficStats rs') = Received (s_trafficStats rs) @ map p_mid acc))"
proof -
  note b = answered_block [OF assms(8)]
  have qs: "qs \<noteq> []" "distinct (map p_mid qs)" "\<forall>p \<in> set qs. wire_ok p" "\<forall>p \<in> set qs. transferable p"
    using assms(3) by (auto simp: block_ok_def)
  have len: "length as = length qs" using b(2) assms(10) by simp
  have ans: "\<forall>a \<in> set as. is_answer a"
    using answerAll_answers [where ask = "Some (\<lambda>p. GetInboundAnswer rh p rm)" and seen = "[]" and ps = "map wire_part qs"] assms(7,8,10) by force
  have acc: "acc \<noteq> []" using accepted_count [OF assms(8)] assms(9-11) by auto
  have sub: "set acc \<subseteq> set qs" using assms(11) by (auto dest: set_zip_rightD)
  obtain m' where out: "handleOutbound env (Some h) s c m = Some ((False, None),
      s\<lparr>s_trafficStats := (s_trafficStats s)\<lparr>Sent := Sent (s_trafficStats s) @ map p_mid acc\<rparr>\<rparr>,
      c\<lparr>c_in := CHR ''F'' # nxt, c_out := c_out c @ blockText qs @ concat (map transferText acc)\<rparr>, m')"
    using handleOutbound_block [OF assms(1,2) qs(1,4,2) len ans _ _ _ _ _ assms(4-6), of c nxt] acc assms(11,14,15)
    by (auto simp: line_ok_def)
  have inb: "\<exists>rs'. handleInbound renv (Some rh) rs rc rm =
       Some ((False, None), rs', rc\<lparr>c_in := rest, c_out := c_out rc @ ''FS '' @ as @ [CR]\<rparr>, rm') \<and>
       Received (s_trafficStats rs') = Received (s_trafficStats rs) @ map p_mid acc"
    if rc: "line_ok rc" "c_in rc = blockText qs @ concat (map transferText acc) @ rest" for rc rs rest
  proof -
    let ?rc1 = "rc\<lparr>c_in := concat (map transferText acc) @ rest, c_out := c_out rc @ ''FS '' @ as @ [CR]\<rparr>"
    have loop: "inboundLoop (Some (\<lambda>p. GetInboundAnswer rh p rm)) 0 [] rc = Some (LoopBreak False props n, ?rc1)"
      using inboundLoop_block [OF qs(3,1) _ rc(2) assms(8,9)] assms(10) rc(1) by (simp add: line_ok_def)
    have "receiveAll renv (Some rh) props (rs\<lparr>s_remoteNoMsgs := True\<rparr>) ?rc1 rm =
        Some (None, rs\<lparr>s_remoteNoMsgs := False, s_trafficStats := (s_trafficStats rs)\<lparr>Received := Received (s_trafficStats rs) @ map p_mid acc\<rparr>\<rparr>,
          ?rc1\<lparr>c_in := rest\<rparr>, rm')"
    proof -
      have 1: "\<forall>p \<in> set (accepted as qs). transferable p \<and> Proposal_Message renv (delivered p) = Some (None, msg p)"
        using assms(11,12) sub qs(4) by blast
      have 2: "c_in ?rc1 = concat (map transferText (accepted as qs)) @ rest" using assms(11) by simp
      have 3: "props = map2 (\<lambda>a p. (wire_part p)\<lparr>p_answer := a\<rparr>) as qs" using b(1) assms(10) by simp
      show ?thesis
        unfolding 3 receiveAll_block [OF len 1 2 assms(13) [unfolded assms(11)]] using acc assms(11) by simp
    qed
    then show ?thesis using loop by (simp add: handleInbound_def)
  qed
  show ?thesis using out inb by simp
qed


subsection \<open>Messages through an exchange\<close>

definition same_message :: "Message \<Rightarrow> Message \<Rightarrow> bool" where
  "same_message m m' \<longleftrightarrow> m_body m' = m_body m \<and> m_files m' = m_files m \<and> (\<forall>k. h_values (m_header m') k = h_values (m_header m) k)"

definition gzip_law :: "env \<Rightarrow> bool" where
  "gzip_law env \<longleftrightarrow> (\<forall>x. e_gunzip env (e_gzip env x) = Some x \<and> 18 \<le> length (e_gzip env x))"

definition title_ok :: "string \<Rightarrow> bool" where
  "title_ok t \<longleftrightarrow> (needsEncoding t \<or> Index t ''=?'' = None) \<and> length (QEncode ''utf-8'' t) \<le> 252"

text \<open>The sizes up to which a compression is known to work.\<close>

definition compressible :: "env \<Rightarrow> char \<Rightarrow> string \<Rightarrow> bool" where
  "compressible env code bs \<longleftrightarrow>
     (if code = GzipProposal then gzip_law env \<and> length bs < 2 ^ 63 \<and> length (e_gzip env bs) < 2 ^ 63 else length bs \<le> 3867)"

definition sendable :: "env \<Rightarrow> char \<Rightarrow> Message \<Rightarrow> bool" where
  "sendable env code m \<longleftrightarrow> message_ok env m \<and> CHR '' '' \<notin> set (MID m) \<and> CR \<notin> set (MID m) \<and> title_ok (Subject env m) \<and>
     (\<forall>bs. Bytes env m = Inr bs \<longrightarrow> compressible env code bs)"

lemma same_message_MID: "same_message x y \<Longrightarrow> MID y = MID x"
  by (simp add: same_message_def MID_def Header_Get_def get_def)

lemma same_message_Bytes:
  assumes "same_message x y" "header_ok (m_header x)" "header_ok (m_header y)"
  shows "Bytes env y = Bytes env x"
proof -
  have v: "\<forall>k. h_values (m_header y) k = h_values (m_header x) k" and m: "m_body y = m_body x" "m_files y = m_files x"
    using assms(1) by (simp_all add: same_message_def)
  have "Header_Write (m_header y) = Header_Write (m_header x)"
    using assms(2,3) v by (intro Header_Write_same) (simp_all add: header_ok_def)
  then show ?thesis using Header_Get_same [OF v] m by (simp add: Bytes_def Message_Write_def split: option.split)
qed

lemma same_message_sendable:
  assumes "same_message x y" "header_ok (m_header y)" "sendable env code x"
  shows "sendable env code y"
proof -
  have v: "\<forall>k. h_values (m_header y) k = h_values (m_header x) k" and m: "m_body y = m_body x" "m_files y = m_files x"
    using assms(1) by (simp_all add: same_message_def)
  have x: "message_ok env x" "header_ok (m_header x)" using assms(3) by (simp_all add: sendable_def message_ok_def)
  have y: "message_ok env y" using x(1) assms(2) Header_Get_same [OF v] v m by (simp add: message_ok_def)
  have "Subject env y = Subject env x" using Header_Get_same [OF v] by (simp add: Subject_def)
  then show ?thesis
    using assms(3) y same_message_MID [OF assms(1)] same_message_Bytes [OF assms(1) x(2) assms(2)] by (simp add: sendable_def)
qed

lemma same_message_Validate:
  assumes "same_message x y"
  shows "Validate env y = Validate env x"
proof -
  have v: "\<forall>k. h_values (m_header y) k = h_values (m_header x) k" and m: "m_files y = m_files x"
    using assms(1) by (simp_all add: same_message_def)
  show ?thesis
    using Header_Get_same [OF v] v m same_message_MID [OF assms(1)]
    by (simp add: Validate_def Receivers_def To_def Cc_def BodySize_def)
qed

lemma prepareProposals_ConsE:
  assumes "prepareProposals env code (x # msgs) = Some ps"
  obtains "prepareProposals env code msgs = Some ps"
  | q qs where "ps = q # qs" "prepareProposals env code msgs = Some qs" "Message_Proposal env code x = Some (Inr (q, None))"
proof (cases "Message_Proposal env code x")
  case (Some r)
  then show ?thesis using assms that
    by (cases r) (auto simp: bind_eq_Some_conv split: if_splits option.splits)
qed (use assms that in \<open>simp split: if_splits\<close>)

lemma prepareProposals_from:
  "prepareProposals env code msgs = Some ps \<Longrightarrow> p \<in> set ps \<Longrightarrow>
   \<exists>x \<in> set msgs. Message_Proposal env code x = Some (Inr (p, None))"
proof (induction msgs arbitrary: ps)
  case (Cons x msgs)
  from Cons.prems(1) show ?case by (cases rule: prepareProposals_ConsE) (use Cons in auto)
qed simp

lemma Message_Proposal_mid: "Message_Proposal env code x = Some (Inr (p, e)) \<Longrightarrow> p_mid p = MID x"
  by (auto simp: Message_Proposal_def NewProposal_def Let_def bind_eq_Some_conv split: sum.splits if_splits)

lemma prepareProposals_distinct:
  "prepareProposals env code msgs = Some ps \<Longrightarrow> distinct (map MID msgs) \<Longrightarrow> distinct (map p_mid ps)"
proof (induction msgs arbitrary: ps)
  case (Cons x msgs)
  from Cons.prems(1) show ?case
  proof (cases rule: prepareProposals_ConsE)
    case (2 q qs)
    have "p_mid q \<noteq> p_mid p" if pq: "p \<in> set qs" for p
    proof -
      obtain y where y: "y \<in> set msgs" "Message_Proposal env code y = Some (Inr (p, None))"
        using prepareProposals_from [OF 2(2) pq] by blast
      then show ?thesis using Message_Proposal_mid [OF 2(3)] Message_Proposal_mid [OF y(2)] Cons.prems(2) by auto
    qed
    then have "p_mid q \<notin> set (map p_mid qs)" by auto
    then show ?thesis using 2 Cons by simp
  qed (use Cons in simp)
qed simp

lemma outbound_from:
  assumes "outbound env (Some h) s m = Some ps" "GetOutbound h (s_remoteFW s) m = Some msgs" "distinct (map MID msgs)"
  shows "distinct (map p_mid ps)"
    and "p \<in> set ps \<Longrightarrow> \<exists>x \<in> set msgs. Message_Proposal env (highestPropCode env s) x = Some (Inr (p, None))"
proof -
  obtain qs where qs: "prepareProposals env (highestPropCode env s) msgs = Some qs" "ps = sortProposals qs"
    using assms(1,2) by (auto simp: outbound_def bind_eq_Some_conv)
  have "mset (map p_mid ps) = mset (map p_mid qs)" using qs(2) by (simp add: sortProposals_def)
  then show "distinct (map p_mid ps)"
    using prepareProposals_distinct [OF qs(1) assms(3)] mset_eq_imp_distinct_iff by blast
  show "p \<in> set ps \<Longrightarrow> \<exists>x \<in> set msgs. Message_Proposal env (highestPropCode env s) x = Some (Inr (p, None))"
    using prepareProposals_from [OF qs(1)] qs(2) by (simp add: sortProposals_def)
qed

text \<open>What is needed of a compression: messages come out as they went in.\<close>

lemma compress_message:
  assumes "compressible env code bs"
    and "(if code = GzipProposal then Some (e_gzip env bs) else lzhufCompress bs) = Some data"
  shows "6 \<le> length data" "length data < 2 ^ 63" "length bs < 2 ^ 63"
    and "p_code p = code \<Longrightarrow> p_compressedData p = data \<Longrightarrow> Data (e_gunzip env) p = Some bs"
proof -
  have "6 \<le> length data \<and> length data < 2 ^ 63 \<and> length bs < 2 ^ 63 \<and>
    (p_code p = code \<longrightarrow> p_compressedData p = data \<longrightarrow> Data (e_gunzip env) p = Some bs)"
  proof (cases "code = GzipProposal")
    case True
    then have "gzip_law env" "data = e_gzip env bs" using assms by (auto simp: compressible_def)
    then show ?thesis using True assms(1) unfolding gzip_law_def compressible_def by (auto simp: Data_def intro: order_trans [of _ 18])
  next
    case False
    then show ?thesis using assms lzhufCompress_ok [of bs] by (auto simp: compressible_def)
  qed
  then show "6 \<le> length data" "length data < 2 ^ 63" "length bs < 2 ^ 63"
    "p_code p = code \<Longrightarrow> p_compressedData p = data \<Longrightarrow> Data (e_gunzip env) p = Some bs" by auto
qed

lemma sendable_proposal:
  assumes "Message_Proposal env code x = Some (Inr (p, None))" "sendable env code x" "code = Wl2kProposal \<or> code = GzipProposal"
  shows "wire_ok p \<and> transferable p \<and>
    (\<exists>y. Proposal_Message env (delivered p) = Some (None, y) \<and> same_message x y \<and> message_ok env y)"
proof -
  obtain bs hd where r: "Bytes env x = Inr bs" "ReadFrom env bs = Some (None, x\<lparr>m_header := hd\<rparr>)"
      "\<forall>k. h_values hd k = h_values (m_header x) k" "header_ok hd"
    using ReadFrom_Bytes assms(2) unfolding sendable_def by blast
  have ok: "message_ok env (x\<lparr>m_header := hd\<rparr>)" using message_ok_same [OF _ r(3,4)] assms(2) by (simp add: sendable_def)
  have "needsEncoding ''No title'' = False" by (simp add: needsEncoding_def runes_ascii ascii_def)
  then have t: "title_ok ''No title''"
    by (simp add: title_ok_def QEncode_def HasPrefix_def)
  obtain data where p: "p = new_Proposal\<lparr>p_mid := MID x, p_code := code, p_msgType := ''EM'',
      p_title := if Subject env x = [] then ''No title'' else Subject env x, p_size := int (length bs),
      p_compressedData := data, p_compressedSize := int (length data)\<rparr>" and data: "(if code = GzipProposal then Some (e_gzip env bs) else lzhufCompress bs) = Some data"
    using assms(1) r(1) by (cases "code = GzipProposal") (auto simp: Message_Proposal_def NewProposal_def Let_def bind_eq_Some_conv split: if_splits)
  have "compressible env code bs"
    using assms(2) r(1) by (simp add: sendable_def)
  note c = compress_message [OF this data]
  have "wire_ok p" using assms(2,3) p c(2,3) by (auto simp: wire_ok_def sendable_def)
  moreover have "transferable p"
  proof -
    have "title_ok (p_title p)" using t p(1) assms(2) by (simp add: sendable_def)
    then show ?thesis using p(1) c(1) by (simp add: transferable_def title_ok_def DataIsComplete_def new_Proposal_def)
  qed
  moreover have "Proposal_Message env (delivered p) = Some (None, x\<lparr>m_header := hd\<rparr>)"
    using p r(2) c(4) [of "delivered p"] by (simp add: Proposal_Message_def delivered_def wire_part_def)
  ultimately show ?thesis using r(3) ok by (auto simp: same_message_def)
qed

lemma highestPropCode_cases: "highestPropCode env s = Wl2kProposal \<or> highestPropCode env s = GzipProposal"
  by (simp add: highestPropCode_def)

text \<open>A mailbox that takes messages: \<open>rinv\<close> is what its state satisfies and \<open>rgood\<close> the messages it can store.\<close>

definition receiver_ok :: "'m MBoxHandler \<Rightarrow> ('m \<Rightarrow> bool) \<Rightarrow> (Message \<Rightarrow> bool) \<Rightarrow> bool" where
  "receiver_ok h rinv rgood \<longleftrightarrow>
     (\<forall>x m. rinv m \<longrightarrow> rgood x \<longrightarrow> fst (ProcessInbound h x m) = None \<and> rinv (snd (ProcessInbound h x m)))"

definition putAll :: "'m MBoxHandler \<Rightarrow> Message list \<Rightarrow> 'm \<Rightarrow> 'm" where
  "putAll h xs m = fold (\<lambda>x m. snd (ProcessInbound h x m)) xs m"

lemma processAll_ok:
  "receiver_ok h rinv rgood \<Longrightarrow> rinv m \<Longrightarrow> \<forall>x \<in> set xs. rgood x \<Longrightarrow> processAll h xs m = Some (putAll h xs m)"
proof (induction xs arbitrary: m)
  case (Cons x xs)
  obtain m1 where m1: "ProcessInbound h x m = (None, m1)" "rinv m1"
    using Cons.prems unfolding receiver_ok_def by (metis list.set_intros(1) prod.collapse)
  then show ?case using Cons.IH [OF Cons.prems(1) m1(2)] Cons.prems(3) by (simp add: putAll_def)
qed (simp add: putAll_def)

text \<open>One turn of an exchange moves messages from one mailbox to the other. The sender's input is the receiver's
  answer line and the first byte of its next turn, the receiver's input is what the sender wrote. If the messages are
  well formed and at least one proposal of the block is accepted, then both turns succeed, the receiver's mailbox is
  given, in order, the accepted messages with the same body, attachments and header values, and both sides have the
  same message ids in their statistics.\<close>

lemma mail_delivered:
  assumes "sender_ok env h s sinv off" "sinv m" "MID ` set msgs \<subseteq> off m"
    and "GetOutbound h (s_remoteFW s) m = Some msgs" "\<forall>x \<in> set msgs. sendable env (highestPropCode env s) x" "distinct (map MID msgs)"
    and "outbound env (Some h) s m = Some ps" "qs = take MaxBlockSize ps"
    and "\<forall>p. is_answer (GetInboundAnswer rh p rm)" "receiver_ok rh rinv rgood" "rinv rm"
    and "\<forall>x \<in> set msgs. \<forall>y. same_message x y \<and> message_ok env y \<longrightarrow> rgood y"
    and "answerAll (Some (\<lambda>p. GetInboundAnswer rh p rm)) [] (map wire_part qs) = (n, props)" "0 < n"
    and "as = map p_answer props" "acc = accepted as qs"
    and "line_ok c" "c_in c = ''FS '' @ as @ CR # CHR ''F'' # nxt"
  shows "\<exists>s' c' m'. handleOutbound env (Some h) s c m = Some ((False, None), s', c', m') \<and>
    Sent (s_trafficStats s') = Sent (s_trafficStats s) @ map p_mid acc \<and>
    (\<forall>rc rs rest. line_ok rc \<longrightarrow> c_in rc = drop (length (c_out c)) (c_out c') @ rest \<longrightarrow>
      (\<exists>rs' xs. handleInbound env (Some rh) rs rc rm =
         Some ((False, None), rs', rc\<lparr>c_in := rest, c_out := c_out rc @ ''FS '' @ as @ [CR]\<rparr>, putAll rh xs rm) \<and>
         list_all2 (\<lambda>p y. \<exists>x \<in> set msgs. MID x = p_mid p \<and> same_message x y \<and> message_ok env y) acc xs \<and>
         Received (s_trafficStats rs') = Received (s_trafficStats rs) @ map p_mid acc))"
proof -
  note o = outbound_from [OF assms(7,4,6)]
  have p: "p_mid p \<in> off m \<and> wire_ok p \<and> transferable p \<and> (\<exists>y. Proposal_Message env (delivered p) = Some (None, y) \<and>
      (\<exists>x \<in> set msgs. MID x = p_mid p \<and> same_message x y \<and> message_ok env y))" if "p \<in> set qs" for p
  proof -
    have "p \<in> set ps" using that assms(8) by (auto dest: in_set_takeD)
    then obtain x where x: "x \<in> set msgs" "Message_Proposal env (highestPropCode env s) x = Some (Inr (p, None))"
      using o(2) by auto
    have "wire_ok p \<and> transferable p \<and> (\<exists>y. Proposal_Message env (delivered p) = Some (None, y) \<and> same_message x y \<and> message_ok env y)"
      using assms(5) x sendable_proposal [OF x(2) _ highestPropCode_cases] by blast
    then show ?thesis using Message_Proposal_mid [OF x(2)] x(1) assms(3) by auto
  qed
  have qs: "qs \<noteq> []" using assms(13,14) by auto
  then have ok: "block_ok qs"
    using p o(1) assms(8) by (auto simp: block_ok_def distinct_take take_map [symmetric] simp del: take_map)
  have off: "p_mid ` set qs \<subseteq> off m" using p by auto
  obtain msg where msg: "\<forall>p \<in> set qs. Proposal_Message env (delivered p) = Some (None, msg p) \<and>
      (\<exists>x \<in> set msgs. MID x = p_mid p \<and> same_message x (msg p) \<and> message_ok env (msg p))" using p by metis
  have sub: "set acc \<subseteq> set qs" using assms(16) by (auto dest: set_zip_rightD)
  have all: "list_all2 (\<lambda>p y. \<exists>x \<in> set msgs. MID x = p_mid p \<and> same_message x y \<and> message_ok env y) acc (map msg acc)"
    using msg sub by (auto simp: list.rel_map intro!: list.rel_refl_strong)
  have "\<forall>y \<in> set (map msg acc). rgood y" using msg sub assms(12) by auto
  note put = processAll_ok [OF assms(10,11) this]
  show ?thesis
    using block_delivered [OF assms(7,8) ok assms(1,2) off assms(9,13-16) _ put assms(17,18), of env] msg sub all
    by (elim exE conjE meta_impE) blast+
qed

definition example_gzip_env :: env where
  "example_gzip_env = example_env\<lparr>e_gzip := \<lambda>x. replicate 18 NUL @ x, e_gunzip := \<lambda>x. Some (drop 18 x)\<rparr>"

definition example_mail :: Message where
  "example_mail = \<lparr>m_header = [(''Mid'', [''TJKYEIMMHSRB'']), (''To'', [''N0CALL'']), (''From'', [''LA5NTA'']), (''Subject'', [''Hi'']), (''Body'', [''5''])],
     m_body = ''Hello'', m_files = []\<rparr>"

definition b2_Session :: Session where
  "b2_Session = example_Session\<lparr>s_remoteSID := ''B2FHM$''\<rparr>"

lemma example_gzip_law: "gzip_law example_gzip_env"
  by (simp add: gzip_law_def example_gzip_env_def)

lemma b2_Session_code: "highestPropCode example_gzip_env b2_Session = Wl2kProposal"
proof -
  have u: "ToUpper example_gzip_env ''G'' = ''G''" by (simp add: ToUpper_ascii ascii_def upperChar_def isLower_def)
  have "\<not> Has example_gzip_env ''B2FHM$'' ''G''" unfolding Has_def u by code_simp
  then show ?thesis by (simp add: highestPropCode_def b2_Session_def sGzip_def)
qed

lemma prepareProposals_total: "prepareProposals env code msgs \<noteq> None"
proof (induction msgs)
  case (Cons x msgs)
  have "Message_Proposal env code x \<noteq> None"
  proof (cases "Bytes env x")
    case (Inr data)
    then show ?thesis using lzhufCompress_ok [of data] by (auto simp: Message_Proposal_def NewProposal_def Let_def)
  qed (simp add: Message_Proposal_def)
  then show ?case using Cons by (auto split: sum.splits option.splits)
qed simp

lemma example_mail_fields:
  "Header_Get (m_header example_mail) HEADER_BODY = ''5''" "Header_Get (m_header example_mail) HEADER_DATE = []"
  "Header_Get (m_header example_mail) HEADER_MID = ''TJKYEIMMHSRB''" "Header_Get (m_header example_mail) HEADER_FROM = ''LA5NTA''"
  "Header_Get (m_header example_mail) HEADER_SUBJECT = ''Hi''" "h_values (m_header example_mail) HEADER_FILE = []"
  "h_values (m_header example_mail) HEADER_TO = [''N0CALL'']"
  by (simp_all add: Header_Get_def get_def) (simp_all add: h_values_def example_mail_def header_names)

lemma example_mail_subject: "Subject env example_mail = ''Hi''"
proof -
  have "runes ''Hi'' = map byte_val ''Hi''" by (rule runes_ascii) (simp add: ascii_def)
  then have "validUtf8 ''Hi''" by (intro validUtf8_plain) (simp add: needsEncoding_def)
  then show ?thesis by (simp add: Subject_def example_mail_fields DecodeHeader_def HasPrefix_def)
qed

lemma length_concat_sort: "length (concat (map f (sort xs))) = length (concat (map f (xs :: string list)))"
proof -
  have "mset (map length (map f (sort xs))) = mset (map length (map f xs))" by simp
  then show ?thesis unfolding length_concat by (metis sum_mset_sum_list)
qed

lemma example_mail_sendable: "sendable example_gzip_env code example_mail"
proof -
  have p: "printInt 5 = ''5''" by code_simp
  have fold: "\<not> EqualFold ''To'' ''Mid''" "\<not> EqualFold ''Body'' ''Mid''" "\<not> EqualFold ''From'' ''Mid''" "\<not> EqualFold ''Subject'' ''Mid''"
      "EqualFold ''Mid'' ''Mid''"
    by (simp_all add: EqualFold_def runes_ascii ascii_def foldRune_def)
  moreover have "clean_key ''Mid''" "clean_key ''To''" "clean_key ''Body''" "clean_key ''From''" "clean_key ''Subject''"
    by code_simp+
  ultimately have "header_ok (m_header example_mail)"
    by (simp add: header_ok_def example_mail_def h_values_def HEADER_MID_def clean_value_def blank_def)
  then have "message_ok example_gzip_env example_mail"
    using p by (simp add: message_ok_def example_mail_fields ParseDate_def maxAlloc_def) (simp add: example_mail_def maxAlloc_def)
  moreover have "title_ok ''Hi''"
    by (simp add: title_ok_def QEncode_def needsEncoding_def runes_ascii ascii_def HasPrefix_def)
  moreover have "length bs < 2000" if "Bytes example_gzip_env example_mail = Inr bs" for bs
  proof -
    have "otherKeys (m_header example_mail) = sort [''To'', ''From'', ''Subject'', ''Body'']"
      using fold HEADER_MID_def by (simp add: otherKeys_def example_mail_def)
    moreover have "length (TrimString ''N0CALL'') \<le> 6" "length (TrimString ''LA5NTA'') \<le> 6" "length (TrimString ''Hi'') \<le> 2" "length (TrimString ''5'') \<le> 1"
      by code_simp+
    moreover have "get (m_header example_mail) HEADER_MID = ''TJKYEIMMHSRB''" 
      by (simp add: get_def h_values_def example_mail_def HEADER_MID_def)
    ultimately have "length (fst (Header_Write (m_header example_mail))) < 1000"
      by (simp add: Header_Write_def length_concat_sort) (simp add: h_values_def example_mail_def headerLine_def)
    then show ?thesis using that by (simp add: Bytes_def Message_Write_def example_mail_fields ParseDate_def) (auto simp: example_mail_def)
  qed
  ultimately show ?thesis
    using example_gzip_law by (fastforce simp: sendable_def MID_def example_mail_fields example_mail_subject compressible_def example_gzip_env_def)
qed

lemma example_mail_valid: "Validate example_gzip_env example_mail = None"
proof -
  have "fst (Atoi ''5'') = 5" by (simp add: Atoi_def ParseInt_def parseUint_def digit_val_def maxUint64_def)
  then show ?thesis
    by (simp add: Validate_def MID_def Receivers_def To_def BodySize_def example_mail_fields) (simp add: example_mail_def)
qed

section \<open>Whole exchanges\<close>

lemma finishExchange_closed: "finishExchange env e c = (e', c') \<Longrightarrow> c_closed c' \<and> (\<forall>x. e' = Some x \<longrightarrow> \<not> isConnLost x) \<and> (e = None \<longleftrightarrow> e' = None)"
  by (auto simp: finishExchange_def Close_def ErrConnLost_def split: option.splits if_splits)

lemma exchangeLoop_Done: "exchangeLoop env h t s c m = Some (None, s', c', m') \<Longrightarrow> Done s'"
proof (induction env h t s c m rule: exchangeLoop.induct)
  case (1 env h t s c m)
  note step = 1(3) [unfolded exchangeLoop.simps [of env h t s c m]]
  show ?case
  proof (cases "Done s")
    case False
    show ?thesis
    proof (cases t)
      case True
      then obtain q s1 c1 m1 where "handleOutbound env h s c m = Some ((q, None), s1, c1, m1)"
          "exchangeLoop env h False (s1\<lparr>s_quitSent := q\<rparr>) c1 m1 = Some (None, s', c', m')"
        using step False by (auto split: option.splits prod.splits)
      then show ?thesis using 1(1) [OF False True] by blast
    next
      case t: False
      then obtain q s1 c1 m1 where "handleInbound env h s c m = Some ((q, None), s1, c1, m1)"
          "exchangeLoop env h True (s1\<lparr>s_quitReceived := q\<rparr>) c1 m1 = Some (None, s', c', m')"
        using step False by (auto split: option.splits prod.splits)
      then show ?thesis using 1(2) [OF False t] by blast
    qed
  qed (use step in simp)
qed

lemma Exchange_closes:
  assumes "\<not> Done s" "Exchange env h s c m = Some ((stats, e), s', c', m')"
  shows "c_closed c' \<and> (\<forall>x. e = Some x \<longrightarrow> \<not> isConnLost x) \<and> (e = None \<longrightarrow> Done s')"
proof -
  define s0 where "s0 = (if e_fwAuxOnly env \<and> 1 < length (s_localFW s) then s\<lparr>s_localFW := tl (s_localFW s)\<rparr> else s)"
  obtain pe m1 where p: "(case h of None \<Rightarrow> (None, m) | Some h \<Rightarrow> Prepare h m) = (pe, m1)" by fastforce
  note x = assms(2) [unfolded Exchange_def Let_def p, folded s0_def]
  have "\<exists>e0 c0. finishExchange env e0 c0 = (e, c') \<and> (e0 = None \<longrightarrow> Done s')"
  proof (cases pe)
    case (Some y)
    obtain e1 c1 where "finishExchange env (Some y) c = (e1, c1)" by fastforce
    then show ?thesis using x Some assms(1) by auto
  next
    case None
    obtain he s1 c1 where h: "handshake env s0 (SetRobust (s_robustMode s0 \<noteq> RobustDisabled) c) = Some ((he, s1), c1)"
      using x None assms(1) by (auto simp: bind_eq_Some_conv)
    show ?thesis
    proof (cases he)
      case (Some y)
      obtain e2 c2 where "finishExchange env (Some y) (SetRobust False c1) = (e2, c2)" by fastforce
      then show ?thesis using x None assms(1) h Some by auto
    next
      case he: None
      obtain e2 s2 c2 m2 where l: "exchangeLoop env h (\<not> s_master s1) s1 c1 m1 = Some (e2, s2, c2, m2)"
        using x None assms(1) h he by (auto simp: bind_eq_Some_conv)
      define e2' c2' where "e2' = (if e2 = None then c_closeErr c2 else e2)" and "c2' = (if e2 = None then Close c2 else c2)"
      note d = this
      obtain e3 c3 where f: "finishExchange env e2' (SetRobust False c2') = (e3, c3)" by (metis surj_pair)
      then have eq: "e3 = e" "c3 = c'" "s2 = s'" using x None assms(1) h he l d by (auto split: if_splits)
      have "e2' = None \<longrightarrow> Done s'" using l eq(3) d by (auto dest: exchangeLoop_Done split: if_splits)
      then show ?thesis using f eq(1,2) by (intro exI conjI) simp_all
    qed
  qed
  then show ?thesis using finishExchange_closed by blast
qed

text \<open>C8. A session that is not over before it starts closes the connection, whatever happens, reports a lost connection
  instead of the end of the input, and returns without an error only when one side has quit. A session that is over does
  nothing: the connection it is given stays open.\<close>

theorem exchange_closes:
  assumes "Exchange env h s c m = Some ((stats, e), s', c', m')"
  shows "if Done s then e = None \<and> s' = s \<and> c' = c \<and> m' = m
    else c_closed c' \<and> (\<forall>x. e = Some x \<longrightarrow> \<not> isConnLost x) \<and> (e = None \<longrightarrow> Done s')"
  using Exchange_closes [OF _ assms] assms by (auto simp: Exchange_def)

theorem exchange_closes_witness:
  "\<exists>s' c' m'. Exchange example_env (Some idle_handler) example_Session (fresh_conn []) () =
     Some ((\<lparr>Received = [], Sent = []\<rparr>, Some ErrConnLost), s', c', m') \<and> c_closed c'"
proof -
  have p: "conn_Peek (fresh_conn []) = Inl (IoErr EOF)" by (simp add: conn_Peek_def fresh_conn_def)
  have s: "\<not> s_master example_Session" "\<not> Done example_Session" "\<not> e_fwAuxOnly example_env"
    by (simp_all add: example_Session_def NewSession_def Let_def Done_def example_env_def)
  have r: "SetRobust b (fresh_conn []) = fresh_conn []" for b by (simp add: SetRobust_def fresh_conn_def)
  obtain s' c' m' where e: "Exchange example_env (Some idle_handler) example_Session (fresh_conn []) () =
     Some ((\<lparr>Received = [], Sent = []\<rparr>, Some ErrConnLost), s', c', m')"
    using s by (simp add: Exchange_def idle_handler_def handshake_def r readHandshake.simps [of _ _ _ "fresh_conn []"] p finishExchange_def)
  then show ?thesis using exchange_closes [OF e] s(2) by simp
qed

text \<open>The text a side sends in the handshake.\<close>

abbreviation hello :: "env \<Rightarrow> Session \<Rightarrow> string" where
  "hello env s \<equiv> concat (map (\<lambda>l. l @ [CR]) (handshakeText env [] s))"

lemma nextLine_F: "b = CHR ''F'' \<or> b = CHR ''Q'' \<Longrightarrow> c_in c = [CHR ''F'', b, CR] @ rest \<Longrightarrow>
   nextLine c = Some ((''F'' @ [b], None), c\<lparr>c_in := rest\<rparr>)"
  using nextLine_plain [of "''F'' @ [b]" c rest] by (auto simp: plain_line_def visible_def)

lemma handleInbound_idle:
  assumes "b = CHR ''F'' \<or> b = CHR ''Q''" "c_in c = [CHR ''F'', b, CR] @ rest"
  shows "handleInbound env h s c m = Some ((b = CHR ''Q'', None), s\<lparr>s_remoteNoMsgs := True\<rparr>, c\<lparr>c_in := rest\<rparr>, m)"
proof -
  have "inboundLoop ask 0 [] c = Some (LoopBreak (b = CHR ''Q'') [] 0, c\<lparr>c_in := rest\<rparr>)" for ask
    using nextLine_F [OF assms] assms(1) by (subst inboundLoop.simps) (auto simp: inboundLine_def)
  then show ?thesis by (simp add: handleInbound_def)
qed

lemma handleOutbound_idle:
  assumes "outbound env h s m = Some []"
  shows "handleOutbound env h s c m = confirmSent h [] s c m"
  using assms by (cases h) (subst handleOutbound.simps, simp)+

lemma confirmSent_idle:
  assumes "c_fail c = None"
  shows "s_remoteNoMsgs s \<Longrightarrow> confirmSent h [] s c m = Some ((True, None), s, c\<lparr>c_out := c_out c @ ''FQ'' @ [CR]\<rparr>, m)"
    "\<not> s_remoteNoMsgs s \<Longrightarrow> c_in c = CHR ''F'' # r \<Longrightarrow>
     confirmSent h [] s c m = Some ((False, None), s, c\<lparr>c_out := c_out c @ ''FF'' @ [CR]\<rparr>, m)"
  using assms by (simp_all add: confirmSent_def conn_Peek_def split: option.splits)

definition idle_session :: "env \<Rightarrow> 'm MBoxHandler \<Rightarrow> Session \<Rightarrow> 'm \<Rightarrow> bool" where
  "idle_session env h s m \<longleftrightarrow> session_ok env s \<and> \<not> Done s \<and> \<not> s_remoteNoMsgs s \<and> s_motd s = [] \<and>
     Prepare h m = (None, m) \<and> (\<forall>fw. GetOutbound h fw m = Some [])"

lemma idle_outbound: "(\<forall>fw. GetOutbound h fw m = Some []) \<Longrightarrow> outbound env (Some h) s m = Some []"
  by (simp add: outbound_def sortProposals_def)

lemma fresh_robust [simp]: "c_robust (fresh_conn s) = None" "c_closeErr (fresh_conn s) = None"
  by (simp_all add: fresh_conn_def)

lemma Exchange_start:
  assumes "idle_session env h s m" "\<not> e_fwAuxOnly env" "c_robust c = None" "handshake env s c = Some ((None, s1), c1)" "c_robust c1 = None"
    and "exchangeLoop env (Some h) (\<not> s_master s1) s1 c1 m = Some (None, s2, c2, m2)" "c_robust c2 = None" "c_closeErr c2 = None"
  shows "Exchange env (Some h) s c m = Some ((s_trafficStats s2, None), s2, Close (Close c2), m2)"
  using assms by (simp add: Exchange_def idle_session_def SetRobust_def finishExchange_def Close_def)

lemma idle_master:
  assumes "idle_session env h s m" "s_master s" "session_ok env s'" "\<not> s_master s'" "\<not> e_fwAuxOnly env"
  shows "Exchange env (Some h) s (fresh_conn (hello env s' @ ''FF'' @ [CR])) m = Some ((s_trafficStats s, None),
     s\<lparr>s_remoteSID := sentSID env, s_remoteFW := s_localFW s', s_remoteNoMsgs := True, s_quitReceived := False, s_quitSent := True\<rparr>,
     (fresh_conn [])\<lparr>c_out := hello env s @ ''FQ'' @ [CR], c_closed := True\<rparr>, m)"
proof -
  let ?s1 = "s\<lparr>s_remoteSID := sentSID env, s_remoteFW := s_localFW s'\<rparr>"
  let ?c0 = "fresh_conn (hello env s' @ ''FF'' @ [CR])"
  let ?c1 = "(fresh_conn (''FF'' @ [CR]))\<lparr>c_out := hello env s\<rparr>"
  have i: "session_ok env s" "\<not> Done s" "\<not> s_remoteNoMsgs s" "s_motd s = []" "\<forall>fw. GetOutbound h fw m = Some []"
    using assms(1) by (auto simp: idle_session_def)
  have "readHandshake env True \<lparr>SID = [], FW = [], SecureChallenge = []\<rparr> (?c0\<lparr>c_out := hello env s\<rparr>) =
      Some ((\<lparr>SID = sentSID env, FW = s_localFW s', SecureChallenge = []\<rparr>, None), ?c1)"
    using readHandshake_text [OF assms(3), of "?c0\<lparr>c_out := hello env s\<rparr>" "[]" "''FF'' @ [CR]"] assms(4) by (simp add: fresh_conn_def)
  then have h: "handshake env s ?c0 = Some ((None, ?s1), ?c1)"
    using assms(2) i by (simp add: handshake_def sendHandshake_text [OF i(1)] login_ok_def sentSID_def)
  let ?s2 = "?s1\<lparr>s_remoteNoMsgs := True, s_quitReceived := False\<rparr>" and ?c2 = "(fresh_conn [])\<lparr>c_out := hello env s\<rparr>"
  have in1: "handleInbound env (Some h) ?s1 ?c1 m = Some ((False, None), ?s1\<lparr>s_remoteNoMsgs := True\<rparr>, ?c2, m)"
    using handleInbound_idle [of "CHR ''F''" ?c1 "[]"] by (simp add: fresh_conn_def)
  have out: "handleOutbound env (Some h) ?s2 ?c2 m = Some ((True, None), ?s2, ?c2\<lparr>c_out := hello env s @ ''FQ'' @ [CR]\<rparr>, m)"
    using handleOutbound_idle [OF idle_outbound [OF i(5)]] confirmSent_idle(1) [of ?c2 ?s2] by simp
  have "exchangeLoop env (Some h) False ?s1 ?c1 m = Some (None, ?s2\<lparr>s_quitSent := True\<rparr>, ?c2\<lparr>c_out := hello env s @ ''FQ'' @ [CR]\<rparr>, m)"
    using i(2) in1 out
    by (simp add: Done_def exchangeLoop.simps [of _ _ False ?s1] exchangeLoop.simps [of _ _ True ?s2] exchangeLoop.simps [of _ _ False "?s2\<lparr>s_quitSent := True\<rparr>"])
  then show ?thesis
    using Exchange_start [OF assms(1,5) _ h] assms(2) by (simp add: Close_def)
qed

lemma idle_slave:
  assumes "idle_session env h s m" "\<not> s_master s" "session_ok env s'" "s_master s'" "\<not> e_fwAuxOnly env"
  shows "Exchange env (Some h) s (fresh_conn (hello env s' @ ''FQ'' @ [CR])) m = Some ((s_trafficStats s, None),
     s\<lparr>s_remoteSID := sentSID env, s_remoteFW := s_localFW s', s_remoteNoMsgs := True, s_quitReceived := True, s_quitSent := False\<rparr>,
     (fresh_conn [])\<lparr>c_out := hello env s @ ''FF'' @ [CR], c_closed := True\<rparr>, m)"
proof -
  let ?s1 = "s\<lparr>s_remoteSID := sentSID env, s_remoteFW := s_localFW s'\<rparr>"
  let ?c0 = "fresh_conn (hello env s' @ ''FQ'' @ [CR])"
  let ?c1 = "(fresh_conn (''FQ'' @ [CR]))\<lparr>c_out := hello env s\<rparr>"
  have i: "session_ok env s" "\<not> Done s" "\<not> s_remoteNoMsgs s" "s_motd s = []" "\<forall>fw. GetOutbound h fw m = Some []"
    using assms(1) by (auto simp: idle_session_def)
  have "readHandshake env False \<lparr>SID = [], FW = [], SecureChallenge = []\<rparr> ?c0 =
      Some ((\<lparr>SID = sentSID env, FW = s_localFW s', SecureChallenge = []\<rparr>, None), fresh_conn (''FQ'' @ [CR]))"
    using readHandshake_text [OF assms(3), of ?c0 "[]" "''FQ'' @ [CR]"] assms(4) by simp
  moreover have ok1: "session_ok env ?s1" using i(1) by (simp add: session_ok_def)
  moreover have "hello env ?s1 = hello env s" by (simp add: handshakeText_def)
  ultimately have h: "handshake env s ?c0 = Some ((None, ?s1), ?c1)"
    using assms(2) i by (simp add: handshake_def sendHandshake_text [OF ok1] login_ok_def) (simp add: sentSID_def)
  let ?s2 = "?s1\<lparr>s_quitSent := False\<rparr>" and ?c2 = "?c1\<lparr>c_out := hello env s @ ''FF'' @ [CR]\<rparr>"
  have out: "handleOutbound env (Some h) ?s1 ?c1 m = Some ((False, None), ?s1, ?c2, m)"
    using handleOutbound_idle [OF idle_outbound [OF i(5)]] confirmSent_idle(2) [of ?c1 ?s1 "''Q'' @ [CR]"] i(3) by simp
  have in1: "handleInbound env (Some h) ?s2 ?c2 m = Some ((True, None), ?s2\<lparr>s_remoteNoMsgs := True\<rparr>, ?c2\<lparr>c_in := []\<rparr>, m)"
    using handleInbound_idle [of "CHR ''Q''" ?c2 "[]"] by simp
  let ?s3 = "?s2\<lparr>s_remoteNoMsgs := True, s_quitReceived := True\<rparr>"
  have "exchangeLoop env (Some h) True ?s1 ?c1 m = Some (None, ?s3, ?c2\<lparr>c_in := []\<rparr>, m)"
    using i(2) in1 out
    by (simp add: Done_def exchangeLoop.simps [of _ _ True ?s1] exchangeLoop.simps [of _ _ False ?s2] exchangeLoop.simps [of _ _ True ?s3])
  then show ?thesis
    using Exchange_start [OF assms(1,5) _ h] assms(2) by (simp add: Close_def fresh_conn_def)
qed

text \<open>What a station has written when it got \<open>input\<close> and nothing more. A station that waits for more is modelled as one
  whose connection ends there; then \<open>Exchange\<close> writes nothing more.\<close>

definition writes :: "env \<Rightarrow> 'm MBoxHandler \<Rightarrow> Session \<Rightarrow> 'm \<Rightarrow> string \<Rightarrow> string" where
  "writes env h s m input = (case Exchange env (Some h) s (fresh_conn input) m of None \<Rightarrow> [] | Some (_, _, c, _) \<Rightarrow> c_out c)"

text \<open>A dialogue of two stations: what each has written after \<open>n\<close> rounds, in which it got what the other wrote in the
  round before. At first nobody has written anything.\<close>

fun dialogue :: "(string \<Rightarrow> string) \<Rightarrow> (string \<Rightarrow> string) \<Rightarrow> nat \<Rightarrow> string \<times> string" where
  "dialogue a b 0 = ([], [])"
| "dialogue a b (Suc n) = (a (snd (dialogue a b n)), b (fst (dialogue a b n)))"

lemma readHandshake_starved: "c_in c = [] \<Longrightarrow> readHandshake env master d c = Some ((d, Some (c_end c)), c)"
  by (subst readHandshake.simps) (simp add: conn_Peek_def)

lemma Exchange_handshake_fails:
  assumes "idle_session env h s m" "\<not> e_fwAuxOnly env" "c_robust c = None" "handshake env s c = Some ((Some e, s1), c1)" "c_robust c1 = None" "isConnLost e"
  shows "Exchange env (Some h) s c m = Some ((\<lparr>Received = [], Sent = []\<rparr>, Some ErrConnLost), s1, Close c1, m)"
  using assms by (simp add: Exchange_def idle_session_def SetRobust_def finishExchange_def)

lemma writes_master_first:
  assumes "idle_session env h s m" "s_master s" "\<not> e_fwAuxOnly env"
  shows "writes env h s m [] = hello env s"
proof -
  have i: "session_ok env s" "s_motd s = []" using assms(1) by (auto simp: idle_session_def)
  let ?c = "(fresh_conn [])\<lparr>c_out := hello env s\<rparr>"
  have "readHandshake env True \<lparr>SID = [], FW = [], SecureChallenge = []\<rparr> ?c = Some ((\<lparr>SID = [], FW = [], SecureChallenge = []\<rparr>, Some (IoErr EOF)), ?c)"
    by (subst readHandshake_starved) (simp_all add: fresh_conn_def)
  then have "handshake env s (fresh_conn []) = Some ((Some (IoErr EOF), s), ?c)"
    using assms(2) i by (simp add: handshake_def sendHandshake_text [OF i(1)] login_ok_def)
  from Exchange_handshake_fails [OF assms(1,3) _ this] show ?thesis by (simp add: writes_def Close_def)
qed

lemma writes_slave_first:
  assumes "idle_session env h s m" "\<not> s_master s" "\<not> e_fwAuxOnly env"
  shows "writes env h s m [] = []"
proof -
  have "readHandshake env False \<lparr>SID = [], FW = [], SecureChallenge = []\<rparr> (fresh_conn []) = Some ((\<lparr>SID = [], FW = [], SecureChallenge = []\<rparr>, Some (IoErr EOF)), fresh_conn [])"
    by (subst readHandshake_starved) (simp_all add: fresh_conn_def)
  then have "handshake env s (fresh_conn []) = Some ((Some (IoErr EOF), s), fresh_conn [])" using assms(2) by (simp add: handshake_def)
  from Exchange_handshake_fails [OF assms(1,3) _ this] show ?thesis by (simp add: writes_def Close_def)
qed

lemma writes_slave_turn:
  assumes "idle_session env h s m" "\<not> s_master s" "session_ok env s'" "s_master s'" "\<not> e_fwAuxOnly env"
  shows "writes env h s m (hello env s') = hello env s @ ''FF'' @ [CR]"
proof -
  let ?s1 = "s\<lparr>s_remoteSID := sentSID env, s_remoteFW := s_localFW s'\<rparr>"
  let ?c0 = "fresh_conn (hello env s')" and ?c1 = "(fresh_conn [])\<lparr>c_out := hello env s\<rparr>"
  have i: "session_ok env s" "\<not> Done s" "\<not> s_remoteNoMsgs s" "s_motd s = []" "\<forall>fw. GetOutbound h fw m = Some []"
    using assms(1) by (auto simp: idle_session_def)
  have ok1: "session_ok env ?s1" using i(1) by (simp add: session_ok_def)
  have "readHandshake env False \<lparr>SID = [], FW = [], SecureChallenge = []\<rparr> ?c0 =
      Some ((\<lparr>SID = sentSID env, FW = s_localFW s', SecureChallenge = []\<rparr>, None), fresh_conn [])"
    using readHandshake_text [OF assms(3), of ?c0 "[]" "[]"] assms(4) by simp
  moreover have "hello env ?s1 = hello env s" by (simp add: handshakeText_def)
  ultimately have h: "handshake env s ?c0 = Some ((None, ?s1), ?c1)"
    using assms(2) i by (simp add: handshake_def sendHandshake_text [OF ok1] login_ok_def) (simp add: sentSID_def)
  let ?c2 = "?c1\<lparr>c_out := hello env s @ ''FF'' @ [CR]\<rparr>"
  have "handleOutbound env (Some h) ?s1 ?c1 m = Some ((False, Some (IoErr EOF)), ?s1, ?c2, m)"
    using handleOutbound_idle [OF idle_outbound [OF i(5)], of env ?s1 ?c1] i(3) by (simp add: confirmSent_def conn_Peek_def fresh_conn_def)
  then have "exchangeLoop env (Some h) True ?s1 ?c1 m = Some (Some (IoErr EOF), ?s1\<lparr>s_quitSent := False\<rparr>, ?c2, m)"
    using i(2) by (simp add: Done_def exchangeLoop.simps [of _ _ True ?s1])
  then have "Exchange env (Some h) s ?c0 m = Some ((s_trafficStats s, Some ErrConnLost), ?s1\<lparr>s_quitSent := False\<rparr>, Close ?c2, m)"
    using assms h by (simp add: Exchange_def idle_session_def SetRobust_def finishExchange_def)
  then show ?thesis by (simp add: writes_def Close_def)
qed

text \<open>C6. Two stations without messages for each other, neither of which has been sent anything yet, finish an exchange:
  after four rounds, in each of which a station reads what the other had written in the round before and writes what it
  can, both have written everything and both return without an error, with the connection closed and the addresses of the
  other side. Nothing that was written is taken back.\<close>

theorem idle_exchange:
  assumes "idle_session env mh ms mm" "s_master ms" "idle_session env sh ss sm" "\<not> s_master ss" "\<not> e_fwAuxOnly env"
    and "talk = dialogue (writes env mh ms mm) (writes env sh ss sm)" "(mout, sout) = talk 4"
  shows "\<exists>ms' ss' mc sc.
    Exchange env (Some mh) ms (fresh_conn sout) mm = Some ((s_trafficStats ms, None), ms', mc, mm) \<and> c_out mc = mout \<and>
    Exchange env (Some sh) ss (fresh_conn mout) sm = Some ((s_trafficStats ss, None), ss', sc, sm) \<and> c_out sc = sout \<and>
    c_closed mc \<and> c_closed sc \<and> s_remoteFW ms' = s_localFW ss \<and> s_remoteFW ss' = s_localFW ms \<and>
    (\<forall>n. prefix (fst (talk n)) mout \<and> prefix (snd (talk n)) sout)"
proof -
  have ok: "session_ok env ms" "session_ok env ss" using assms by (auto simp: idle_session_def)
  let ?mo = "hello env ms @ ''FQ'' @ [CR]" and ?so = "hello env ss @ ''FF'' @ [CR]"
  let ?mc = "(fresh_conn [])\<lparr>c_out := ?mo, c_closed := True\<rparr>"
  let ?sc = "(fresh_conn [])\<lparr>c_out := ?so, c_closed := True\<rparr>"
  note m = idle_master [OF assms(1,2) ok(2) assms(4,5)] and s = idle_slave [OF assms(3,4) ok(1) assms(2,5)]
  let ?m = "writes env mh ms mm" and ?s = "writes env sh ss sm"
  have w: "?m [] = hello env ms" "?s [] = []" "?s (hello env ms) = ?so" "?m ?so = ?mo" "?s ?mo = ?so"
    using writes_master_first [OF assms(1,2,5)] writes_slave_first [OF assms(3,4,5)] writes_slave_turn [OF assms(3,4) ok(1) assms(2,5)] m s
    by (simp_all add: writes_def)
  have t: "talk 0 = ([], [])" "talk (Suc 0) = (hello env ms, [])" "talk (Suc (Suc 0)) = (hello env ms, ?so)" "talk (Suc (Suc (Suc 0))) = (?mo, ?so)"
    by (simp_all only: assms(6) dialogue.simps fst_conv snd_conv w)
  have fin: "talk (Suc (Suc (Suc k))) = (?mo, ?so)" for k
    by (induction k) (use t(4) w in \<open>simp_all only: assms(6) dialogue.simps fst_conv snd_conv\<close>)
  then have out: "mout = ?mo" "sout = ?so" using assms(7) by (simp_all add: numeral_eq_Suc del: append.simps)
  have pre: "prefix (fst (talk n)) mout \<and> prefix (snd (talk n)) sout" for n
  proof -
    consider "n = 0" | "n = Suc 0" | "n = Suc (Suc 0)" | k where "n = Suc (Suc (Suc k))" by (metis not0_implies_Suc)
    then show ?thesis by cases (simp_all only: t fin out fst_conv snd_conv Nil_prefix prefixI prefix_order.order_refl simp_thms)
  qed
  let ?ms = "ms\<lparr>s_remoteSID := sentSID env, s_remoteFW := s_localFW ss, s_remoteNoMsgs := True, s_quitReceived := False, s_quitSent := True\<rparr>"
  let ?ss = "ss\<lparr>s_remoteSID := sentSID env, s_remoteFW := s_localFW ms, s_remoteNoMsgs := True, s_quitReceived := True, s_quitSent := False\<rparr>"
  show ?thesis by (rule exI [of _ ?ms], rule exI [of _ ?ss], rule exI [of _ ?mc], rule exI [of _ ?sc]) (use m s out pre in simp)
qed

theorem idle_exchange_witness:
  "\<exists>mout sout ms' ss' mc sc.
    dialogue (writes example_env idle_handler (IsMaster True example_Session) ()) (writes example_env idle_handler example_Session ()) 4 = (mout, sout) \<and>
    Exchange example_env (Some idle_handler) (IsMaster True example_Session) (fresh_conn sout) () =
      Some ((\<lparr>Received = [], Sent = []\<rparr>, None), ms', mc, ()) \<and>
    Exchange example_env (Some idle_handler) example_Session (fresh_conn mout) () =
      Some ((\<lparr>Received = [], Sent = []\<rparr>, None), ss', sc, ())"
proof -
  have s: "\<not> Done example_Session" "\<not> s_remoteNoMsgs example_Session" "s_motd example_Session = []"
      "\<not> s_master example_Session" "s_trafficStats example_Session = \<lparr>Received = [], Sent = []\<rparr>" "\<not> e_fwAuxOnly example_env"
    by (simp_all add: example_Session_def NewSession_def Let_def Done_def example_env_def)
  then have i: "idle_session example_env idle_handler example_Session ()"
      "idle_session example_env idle_handler (IsMaster True example_Session) ()"
    using example_Session_ok by (auto simp: idle_session_def idle_handler_def IsMaster_def session_ok_def Done_def)
  obtain mout sout where d: "(mout, sout) =
      dialogue (writes example_env idle_handler (IsMaster True example_Session) ()) (writes example_env idle_handler example_Session ()) 4"
    by (metis surj_pair)
  show ?thesis
    using idle_exchange [OF i(2) _ i(1) s(4,6) refl d] s(5) d by (simp add: IsMaster_def) metis
qed

end
