(* ===== verification/Fbb_Handler.thy ===== *)
theory Fbb_Handler
  imports Fbb_Exchange
begin

text \<open>
  The contract of a mailbox handler (the interfaces \<^verbatim>\<open>OutboundHandler\<close> and \<^verbatim>\<open>InboundHandler\<close> of
  \<^verbatim>\<open>src/fbb/wl2k.go\<close>) and what the turns of a session do to a mailbox that keeps it.
\<close>

lemma parseAnswers_mids: "map p_mid (snd (parseAnswers str ps)) = map p_mid ps"
proof (induction str ps rule: parseAnswers.induct)
  case (3 c str p ps)
  have "p_mid p' = p_mid p" if "parseAnswer c str p = Inr (p', str')" for p' str'
    using that by (auto simp: parseAnswer_def Let_def simp del: list.set split: if_splits option.splits)
  then show ?case using 3 by (cases "parseAnswer c str p") (auto simp: split_beta)
qed simp_all

lemma parseProposalAnswer_mids: "map p_mid (snd (parseProposalAnswer str ps)) = map p_mid ps"
  by (simp add: parseProposalAnswer_def parseAnswers_mids)

text \<open>\<open>offered\<close> are the ids of the messages the mailbox may still propose. A message that was sent, rejected or deferred is
  not proposed again, and a message that was received is not accepted again.\<close>

locale mailbox_contract =
  fixes h :: "'m MBoxHandler" and ok :: "'m \<Rightarrow> bool" and good :: "string \<Rightarrow> bool" and offered :: "'m \<Rightarrow> string set"
  assumes offers: "ok m \<Longrightarrow> GetOutbound h fw m = Some msgs \<Longrightarrow> MID ` set msgs \<subseteq> offered m"
    and offered_good: "ok m \<Longrightarrow> mid \<in> offered m \<Longrightarrow> good mid"
    and sent: "ok m \<Longrightarrow> good mid \<Longrightarrow> SetSent h mid rej m = Some m' \<Longrightarrow> ok m' \<and> offered m' = offered m - {mid}"
    and deferred: "ok m \<Longrightarrow> good mid \<Longrightarrow> SetDeferred h mid m = Some m' \<Longrightarrow> ok m' \<and> offered m' = offered m - {mid}"
    and processed: "ok m \<Longrightarrow> good (MID x) \<Longrightarrow> ProcessInbound h x m = (e, m') \<Longrightarrow> ok m' \<and> offered m' = offered m"
    and received: "ok m \<Longrightarrow> ProcessInbound h x m = (None, m') \<Longrightarrow> p_mid p = MID x \<Longrightarrow> GetInboundAnswer h p m' \<noteq> Accept"
    and stays: "ok m \<Longrightarrow> good (MID x) \<Longrightarrow> good (p_mid p) \<Longrightarrow> GetInboundAnswer h p m \<noteq> Accept \<Longrightarrow> ProcessInbound h x m = (e, m') \<Longrightarrow> GetInboundAnswer h p m' \<noteq> Accept"
begin

lemma outbound_offered:
  assumes "ok m" "outbound env (Some h) s m = Some ps" "p \<in> set ps"
  shows "p_mid p \<in> offered m"
proof -
  obtain msgs qs where "GetOutbound h (s_remoteFW s) m = Some msgs" "prepareProposals env (highestPropCode env s) msgs = Some qs"
      "ps = sortProposals qs"
    using assms(2) by (auto simp: outbound_def bind_eq_Some_conv)
  then show ?thesis
    using offers [OF assms(1)] assms(3) Message_Proposal_mid prepareProposals_from by (fastforce simp: sortProposals_def)
qed

lemma deliver_settles:
  "ok m \<Longrightarrow> \<forall>p \<in> set ps. good (p_mid p) \<Longrightarrow> deliver h ps sent c m = Some ((sent', e), c', m') \<Longrightarrow>
   ok m' \<and> offered m' \<subseteq> offered m \<and> fst ` set sent' \<subseteq> fst ` set sent \<union> p_mid ` set ps"
proof (induction ps arbitrary: sent c m)
  case (Cons p ps)
  have dom: "fst ` set (AList.update k v al) = insert k (fst ` set al)" for k :: string and v :: bool and al
    using dom_update [of k v al] by (simp add: dom_map_of_conv_image_fst)
  consider (later) m1 where "p_answer p = Defer" "SetDeferred h (p_mid p) m = Some m1" "deliver h ps sent c m1 = Some ((sent', e), c', m')"
    | (update) c1 b where "deliver h ps (AList.update (p_mid p) b sent) c1 m = Some ((sent', e), c', m')"
    | (skip) "deliver h ps sent c m = Some ((sent', e), c', m')"
    | (fail) "sent' = sent" "m' = m"
    using Cons.prems(3) by (auto simp: bind_eq_Some_conv split: if_splits option.splits)
  then show ?case
  proof cases
    case later
    then show ?thesis using Cons.IH [OF _ _ later(3)] deferred [OF Cons.prems(1) _ later(2)] Cons.prems(2) by auto
  next
    case update
    then show ?thesis using Cons.IH [OF Cons.prems(1) _ update] Cons.prems(2) dom by auto
  next
    case skip
    then show ?thesis using Cons.IH [OF Cons.prems(1) _ skip] Cons.prems(2) by auto
  next
    case fail
    then show ?thesis using Cons.prems(1) by auto
  qed
qed auto

lemma setAllSent_settles:
  "ok m \<Longrightarrow> \<forall>(mid, r) \<in> set sent. good mid \<Longrightarrow> setAllSent h sent m = Some m' \<Longrightarrow>
   ok m' \<and> offered m' = offered m - fst ` set sent"
proof (induction sent arbitrary: m)
  case (Cons a ss)
  obtain mid rej where a: "a = (mid, rej)" by fastforce
  obtain m1 where m1: "SetSent h mid rej m = Some m1" "setAllSent h ss m1 = Some m'"
    using Cons.prems(3) a by (auto simp: bind_eq_Some_conv)
  have "ok m1 \<and> offered m1 = offered m - {mid}" using sent [OF Cons.prems(1) _ m1(1)] Cons.prems(2) a by auto
  then show ?case using Cons.IH [OF _ _ m1(2)] Cons.prems(2) a by auto
qed simp

lemma sendOutbound_settles:
  assumes "ok m" "sendOutbound env h s c m = Some ((sent, e), c', m')"
  shows "ok m' \<and> offered m' \<subseteq> offered m \<and> fst ` set sent \<subseteq> offered m"
proof -
  obtain props reply c1 where a: "outbound env (Some h) s m = Some props"
      "awaitAnswer (sendBlock (take MaxBlockSize props) c) = Some (reply, c1)"
    using assms(2) by (auto simp: sendOutbound_def bind_eq_Some_conv Let_def)
  show ?thesis
  proof (cases reply)
    case (Inl x)
    then show ?thesis using assms a by (auto simp: sendOutbound_def)
  next
    case (Inr l)
    obtain e1 ps where p: "parseProposalAnswer l (take MaxBlockSize props) = (e1, ps)" by fastforce
    have mids: "p_mid ` set ps \<subseteq> offered m"
    proof -
      have "map p_mid ps = map p_mid (take MaxBlockSize props)" using parseProposalAnswer_mids p by (metis snd_conv)
      then have "p_mid ` set ps \<subseteq> p_mid ` set props" by (metis image_mono list.set_map set_take_subset)
      then show ?thesis using outbound_offered [OF assms(1) a(1)] by auto
    qed
    consider "sent = []" "m' = m" | c2 c3 where "deliver h ps [] c2 m = Some ((sent, e), c3, m')"
      using assms a Inr p by (auto simp: sendOutbound_def bind_eq_Some_conv Let_def split: if_splits option.splits)
    then show ?thesis
    proof cases
      case 2
      have "\<forall>p \<in> set ps. good (p_mid p)" using mids offered_good [OF assms(1)] by auto
      then have d: "ok m'" "offered m' \<subseteq> offered m" "fst ` set sent \<subseteq> p_mid ` set ps"
        using deliver_settles [OF assms(1) _ 2] by simp_all
      show ?thesis using d(1,2) subset_trans [OF d(3) mids] by simp
    qed (use assms(1) in auto)
  qed
qed

text \<open>A turn that ended well: what the statistics say was sent was offered before and is not offered any more.\<close>

lemma handleOutbound_settles:
  assumes "ok m" "handleOutbound env (Some h) s c m = Some ((q, e), s', c', m')"
  shows "ok m' \<and> offered m' \<subseteq> offered m \<and>
    (\<exists>mids. Sent (s_trafficStats s') = Sent (s_trafficStats s) @ mids \<and> set mids \<subseteq> offered m - offered m')"
  using assms
proof (induction "length (c_in c)" arbitrary: c m rule: less_induct)
  case less
  note step = less.prems(2) [unfolded handleOutbound.simps [of env "Some h" s c m] Let_def]
  obtain props where props: "outbound env (Some h) s m = Some props" using step by (auto split: option.splits)
  obtain sent e1 c1 m1 where so: "(if props \<noteq> [] then sendOutbound env h s c m else Some (([], None), c, m)) = Some ((sent, e1), c1, m1)"
    using step props by (auto split: option.splits if_splits)
  have 1: "ok m1 \<and> offered m1 \<subseteq> offered m \<and> fst ` set sent \<subseteq> offered m"
    using so sendOutbound_settles [OF less.prems(1)] less.prems(1) by (cases "props = []") auto
  show ?case
  proof (cases e1)
    case (Some x)
    then show ?thesis using step props so 1 by auto
  next
    case None
    have g: "\<forall>(mid, r) \<in> set sent. good mid" using 1 offered_good [OF less.prems(1)] by auto
    obtain m2 props' where m2: "setAllSent h (filter snd sent) m1 = Some m2" "outbound env (Some h) s m2 = Some props'"
      using step props so None by (auto split: option.splits)
    have 2: "ok m2 \<and> offered m2 = offered m1 - fst ` set (filter snd sent)"
      using setAllSent_settles [OF _ _ m2(1)] 1 g by auto
    let ?sent = "filter (\<lambda>(mid, rej). \<not> rej) sent"
    show ?thesis
    proof (cases "?sent = [] \<and> props' \<noteq> []")
      case True
      then have r: "handleOutbound env (Some h) s c1 m2 = Some ((q, e), s', c', m')" using step props so None m2 by auto
      have "props \<noteq> []"
      proof
        assume "props = []"
        then have "m2 = m" using so m2(1) by auto
        then show False using True m2(2) props \<open>props = []\<close> by simp
      qed
      then have "length (c_in c1) < length (c_in c)" using so None sendOutbound_consumes by auto
      then show ?thesis
      proof -
        assume "length (c_in c1) < length (c_in c)"
        then obtain mids where "ok m'" "offered m' \<subseteq> offered m2" "Sent (s_trafficStats s') = Sent (s_trafficStats s) @ mids"
            "set mids \<subseteq> offered m2 - offered m'" using less.hyps [OF _ _ r] 2 by auto
        moreover have "offered m2 \<subseteq> offered m" using 1 2 by auto
        ultimately show ?thesis by (intro conjI exI [of _ mids]) blast+
      qed
    next
      case False
      then have r: "confirmSent (Some h) ?sent s c1 m2 = Some ((q, e), s', c', m')"
        using step props so None m2 by (auto split: if_splits)
      have "m' = m2 \<and> s' = s \<or> setAllSent h ?sent m2 = Some m' \<and>
          s' = s\<lparr>s_trafficStats := (s_trafficStats s)\<lparr>Sent := Sent (s_trafficStats s) @ map fst (filter (\<lambda>(mid, rej). \<not> rej) ?sent)\<rparr>\<rparr>"
        using r by (auto simp: confirmSent_def Let_def bind_eq_Some_conv split: if_splits sum.splits)
      then show ?thesis
      proof
        assume s: "setAllSent h ?sent m2 = Some m' \<and>
          s' = s\<lparr>s_trafficStats := (s_trafficStats s)\<lparr>Sent := Sent (s_trafficStats s) @ map fst (filter (\<lambda>(mid, rej). \<not> rej) ?sent)\<rparr>\<rparr>"
        then have "ok m' \<and> offered m' = offered m2 - fst ` set ?sent"
          using setAllSent_settles [of m2 ?sent m'] 2 g by auto
        then show ?thesis using s 1 2 by auto
      qed (use 1 2 in auto)
    qed
  qed
qed

lemma processAll_settles:
  "ok m \<Longrightarrow> \<forall>x \<in> set xs. good (MID x) \<Longrightarrow> processAll h xs m = Some m' \<Longrightarrow>
   ok m' \<and> offered m' = offered m \<and> (\<forall>p. good (p_mid p) \<longrightarrow> GetInboundAnswer h p m \<noteq> Accept \<or> p_mid p \<in> MID ` set xs \<longrightarrow> GetInboundAnswer h p m' \<noteq> Accept)"
proof (induction xs arbitrary: m)
  case (Cons x xs)
  obtain m1 where m1: "ProcessInbound h x m = (None, m1)" "processAll h xs m1 = Some m'"
    using Cons.prems(3) by (auto split: prod.splits option.splits)
  have 1: "ok m1 \<and> offered m1 = offered m" using processed [OF Cons.prems(1) _ m1(1)] Cons.prems(2) by simp
  have 2: "ok m' \<and> offered m' = offered m1 \<and>
      (\<forall>p. good (p_mid p) \<longrightarrow> GetInboundAnswer h p m1 \<noteq> Accept \<or> p_mid p \<in> MID ` set xs \<longrightarrow> GetInboundAnswer h p m' \<noteq> Accept)"
    using Cons.IH [OF _ _ m1(2)] 1 Cons.prems(2) by simp
  have 3: "GetInboundAnswer h p m1 \<noteq> Accept" if "good (p_mid p)" "GetInboundAnswer h p m \<noteq> Accept \<or> p_mid p = MID x" for p
    using that received [OF Cons.prems(1) m1(1)] stays [OF Cons.prems(1) _ _ _ m1(1)] Cons.prems(2) by auto
  show ?case using 1 2 3 by auto
qed simp

end

end
