(* ===== verification/Go_Path.thy ===== *)
theory Go_Path
  imports Go_Strings "HOL-Library.AList" "HOL-Library.List_Lexorder" "HOL-Library.Char_ord"
begin

text \<open>
  Paths and files: the functions of the packages \<^verbatim>\<open>path\<close>, \<^verbatim>\<open>path/filepath\<close>, \<^verbatim>\<open>os\<close> and \<^verbatim>\<open>io/ioutil\<close> that the mailbox
  uses. A path is resolved to whether it is rooted and the list of its components; there are no links. The file
  system is an association list from such locations to directories and regular files. Any access to a location can
  be made to fail with an error of the operating system (permissions, a name that is too long, a broken disk).
\<close>

section \<open>Paths\<close>

type_synonym loc = "bool \<times> string list"

text \<open>The components, \<^verbatim>\<open>.\<close> and \<^verbatim>\<open>..\<close> resolved; \<open>st\<close> has the components so far in reverse order.\<close>

fun resolve :: "bool \<Rightarrow> string list \<Rightarrow> string list \<Rightarrow> string list" where
  "resolve r st [] = rev st"
| "resolve r st (c # cs) =
     (if c = [] \<or> c = ''.'' then resolve r st cs
      else if c = ''..'' then
        (case st of
           [] \<Rightarrow> resolve r (if r then [] else [c]) cs
         | t # ts \<Rightarrow> if t = ''..'' then resolve r (c # st) cs else resolve r ts cs)
      else resolve r (c # st) cs)"

definition locate :: "string \<Rightarrow> loc" where
  "locate p = (HasPrefix p ''/'', resolve (HasPrefix p ''/'') [] (Split (CHR ''/'') p))"

fun pathString :: "loc \<Rightarrow> string" where
  "pathString (r, cs) = (if cs = [] then (if r then ''/'' else ''.'') else (if r then ''/'' else []) @ joinWith ''/'' cs)"

definition Join :: "string list \<Rightarrow> string" where
  "Join es = (let es = filter (\<lambda>e. e \<noteq> []) es in if es = [] then [] else pathString (locate (joinWith ''/'' es)))"

text \<open>\<open>filepath.Ext\<close>.\<close>

definition fileExt :: "string \<Rightarrow> string" where
  "fileExt p =
     (case lastIndex (\<lambda>c. c = CHR ''.'' \<or> c = CHR ''/'') p of
        Some i \<Rightarrow> if p ! i = CHR ''.'' then drop i p else []
      | None \<Rightarrow> [])"

section \<open>Files\<close>

datatype node = Dir | Reg string

record fs =
  fs_nodes :: "(loc \<times> node) list"
  fs_fault :: "loc \<Rightarrow> string option"

datatype os_err = ENOENT | ENOTDIR | EISDIR | EEXIST | EINVAL | EFault string

fun os_errText :: "os_err \<Rightarrow> string" where
  "os_errText ENOENT = ''no such file or directory''"
| "os_errText ENOTDIR = ''not a directory''"
| "os_errText EISDIR = ''is a directory''"
| "os_errText EEXIST = ''file exists''"
| "os_errText EINVAL = ''invalid argument''"
| "os_errText (EFault s) = s"

text \<open>The text of an \<^verbatim>\<open>os.PathError\<close>.\<close>

definition pathError :: "string \<Rightarrow> string \<Rightarrow> os_err \<Rightarrow> string" where
  "pathError op p e = op @ '' '' @ p @ '': '' @ os_errText e"

definition fs_lookup :: "fs \<Rightarrow> loc \<Rightarrow> node option" where
  "fs_lookup fs l = (if snd l = [] then Some Dir else map_of (fs_nodes fs) l)"

abbreviation fs_isDir :: "fs \<Rightarrow> loc \<Rightarrow> bool" where
  "fs_isDir fs l \<equiv> fs_lookup fs l = Some Dir"

definition parent :: "loc \<Rightarrow> loc" where
  "parent l = (fst l, butlast (snd l))"

text \<open>A file where the path needs a directory.\<close>

definition fs_blocked :: "fs \<Rightarrow> loc \<Rightarrow> bool" where
  "fs_blocked fs l \<longleftrightarrow> list_ex (\<lambda>i. case fs_lookup fs (fst l, take i (snd l)) of Some (Reg _) \<Rightarrow> True | _ \<Rightarrow> False) [0..<length (snd l)]"

definition fs_set :: "loc \<Rightarrow> node \<Rightarrow> fs \<Rightarrow> fs" where
  "fs_set l n fs = fs\<lparr>fs_nodes := AList.update l n (fs_nodes fs)\<rparr>"

definition os_Open :: "string \<Rightarrow> fs \<Rightarrow> os_err + node" where
  "os_Open p fs =
     (if p = [] then Inl ENOENT
      else let l = locate p in
        case fs_fault fs l of
          Some e \<Rightarrow> Inl (EFault e)
        | None \<Rightarrow>
            if fs_blocked fs l then Inl ENOTDIR
            else (case fs_lookup fs l of None \<Rightarrow> Inl ENOENT | Some n \<Rightarrow> Inr n))"

definition os_WriteFile :: "string \<Rightarrow> string \<Rightarrow> fs \<Rightarrow> os_err option \<times> fs" where
  "os_WriteFile p data fs =
     (let l = locate p in
      if p = [] then (Some ENOENT, fs)
      else case fs_fault fs l of
        Some e \<Rightarrow> (Some (EFault e), fs)
      | None \<Rightarrow>
          if fs_blocked fs l then (Some ENOTDIR, fs)
          else if fs_isDir fs l then (Some EISDIR, fs)
          else if \<not> fs_isDir fs (parent l) then (Some ENOENT, fs)
          else (None, fs_set l (Reg data) fs))"

text \<open>The entries of a directory, ordered by name, or the text of the error.\<close>

definition fs_entries :: "fs \<Rightarrow> loc \<Rightarrow> (string \<times> node) list" where
  "fs_entries fs d =
     sort_key fst (map (\<lambda>(l, n). (last (snd l), n)) (filter (\<lambda>(l, n). snd l \<noteq> [] \<and> parent l = d) (fs_nodes fs)))"

definition os_ReadDir :: "string \<Rightarrow> fs \<Rightarrow> string + (string \<times> node) list" where
  "os_ReadDir p fs =
     (case os_Open p fs of
        Inl e \<Rightarrow> Inl (pathError ''open'' p e)
      | Inr (Reg _) \<Rightarrow> Inl (pathError ''readdirent'' p ENOTDIR)
      | Inr Dir \<Rightarrow> Inr (fs_entries fs (locate p)))"

text \<open>\<open>os.MkdirAll\<close> of the components in reverse order; an error comes with the directory that could not be made.\<close>

fun mkdirs :: "bool \<Rightarrow> string list \<Rightarrow> fs \<Rightarrow> (loc \<times> os_err) option \<times> fs" where
  "mkdirs r [] fs = (None, fs)"
| "mkdirs r (c # cs) fs =
     (let l = (r, rev (c # cs)) in
      case fs_lookup fs l of
        Some Dir \<Rightarrow> (None, fs)
      | Some (Reg _) \<Rightarrow> (Some (l, ENOTDIR), fs)
      | None \<Rightarrow>
          (case mkdirs r cs fs of
             (Some e, fs) \<Rightarrow> (Some e, fs)
           | (None, fs) \<Rightarrow>
               (case fs_fault fs l of
                  Some e \<Rightarrow> (Some (l, EFault e), fs)
                | None \<Rightarrow> (None, fs_set l Dir fs))))"

definition os_MkdirAll :: "string \<Rightarrow> fs \<Rightarrow> (loc \<times> os_err) option \<times> fs" where
  "os_MkdirAll p fs = (if p = [] then (Some (locate p, ENOENT), fs) else mkdirs (fst (locate p)) (rev (snd (locate p))) fs)"

definition below :: "loc \<Rightarrow> loc \<Rightarrow> bool" where
  "below l k \<longleftrightarrow> fst k = fst l \<and> take (length (snd l)) (snd k) = snd l"

text \<open>A directory is moved with everything below it.\<close>

definition fs_move :: "loc \<Rightarrow> loc \<Rightarrow> (loc \<times> node) list \<Rightarrow> (loc \<times> node) list" where
  "fs_move l l' ns =
     map (\<lambda>(k, n). if below l k then ((fst l', snd l' @ drop (length (snd l)) (snd k)), n) else (k, n)) ns"

definition os_Rename :: "string \<Rightarrow> string \<Rightarrow> fs \<Rightarrow> os_err option \<times> fs" where
  "os_Rename old new fs =
     (let l = locate old; l' = locate new in
      if old = [] \<or> new = [] then (Some ENOENT, fs)
      else case (fs_fault fs l, fs_fault fs l') of
        (Some e, _) \<Rightarrow> (Some (EFault e), fs)
      | (None, Some e) \<Rightarrow> (Some (EFault e), fs)
      | (None, None) \<Rightarrow>
          if fs_blocked fs l \<or> fs_blocked fs l' then (Some ENOTDIR, fs)
          else
            (case fs_lookup fs l of
               None \<Rightarrow> (Some ENOENT, fs)
             | Some n \<Rightarrow>
                 if fs_isDir fs l' then (Some EEXIST, fs)
                 else if \<not> fs_isDir fs (parent l') then (Some ENOENT, fs)
                 else if l = l' then (None, fs)
                 else if n = Dir \<and> fs_lookup fs l' \<noteq> None then (Some ENOTDIR, fs)
                 else if n = Dir \<and> below l l' then (Some EINVAL, fs)
                 else if n = Dir then (None, fs\<lparr>fs_nodes := fs_move l l' (fs_nodes fs)\<rparr>)
                 else (None, fs\<lparr>fs_nodes := AList.update l' n (AList.delete l (fs_nodes fs))\<rparr>)))"

section \<open>Resolving\<close>

definition plain_name :: "string \<Rightarrow> bool" where
  "plain_name n \<longleftrightarrow> n \<noteq> [] \<and> CHR ''/'' \<notin> set n \<and> n \<noteq> ''.'' \<and> n \<noteq> ''..''"

text \<open>What resolving makes: plain names, after parent directories if the path is not rooted. The names are in reverse
  order, as on the stack of \<open>resolve\<close>.\<close>

fun wf_names :: "bool \<Rightarrow> string list \<Rightarrow> bool" where
  "wf_names r [] \<longleftrightarrow> True"
| "wf_names r (c # cs) \<longleftrightarrow> wf_names r cs \<and> (plain_name c \<or> c = ''..'' \<and> \<not> r \<and> set cs \<subseteq> {''..''})"

definition wf_loc :: "loc \<Rightarrow> bool" where
  "wf_loc l \<longleftrightarrow> wf_names (fst l) (rev (snd l))"

lemma resolve_append: "resolve r st (xs @ ys) = resolve r (rev (resolve r st xs)) ys"
  by (induction r st xs rule: resolve.induct) (auto split: list.splits)

lemma resolve_wf: "wf_names r st \<Longrightarrow> \<forall>n \<in> set cs. CHR ''/'' \<notin> set n \<Longrightarrow> wf_names r (rev (resolve r st cs))"
proof (induction r st cs rule: resolve.induct)
  case (2 r st c cs)
  have "set st \<subseteq> {''..''}" if "wf_names r st" "st = t # ts" "t = ''..''" for t ts
    using that by (auto simp: plain_name_def)
  then show ?case using 2 by (auto simp: plain_name_def split: list.splits)
qed simp

lemma resolve_wf_loc: "wf_names r (rev cs) \<Longrightarrow> resolve r [] cs = cs"
proof (induction cs rule: rev_induct)
  case (snoc c cs)
  then have *: "resolve r [] (cs @ [c]) = resolve r (rev cs) [c]" by (simp add: resolve_append)
  show ?case
  proof (cases "plain_name c")
    case False
    then have "c = ''..''" "\<not> r" "set cs \<subseteq> {''..''}" using snoc.prems by auto
    then show ?thesis unfolding * by (cases "rev cs") (auto dest: arg_cong [where f = rev] arg_cong [where f = set])
  qed (simp add: * plain_name_def)
qed simp

lemma Split_sep: "Split sep (a @ sep # b) = Split sep a @ Split sep b"
  by (induction a) (auto split: list.splits)

lemma Split_no_sep: "n \<in> set (Split sep s) \<Longrightarrow> sep \<notin> set n"
  by (induction s arbitrary: n) (auto split: list.splits if_splits)

lemma Split_join: "cs \<noteq> [] \<Longrightarrow> \<forall>c \<in> set cs. sep \<notin> set c \<Longrightarrow> Split sep (joinWith [sep] cs) = cs"
  by (induction "[sep]" cs rule: joinWith.induct) (simp_all add: Split_none Split_sep)

lemma wf_names_no_slash: "wf_names r cs \<Longrightarrow> c \<in> set cs \<Longrightarrow> c \<noteq> [] \<and> CHR ''/'' \<notin> set c"
  by (induction cs) (auto simp: plain_name_def)

lemma wf_locate: "wf_loc (locate p)"
  unfolding wf_loc_def locate_def by (simp, rule resolve_wf) (auto dest: Split_no_sep)

lemma joinWith_hd: "cs \<noteq> [] \<Longrightarrow> hd cs \<noteq> [] \<Longrightarrow> hd (joinWith sep cs) = hd (hd cs) \<and> joinWith sep cs \<noteq> []"
  by (induction sep cs rule: joinWith.induct) auto

lemma HasPrefix_hd: "HasPrefix p [c] \<longleftrightarrow> p \<noteq> [] \<and> hd p = c"
  by (cases p) (simp_all add: HasPrefix_def)

lemma locate_pathString: "wf_loc l \<Longrightarrow> locate (pathString l) = l"
proof -
  assume wf: "wf_loc l"
  obtain r cs where l: "l = (r, cs)" by fastforce
  have w: "wf_names r (rev cs)" using wf l by (simp add: wf_loc_def)
  show ?thesis
  proof (cases "cs = []")
    case True
    then show ?thesis by (simp add: l locate_def HasPrefix_hd)
  next
    case False
    have n: "\<forall>c \<in> set cs. c \<noteq> [] \<and> CHR ''/'' \<notin> set c" using wf_names_no_slash [OF w] by simp
    then have "hd (hd cs) \<noteq> CHR ''/''" "hd cs \<noteq> []" using False hd_in_set [of cs] hd_in_set [of "hd cs"] by (auto, metis)
    then have h: "hd (joinWith ''/'' cs) \<noteq> CHR ''/''" "joinWith ''/'' cs \<noteq> []"
      using joinWith_hd [OF False, of "''/''"] by auto
    have s: "Split (CHR ''/'') (joinWith ''/'' cs) = cs" using Split_join [OF False] n by simp
    show ?thesis using False h s resolve_wf_loc [OF w] by (cases r) (simp_all add: l locate_def HasPrefix_hd)
  qed
qed

lemma locate_pathString_locate [simp]: "locate (pathString (locate p)) = locate p"
  by (rule locate_pathString [OF wf_locate])

text \<open>A directory of the mailbox and a file in it.\<close>

definition boxLoc :: "string \<Rightarrow> loc" where
  "boxLoc p = (if p = [] then (True, []) else locate p)"

lemma locate_append:
  assumes "p \<noteq> []"
  shows "locate (p @ CHR ''/'' # q) = (fst (locate p), resolve (fst (locate p)) (rev (snd (locate p))) (Split (CHR ''/'') q))"
  using assms by (simp add: locate_def HasPrefix_hd Split_sep resolve_append)

lemma locate_Join: "filter (\<lambda>e. e \<noteq> []) es \<noteq> [] \<Longrightarrow> locate (Join es) = locate (joinWith ''/'' (filter (\<lambda>e. e \<noteq> []) es))"
  by (simp add: Join_def Let_def)

lemma locate_box:
  assumes "plain_name d"
  shows "locate (if p = [] then ''/'' @ d @ ''/'' else p @ ''/'' @ ''/'' @ d @ ''/'') = (fst (boxLoc p), snd (boxLoc p) @ [d])"
proof -
  have s: "Split (CHR ''/'') (''/'' @ d @ ''/'') = [[], d, []]" using assms by (simp add: Split_sep Split_none plain_name_def)
  show ?thesis
  proof (cases "p = []")
    case True
    then show ?thesis using s assms by (simp add: locate_def HasPrefix_hd boxLoc_def plain_name_def)
  next
    case False
    then show ?thesis using locate_append [OF False, of "''/'' @ d @ ''/''"] s assms by (simp add: boxLoc_def plain_name_def)
  qed
qed

lemma locate_Join_dir:
  assumes "plain_name d" "b = ''/'' @ d @ ''/''"
  shows "locate (Join [p, b]) = (fst (boxLoc p), snd (boxLoc p) @ [d])"
proof -
  have "locate (Join [p, b]) = locate (if p = [] then ''/'' @ d @ ''/'' else p @ ''/'' @ ''/'' @ d @ ''/'')"
    using assms by (simp add: locate_Join)
  then show ?thesis using locate_box [OF assms(1)] by simp
qed

lemma locate_Join_file:
  assumes "plain_name d" "b = ''/'' @ d @ ''/''" "n \<noteq> []"
  shows "locate (Join [p, b, n]) = (fst (boxLoc p), resolve (fst (boxLoc p)) (rev (snd (boxLoc p) @ [d])) (Split (CHR ''/'') n))"
proof -
  let ?b = "if p = [] then ''/'' @ d @ ''/'' else p @ ''/'' @ ''/'' @ d @ ''/''"
  have "locate (Join [p, b, n]) = locate (?b @ CHR ''/'' # n)"
    using assms by (simp add: locate_Join)
  also have "\<dots> = (fst (locate ?b), resolve (fst (locate ?b)) (rev (snd (locate ?b))) (Split (CHR ''/'') n))"
    by (rule locate_append) simp
  finally show ?thesis unfolding locate_box [OF assms(1)] by simp
qed

lemma locate_Join_plain:
  assumes "plain_name d" "b = ''/'' @ d @ ''/''" "plain_name n"
  shows "locate (Join [p, b, n]) = (fst (boxLoc p), snd (boxLoc p) @ [d, n])"
  using locate_Join_file [OF assms(1,2), of n p] assms(3) by (simp add: plain_name_def Split_none)

lemma locate_Join2: "p \<noteq> [] \<Longrightarrow> plain_name n \<Longrightarrow> locate (Join [p, n]) = (fst (locate p), snd (locate p) @ [n])"
  using locate_append [of p n] by (simp add: locate_Join plain_name_def Split_none)

lemma Join_nonempty: "filter (\<lambda>e. e \<noteq> []) es \<noteq> [] \<Longrightarrow> Join es \<noteq> []"
proof -
  have "pathString (locate q) \<noteq> []" for q
  proof (cases "snd (locate q) = []")
    case True
    then show ?thesis by (cases "locate q") simp
  next
    case False
    have "wf_names (fst (locate q)) (rev (snd (locate q)))" using wf_locate [of q] by (simp add: wf_loc_def)
    then have "hd (snd (locate q)) \<noteq> []" using wf_names_no_slash False by fastforce
    then show ?thesis using joinWith_hd [OF False] by (cases "locate q") auto
  qed
  then show "filter (\<lambda>e. e \<noteq> []) es \<noteq> [] \<Longrightarrow> Join es \<noteq> []" by (simp add: Join_def Let_def)
qed

end
