(* ===== verification/Mailbox.thy ===== *)
theory Mailbox
  imports Fbb_Handler Go_Path
begin

text \<open>
  The directory mailbox: \<^verbatim>\<open>src/mailbox/syncdir.go\<close>. The state of a mailbox is the handler and the file system.
  \<open>dirHandler\<close> is the handler a session calls; it is shown to keep the contract \<open>mailbox_contract\<close>.
\<close>

section \<open>The handler\<close>

definition DIR_INBOX :: string where "DIR_INBOX = ''/in/''"
definition DIR_OUTBOX :: string where "DIR_OUTBOX = ''/out/''"
definition DIR_SENT :: string where "DIR_SENT = ''/sent/''"
definition DIR_ARCHIVE :: string where "DIR_ARCHIVE = ''/archive/''"
definition Ext :: string where "Ext = ''.b2f''"

lemmas dir_names = DIR_INBOX_def DIR_OUTBOX_def DIR_SENT_def DIR_ARCHIVE_def

text \<open>\<open>dh_deferred\<close> is a map from strings to \<open>True\<close>; it is nil until \<open>Prepare\<close>.\<close>

record DirHandler =
  MBoxPath :: string
  dh_deferred :: "string list option"
  dh_sendOnly :: bool

record mbox =
  mb_handler :: DirHandler
  mb_fs :: fs

definition NewDirHandler :: "string \<Rightarrow> bool \<Rightarrow> DirHandler" where
  "NewDirHandler path sendOnly = \<lparr>MBoxPath = path, dh_deferred = None, dh_sendOnly = sendOnly\<rparr>"

fun makeAll :: "string list \<Rightarrow> fs \<Rightarrow> go_err option \<times> fs" where
  "makeAll [] fs = (None, fs)"
| "makeAll (p # ps) fs =
     (case os_MkdirAll p fs of
        (Some (l, e), fs) \<Rightarrow> (Some (Msg (pathError ''mkdir'' (pathString l) e)), fs)
      | (None, fs) \<Rightarrow> makeAll ps fs)"

definition ensureDirStructure :: "string \<Rightarrow> fs \<Rightarrow> go_err option \<times> fs" where
  "ensureDirStructure mboxPath fs =
     makeAll [Join [mboxPath, DIR_INBOX], Join [mboxPath, DIR_OUTBOX], Join [mboxPath, DIR_SENT], Join [mboxPath, DIR_ARCHIVE]] fs"

definition DirHandler_Prepare :: "mbox \<Rightarrow> go_err option \<times> mbox" where
  "DirHandler_Prepare b =
     (let b = b\<lparr>mb_handler := (mb_handler b)\<lparr>dh_deferred := Some []\<rparr>\<rparr> in
      case ensureDirStructure (MBoxPath (mb_handler b)) (mb_fs b) of (e, fs) \<Rightarrow> (e, b\<lparr>mb_fs := fs\<rparr>))"

section \<open>Reading messages\<close>

text \<open>A panic is one of \<open>ReadFrom\<close>.\<close>

definition OpenMessage :: "env \<Rightarrow> string \<Rightarrow> fs \<Rightarrow> (go_err + Message) option" where
  "OpenMessage env path fs =
     (case os_Open path fs of
        Inl e \<Rightarrow> Some (Inl (Msg (''Unable to open file ('' @ path @ ''): '' @ pathError ''open'' path e)))
      | Inr Dir \<Rightarrow> Some (Inl (Msg (''Unable to parse message ('' @ path @ ''): '' @ pathError ''read'' path EISDIR)))
      | Inr (Reg data) \<Rightarrow> do {
          (e, m) \<leftarrow> ReadFrom env data;
          Some (case e of
                  Some e \<Rightarrow> Inl (Msg (''Unable to parse message ('' @ path @ ''): '' @ errString env e))
                | None \<Rightarrow> Inr (in_header (Header_Set ''X-FilePath'' path) m))
        })"

fun loadFiles :: "env \<Rightarrow> string \<Rightarrow> (string \<times> node) list \<Rightarrow> fs \<Rightarrow> (go_err + Message list) option" where
  "loadFiles env dirPath [] fs = Some (Inr [])"
| "loadFiles env dirPath ((name, n) # files) fs =
     (if n = Dir then loadFiles env dirPath files fs
      else do {
        c \<leftarrow> idx name 0;
        if c = CHR ''.'' \<or> \<not> EqualFold (fileExt name) Ext then loadFiles env dirPath files fs
        else do {
          r \<leftarrow> OpenMessage env (Join [dirPath, name]) fs;
          case r of
            Inl e \<Rightarrow> Some (Inl e)
          | Inr msg \<Rightarrow> do {
              r \<leftarrow> loadFiles env dirPath files fs;
              Some (case r of Inl e \<Rightarrow> Inl e | Inr msgs \<Rightarrow> Inr (msg # msgs))
            }
        }
      })"

definition LoadMessageDir :: "env \<Rightarrow> string \<Rightarrow> fs \<Rightarrow> (go_err + Message list) option" where
  "LoadMessageDir env dirPath fs =
     (case os_ReadDir dirPath fs of
        Inl e \<Rightarrow> Some (Inl (Msg (''Unable to read dir ('' @ dirPath @ ''): '' @ e)))
      | Inr files \<Rightarrow> loadFiles env dirPath files fs)"

definition Inbox :: "env \<Rightarrow> mbox \<Rightarrow> (go_err + Message list) option" where
  "Inbox env b = LoadMessageDir env (Join [MBoxPath (mb_handler b), DIR_INBOX]) (mb_fs b)"
definition Outbox :: "env \<Rightarrow> mbox \<Rightarrow> (go_err + Message list) option" where
  "Outbox env b = LoadMessageDir env (Join [MBoxPath (mb_handler b), DIR_OUTBOX]) (mb_fs b)"
definition SentBox :: "env \<Rightarrow> mbox \<Rightarrow> (go_err + Message list) option" where
  "SentBox env b = LoadMessageDir env (Join [MBoxPath (mb_handler b), DIR_SENT]) (mb_fs b)"
definition Archive :: "env \<Rightarrow> mbox \<Rightarrow> (go_err + Message list) option" where
  "Archive env b = LoadMessageDir env (Join [MBoxPath (mb_handler b), DIR_ARCHIVE]) (mb_fs b)"

definition countFiles :: "string \<Rightarrow> fs \<Rightarrow> int" where
  "countFiles dirPath fs = (case os_ReadDir dirPath fs of Inl e \<Rightarrow> -1 | Inr files \<Rightarrow> int (length files))"

definition InboxCount :: "mbox \<Rightarrow> int" where
  "InboxCount b = countFiles (Join [MBoxPath (mb_handler b), DIR_INBOX]) (mb_fs b)"
definition OutboxCount :: "mbox \<Rightarrow> int" where
  "OutboxCount b = countFiles (Join [MBoxPath (mb_handler b), DIR_OUTBOX]) (mb_fs b)"
definition SentCount :: "mbox \<Rightarrow> int" where
  "SentCount b = countFiles (Join [MBoxPath (mb_handler b), DIR_SENT]) (mb_fs b)"
definition ArchiveCount :: "mbox \<Rightarrow> int" where
  "ArchiveCount b = countFiles (Join [MBoxPath (mb_handler b), DIR_ARCHIVE]) (mb_fs b)"

definition IsUnread :: "Message \<Rightarrow> bool" where
  "IsUnread msg \<longleftrightarrow> Header_Get (m_header msg) ''X-Unread'' = ''true''"

text \<open>The message is changed even if it cannot be written.\<close>

definition SetUnread :: "env \<Rightarrow> Message \<Rightarrow> bool \<Rightarrow> fs \<Rightarrow> (go_err option \<times> Message) \<times> fs" where
  "SetUnread env msg unread fs =
     (if \<not> unread \<and> Header_Get (m_header msg) ''X-Unread'' = [] then ((None, msg), fs)
      else
        let msg = in_header (if unread then Header_Set ''X-Unread'' ''true'' else Header_Del ''X-Unread'') msg in
        case Bytes env msg of
          Inl e \<Rightarrow> ((Some e, msg), fs)
        | Inr data \<Rightarrow>
            let filePath = Header_Get (m_header msg) ''X-FilePath'' in
            if filePath = [] then ((Some (Msg ''Missing X-FilePath header''), msg), fs)
            else (case os_WriteFile filePath data fs of
                    (Some e, fs) \<Rightarrow> ((Some (Msg (pathError ''open'' filePath e)), msg), fs)
                  | (None, fs) \<Rightarrow> ((None, msg), fs)))"

section \<open>What a session calls\<close>

definition AddOut :: "env \<Rightarrow> Message \<Rightarrow> mbox \<Rightarrow> go_err option \<times> mbox" where
  "AddOut env msg b =
     (case Bytes env msg of
        Inl e \<Rightarrow> (Some e, b)
      | Inr data \<Rightarrow>
          let path = Join [MBoxPath (mb_handler b), DIR_OUTBOX, MID msg @ Ext] in
          (case os_WriteFile path data (mb_fs b) of
             (Some e, fs) \<Rightarrow> (Some (Msg (pathError ''open'' path e)), b\<lparr>mb_fs := fs\<rparr>)
           | (None, fs) \<Rightarrow> (None, b\<lparr>mb_fs := fs\<rparr>)))"

fun DirHandler_ProcessInbound :: "env \<Rightarrow> Message list \<Rightarrow> mbox \<Rightarrow> go_err option \<times> mbox" where
  "DirHandler_ProcessInbound env [] b = (None, b)"
| "DirHandler_ProcessInbound env (m # msgs) b =
     (let filename = Join [Join [MBoxPath (mb_handler b), DIR_INBOX], MID m @ Ext];
          m = in_header (Header_Set ''X-Unread'' ''true'') m
      in case Bytes env m of
           Inl e \<Rightarrow> (Some e, b)
         | Inr data \<Rightarrow>
             (case os_WriteFile filename data (mb_fs b) of
                (Some e, fs) \<Rightarrow>
                  (Some (Msg (''Unable to write received message ('' @ filename @ ''): '' @ pathError ''open'' filename e)),
                   b\<lparr>mb_fs := fs\<rparr>)
              | (None, fs) \<Rightarrow> DirHandler_ProcessInbound env msgs (b\<lparr>mb_fs := fs\<rparr>)))"

text \<open>A file that cannot be opened for another reason than that it does not exist is accepted, too.\<close>

definition DirHandler_GetInboundAnswer :: "Proposal \<Rightarrow> mbox \<Rightarrow> char" where
  "DirHandler_GetInboundAnswer p b =
     (if dh_sendOnly (mb_handler b) then Defer
      else case os_Open (Join [MBoxPath (mb_handler b), DIR_INBOX, p_mid p @ Ext]) (mb_fs b) of
             Inr n \<Rightarrow> Reject
           | Inl e \<Rightarrow> Accept)"

text \<open>\<open>None\<close> is the end of the program by \<^verbatim>\<open>log.Fatalf\<close>, and for \<open>SetDeferred\<close> the panic of an assignment to a nil map.\<close>

definition DirHandler_SetSent :: "string \<Rightarrow> bool \<Rightarrow> mbox \<Rightarrow> mbox option" where
  "DirHandler_SetSent mid rejected b =
     (let oldPath = Join [MBoxPath (mb_handler b), DIR_OUTBOX, mid @ Ext];
          newPath = Join [MBoxPath (mb_handler b), DIR_SENT, mid @ Ext]
      in case os_Rename oldPath newPath (mb_fs b) of
           (Some e, fs) \<Rightarrow> None
         | (None, fs) \<Rightarrow> Some (b\<lparr>mb_fs := fs\<rparr>))"

definition DirHandler_SetDeferred :: "string \<Rightarrow> mbox \<Rightarrow> mbox option" where
  "DirHandler_SetDeferred mid b =
     (case dh_deferred (mb_handler b) of
        None \<Rightarrow> None
      | Some ds \<Rightarrow> Some (b\<lparr>mb_handler := (mb_handler b)\<lparr>dh_deferred := Some (List.insert mid ds)\<rparr>\<rparr>))"

definition isDeferred :: "mbox \<Rightarrow> string \<Rightarrow> bool" where
  "isDeferred b mid = (case dh_deferred (mb_handler b) of None \<Rightarrow> False | Some ds \<Rightarrow> mid \<in> set ds)"

text \<open>What is proposed for one message of the outbox.\<close>

definition selectOutbound :: "env \<Rightarrow> Address list \<Rightarrow> mbox \<Rightarrow> Message \<Rightarrow> Message list" where
  "selectOutbound env fws b m =
     (if isDeferred b (MID m) then []
      else if fws \<noteq> [] then if list_ex (\<lambda>fw. IsOnlyReceiver env fw m) fws then [m] else []
      else if Header_Get (m_header m) ''X-P2POnly'' = ''true'' then []
      else [in_header (Header_Del ''X-Unread'') (in_header (Header_Del ''X-FilePath'') (in_header (Header_Del ''X-P2POnly'') m))])"

definition DirHandler_GetOutbound :: "env \<Rightarrow> Address list \<Rightarrow> mbox \<Rightarrow> Message list option" where
  "DirHandler_GetOutbound env fws b = do {
     r \<leftarrow> LoadMessageDir env (Join [MBoxPath (mb_handler b), DIR_OUTBOX]) (mb_fs b);
     Some (concat (map (selectOutbound env fws b) (case r of Inl e \<Rightarrow> [] | Inr all \<Rightarrow> all)))
   }"

definition dirHandler :: "env \<Rightarrow> mbox MBoxHandler" where
  "dirHandler env =
     \<lparr>Prepare = DirHandler_Prepare, GetOutbound = DirHandler_GetOutbound env, SetSent = DirHandler_SetSent,
      SetDeferred = DirHandler_SetDeferred, ProcessInbound = (\<lambda>m. DirHandler_ProcessInbound env [m]),
      GetInboundAnswer = DirHandler_GetInboundAnswer\<rparr>"

section \<open>Paths of users\<close>

text \<open>The home directory, or the error of \<^verbatim>\<open>user.Current\<close>, is an argument.\<close>

definition DefaultAppDir :: "string + string \<Rightarrow> go_err + string" where
  "DefaultAppDir home =
     (case home of
        Inl e \<Rightarrow> Inl (Msg (''Unable to determine home directory: '' @ e))
      | Inr dir \<Rightarrow> Inr (Join [dir, ''.wl2k'']))"

definition DefaultMailboxPath :: "env \<Rightarrow> string + string \<Rightarrow> go_err + string" where
  "DefaultMailboxPath env home =
     (case DefaultAppDir home of
        Inl e \<Rightarrow> Inl (Msg (''Unable to determine application directory: '' @ errString env e))
      | Inr dir \<Rightarrow> Inr (Join [dir, ''mailbox'']))"

definition UserPath :: "string \<Rightarrow> string \<Rightarrow> string" where
  "UserPath root callsign = Join [root, callsign]"

section \<open>The contract\<close>

abbreviation boxDir :: "mbox \<Rightarrow> string \<Rightarrow> loc" where
  "boxDir b d \<equiv> (fst (boxLoc (MBoxPath (mb_handler b))), snd (boxLoc (MBoxPath (mb_handler b))) @ [d])"

abbreviation boxFile :: "mbox \<Rightarrow> string \<Rightarrow> string \<Rightarrow> loc" where
  "boxFile b d n \<equiv> (fst (boxLoc (MBoxPath (mb_handler b))), snd (boxLoc (MBoxPath (mb_handler b))) @ [d, n])"

definition good_mid :: "string \<Rightarrow> bool" where
  "good_mid mid \<longleftrightarrow> CHR ''/'' \<notin> set mid"

lemma good_mid_plain: "good_mid mid \<Longrightarrow> plain_name (mid @ Ext)"
  by (auto simp: good_mid_def plain_name_def Ext_def append_eq_Cons_conv)

lemma box_names: "plain_name ''in''" "plain_name ''out''" "plain_name ''sent''" "plain_name ''archive''"
  by (simp_all add: plain_name_def)

lemma locate_box_file:
  assumes "plain_name n"
  shows "locate (Join [MBoxPath (mb_handler b), DIR_INBOX, n]) = boxFile b ''in'' n"
    "locate (Join [MBoxPath (mb_handler b), DIR_OUTBOX, n]) = boxFile b ''out'' n"
    "locate (Join [MBoxPath (mb_handler b), DIR_SENT, n]) = boxFile b ''sent'' n"
  using assms box_names by (simp_all add: locate_Join_plain dir_names)

lemma locate_box_dir:
  "locate (Join [MBoxPath (mb_handler b), DIR_INBOX]) = boxDir b ''in''"
  "locate (Join [MBoxPath (mb_handler b), DIR_OUTBOX]) = boxDir b ''out''"
  using box_names by (simp_all add: locate_Join_dir dir_names)

text \<open>The inbox file of a received message is the one that is looked for when it is proposed again.\<close>

lemma locate_inbox_twice:
  fixes b :: mbox
  assumes "n \<noteq> []"
  shows "locate (Join [Join [MBoxPath (mb_handler b), DIR_INBOX], n]) = locate (Join [MBoxPath (mb_handler b), DIR_INBOX, n])"
proof -
  let ?d = "Join [MBoxPath (mb_handler b), DIR_INBOX]"
  have d: "?d \<noteq> []" by (rule Join_nonempty) (simp add: DIR_INBOX_def)
  have "locate (Join [?d, n]) = locate (?d @ CHR ''/'' # n)" using d assms by (simp add: locate_Join)
  also have "\<dots> = (fst (locate ?d), resolve (fst (locate ?d)) (rev (snd (locate ?d))) (Split (CHR ''/'') n))"
    by (rule locate_append [OF d])
  finally show ?thesis
    using locate_Join_file [OF box_names(1) _ assms, of DIR_INBOX "MBoxPath (mb_handler b)"]
      locate_box_dir(1) [of b] by (simp add: DIR_INBOX_def)
qed

lemma private_keys: "canonicalKey ''X-FilePath'' = ''X-Filepath''" "canonicalKey ''X-Unread'' = ''X-Unread''" "canonicalKey ''X-P2POnly'' = ''X-P2ponly''"
  by code_simp+

lemma Mid_private:
  "Header_Get (Header_Set ''X-FilePath'' v h) HEADER_MID = Header_Get h HEADER_MID"
  "Header_Get (Header_Set ''X-Unread'' v h) HEADER_MID = Header_Get h HEADER_MID"
  "Header_Get (Header_Del ''X-FilePath'' h) HEADER_MID = Header_Get h HEADER_MID"
  "Header_Get (Header_Del ''X-Unread'' h) HEADER_MID = Header_Get h HEADER_MID"
  "Header_Get (Header_Del ''X-P2POnly'' h) HEADER_MID = Header_Get h HEADER_MID"
  by (simp_all add: private_keys Header_Set_def Header_Del_def Header_Get_def)
    (simp_all add: get_def h_values_def HEADER_MID_def update_conv' delete_conv')

lemma MID_private [simp]:
  "MID (m\<lparr>m_header := Header_Set ''X-FilePath'' v h\<rparr>) = MID (m\<lparr>m_header := h\<rparr>)"
  "MID (m\<lparr>m_header := Header_Set ''X-Unread'' v h\<rparr>) = MID (m\<lparr>m_header := h\<rparr>)"
  "MID (m\<lparr>m_header := Header_Del ''X-FilePath'' h\<rparr>) = MID (m\<lparr>m_header := h\<rparr>)"
  "MID (m\<lparr>m_header := Header_Del ''X-Unread'' h\<rparr>) = MID (m\<lparr>m_header := h\<rparr>)"
  "MID (m\<lparr>m_header := Header_Del ''X-P2POnly'' h\<rparr>) = MID (m\<lparr>m_header := h\<rparr>)"
  by (simp_all add: MID_def Mid_private)

text \<open>Every message in the outbox is named after its id.\<close>

definition outbox_ok :: "env \<Rightarrow> mbox \<Rightarrow> bool" where
  "outbox_ok env b \<longleftrightarrow>
     (\<forall>n node. (boxFile b ''out'' n, node) \<in> set (fs_nodes (mb_fs b)) \<longrightarrow> plain_name n \<and>
        (\<forall>data m. node = Reg data \<longrightarrow> ReadFrom env data = Some (None, m) \<longrightarrow> n = MID m @ Ext))"

definition outbox_offers :: "mbox \<Rightarrow> string set" where
  "outbox_offers b =
     {mid. good_mid mid \<and> \<not> isDeferred b mid \<and> (\<exists>data. (boxFile b ''out'' (mid @ Ext), Reg data) \<in> set (fs_nodes (mb_fs b)))}"

lemma loadFiles_ConsE:
  assumes "loadFiles env d ((name, n) # files) fs = Some (Inr msgs)"
  obtains "loadFiles env d files fs = Some (Inr msgs)"
    | x xs data where "n = Reg data" "OpenMessage env (Join [d, name]) fs = Some (Inr x)" "loadFiles env d files fs = Some (Inr xs)" "msgs = x # xs"
proof (cases "n = Dir \<or> name = [] \<or> hd name = CHR ''.'' \<or> \<not> EqualFold (fileExt name) Ext")
  case True
  then show ?thesis using assms that(1) by (auto simp: idx_def hd_conv_nth split: if_splits)
next
  case False
  then obtain data where n: "n = Reg data" by (cases n) auto
  obtain r where r: "OpenMessage env (Join [d, name]) fs = Some r"
    using assms False n by (auto simp: idx_def hd_conv_nth bind_eq_Some_conv)
  then obtain x rs where x: "r = Inr x" "loadFiles env d files fs = Some rs"
    using assms False n by (cases r) (auto simp: idx_def hd_conv_nth bind_eq_Some_conv)
  then obtain xs where "rs = Inr xs" "msgs = x # xs"
    using assms False n r by (cases rs) (auto simp: idx_def hd_conv_nth)
  then show ?thesis using that(2) n r x by simp
qed

lemma loadFiles_members:
  "loadFiles env d files fs = Some (Inr msgs) \<Longrightarrow> m \<in> set msgs \<Longrightarrow>
   \<exists>name data. (name, Reg data) \<in> set files \<and> OpenMessage env (Join [d, name]) fs = Some (Inr m)"
proof (induction files arbitrary: msgs)
  case (Cons f files)
  obtain name n where f: "f = (name, n)" by fastforce
  from Cons.prems(1) [unfolded f] show ?case
  proof (cases rule: loadFiles_ConsE)
    case 1
    then show ?thesis using Cons.IH [OF 1 Cons.prems(2)] by auto
  next
    case 2
    then show ?thesis using Cons.IH [OF 2(3)] Cons.prems(2) f by auto
  qed
qed simp

lemma OpenMessage_file:
  assumes "OpenMessage env p fs = Some (Inr m)"
  obtains data m0 where "fs_lookup fs (locate p) = Some (Reg data)" "ReadFrom env data = Some (None, m0)"
    "m = in_header (Header_Set ''X-FilePath'' p) m0"
  using assms
  by (auto simp: OpenMessage_def os_Open_def Let_def bind_eq_Some_conv split: if_splits sum.splits option.splits node.splits)

lemma selectOutbound_MID: "x \<in> set (selectOutbound env fws b m) \<Longrightarrow> MID x = MID m \<and> \<not> isDeferred b (MID m)"
  by (auto simp: selectOutbound_def split: if_splits)

lemma outbox_file:
  assumes "outbox_ok env b" "(name, n) \<in> set (fs_entries (mb_fs b) (boxDir b ''out''))"
    and "OpenMessage env (Join [Join [MBoxPath (mb_handler b), DIR_OUTBOX], name]) (mb_fs b) = Some (Inr m)"
  shows "name = MID m @ Ext \<and> good_mid (MID m) \<and> (\<exists>data. (boxFile b ''out'' name, Reg data) \<in> set (fs_nodes (mb_fs b)))"
proof -
  let ?d = "Join [MBoxPath (mb_handler b), DIR_OUTBOX]"
  obtain l where l: "(l, n) \<in> set (fs_nodes (mb_fs b))" "snd l \<noteq> []" "parent l = boxDir b ''out''" "name = last (snd l)"
    using assms(2) by (auto simp: fs_entries_def)
  have "l = boxFile b ''out'' name"
    using l(2,3,4) append_butlast_last_id [OF l(2)] by (cases l) (auto simp: parent_def)
  then have plain: "plain_name name" using assms(1) l(1) by (auto simp: outbox_ok_def)
  have dne: "?d \<noteq> []" by (rule Join_nonempty) (simp add: DIR_OUTBOX_def)
  have loc: "locate (Join [?d, name]) = boxFile b ''out'' name"
    using locate_Join2 [OF dne plain] unfolding locate_box_dir by simp
  obtain data' m0 where m0: "fs_lookup (mb_fs b) (boxFile b ''out'' name) = Some (Reg data')" "ReadFrom env data' = Some (None, m0)"
      "m = in_header (Header_Set ''X-FilePath'' (Join [?d, name])) m0"
    using OpenMessage_file [OF assms(3)] unfolding loc by metis
  have in1: "(boxFile b ''out'' name, Reg data') \<in> set (fs_nodes (mb_fs b))"
    using m0(1) by (auto simp: fs_lookup_def intro: map_of_SomeD)
  then have "name = MID m @ Ext" using assms(1) m0(2,3) by (auto simp: outbox_ok_def)
  then show ?thesis using in1 plain by (auto simp: good_mid_def plain_name_def)
qed

lemma outbox_read:
  assumes "LoadMessageDir env (Join [MBoxPath (mb_handler b), DIR_OUTBOX]) (mb_fs b) = Some (Inr msgs)"
  shows "loadFiles env (Join [MBoxPath (mb_handler b), DIR_OUTBOX]) (fs_entries (mb_fs b) (boxDir b ''out'')) (mb_fs b) = Some (Inr msgs)"
proof -
  let ?d = "Join [MBoxPath (mb_handler b), DIR_OUTBOX]"
  obtain files where "os_ReadDir ?d (mb_fs b) = Inr files" "loadFiles env ?d files (mb_fs b) = Some (Inr msgs)"
    using assms by (auto simp: LoadMessageDir_def split: sum.splits)
  moreover from this(1) have "files = fs_entries (mb_fs b) (boxDir b ''out'')"
    using locate_box_dir(2) [of b] by (auto simp: os_ReadDir_def split: sum.splits node.splits)
  ultimately show ?thesis by simp
qed

lemma outbox_loaded:
  assumes "outbox_ok env b" "LoadMessageDir env (Join [MBoxPath (mb_handler b), DIR_OUTBOX]) (mb_fs b) = Some (Inr msgs)" "m \<in> set msgs"
  shows "good_mid (MID m) \<and> (\<exists>data. (boxFile b ''out'' (MID m @ Ext), Reg data) \<in> set (fs_nodes (mb_fs b)))"
  using loadFiles_members [OF outbox_read [OF assms(2)] assms(3)] outbox_file [OF assms(1)] by blast

lemma boxFile_eq [simp]: "boxFile b d n = boxFile b d' n' \<longleftrightarrow> d = d' \<and> n = n'"
  by simp

text \<open>An outbox that has not got new files keeps what is asked of it.\<close>

lemma outbox_ok_mono:
  assumes "outbox_ok env b" "MBoxPath (mb_handler b') = MBoxPath (mb_handler b)"
    and "\<And>n node. (boxFile b ''out'' n, node) \<in> set (fs_nodes (mb_fs b')) \<Longrightarrow> (boxFile b ''out'' n, node) \<in> set (fs_nodes (mb_fs b))"
  shows "outbox_ok env b'"
  using assms unfolding outbox_ok_def by metis

lemma set_AList_update: "(k, v) \<in> set (AList.update l n al) \<Longrightarrow> (k, v) = (l, n) \<or> (k, v) \<in> set al"
  by (induction al) (auto split: if_splits)

lemma set_AList_update_other: "k \<noteq> l \<Longrightarrow> (k, v) \<in> set (AList.update l n al) \<longleftrightarrow> (k, v) \<in> set al"
  by (induction al) auto

lemma SetSent_nodes:
  assumes "good_mid mid" "DirHandler_SetSent mid rej b = Some b'"
  shows "mb_handler b' = mb_handler b"
    and "(boxFile b ''out'' n, node) \<in> set (fs_nodes (mb_fs b')) \<longleftrightarrow> n \<noteq> mid @ Ext \<and> (boxFile b ''out'' n, node) \<in> set (fs_nodes (mb_fs b))"
proof -
  let ?l = "boxFile b ''out'' (mid @ Ext)" and ?l' = "boxFile b ''sent'' (mid @ Ext)"
  let ?old = "Join [MBoxPath (mb_handler b), DIR_OUTBOX, mid @ Ext]" and ?new = "Join [MBoxPath (mb_handler b), DIR_SENT, mid @ Ext]"
  note loc = locate_box_file [OF good_mid_plain [OF assms(1)], of b]
  obtain fs where r: "os_Rename ?old ?new (mb_fs b) = (None, fs)" and b': "b' = b\<lparr>mb_fs := fs\<rparr>"
    using assms(2) by (auto simp: DirHandler_SetSent_def Let_def split: prod.splits option.splits)
  show "mb_handler b' = mb_handler b" using b' by simp
  have k: "fs_nodes fs = fs_move ?l ?l' (fs_nodes (mb_fs b)) \<or> (\<exists>d. fs_nodes fs = AList.update ?l' d (AList.delete ?l (fs_nodes (mb_fs b))))"
    using r unfolding os_Rename_def Let_def loc by (auto split: if_splits option.splits prod.splits)
  have mv: "(boxFile b ''out'' n, node) \<in> set (fs_move ?l ?l' ns) \<longleftrightarrow> n \<noteq> mid @ Ext \<and> (boxFile b ''out'' n, node) \<in> set ns" for ns
  proof (induction ns)
    case (Cons a ns)
    then show ?case by (cases a) (auto simp: fs_move_def below_def)
  qed (simp add: fs_move_def)
  have ud: "(boxFile b ''out'' n, node) \<in> set (AList.update ?l' d (AList.delete ?l ns)) \<longleftrightarrow> n \<noteq> mid @ Ext \<and> (boxFile b ''out'' n, node) \<in> set ns" for d ns
    by (subst set_AList_update_other) (auto simp: AList.delete_eq)
  show "(boxFile b ''out'' n, node) \<in> set (fs_nodes (mb_fs b')) \<longleftrightarrow> n \<noteq> mid @ Ext \<and> (boxFile b ''out'' n, node) \<in> set (fs_nodes (mb_fs b))"
    using k mv ud b' by auto
qed

lemma isDeferred_handler: "mb_handler b' = mb_handler b \<Longrightarrow> isDeferred b' = isDeferred b"
  by (simp add: isDeferred_def fun_eq_iff)

lemma SetSent_settles:
  assumes "outbox_ok env b" "good_mid mid" "DirHandler_SetSent mid rej b = Some b'"
  shows "outbox_ok env b' \<and> outbox_offers b' = outbox_offers b - {mid}"
proof -
  note n = SetSent_nodes [OF assms(2,3)]
  have "outbox_ok env b'" by (rule outbox_ok_mono [OF assms(1)]) (use n in auto)
  moreover have "outbox_offers b' = outbox_offers b - {mid}"
    unfolding outbox_offers_def isDeferred_handler [OF n(1)] using n by auto
  ultimately show ?thesis ..
qed

lemma SetDeferred_settles:
  assumes "outbox_ok env b" "DirHandler_SetDeferred mid b = Some b'"
  shows "outbox_ok env b' \<and> outbox_offers b' = outbox_offers b - {mid}"
proof -
  obtain ds where ds: "dh_deferred (mb_handler b) = Some ds" "b' = b\<lparr>mb_handler := (mb_handler b)\<lparr>dh_deferred := Some (List.insert mid ds)\<rparr>\<rparr>"
    using assms(2) by (auto simp: DirHandler_SetDeferred_def split: option.splits)
  have "outbox_ok env b'" using assms(1) by (simp add: ds(2) outbox_ok_def)
  moreover have "isDeferred b' x \<longleftrightarrow> x = mid \<or> isDeferred b x" for x using ds by (simp add: isDeferred_def)
  ultimately show ?thesis by (auto simp: outbox_offers_def ds(2))
qed

lemma WriteFile_result:
  assumes "os_WriteFile p data fs = (e, fs')"
  shows "e \<noteq> None \<and> fs' = fs \<or> e = None \<and> fs' = fs_set (locate p) (Reg data) fs \<and> p \<noteq> [] \<and> fs_fault fs (locate p) = None \<and>
     \<not> fs_blocked fs (locate p) \<and> \<not> fs_isDir fs (locate p) \<and> fs_isDir fs (parent (locate p))"
  using assms by (auto simp: os_WriteFile_def Let_def split: if_splits option.splits)

lemma ProcessInbound_result:
  assumes "DirHandler_ProcessInbound env [x] b = (e, b')"
  shows "b' = b \<and> e \<noteq> None \<or> e = None \<and> (\<exists>data. Bytes env (in_header (Header_Set ''X-Unread'' ''true'') x) = Inr data \<and>
    os_WriteFile (Join [Join [MBoxPath (mb_handler b), DIR_INBOX], MID x @ Ext]) data (mb_fs b) = (None, mb_fs b') \<and>
    b' = b\<lparr>mb_fs := fs_set (locate (Join [MBoxPath (mb_handler b), DIR_INBOX, MID x @ Ext])) (Reg data) (mb_fs b)\<rparr>)"
proof (cases "Bytes env (in_header (Header_Set ''X-Unread'' ''true'') x)")
  case (Inr data)
  have "MID x @ Ext \<noteq> []" by (simp add: Ext_def)
  note loc = locate_inbox_twice [OF this, of b]
  obtain e1 fs1 where w: "os_WriteFile (Join [Join [MBoxPath (mb_handler b), DIR_INBOX], MID x @ Ext]) data (mb_fs b) = (e1, fs1)" by fastforce
  show ?thesis using assms Inr w WriteFile_result [OF w] unfolding loc by (auto simp: Let_def split: option.splits)
qed (use assms in \<open>auto simp: Let_def\<close>)

lemma ProcessInbound_settles:
  assumes "outbox_ok env b" "good_mid (MID x)" "DirHandler_ProcessInbound env [x] b = (e, b')"
  shows "outbox_ok env b' \<and> outbox_offers b' = outbox_offers b"
proof -
  note loc = locate_box_file(1) [OF good_mid_plain [OF assms(2)], of b]
  have n: "(boxFile b ''out'' n, node) \<in> set (fs_nodes (mb_fs b')) \<longleftrightarrow> (boxFile b ''out'' n, node) \<in> set (fs_nodes (mb_fs b))" for n node
    using ProcessInbound_result [OF assms(3)] unfolding loc by (auto simp: fs_set_def set_AList_update_other)
  have h: "mb_handler b' = mb_handler b" using ProcessInbound_result [OF assms(3)] by auto
  have "outbox_ok env b'" by (rule outbox_ok_mono [OF assms(1)]) (use n h in auto)
  moreover have "outbox_offers b' = outbox_offers b"
    unfolding outbox_offers_def isDeferred_handler [OF h] using n h by auto
  ultimately show ?thesis ..
qed

lemma fs_lookup_set: "snd l \<noteq> [] \<Longrightarrow> fs_lookup (fs_set l n fs) k = (if k = l then Some n else fs_lookup fs k)"
  by (auto simp: fs_lookup_def fs_set_def update_conv')

lemma fs_fault_set [simp]: "fs_fault (fs_set l n fs) = fs_fault fs"
  by (simp add: fs_set_def)

lemma fs_blocked_set:
  assumes "\<And>i. i < length (snd k) \<Longrightarrow> (fst k, take i (snd k)) \<noteq> l" "snd l \<noteq> []"
  shows "fs_blocked (fs_set l n fs) k = fs_blocked fs k"
  using assms by (auto simp: fs_blocked_def list_ex_iff fs_lookup_set)

text \<open>A file that can be written can be opened afterwards.\<close>

lemma WriteFile_Open:
  assumes "os_WriteFile p data fs = (None, fs')" "locate q = locate p" "q \<noteq> []"
  shows "os_Open q fs' = Inr (Reg data)"
proof -
  let ?l = "locate p"
  have w: "fs' = fs_set ?l (Reg data) fs" "fs_fault fs ?l = None" "\<not> fs_blocked fs ?l" "\<not> fs_isDir fs ?l"
    using WriteFile_result [OF assms(1)] by auto
  have ne: "snd ?l \<noteq> []" using w(4) by (auto simp: fs_lookup_def)
  have "\<not> fs_blocked fs' ?l" using w(3) ne unfolding w(1) by (subst fs_blocked_set) (auto dest: arg_cong [where f = "\<lambda>l. length (snd l)"])
  then show ?thesis using assms(2,3) w(1,2) ne by (simp add: os_Open_def Let_def fs_lookup_set)
qed

lemma prop_answers_neq: "Reject \<noteq> Accept" "Defer \<noteq> Accept"
  by (simp_all add: prop_answers)

lemma inbox_path_nonempty: "Join [MBoxPath (mb_handler b), DIR_INBOX, n] \<noteq> []"
  by (rule Join_nonempty) (simp add: DIR_INBOX_def)

lemma received_rejected:
  assumes "DirHandler_ProcessInbound env [x] b = (None, b')" "p_mid p = MID x"
  shows "DirHandler_GetInboundAnswer p b' \<noteq> Accept"
proof -
  obtain data where w: "os_WriteFile (Join [Join [MBoxPath (mb_handler b), DIR_INBOX], MID x @ Ext]) data (mb_fs b) = (None, mb_fs b')"
      "mb_handler b' = mb_handler b"
    using ProcessInbound_result [OF assms(1)] by auto
  have "locate (Join [MBoxPath (mb_handler b), DIR_INBOX, MID x @ Ext]) = locate (Join [Join [MBoxPath (mb_handler b), DIR_INBOX], MID x @ Ext])"
    using locate_inbox_twice [of "MID x @ Ext" b] by (simp add: Ext_def)
  from WriteFile_Open [OF w(1) this inbox_path_nonempty] show ?thesis
    using assms(2) w(2) prop_answers_neq by (simp add: DirHandler_GetInboundAnswer_def)
qed

lemma rejected_stays:
  assumes "good_mid (MID x)" "good_mid (p_mid p)" "DirHandler_GetInboundAnswer p b \<noteq> Accept" "DirHandler_ProcessInbound env [x] b = (e, b')"
  shows "DirHandler_GetInboundAnswer p b' \<noteq> Accept"
proof (cases "b' = b")
  case False
  let ?l = "boxFile b ''in'' (MID x @ Ext)" and ?k = "boxFile b ''in'' (p_mid p @ Ext)"
  note loc = locate_box_file(1) [OF good_mid_plain [OF assms(1)], of b] and kloc = locate_box_file(1) [OF good_mid_plain [OF assms(2)], of b]
  obtain data where b': "b' = b\<lparr>mb_fs := fs_set ?l (Reg data) (mb_fs b)\<rparr>"
    using ProcessInbound_result [OF assms(4)] False unfolding loc by auto
  have bl: "fs_blocked (fs_set ?l (Reg data) (mb_fs b)) ?k = fs_blocked (mb_fs b) ?k"
    by (rule fs_blocked_set) (auto dest: arg_cong [where f = length])
  show ?thesis
    using assms(3) prop_answers_neq
    by (auto simp: DirHandler_GetInboundAnswer_def os_Open_def Let_def kloc b' bl fs_lookup_set split: if_splits option.splits)
qed (use assms(3) in simp)

lemma GetOutbound_offers:
  assumes "outbox_ok env b" "DirHandler_GetOutbound env fw b = Some msgs"
  shows "MID ` set msgs \<subseteq> outbox_offers b"
proof
  fix mid assume "mid \<in> MID ` set msgs"
  then obtain x where x: "x \<in> set msgs" "mid = MID x" by auto
  obtain all where all: "LoadMessageDir env (Join [MBoxPath (mb_handler b), DIR_OUTBOX]) (mb_fs b) = Some (Inr all)"
      "msgs = concat (map (selectOutbound env fw b) all)"
  proof -
    obtain r where r: "LoadMessageDir env (Join [MBoxPath (mb_handler b), DIR_OUTBOX]) (mb_fs b) = Some r"
      using assms(2) by (auto simp: DirHandler_GetOutbound_def bind_eq_Some_conv)
    then show ?thesis using assms(2) x(1) that by (cases r) (auto simp: DirHandler_GetOutbound_def)
  qed
  obtain m where m: "m \<in> set all" "x \<in> set (selectOutbound env fw b m)" using x(1) all(2) by auto
  show "mid \<in> outbox_offers b"
    using outbox_loaded [OF assms(1) all(1) m(1)] selectOutbound_MID [OF m(2)] x(2) by (auto simp: outbox_offers_def)
qed

interpretation dir: mailbox_contract "dirHandler env" "outbox_ok env" good_mid outbox_offers for env
proof (unfold_locales, goal_cases)
  case (1 m fw msgs)
  then show ?case using GetOutbound_offers by (simp add: dirHandler_def)
next
  case (2 m mid)
  then show ?case by (simp add: outbox_offers_def)
next
  case (3 m mid rej m')
  then show ?case using SetSent_settles by (simp add: dirHandler_def)
next
  case (4 m mid m')
  then show ?case using SetDeferred_settles by (simp add: dirHandler_def)
next
  case (5 m x e m')
  then show ?case using ProcessInbound_settles by (simp add: dirHandler_def del: DirHandler_ProcessInbound.simps)
next
  case (6 m x m' p)
  then show ?case using received_rejected by (simp add: dirHandler_def del: DirHandler_ProcessInbound.simps)
next
  case (7 m x p e m')
  then show ?case using rejected_stays by (simp add: dirHandler_def del: DirHandler_ProcessInbound.simps)
qed

end
