(* ===== verification/Mailbox_Laws.thy ===== *)
theory Mailbox_Laws
  imports Mailbox "HOL-Library.Sublist"
begin

text \<open>
  What the directory mailbox of \<^verbatim>\<open>src/mailbox/syncdir.go\<close> does for a session: a mailbox that works can send and
  receive, what is received can be read from the inbox, and what is put into the outbox is offered.
\<close>

section \<open>A mailbox that works\<close>

text \<open>The directories are there, nothing on disk is broken, no directory is named like a message, and no file in the
  outbox makes \<open>ReadFrom\<close> panic.\<close>

definition box_ready :: "env \<Rightarrow> mbox \<Rightarrow> bool" where
  "box_ready env b \<longleftrightarrow> outbox_ok env b \<and> dh_deferred (mb_handler b) \<noteq> None \<and> distinct (map fst (fs_nodes (mb_fs b))) \<and>
     (\<forall>l. fs_fault (mb_fs b) l = None) \<and>
     (\<forall>d \<in> {''in'', ''out'', ''sent''}. fs_isDir (mb_fs b) (boxDir b d) \<and> \<not> fs_blocked (mb_fs b) (boxDir b d)) \<and>
     (\<forall>d n. d \<in> {''in'', ''out'', ''sent''} \<longrightarrow> \<not> fs_isDir (mb_fs b) (boxFile b d n)) \<and>
     (\<forall>n data. (boxFile b ''out'' n, Reg data) \<in> set (fs_nodes (mb_fs b)) \<longrightarrow> ReadFrom env data \<noteq> None)"

lemma fs_blocked_iff:
  "fs_blocked fs l \<longleftrightarrow> (\<exists>i data. i < length (snd l) \<and> fs_lookup fs (fst l, take i (snd l)) = Some (Reg data))"
proof -
  have "(case fs_lookup fs (fst l, take i (snd l)) of Some (Reg _) \<Rightarrow> True | _ \<Rightarrow> False) \<longleftrightarrow>
      (\<exists>data. fs_lookup fs (fst l, take i (snd l)) = Some (Reg data))" for i
    by (auto split: option.splits node.splits)
  then show ?thesis by (auto simp: fs_blocked_def list_ex_iff)
qed

lemma blocked_file:
  fixes b :: mbox
  assumes "fs_isDir fs (boxDir b d)" "\<not> fs_blocked fs (boxDir b d)"
  shows "\<not> fs_blocked fs (boxFile b d n)"
proof
  let ?p = "snd (boxLoc (MBoxPath (mb_handler b)))"
  assume "fs_blocked fs (boxFile b d n)"
  then obtain i data where i: "i < length ?p + 2" "fs_lookup fs (fst (boxLoc (MBoxPath (mb_handler b))), take i (?p @ [d, n])) = Some (Reg data)"
    unfolding fs_blocked_iff by force
  show False
  proof (cases "i = length ?p + 1")
    case True
    then have "take i (?p @ [d, n]) = ?p @ [d]" by simp
    then show False using i(2) assms(1) by simp
  next
    case False
    then have "i < length (?p @ [d])" "take i (?p @ [d, n]) = take i (?p @ [d])" using i(1) by auto
    then have "fs_blocked fs (boxDir b d)" using i(2) unfolding fs_blocked_iff by (intro exI [of _ i] exI [of _ data]) simp
    then show False using assms(2) by simp
  qed
qed

lemma fs_blocked_cong:
  "(\<And>i. i < length (snd k) \<Longrightarrow> fs_lookup fs (fst k, take i (snd k)) = fs_lookup fs' (fst k, take i (snd k))) \<Longrightarrow> fs_blocked fs k = fs_blocked fs' k"
  unfolding fs_blocked_iff by metis

lemma box_ready_mono:
  assumes "box_ready env b" "mb_handler b' = mb_handler b" "fs_fault (mb_fs b') = fs_fault (mb_fs b)" "distinct (map fst (fs_nodes (mb_fs b')))"
    and "\<And>k. length (snd k) < length (snd (boxLoc (MBoxPath (mb_handler b)))) + 2 \<Longrightarrow> fs_lookup (mb_fs b') k = fs_lookup (mb_fs b) k"
    and "\<And>d n. fs_isDir (mb_fs b') (boxFile b d n) \<Longrightarrow> fs_isDir (mb_fs b) (boxFile b d n)"
    and "\<And>n node. (boxFile b ''out'' n, node) \<in> set (fs_nodes (mb_fs b')) \<Longrightarrow> (boxFile b ''out'' n, node) \<in> set (fs_nodes (mb_fs b))"
  shows "box_ready env b'"
proof -
  have "fs_blocked (mb_fs b') (boxDir b d) = fs_blocked (mb_fs b) (boxDir b d)" for d
    by (rule fs_blocked_cong) (simp add: assms(5))
  moreover have "fs_isDir (mb_fs b') (boxDir b d) = fs_isDir (mb_fs b) (boxDir b d)" for d by (simp add: assms(5))
  moreover have "outbox_ok env b'"
  proof (rule outbox_ok_mono)
    show "outbox_ok env b" using assms(1) by (simp add: box_ready_def)
    show "MBoxPath (mb_handler b') = MBoxPath (mb_handler b)" using assms(2) by simp
  qed (rule assms(7))
  moreover have "\<forall>d n. d \<in> {''in'', ''out'', ''sent''} \<longrightarrow> \<not> fs_isDir (mb_fs b') (boxFile b d n)"
    using assms(1,6) unfolding box_ready_def by meson
  moreover have "\<forall>n data. (boxFile b ''out'' n, Reg data) \<in> set (fs_nodes (mb_fs b')) \<longrightarrow> ReadFrom env data \<noteq> None"
    using assms(1,7) unfolding box_ready_def by meson
  ultimately show ?thesis using assms(1) by (simp add: box_ready_def assms(2-4))
qed

lemma fs_lookup_nodes: "snd l \<noteq> [] \<Longrightarrow> distinct (map fst (fs_nodes fs)) \<Longrightarrow> fs_lookup fs l = Some n \<longleftrightarrow> (l, n) \<in> set (fs_nodes fs)"
  by (auto simp: fs_lookup_def dest: map_of_SomeD intro: map_of_is_SomeI)

lemma SetSent_works:
  assumes "box_ready env b" "mid \<in> outbox_offers b"
  shows "\<exists>b'. DirHandler_SetSent mid r b = Some b' \<and> box_ready env b' \<and>
    (\<forall>data. fs_lookup (mb_fs b) (boxFile b ''out'' (mid @ Ext)) = Some (Reg data) \<longrightarrow> fs_lookup (mb_fs b') (boxFile b ''sent'' (mid @ Ext)) = Some (Reg data))"
proof -
  let ?l = "boxFile b ''out'' (mid @ Ext)" and ?l' = "boxFile b ''sent'' (mid @ Ext)"
  let ?old = "Join [MBoxPath (mb_handler b), DIR_OUTBOX, mid @ Ext]" and ?new = "Join [MBoxPath (mb_handler b), DIR_SENT, mid @ Ext]"
  obtain data where g: "good_mid mid" and data: "(?l, Reg data) \<in> set (fs_nodes (mb_fs b))" using assms(2) by (auto simp: outbox_offers_def)
  note loc = locate_box_file [OF good_mid_plain [OF g], of b]
  have r: "distinct (map fst (fs_nodes (mb_fs b)))" "\<forall>l. fs_fault (mb_fs b) l = None" "fs_isDir (mb_fs b) (boxDir b ''sent'')"
      "\<not> fs_blocked (mb_fs b) ?l" "\<not> fs_blocked (mb_fs b) ?l'" "\<not> fs_isDir (mb_fs b) ?l'"
    using assms(1) unfolding box_ready_def by (auto intro: blocked_file [THEN notE])
  have look: "fs_lookup (mb_fs b) ?l = Some (Reg data)" using data r(1) by (subst fs_lookup_nodes) auto
  have par: "parent ?l' = boxDir b ''sent''" by (simp add: parent_def butlast_append)
  have ne: "?old \<noteq> []" "?new \<noteq> []" by (rule Join_nonempty, simp add: dir_names)+
  let ?fs = "(mb_fs b)\<lparr>fs_nodes := AList.update ?l' (Reg data) (AList.delete ?l (fs_nodes (mb_fs b)))\<rparr>"
  have "os_Rename ?old ?new (mb_fs b) = (None, ?fs)"
    using r look par ne by (simp add: os_Rename_def Let_def loc)
  then have s: "DirHandler_SetSent mid r b = Some (b\<lparr>mb_fs := ?fs\<rparr>)" by (simp add: DirHandler_SetSent_def Let_def)
  have lk: "fs_lookup ?fs k = (if k = ?l' then Some (Reg data) else if k = ?l then None else fs_lookup (mb_fs b) k)" for k
    by (auto simp: fs_lookup_def update_conv' delete_conv')
  have "box_ready env (b\<lparr>mb_fs := ?fs\<rparr>)"
  proof (rule box_ready_mono [OF assms(1)])
    show "distinct (map fst (fs_nodes (mb_fs (b\<lparr>mb_fs := ?fs\<rparr>))))" using r(1) by (simp add: distinct_update distinct_delete)
  next
    fix k :: loc assume "length (snd k) < length (snd (boxLoc (MBoxPath (mb_handler b)))) + 2"
    then show "fs_lookup (mb_fs (b\<lparr>mb_fs := ?fs\<rparr>)) k = fs_lookup (mb_fs b) k" by (auto simp: lk)
  next
    fix d n assume "fs_isDir (mb_fs (b\<lparr>mb_fs := ?fs\<rparr>)) (boxFile b d n)"
    then show "fs_isDir (mb_fs b) (boxFile b d n)" by (auto simp: lk split: if_splits)
  next
    fix n node assume "(boxFile b ''out'' n, node) \<in> set (fs_nodes (mb_fs (b\<lparr>mb_fs := ?fs\<rparr>)))"
    then show "(boxFile b ''out'' n, node) \<in> set (fs_nodes (mb_fs b))" by (auto simp: AList.delete_eq dest: set_AList_update)
  qed simp_all
  then show ?thesis using s lk look by auto
qed

lemma loadFiles_total:
  assumes "\<forall>(name, n) \<in> set files. name \<noteq> []"
    and "\<forall>(name, n) \<in> set files. OpenMessage env (Join [d, name]) fs \<noteq> None"
  shows "loadFiles env d files fs \<noteq> None"
  using assms
proof (induction files)
  case (Cons f files)
  obtain name n where f: "f = (name, n)" by (cases f)
  obtain r where r: "OpenMessage env (Join [d, name]) fs = Some r" using Cons.prems(2) f by auto
  obtain rs where rs: "loadFiles env d files fs = Some rs" using Cons by auto
  have "idx name 0 = Some (name ! 0)" using Cons.prems(1) f by (simp add: idx_def)
  then show ?case using f r rs by (auto split: sum.splits)
qed simp

lemma outbox_entries:
  assumes "box_ready env b" "(name, n) \<in> set (fs_entries (mb_fs b) (boxDir b ''out''))"
  shows "plain_name name \<and> (boxFile b ''out'' name, n) \<in> set (fs_nodes (mb_fs b))"
proof -
  obtain l where l: "(l, n) \<in> set (fs_nodes (mb_fs b))" "snd l \<noteq> []" "parent l = boxDir b ''out''" "name = last (snd l)"
    using assms(2) by (auto simp: fs_entries_def)
  have "l = boxFile b ''out'' name"
    using l(2,3,4) append_butlast_last_id [OF l(2)] by (cases l) (auto simp: parent_def)
  then show ?thesis using assms(1) l(1) by (auto simp: box_ready_def outbox_ok_def)
qed

lemma GetOutbound_works:
  assumes "box_ready env b"
  shows "DirHandler_GetOutbound env fw b \<noteq> None"
proof -
  let ?d = "Join [MBoxPath (mb_handler b), DIR_OUTBOX]"
  have dne: "?d \<noteq> []" by (rule Join_nonempty) (simp add: DIR_OUTBOX_def)
  have "OpenMessage env (Join [?d, name]) (mb_fs b) \<noteq> None" if "(name, n) \<in> set (fs_entries (mb_fs b) (boxDir b ''out''))" for name n
  proof -
    have loc: "locate (Join [?d, name]) = boxFile b ''out'' name"
      using locate_Join2 [OF dne] outbox_entries [OF assms that] unfolding locate_box_dir by simp
    have "ReadFrom env data \<noteq> None" if "fs_lookup (mb_fs b) (boxFile b ''out'' name) = Some (Reg data)" for data
      using that assms by (auto simp: box_ready_def fs_lookup_nodes)
    then show ?thesis by (auto simp: OpenMessage_def os_Open_def Let_def loc split: sum.splits option.splits node.splits if_splits)
  qed
  moreover have "name \<noteq> []" if "(name, n) \<in> set (fs_entries (mb_fs b) (boxDir b ''out''))" for name n
    using outbox_entries [OF assms that] by (auto simp: plain_name_def)
  ultimately have "loadFiles env ?d (fs_entries (mb_fs b) (boxDir b ''out'')) (mb_fs b) \<noteq> None"
    by (intro loadFiles_total) auto
  moreover have "os_ReadDir ?d (mb_fs b) = Inr (fs_entries (mb_fs b) (boxDir b ''out''))"
    using assms dne locate_box_dir(2) [of b] by (simp add: os_ReadDir_def os_Open_def Let_def box_ready_def)
  ultimately show ?thesis by (auto simp: DirHandler_GetOutbound_def LoadMessageDir_def)
qed

lemma SetDeferred_works:
  assumes "box_ready env b"
  shows "\<exists>b'. DirHandler_SetDeferred mid b = Some b' \<and> box_ready env b'"
proof -
  obtain ds where ds: "dh_deferred (mb_handler b) = Some ds" using assms by (auto simp: box_ready_def)
  have "box_ready env (b\<lparr>mb_handler := (mb_handler b)\<lparr>dh_deferred := Some (List.insert mid ds)\<rparr>\<rparr>)"
    using assms by (simp add: box_ready_def outbox_ok_def)
  then show ?thesis using ds by (simp add: DirHandler_SetDeferred_def)
qed

lemma dir_sender_ok: "sender_ok env (dirHandler env) s (box_ready env) outbox_offers"
proof -
  have 1: "\<exists>ps. outbound env (Some (dirHandler env)) s b = Some ps" if br: "box_ready env b" for b
  proof -
    obtain msgs where m: "DirHandler_GetOutbound env (s_remoteFW s) b = Some msgs" using GetOutbound_works [OF br] by blast
    obtain ps where "prepareProposals env (highestPropCode env s) msgs = Some ps" using prepareProposals_total by blast
    then show ?thesis using m by (simp add: outbound_def dirHandler_def)
  qed
  have 2: "\<exists>b'. DirHandler_SetDeferred mid b = Some b' \<and> box_ready env b' \<and> outbox_offers b - {mid} \<subseteq> outbox_offers b'"
    if "box_ready env b" for b mid
    using SetDeferred_works [OF that, of mid] SetDeferred_settles [of env b mid] that by (fastforce simp: box_ready_def)
  have 3: "\<exists>b'. DirHandler_SetSent mid r b = Some b' \<and> box_ready env b' \<and> outbox_offers b - {mid} \<subseteq> outbox_offers b'"
    if "box_ready env b" "mid \<in> outbox_offers b" for b mid r
    using SetSent_works [OF that, of r] SetSent_settles [of env b mid r] that by (fastforce simp: box_ready_def outbox_offers_def)
  show ?thesis using 1 2 3 unfolding sender_ok_def by (auto simp: dirHandler_def)
qed

text \<open>Storing a message that can be written.\<close>

definition storable :: "env \<Rightarrow> Message \<Rightarrow> bool" where
  "storable env x \<longleftrightarrow> good_mid (MID x) \<and> message_ok env x"

lemma unread_message_ok:
  assumes "message_ok env x"
  shows "message_ok env (in_header (Header_Set ''X-Unread'' ''true'') x)"
proof -
  let ?h = "Header_Set ''X-Unread'' ''true'' (m_header x)"
  have h: "h_values ?h k = (if k = ''X-Unread'' then [''true''] else h_values (m_header x) k)" for k
    by (simp add: Header_Set_def private_keys h_values_update)
  have n: "HEADER_BODY \<noteq> ''X-Unread''" "HEADER_DATE \<noteq> ''X-Unread''" "HEADER_FILE \<noteq> ''X-Unread''" "HEADER_MID \<noteq> ''X-Unread''"
    by (simp_all add: header_names)
  have c: "clean_key ''X-Unread''" "clean_value ''true''" by code_simp+
  have "\<not> EqualFold ''X-Unread'' ''Mid''" by (simp add: EqualFold_def runes_ascii ascii_def foldRune_def)
  then have "header_ok ?h"
    using assms c h n unfolding message_ok_def header_ok_def
    by (auto simp: Header_Set_def private_keys distinct_update HEADER_MID_def dest!: set_AList_update)
  then show ?thesis using assms n by (simp add: message_ok_def Header_Get_def get_def h)
qed

lemma ProcessInbound_works:
  assumes "box_ready env b" "storable env x"
  shows "\<exists>data b'. DirHandler_ProcessInbound env [x] b = (None, b') \<and> box_ready env b' \<and>
    Bytes env (in_header (Header_Set ''X-Unread'' ''true'') x) = Inr data \<and>
    b' = b\<lparr>mb_fs := fs_set (boxFile b ''in'' (MID x @ Ext)) (Reg data) (mb_fs b)\<rparr>"
proof -
  let ?l = "boxFile b ''in'' (MID x @ Ext)" and ?p = "Join [Join [MBoxPath (mb_handler b), DIR_INBOX], MID x @ Ext]"
  obtain data where data: "Bytes env (in_header (Header_Set ''X-Unread'' ''true'') x) = Inr data"
    using ReadFrom_Bytes [OF unread_message_ok] assms(2) unfolding storable_def by blast
  have g: "good_mid (MID x)" using assms(2) by (simp add: storable_def)
  have loc: "locate ?p = ?l"
    using locate_inbox_twice [of "MID x @ Ext" b] locate_box_file(1) [OF good_mid_plain [OF g], of b] by (simp add: Ext_def)
  have r: "\<forall>l. fs_fault (mb_fs b) l = None" "fs_isDir (mb_fs b) (boxDir b ''in'')" "\<not> fs_blocked (mb_fs b) ?l" "\<not> fs_isDir (mb_fs b) ?l"
    using assms(1) unfolding box_ready_def by (auto intro: blocked_file [THEN notE])
  have par: "parent ?l = boxDir b ''in''" by (simp add: parent_def butlast_append)
  have "?p \<noteq> []" by (rule Join_nonempty) (simp add: Ext_def)
  then have w: "os_WriteFile ?p data (mb_fs b) = (None, fs_set ?l (Reg data) (mb_fs b))"
    using r par by (simp add: os_WriteFile_def Let_def loc)
  let ?b = "b\<lparr>mb_fs := fs_set ?l (Reg data) (mb_fs b)\<rparr>"
  have "box_ready env ?b"
  proof (rule box_ready_mono [OF assms(1)])
    show "distinct (map fst (fs_nodes (mb_fs ?b)))" using assms(1) by (simp add: box_ready_def fs_set_def distinct_update)
  next
    fix k :: loc assume "length (snd k) < length (snd (boxLoc (MBoxPath (mb_handler b)))) + 2"
    then show "fs_lookup (mb_fs ?b) k = fs_lookup (mb_fs b) k" by (auto simp: fs_lookup_set)
  next
    fix d n assume "fs_isDir (mb_fs ?b) (boxFile b d n)"
    then show "fs_isDir (mb_fs b) (boxFile b d n)" by (auto simp: fs_lookup_set split: if_splits)
  next
    fix n node assume "(boxFile b ''out'' n, node) \<in> set (fs_nodes (mb_fs ?b))"
    then show "(boxFile b ''out'' n, node) \<in> set (fs_nodes (mb_fs b))" by (auto simp: fs_set_def dest: set_AList_update)
  qed simp_all
  then show ?thesis using data w by (simp add: Let_def)
qed

lemma dir_receiver_ok: "receiver_ok (dirHandler env) (box_ready env) (storable env)"
  unfolding receiver_ok_def
proof (intro allI impI)
  fix x b assume *: "box_ready env b" "storable env x"
  then obtain b' where "DirHandler_ProcessInbound env [x] b = (None, b')" "box_ready env b'"
    using ProcessInbound_works by blast
  then show "fst (ProcessInbound (dirHandler env) x b) = None \<and> box_ready env (snd (ProcessInbound (dirHandler env) x b))"
    by (simp add: dirHandler_def del: DirHandler_ProcessInbound.simps)
qed

section \<open>From the outbox to the inbox\<close>

lemma dir_answers: "is_answer (GetInboundAnswer (dirHandler env) p b)"
  by (auto simp: dirHandler_def DirHandler_GetInboundAnswer_def is_answer_def split: sum.splits)

lemma subseq_keeps_distinct: "subseq xs ys \<Longrightarrow> distinct ys \<Longrightarrow> distinct xs"
  by (auto simp: subseq_conv_nths)

lemma loadFiles_names:
  assumes "loadFiles env d files fs = Some (Inr msgs)"
    and "\<And>name data m. (name, Reg data) \<in> set files \<Longrightarrow> OpenMessage env (Join [d, name]) fs = Some (Inr m) \<Longrightarrow> name = MID m @ Ext"
  shows "subseq (map (\<lambda>m. MID m @ Ext) msgs) (map fst files)"
  using assms
proof (induction files arbitrary: msgs)
  case (Cons f files)
  obtain name n where f: "f = (name, n)" by fastforce
  have IH: "subseq (map (\<lambda>m. MID m @ Ext) xs) (map fst files)" if "loadFiles env d files fs = Some (Inr xs)" for xs
    using Cons.prems(2) by (intro Cons.IH [OF that]) auto
  from Cons.prems(1) [unfolded f] show ?case
  proof (cases rule: loadFiles_ConsE)
    case 1
    then show ?thesis using list_emb_Cons [OF IH [OF 1]] by simp
  next
    case (2 x xs data)
    then show ?thesis using IH [OF 2(3)] Cons.prems(2) [of name data x] f by simp
  qed
qed simp

lemma distinct_entries:
  assumes "distinct (map fst (fs_nodes fs))"
  shows "distinct (map fst (fs_entries fs d))"
proof -
  have "inj_on (\<lambda>l. last (snd l)) {l. snd l \<noteq> [] \<and> parent l = d}"
  proof (rule inj_onI)
    fix l k :: loc assume *: "l \<in> {l. snd l \<noteq> [] \<and> parent l = d}" "k \<in> {l. snd l \<noteq> [] \<and> parent l = d}" "last (snd l) = last (snd k)"
    then have "butlast (snd l) = butlast (snd k)" "fst l = fst k" by (auto simp: parent_def)
    moreover from this(1) have "snd l = snd k" using * append_butlast_last_id by (metis (mono_tags) mem_Collect_eq)
    ultimately show "l = k" by (simp add: prod_eq_iff)
  qed
  moreover have "map fst (map (\<lambda>(l, n). (last (snd l), n)) ns) = map (\<lambda>l. last (snd l)) (map fst ns)" for ns :: "(loc \<times> node) list"
    by (simp add: case_prod_unfold)
  moreover have "distinct (map fst (filter (\<lambda>(l, n). snd l \<noteq> [] \<and> parent l = d) (fs_nodes fs)))"
    using assms by (rule distinct_map_filter)
  ultimately have "distinct (map fst (map (\<lambda>(l, n). (last (snd l), n)) (filter (\<lambda>(l, n). snd l \<noteq> [] \<and> parent l = d) (fs_nodes fs))))"
    by (simp only: distinct_map) (auto intro: inj_on_subset)
  moreover have "mset (map fst (sort_key fst ys)) = mset (map fst ys)" for ys :: "(string \<times> node) list" by simp
  ultimately show ?thesis unfolding fs_entries_def using mset_eq_imp_distinct_iff by blast
qed

text \<open>Storing several messages.\<close>

lemma putAll_inbox:
  assumes "box_ready env b" "\<forall>x \<in> set xs. storable env x" "distinct (map MID xs)"
  shows "mb_handler (putAll (dirHandler env) xs b) = mb_handler b \<and> box_ready env (putAll (dirHandler env) xs b) \<and>
    (\<forall>k. k \<notin> (\<lambda>x. boxFile b ''in'' (MID x @ Ext)) ` set xs \<longrightarrow> fs_lookup (mb_fs (putAll (dirHandler env) xs b)) k = fs_lookup (mb_fs b) k) \<and>
    (\<forall>x \<in> set xs. \<exists>data. Bytes env (in_header (Header_Set ''X-Unread'' ''true'') x) = Inr data \<and>
       fs_lookup (mb_fs (putAll (dirHandler env) xs b)) (boxFile b ''in'' (MID x @ Ext)) = Some (Reg data))"
  using assms
proof (induction xs arbitrary: b)
  case (Cons x xs)
  obtain data b1 where x: "DirHandler_ProcessInbound env [x] b = (None, b1)" "box_ready env b1"
      "Bytes env (in_header (Header_Set ''X-Unread'' ''true'') x) = Inr data"
      "b1 = b\<lparr>mb_fs := fs_set (boxFile b ''in'' (MID x @ Ext)) (Reg data) (mb_fs b)\<rparr>"
    using ProcessInbound_works [OF Cons.prems(1), of x] Cons.prems(2) by auto
  have h: "mb_handler b1 = mb_handler b" using x(4) by simp
  have p: "putAll (dirHandler env) (x # xs) b = putAll (dirHandler env) xs b1"
    using x(1) by (simp add: putAll_def dirHandler_def del: DirHandler_ProcessInbound.simps)
  let ?b = "putAll (dirHandler env) xs b1"
  have IH: "mb_handler ?b = mb_handler b" "box_ready env ?b"
      "\<forall>k. k \<notin> (\<lambda>x. boxFile b ''in'' (MID x @ Ext)) ` set xs \<longrightarrow> fs_lookup (mb_fs ?b) k = fs_lookup (mb_fs b1) k"
      "\<forall>x \<in> set xs. \<exists>data. Bytes env (in_header (Header_Set ''X-Unread'' ''true'') x) = Inr data \<and>
         fs_lookup (mb_fs ?b) (boxFile b ''in'' (MID x @ Ext)) = Some (Reg data)"
    using Cons.IH [OF x(2)] Cons.prems(2,3) unfolding h by simp_all
  have new: "fs_lookup (mb_fs ?b) (boxFile b ''in'' (MID x @ Ext)) = Some (Reg data)"
  proof -
    have "boxFile b ''in'' (MID x @ Ext) \<notin> (\<lambda>x. boxFile b ''in'' (MID x @ Ext)) ` set xs" using Cons.prems(3) by auto
    then have "fs_lookup (mb_fs ?b) (boxFile b ''in'' (MID x @ Ext)) = fs_lookup (mb_fs b1) (boxFile b ''in'' (MID x @ Ext))"
      using IH(3) by simp
    also have "\<dots> = Some (Reg data)" using x(4) by (simp add: fs_lookup_set)
    finally show ?thesis .
  qed
  have old: "fs_lookup (mb_fs ?b) k = fs_lookup (mb_fs b) k" if "k \<notin> (\<lambda>x. boxFile b ''in'' (MID x @ Ext)) ` set (x # xs)" for k
  proof -
    have "fs_lookup (mb_fs ?b) k = fs_lookup (mb_fs b1) k" using that by (intro IH(3) [rule_format]) simp
    also have "\<dots> = fs_lookup (mb_fs b) k" using that x(4) by (auto simp: fs_lookup_set)
    finally show ?thesis .
  qed
  show ?case unfolding p using IH(1,2,4) new old x(3) by auto
qed (simp add: putAll_def)

text \<open>A stored message, read back.\<close>

definition arrived :: "Message \<Rightarrow> Message \<Rightarrow> bool" where
  "arrived x y \<longleftrightarrow> m_body y = m_body x \<and> m_files y = m_files x \<and> IsUnread y \<and>
     (\<forall>k. k \<noteq> ''X-Unread'' \<longrightarrow> k \<noteq> ''X-Filepath'' \<longrightarrow> h_values (m_header y) k = h_values (m_header x) k)"

lemma inbox_read:
  assumes "box_ready env b" "storable env x" "Bytes env (in_header (Header_Set ''X-Unread'' ''true'') x) = Inr data"
    and "fs_lookup (mb_fs b) (boxFile b ''in'' (MID x @ Ext)) = Some (Reg data)"
  shows "\<exists>y. OpenMessage env (Join [MBoxPath (mb_handler b), DIR_INBOX, MID x @ Ext]) (mb_fs b) = Some (Inr y) \<and> arrived x y"
proof -
  let ?p = "Join [MBoxPath (mb_handler b), DIR_INBOX, MID x @ Ext]" and ?l = "boxFile b ''in'' (MID x @ Ext)"
  let ?u = "in_header (Header_Set ''X-Unread'' ''true'') x"
  have g: "good_mid (MID x)" "message_ok env x" using assms(2) by (simp_all add: storable_def)
  obtain h where h: "ReadFrom env data = Some (None, ?u\<lparr>m_header := h\<rparr>)" "\<forall>k. h_values h k = h_values (m_header ?u) k"
    using ReadFrom_Bytes [OF unread_message_ok [OF g(2)]] assms(3) by auto
  have r: "fs_fault (mb_fs b) ?l = None" "\<not> fs_blocked (mb_fs b) ?l"
    using assms(1) unfolding box_ready_def by (auto intro: blocked_file [THEN notE])
  have "os_Open ?p (mb_fs b) = Inr (Reg data)"
    using inbox_path_nonempty [of b] locate_box_file(1) [OF good_mid_plain [OF g(1)], of b] r assms(4)
    by (simp add: os_Open_def Let_def)
  then have o: "OpenMessage env ?p (mb_fs b) = Some (Inr (?u\<lparr>m_header := Header_Set ''X-FilePath'' ?p h\<rparr>))"
    using h(1) by (simp add: OpenMessage_def)
  have v: "h_values (Header_Set ''X-FilePath'' ?p h) k = (if k = ''X-Filepath'' then [?p] else if k = ''X-Unread'' then [''true''] else h_values (m_header x) k)" for k
    using h(2) by (simp add: Header_Set_def private_keys h_values_update)
  have "arrived x (?u\<lparr>m_header := Header_Set ''X-FilePath'' ?p h\<rparr>)"
    by (simp add: arrived_def IsUnread_def Header_Get_def get_def private_keys v)
  then show ?thesis using o by blast
qed

lemma outbox_distinct:
  assumes "box_ready env b" "LoadMessageDir env (Join [MBoxPath (mb_handler b), DIR_OUTBOX]) (mb_fs b) = Some (Inr msgs)"
  shows "distinct (map MID msgs)"
proof -
  have ok: "outbox_ok env b" "distinct (map fst (fs_nodes (mb_fs b)))" using assms(1) by (auto simp: box_ready_def)
  have "subseq (map (\<lambda>m. MID m @ Ext) msgs) (map fst (fs_entries (mb_fs b) (boxDir b ''out'')))"
    using loadFiles_names [OF outbox_read [OF assms(2)]] outbox_file [OF ok(1)] by blast
  then have "distinct (map (\<lambda>m. MID m @ Ext) msgs)" using distinct_entries [OF ok(2)] subseq_keeps_distinct by blast
  then show ?thesis by (auto simp: distinct_map inj_on_def)
qed

lemma GetOutbound_distinct:
  assumes "box_ready env b" "DirHandler_GetOutbound env fw b = Some msgs"
  shows "distinct (map MID msgs)"
proof -
  obtain r where r: "LoadMessageDir env (Join [MBoxPath (mb_handler b), DIR_OUTBOX]) (mb_fs b) = Some r"
    using assms(2) by (auto simp: DirHandler_GetOutbound_def bind_eq_Some_conv)
  show ?thesis
  proof (cases r)
    case (Inr all)
    have "subseq (map MID (concat (map (selectOutbound env fw b) ms))) (map MID ms)" for ms
    proof (induction ms)
      case (Cons m ms)
      have "map MID (selectOutbound env fw b m) = [] \<or> map MID (selectOutbound env fw b m) = [MID m]"
        by (simp add: selectOutbound_def)
      then show ?case using Cons by (auto intro: list_emb_Cons)
    qed simp
    then show ?thesis using assms(2) r Inr outbox_distinct [OF assms(1)] subseq_keeps_distinct by (auto simp: DirHandler_GetOutbound_def)
  qed (use assms(2) r in \<open>simp add: DirHandler_GetOutbound_def\<close>)
qed

lemma arrived_same: "same_message x y \<Longrightarrow> arrived y z \<Longrightarrow> arrived x z"
  by (simp add: same_message_def arrived_def)

text \<open>The messages that were stored for the accepted proposals can be read from the inbox.\<close>

lemma received_readable:
  assumes "box_ready env rb"
    and "list_all2 (\<lambda>p y. \<exists>x \<in> set msgs. MID x = p_mid p \<and> same_message x y \<and> message_ok env y) acc xs"
    and "\<forall>x \<in> set msgs. \<forall>y. same_message x y \<and> message_ok env y \<longrightarrow> storable env y"
    and "distinct (map p_mid acc)" "p \<in> set acc"
  shows "\<exists>x \<in> set msgs. \<exists>y. MID x = p_mid p \<and>
    OpenMessage env (Join [MBoxPath (mb_handler rb), DIR_INBOX, p_mid p @ Ext]) (mb_fs (putAll (dirHandler env) xs rb)) = Some (Inr y) \<and> arrived x y"
proof -
  let ?rb = "putAll (dirHandler env) xs rb"
  have "map p_mid acc = map MID xs"
    using assms(2) by (induction rule: list_all2_induct) (auto dest: same_message_MID)
  then have d: "distinct (map MID xs)" using assms(4) by simp
  have st: "\<forall>x \<in> set xs. storable env x" using assms(2,3) by (auto simp: list_all2_conv_all_nth in_set_conv_nth) blast
  obtain i where i: "i < length acc" "acc ! i = p" using assms(5) by (auto simp: in_set_conv_nth)
  obtain x y where xy: "x \<in> set msgs" "MID x = p_mid p" "same_message x y" "y \<in> set xs"
    using list_all2_nthD [OF assms(2) i(1)] i list_all2_lengthD [OF assms(2)] by auto
  obtain data where "Bytes env (in_header (Header_Set ''X-Unread'' ''true'') y) = Inr data"
      "fs_lookup (mb_fs ?rb) (boxFile rb ''in'' (MID y @ Ext)) = Some (Reg data)"
    and rb: "mb_handler ?rb = mb_handler rb" "box_ready env ?rb"
    using putAll_inbox [OF assms(1) st d] xy(4) by blast
  then obtain z where "OpenMessage env (Join [MBoxPath (mb_handler rb), DIR_INBOX, MID y @ Ext]) (mb_fs ?rb) = Some (Inr z)" "arrived y z"
    using inbox_read [OF rb(2), of y data] st xy(4) by auto
  then show ?thesis using xy same_message_MID [OF xy(3)] arrived_same [OF xy(3)] by auto
qed

section \<open>Composing a message\<close>

lemma AddOut_works:
  assumes "box_ready env b" "storable env x"
  shows "\<exists>data b' h. AddOut env x b = (None, b') \<and> box_ready env b' \<and> Bytes env x = Inr data \<and>
    ReadFrom env data = Some (None, x\<lparr>m_header := h\<rparr>) \<and> (\<forall>k. h_values h k = h_values (m_header x) k) \<and> header_ok h \<and>
    b' = b\<lparr>mb_fs := fs_set (boxFile b ''out'' (MID x @ Ext)) (Reg data) (mb_fs b)\<rparr>"
proof -
  let ?l = "boxFile b ''out'' (MID x @ Ext)" and ?p = "Join [MBoxPath (mb_handler b), DIR_OUTBOX, MID x @ Ext]"
  have g: "good_mid (MID x)" "message_ok env x" using assms(2) by (simp_all add: storable_def)
  obtain data h where d: "Bytes env x = Inr data" "\<forall>k. h_values h k = h_values (m_header x) k"
      "ReadFrom env data = Some (None, x\<lparr>m_header := h\<rparr>)" "header_ok h"
    using ReadFrom_Bytes [OF g(2)] by blast
  have mid: "MID (x\<lparr>m_header := h\<rparr>) = MID x" using d(2) by (simp add: MID_def Header_Get_def get_def)
  note loc = locate_box_file(2) [OF good_mid_plain [OF g(1)], of b]
  have r: "\<forall>l. fs_fault (mb_fs b) l = None" "fs_isDir (mb_fs b) (boxDir b ''out'')" "\<not> fs_blocked (mb_fs b) ?l" "\<not> fs_isDir (mb_fs b) ?l"
      "outbox_ok env b" "distinct (map fst (fs_nodes (mb_fs b)))"
    using assms(1) unfolding box_ready_def by (auto intro: blocked_file [THEN notE])
  have par: "parent ?l = boxDir b ''out''" by (simp add: parent_def butlast_append)
  have "?p \<noteq> []" by (rule Join_nonempty) (simp add: Ext_def)
  then have w: "os_WriteFile ?p data (mb_fs b) = (None, fs_set ?l (Reg data) (mb_fs b))"
    using r par by (simp add: os_WriteFile_def Let_def loc)
  let ?b = "b\<lparr>mb_fs := fs_set ?l (Reg data) (mb_fs b)\<rparr>"
  have nodes: "(k, n) = (?l, Reg data) \<or> (k, n) \<in> set (fs_nodes (mb_fs b))" if "(k, n) \<in> set (fs_nodes (mb_fs ?b))" for k n
    using set_AList_update [of k n ?l "Reg data" "fs_nodes (mb_fs b)"] that by (simp add: fs_set_def)
  have "outbox_ok env ?b"
    unfolding outbox_ok_def
  proof (intro allI impI)
    fix n node assume "(boxFile ?b ''out'' n, node) \<in> set (fs_nodes (mb_fs ?b))"
    from nodes [OF this] show "plain_name n \<and> (\<forall>data m. node = Reg data \<longrightarrow> ReadFrom env data = Some (None, m) \<longrightarrow> n = MID m @ Ext)"
      using r(5) good_mid_plain [OF g(1)] d(3) mid by (auto simp: outbox_ok_def)
  qed
  moreover have "fs_blocked (mb_fs ?b) (boxDir b d) = fs_blocked (mb_fs b) (boxDir b d)" for d
    by (rule fs_blocked_cong) (auto simp: fs_lookup_set dest: arg_cong [where f = length])
  moreover have "distinct (map fst (fs_nodes (mb_fs ?b)))" using r(6) by (simp add: fs_set_def distinct_update)
  moreover have "\<forall>n data. (boxFile b ''out'' n, Reg data) \<in> set (fs_nodes (mb_fs ?b)) \<longrightarrow> ReadFrom env data \<noteq> None"
  proof (intro allI impI)
    fix n data' assume "(boxFile b ''out'' n, Reg data') \<in> set (fs_nodes (mb_fs ?b))"
    from nodes [OF this] show "ReadFrom env data' \<noteq> None" using assms(1) d(3) by (auto simp: box_ready_def)
  qed
  ultimately have "box_ready env ?b" using assms(1) by (simp add: box_ready_def fs_lookup_set)
  then show ?thesis using d w by (auto simp: AddOut_def)
qed

lemma fileExt_Ext: "fileExt (n @ Ext) = Ext"
proof -
  have "lastIndex (\<lambda>c. c = CHR ''.'' \<or> c = CHR ''/'') (n @ CHR ''.'' # ''b2f'') = Some (length n)"
    by (rule lastIndex_append) auto
  then show ?thesis by (simp add: fileExt_def Ext_def)
qed

lemma loadFiles_includes:
  assumes "loadFiles env d files fs = Some (Inr msgs)" "(n @ Ext, Reg data) \<in> set files" "n \<noteq> []" "hd n \<noteq> CHR ''.''"
  shows "\<exists>m \<in> set msgs. OpenMessage env (Join [d, n @ Ext]) fs = Some (Inr m)"
  using assms(1,2)
proof (induction files arbitrary: msgs)
  case (Cons f files)
  obtain name nd where f: "f = (name, nd)" by fastforce
  show ?case
  proof (cases "f = (n @ Ext, Reg data)")
    case True
    have i: "idx (n @ Ext) 0 = Some (hd n)" using assms(3) by (simp add: idx_def hd_conv_nth nth_append)
    have e: "EqualFold (fileExt (n @ Ext)) Ext" by (simp add: fileExt_Ext EqualFold_def)
    obtain r where r: "OpenMessage env (Join [d, n @ Ext]) fs = Some r"
      using Cons.prems(1) True i e assms(4) by (auto simp: bind_eq_Some_conv)
    then obtain m where m: "r = Inr m" using Cons.prems(1) True i e assms(4) by (cases r) auto
    obtain rs where rs: "loadFiles env d files fs = Some rs" using Cons.prems(1) True i e r m assms(4) by (auto simp: bind_eq_Some_conv)
    then have "m \<in> set msgs" using Cons.prems(1) True i e r m assms(4) by (cases rs) auto
    then show ?thesis using r m by auto
  next
    case False
    then have in1: "(n @ Ext, Reg data) \<in> set files" using Cons.prems(2) by auto
    from Cons.prems(1) [unfolded f] show ?thesis
    proof (cases rule: loadFiles_ConsE)
      case 1
      then show ?thesis using Cons.IH [OF 1 in1] by simp
    next
      case (2 x xs data)
      then show ?thesis using Cons.IH [OF 2(3) in1] by auto
    qed
  qed
qed simp

text \<open>What a message looks like when it leaves: the private headers are gone.\<close>

definition public_copy :: "Message \<Rightarrow> Message \<Rightarrow> bool" where
  "public_copy x y \<longleftrightarrow> m_body y = m_body x \<and> m_files y = m_files x \<and>
     (\<forall>k. h_values (m_header y) k = (if k \<in> {''X-P2ponly'', ''X-Filepath'', ''X-Unread''} then [] else h_values (m_header x) k))"

lemma AddOut_offered:
  assumes "box_ready env b" "storable env x" "AddOut env x b = (None, b')" "Outbox env b' = Some (Inr all)"
    and "\<not> isDeferred b (MID x)" "MID x \<noteq> []" "hd (MID x) \<noteq> CHR ''.''" "Header_Get (m_header x) ''X-P2POnly'' \<noteq> ''true''"
  shows "\<exists>msgs y. DirHandler_GetOutbound env [] b' = Some msgs \<and> y \<in> set msgs \<and> public_copy x y"
proof -
  let ?l = "boxFile b ''out'' (MID x @ Ext)" and ?d = "Join [MBoxPath (mb_handler b), DIR_OUTBOX]"
  obtain data h where a: "ReadFrom env data = Some (None, x\<lparr>m_header := h\<rparr>)" "\<forall>k. h_values h k = h_values (m_header x) k"
      "b' = b\<lparr>mb_fs := fs_set ?l (Reg data) (mb_fs b)\<rparr>" "box_ready env b'"
    using AddOut_works [OF assms(1,2)] assms(3) by auto
  have h': "mb_handler b' = mb_handler b" using a(3) by simp
  have lk: "fs_lookup (mb_fs b') ?l = Some (Reg data)" using a(3) by (simp add: fs_lookup_set)
  have "(?l, Reg data) \<in> set (fs_nodes (mb_fs b'))" using lk a(4) by (subst (asm) fs_lookup_nodes) (auto simp: box_ready_def)
  then have en: "(MID x @ Ext, Reg data) \<in> set (fs_entries (mb_fs b') (boxDir b ''out''))"
    by (force simp: fs_entries_def parent_def butlast_append)
  have ld: "LoadMessageDir env ?d (mb_fs b') = Some (Inr all)" using assms(4) h' by (simp add: Outbox_def)
  obtain m where m: "m \<in> set all" "OpenMessage env (Join [?d, MID x @ Ext]) (mb_fs b') = Some (Inr m)"
    using loadFiles_includes [OF outbox_read [of env b', unfolded h', OF ld] en assms(6,7)] by auto
  have "?d \<noteq> []" by (rule Join_nonempty) (simp add: DIR_OUTBOX_def)
  then have loc: "locate (Join [?d, MID x @ Ext]) = ?l"
    using locate_Join2 [of ?d "MID x @ Ext"] good_mid_plain [of "MID x"] assms(2) locate_box_dir(2) [of b] by (simp add: storable_def)
  have mx: "m = x\<lparr>m_header := Header_Set ''X-FilePath'' (Join [?d, MID x @ Ext]) h\<rparr>"
  proof -
    obtain data' m0 where "fs_lookup (mb_fs b') ?l = Some (Reg data')" "ReadFrom env data' = Some (None, m0)"
        "m = in_header (Header_Set ''X-FilePath'' (Join [?d, MID x @ Ext])) m0"
      using OpenMessage_file [OF m(2)] unfolding loc by metis
    then show ?thesis using lk a(1) by simp
  qed
  have v: "h_values (m_header m) k = (if k = ''X-Filepath'' then [Join [?d, MID x @ Ext]] else h_values (m_header x) k)" for k
    using a(2) by (simp add: mx Header_Set_def private_keys h_values_update)
  have mid: "MID m = MID x" unfolding MID_def Header_Get_def get_def by (simp add: v) (simp add: header_names)
  have p2p: "Header_Get (m_header m) ''X-P2POnly'' \<noteq> ''true''" using assms(8) unfolding Header_Get_def get_def private_keys by (simp add: v)
  let ?y = "in_header (Header_Del ''X-Unread'') (in_header (Header_Del ''X-FilePath'') (in_header (Header_Del ''X-P2POnly'') m))"
  have "?y \<in> set (selectOutbound env [] b' m)"
    using assms(5) mid p2p isDeferred_handler [OF h'] by (simp add: selectOutbound_def)
  moreover have "public_copy x ?y"
    unfolding public_copy_def by (simp add: mx Header_Del_def private_keys h_values_delete) (simp add: v [unfolded mx, simplified] h_values_delete)
  ultimately show ?thesis using ld m(1) h' by (auto simp: DirHandler_GetOutbound_def)
qed

lemma offered_header_ok:
  assumes "header_ok h"
  shows "header_ok (Header_Del ''X-Unread'' (Header_Del ''X-FilePath'' (Header_Del ''X-P2POnly'' (Header_Set ''X-FilePath'' path h))))" (is "header_ok ?h")
proof -
  have d: "?h = AList.delete ''X-Unread'' (AList.delete ''X-Filepath'' (AList.delete ''X-P2ponly'' (AList.update ''X-Filepath'' [path] h)))"
    by (simp add: Header_Del_def Header_Set_def private_keys)
  have "distinct (map fst ?h)" unfolding d using assms by (simp add: header_ok_def distinct_delete distinct_update)
  moreover have "(k, vs) \<in> set h" if "(k, vs) \<in> set ?h" for k vs
    using that set_AList_update [of k vs "''X-Filepath''" "[path]" h] unfolding d by (auto simp: AList.delete_eq)
  moreover have "h_values ?h HEADER_MID = h_values h HEADER_MID"
    unfolding d by (simp add: h_values_def delete_conv' update_conv' HEADER_MID_def)
  ultimately show ?thesis using assms unfolding header_ok_def by fastforce
qed

section \<open>Examples\<close>

definition example_box :: mbox where
  "example_box = snd (DirHandler_Prepare \<lparr>mb_handler = NewDirHandler ''/m'' False, mb_fs = \<lparr>fs_nodes = [], fs_fault = (\<lambda>l. None)\<rparr>\<rparr>)"

lemma example_loc: "boxLoc ''/m'' = (True, [''m''])"
  by (simp add: boxLoc_def locate_def HasPrefix_def)

lemma example_box_handler: "mb_handler example_box = \<lparr>MBoxPath = ''/m'', dh_deferred = Some [], dh_sendOnly = False\<rparr>"
  by (simp add: example_box_def DirHandler_Prepare_def NewDirHandler_def Let_def split: prod.splits)

lemma example_box_fs:
  "mb_fs example_box = \<lparr>fs_nodes = [((True, [''m'']), Dir), ((True, [''m'', ''in'']), Dir), ((True, [''m'', ''out'']), Dir),
     ((True, [''m'', ''sent'']), Dir), ((True, [''m'', ''archive'']), Dir)], fs_fault = (\<lambda>l. None)\<rparr>"
proof -
  have l: "locate (Join [''/m'', DIR_INBOX]) = (True, [''m'', ''in''])" "locate (Join [''/m'', DIR_OUTBOX]) = (True, [''m'', ''out''])"
      "locate (Join [''/m'', DIR_SENT]) = (True, [''m'', ''sent''])" "locate (Join [''/m'', DIR_ARCHIVE]) = (True, [''m'', ''archive''])"
    using box_names by (simp_all add: locate_Join_dir dir_names example_loc)
  have n: "Join [''/m'', DIR_INBOX] \<noteq> []" "Join [''/m'', DIR_OUTBOX] \<noteq> []" "Join [''/m'', DIR_SENT] \<noteq> []" "Join [''/m'', DIR_ARCHIVE] \<noteq> []"
    by (rule Join_nonempty, simp)+
  show ?thesis
    by (simp add: example_box_def DirHandler_Prepare_def NewDirHandler_def ensureDirStructure_def os_MkdirAll_def l n fs_lookup_def fs_set_def)
qed

lemma example_box_ready: "box_ready env example_box"
  by (auto simp: box_ready_def outbox_ok_def example_box_handler example_box_fs example_loc fs_lookup_def fs_blocked_iff less_Suc_eq)

definition example_sender :: mbox where
  "example_sender = snd (AddOut example_gzip_env example_mail example_box)"

lemma example_mail_MID: "MID example_mail = ''TJKYEIMMHSRB''"
  by (simp add: MID_def example_mail_fields)

lemma example_mail_storable: "storable example_gzip_env example_mail"
  using example_mail_sendable by (simp add: storable_def sendable_def good_mid_def example_mail_MID)

lemma example_box_file: "boxFile example_box d n = (True, [''m'', d, n])"
  by (simp add: example_box_handler example_loc)

lemma example_sender_box:
  obtains data h where "AddOut example_gzip_env example_mail example_box = (None, example_sender)" "box_ready example_gzip_env example_sender"
    "ReadFrom example_gzip_env data = Some (None, example_mail\<lparr>m_header := h\<rparr>)"
    "\<forall>k. h_values h k = h_values (m_header example_mail) k" "header_ok h"
    "example_sender = example_box\<lparr>mb_fs := fs_set (True, [''m'', ''out'', ''TJKYEIMMHSRB.b2f'']) (Reg data) (mb_fs example_box)\<rparr>"
proof -
  obtain data b' h where a: "AddOut example_gzip_env example_mail example_box = (None, b')" "box_ready example_gzip_env b'"
    "ReadFrom example_gzip_env data = Some (None, example_mail\<lparr>m_header := h\<rparr>)" "\<forall>k. h_values h k = h_values (m_header example_mail) k" "header_ok h"
    "b' = example_box\<lparr>mb_fs := fs_set (boxFile example_box ''out'' (MID example_mail @ Ext)) (Reg data) (mb_fs example_box)\<rparr>"
    using AddOut_works [OF example_box_ready example_mail_storable] by auto
  then have "b' = example_sender" by (simp add: example_sender_def)
  then show thesis using that [OF _ _ a(3,4,5)] a(1,2,6) unfolding example_box_file by (simp add: example_mail_MID Ext_def)
qed

lemma example_sender_handler: "mb_handler example_sender = mb_handler example_box"
proof -
  obtain data where "example_sender = example_box\<lparr>mb_fs := fs_set (True, [''m'', ''out'', ''TJKYEIMMHSRB.b2f'']) (Reg data) (mb_fs example_box)\<rparr>"
    by (rule example_sender_box)
  from arg_cong [OF this, of mb_handler] show ?thesis by simp
qed

lemma example_outbox:
  obtains h where "\<forall>k. h_values h k = h_values (m_header example_mail) k" "header_ok h"
    "Outbox example_gzip_env example_sender =
       Some (Inr [example_mail\<lparr>m_header := Header_Set ''X-FilePath'' (Join [Join [''/m'', DIR_OUTBOX], ''TJKYEIMMHSRB.b2f'']) h\<rparr>])"
proof -
  obtain data h where s: "ReadFrom example_gzip_env data = Some (None, example_mail\<lparr>m_header := h\<rparr>)"
    "\<forall>k. h_values h k = h_values (m_header example_mail) k" "header_ok h"
    "example_sender = example_box\<lparr>mb_fs := fs_set (True, [''m'', ''out'', ''TJKYEIMMHSRB.b2f'']) (Reg data) (mb_fs example_box)\<rparr>"
    by (rule example_sender_box)
  let ?d = "Join [''/m'', DIR_OUTBOX]" and ?n = "''TJKYEIMMHSRB.b2f''"
  have dne: "?d \<noteq> []" by (rule Join_nonempty) simp
  have ld: "locate ?d = (True, [''m'', ''out''])" using locate_box_dir(2) [of example_box] by (simp add: example_box_handler example_loc)
  have ln: "locate (Join [?d, ?n]) = (True, [''m'', ''out'', ?n])" using locate_Join2 [OF dne, of ?n] ld by (simp add: plain_name_def)
  have ne: "Join [?d, ?n] \<noteq> []" by (rule Join_nonempty) simp
  have rd: "os_ReadDir ?d (mb_fs example_sender) = Inr [(?n, Reg data)]"
    using dne by (simp add: os_ReadDir_def os_Open_def Let_def ld s(4) example_box_fs fs_lookup_def fs_set_def fs_blocked_iff less_Suc_eq fs_entries_def parent_def)
  have op: "OpenMessage example_gzip_env (Join [?d, ?n]) (mb_fs example_sender) = Some (Inr (example_mail\<lparr>m_header := Header_Set ''X-FilePath'' (Join [?d, ?n]) h\<rparr>))"
    using ne s(1) by (simp add: OpenMessage_def os_Open_def Let_def ln s(4) example_box_fs fs_lookup_def fs_set_def fs_blocked_iff less_Suc_eq)
  have e: "EqualFold (fileExt ?n) Ext" using fileExt_Ext [of "''TJKYEIMMHSRB''"] by (simp add: Ext_def EqualFold_def)
  have "LoadMessageDir example_gzip_env ?d (mb_fs example_sender) = Some (Inr [example_mail\<lparr>m_header := Header_Set ''X-FilePath'' (Join [?d, ?n]) h\<rparr>])"
    using rd op e by (simp add: LoadMessageDir_def idx_def)
  then show thesis using that [OF s(2,3)] by (simp add: Outbox_def example_sender_handler example_box_handler)
qed



definition example_intruder :: Message where
  "example_intruder = \<lparr>m_header = [(''Mid'', [''../out/A''])], m_body = [], m_files = []\<rparr>"

section \<open>Properties\<close>

text \<open>C4. Whatever the other side does in an outbound turn of a session with a directory mailbox: the outbox stays in
  order, nothing new is offered, and what the statistics report as sent was offered before and is not proposed again.\<close>

theorem sent_not_offered_again:
  assumes "outbox_ok env b" "handleOutbound env (Some (dirHandler env)) s c b = Some ((q, e), s', c', b')"
  shows "outbox_ok env b' \<and> outbox_offers b' \<subseteq> outbox_offers b \<and>
    (\<exists>mids. Sent (s_trafficStats s') = Sent (s_trafficStats s) @ mids \<and> set mids \<subseteq> outbox_offers b \<and>
      (\<forall>fws msgs. DirHandler_GetOutbound env fws b' = Some msgs \<longrightarrow> set mids \<inter> MID ` set msgs = {}))"
proof -
  have 1: "outbox_ok env b'" "outbox_offers b' \<subseteq> outbox_offers b"
    using dir.handleOutbound_settles [OF assms] by simp_all
  obtain mids where 2: "Sent (s_trafficStats s') = Sent (s_trafficStats s) @ mids" "set mids \<subseteq> outbox_offers b - outbox_offers b'"
    using dir.handleOutbound_settles [OF assms] by blast
  then show ?thesis using 1 GetOutbound_offers [OF 1(1)] by (intro conjI exI [of _ mids]) blast+
qed

section \<open>The inbox over time\<close>

text \<open>What happens to a mailbox: what a session calls, a new message in the outbox, and files that can be opened or
  cannot, differently from one time to the next. Message ids have no slash in them.\<close>

inductive box_step :: "env \<Rightarrow> mbox \<Rightarrow> mbox \<Rightarrow> bool" for env where
  step_Prepare: "DirHandler_Prepare b = (e, b') \<Longrightarrow> box_step env b b'"
| step_ProcessInbound: "good_mid (MID x) \<Longrightarrow> DirHandler_ProcessInbound env [x] b = (e, b') \<Longrightarrow> box_step env b b'"
| step_SetSent: "good_mid mid \<Longrightarrow> DirHandler_SetSent mid rej b = Some b' \<Longrightarrow> box_step env b b'"
| step_SetDeferred: "DirHandler_SetDeferred mid b = Some b' \<Longrightarrow> box_step env b b'"
| step_AddOut: "good_mid (MID x) \<Longrightarrow> AddOut env x b = (e, b') \<Longrightarrow> box_step env b b'"
| step_faults: "box_step env b (b\<lparr>mb_fs := (mb_fs b)\<lparr>fs_fault := faults\<rparr>\<rparr>)"

text \<open>A file of the inbox whose path is not blocked by another file.\<close>

definition kept :: "string \<Rightarrow> mbox \<Rightarrow> bool" where
  "kept n b \<longleftrightarrow> (\<exists>data. fs_lookup (mb_fs b) (boxFile b ''in'' n) = Some (Reg data)) \<and> \<not> fs_blocked (mb_fs b) (boxFile b ''in'' n)"

lemma kept_mono:
  assumes "kept n b" "MBoxPath (mb_handler b') = MBoxPath (mb_handler b)"
    and "\<And>k data. fs_lookup (mb_fs b) k = Some (Reg data) \<Longrightarrow> k = boxFile b ''in'' n \<Longrightarrow> \<exists>data. fs_lookup (mb_fs b') k = Some (Reg data)"
    and "\<And>k data. length (snd k) < length (snd (boxFile b ''in'' n)) \<Longrightarrow> fs_lookup (mb_fs b') k = Some (Reg data) \<Longrightarrow> fs_lookup (mb_fs b) k = Some (Reg data)"
  shows "kept n b'"
proof -
  have "\<not> fs_blocked (mb_fs b') (boxFile b ''in'' n)"
  proof
    assume "fs_blocked (mb_fs b') (boxFile b ''in'' n)"
    then obtain i data where i: "i < length (snd (boxFile b ''in'' n))"
        "fs_lookup (mb_fs b') (fst (boxFile b ''in'' n), take i (snd (boxFile b ''in'' n))) = Some (Reg data)" unfolding fs_blocked_iff by blast
    then have "fs_lookup (mb_fs b) (fst (boxFile b ''in'' n), take i (snd (boxFile b ''in'' n))) = Some (Reg data)"
      by (intro assms(4)) simp_all
    then have "fs_blocked (mb_fs b) (boxFile b ''in'' n)" using i(1) unfolding fs_blocked_iff by blast
    then show False using assms(1) by (simp add: kept_def)
  qed
  then show ?thesis using assms(1-3) unfolding kept_def by metis
qed

lemma mkdirs_lookup:
  "mkdirs r cs fs = (e, fs') \<Longrightarrow> \<forall>k. fs_lookup fs' k = fs_lookup fs k \<or> fs_lookup fs k = None \<and> fs_lookup fs' k = Some Dir"
proof (induction r cs fs arbitrary: e fs' rule: mkdirs.induct)
  case (2 r c cs fs)
  let ?l = "(r, rev (c # cs))"
  show ?case
  proof (cases "fs_lookup fs ?l")
    case None
    obtain e1 fs1 where m: "mkdirs r cs fs = (e1, fs1)" by fastforce
    note ih = "2.IH" [OF refl None m]
    show ?thesis
    proof (cases "e1 = None \<and> fs_fault fs1 ?l = None")
      case True
      then have "fs' = fs_set ?l Dir fs1" using 2(2) None m by simp
      then show ?thesis using ih None by (auto simp: fs_lookup_set)
    next
      case False
      then have "fs' = fs1" using 2(2) None m by (cases e1) (auto split: option.splits)
      then show ?thesis using ih by simp
    qed
  next
    case (Some n)
    then show ?thesis using 2(2) by (cases n) simp_all
  qed
qed simp

lemma makeAll_lookup:
  "makeAll ps fs = (e, fs') \<Longrightarrow> fs_lookup fs' k = fs_lookup fs k \<or> fs_lookup fs k = None \<and> fs_lookup fs' k = Some Dir"
proof (induction ps fs arbitrary: e fs' rule: makeAll.induct)
  case (2 p ps fs)
  obtain e1 fs1 where m: "os_MkdirAll p fs = (e1, fs1)" by fastforce
  then have 1: "fs_lookup fs1 k = fs_lookup fs k \<or> fs_lookup fs k = None \<and> fs_lookup fs1 k = Some Dir" for k
    using spec [OF mkdirs_lookup [of "fst (locate p)" "rev (snd (locate p))" fs e1 fs1], of k] by (cases "p = []") (simp_all add: os_MkdirAll_def)
  show ?case
  proof (cases e1)
    case None
    then show ?thesis using "2.IH" [of e1 fs1 e fs'] 2(2) m 1 [of k] by (metis (no_types, lifting) makeAll.simps(2) option.simps(4) prod.case)
  next
    case (Some x)
    then show ?thesis using 2(2) m 1 by (cases x) simp
  qed
qed simp

lemma below_boxFile: "d \<noteq> ''in'' \<Longrightarrow> \<not> below (boxFile b d n') (boxFile b ''in'' n)"
  by (simp add: below_def)

lemma move_lookup:
  "\<not> below l k \<Longrightarrow> \<not> below l' k \<Longrightarrow> map_of (fs_move l l' ns) k = map_of ns k"
proof (induction ns)
  case (Cons a ns)
  obtain q n where a: "a = (q, n)" by fastforce
  have "(fst l', snd l' @ drop (length (snd l)) (snd q)) \<noteq> k" using Cons.prems(2) by (auto simp: below_def)
  then show ?case using Cons by (auto simp: a fs_move_def)
qed (simp add: fs_move_def)

lemma SetSent_lookup:
  assumes "good_mid mid" "DirHandler_SetSent mid rej b = Some b'"
    and "\<not> below (boxFile b ''out'' (mid @ Ext)) k" "\<not> below (boxFile b ''sent'' (mid @ Ext)) k"
  shows "fs_lookup (mb_fs b') k = fs_lookup (mb_fs b) k"
proof -
  let ?l = "boxFile b ''out'' (mid @ Ext)" and ?l' = "boxFile b ''sent'' (mid @ Ext)"
  let ?old = "Join [MBoxPath (mb_handler b), DIR_OUTBOX, mid @ Ext]" and ?new = "Join [MBoxPath (mb_handler b), DIR_SENT, mid @ Ext]"
  note loc = locate_box_file [OF good_mid_plain [OF assms(1)], of b]
  obtain fs where r: "os_Rename ?old ?new (mb_fs b) = (None, fs)" and b': "b' = b\<lparr>mb_fs := fs\<rparr>"
    using assms(2) by (auto simp: DirHandler_SetSent_def Let_def split: prod.splits option.splits)
  have "fs_nodes fs = fs_nodes (mb_fs b) \<or> fs_nodes fs = fs_move ?l ?l' (fs_nodes (mb_fs b)) \<or>
      (\<exists>d. fs_nodes fs = AList.update ?l' d (AList.delete ?l (fs_nodes (mb_fs b))))"
    using r unfolding os_Rename_def Let_def loc by (auto split: if_splits option.splits prod.splits)
  moreover have "k \<noteq> ?l" "k \<noteq> ?l'" using assms(3,4) by (auto simp: below_def)
  ultimately show ?thesis using move_lookup [OF assms(3,4)] by (auto simp: b' fs_lookup_def update_conv' delete_conv')
qed

lemma fs_blocked_self: "snd l \<noteq> [] \<Longrightarrow> fs_blocked (fs_set l n fs) l = fs_blocked fs l"
  by (rule fs_blocked_set) (auto dest: arg_cong [where f = "\<lambda>l. length (snd l)"])

lemma below_length: "below l k \<Longrightarrow> length (snd l) \<le> length (snd k)"
  unfolding below_def by (metis length_take min.cobounded1)

lemma written_kept:
  assumes "kept n b" "os_WriteFile p data (mb_fs b) = (e, fs)" "length (snd (locate p)) = length (snd (boxFile b ''in'' n))"
  shows "kept n (b\<lparr>mb_fs := fs\<rparr>)"
proof (cases "e = None")
  case True
  then have w: "fs = fs_set (locate p) (Reg data) (mb_fs b)" using WriteFile_result [OF assms(2)] by simp
  have l: "snd (locate p) \<noteq> []" using assms(3) by auto
  show ?thesis
  proof (rule kept_mono [OF assms(1)])
    fix k d
    assume "length (snd k) < length (snd (boxFile b ''in'' n))" "fs_lookup (mb_fs (b\<lparr>mb_fs := fs\<rparr>)) k = Some (Reg d)"
    moreover from this assms(3) have "k \<noteq> locate p" by auto
    ultimately show "fs_lookup (mb_fs b) k = Some (Reg d)" using l by (simp add: w fs_lookup_set)
  qed (use l in \<open>simp_all add: w fs_lookup_set\<close>)
next
  case False
  then have "fs = mb_fs b" using WriteFile_result [OF assms(2)] by blast
  then show ?thesis using assms(1) by simp
qed

lemma box_step_kept:
  assumes "box_step env b b'" "kept n b"
  shows "kept n b'" "MBoxPath (mb_handler b') = MBoxPath (mb_handler b)" "dh_sendOnly (mb_handler b') = dh_sendOnly (mb_handler b)"
proof -
  have "kept n b' \<and> MBoxPath (mb_handler b') = MBoxPath (mb_handler b) \<and> dh_sendOnly (mb_handler b') = dh_sendOnly (mb_handler b)"
    using assms
  proof cases
    case (step_Prepare e)
    obtain e1 fs where m: "ensureDirStructure (MBoxPath (mb_handler b)) (mb_fs b) = (e1, fs)" by fastforce
    then have b': "b' = b\<lparr>mb_handler := (mb_handler b)\<lparr>dh_deferred := Some []\<rparr>, mb_fs := fs\<rparr>"
      using step_Prepare by (simp add: DirHandler_Prepare_def Let_def)
    have l: "fs_lookup fs k = fs_lookup (mb_fs b) k \<or> fs_lookup (mb_fs b) k = None \<and> fs_lookup fs k = Some Dir" for k
      using makeAll_lookup [OF m [unfolded ensureDirStructure_def]] .
    have "kept n b'"
      by (rule kept_mono [OF assms(2)]) (use l b' in \<open>auto, metis option.distinct(1), metis option.inject node.distinct(1)\<close>)
    then show ?thesis by (simp add: b')
  next
    case (step_ProcessInbound x e)
    note loc = locate_box_file(1) [OF good_mid_plain [OF step_ProcessInbound(1)], of b]
    have lt: "locate (Join [Join [MBoxPath (mb_handler b), DIR_INBOX], MID x @ Ext]) = boxFile b ''in'' (MID x @ Ext)"
      using locate_inbox_twice [of "MID x @ Ext" b] loc by (simp add: Ext_def)
    consider "b' = b" | data where "os_WriteFile (Join [Join [MBoxPath (mb_handler b), DIR_INBOX], MID x @ Ext]) data (mb_fs b) = (None, mb_fs b')"
        "b' = b\<lparr>mb_fs := mb_fs b'\<rparr>"
      using ProcessInbound_result [OF step_ProcessInbound(2)] by auto
    then show ?thesis
    proof cases
      case 2
      have "kept n (b\<lparr>mb_fs := mb_fs b'\<rparr>)" by (rule written_kept [OF assms(2) 2(1)]) (simp add: lt)
      moreover have "mb_handler b' = mb_handler b" by (subst 2(2)) simp
      ultimately show ?thesis using 2(2) by simp
    qed (use assms(2) in simp)
  next
    case (step_SetSent mid rej)
    have h: "mb_handler b' = mb_handler b" by (rule SetSent_nodes(1) [OF step_SetSent])
    have "kept n b'"
    proof (rule kept_mono [OF assms(2)])
      fix k data
      assume "fs_lookup (mb_fs b) k = Some (Reg data)" "k = boxFile b ''in'' n"
      then show "\<exists>data. fs_lookup (mb_fs b') k = Some (Reg data)"
        using SetSent_lookup [OF step_SetSent, of k] below_boxFile by auto
    next
      fix k data
      assume k: "length (snd k) < length (snd (boxFile b ''in'' n))" "fs_lookup (mb_fs b') k = Some (Reg data)"
      have "\<not> below (boxFile b d (mid @ Ext)) k" for d
        using below_length [of "boxFile b d (mid @ Ext)" k] k(1) by auto
      then show "fs_lookup (mb_fs b) k = Some (Reg data)" using SetSent_lookup [OF step_SetSent, of k] k(2) by simp
    qed (simp add: h)
    then show ?thesis by (simp add: h)
  next
    case (step_SetDeferred mid)
    then show ?thesis using assms(2) by (auto simp: DirHandler_SetDeferred_def kept_def split: option.splits)
  next
    case (step_AddOut x e)
    note loc = locate_box_file(2) [OF good_mid_plain [OF step_AddOut(1)], of b]
    show ?thesis
    proof (cases "Bytes env x")
      case (Inl a)
      then show ?thesis using step_AddOut(2) assms(2) by (auto simp: AddOut_def)
    next
      case (Inr data)
      obtain e1 fs where w: "os_WriteFile (Join [MBoxPath (mb_handler b), DIR_OUTBOX, MID x @ Ext]) data (mb_fs b) = (e1, fs)" by fastforce
      then have "b' = b\<lparr>mb_fs := fs\<rparr>" using step_AddOut(2) Inr by (auto simp: AddOut_def split: option.splits)
      then show ?thesis using written_kept [OF assms(2) w] by (simp add: loc)
    qed
  next
    case (step_faults faults)
    then show ?thesis using assms(2) by (auto simp: kept_def fs_lookup_def fs_blocked_iff)
  qed
  then show "kept n b'" "MBoxPath (mb_handler b') = MBoxPath (mb_handler b)" "dh_sendOnly (mb_handler b') = dh_sendOnly (mb_handler b)" by blast+
qed



text \<open>C11. A message put into the outbox is proposed to the next station that is not a forwarder, as it was composed,
  without the headers that are private to the mailbox. It is so when the mailbox can be written and read, the message is
  neither deferred nor to be sent to a peer only, and its id does not make a hidden file.\<close>

theorem composed_message_offered:
  assumes "box_ready env b" "storable env x" "AddOut env x b = (None, b')" "Outbox env b' = Some (Inr all)"
    and "\<not> isDeferred b (MID x)" "MID x \<noteq> []" "hd (MID x) \<noteq> CHR ''.''" "Header_Get (m_header x) ''X-P2POnly'' \<noteq> ''true''"
  shows "\<exists>msgs y. DirHandler_GetOutbound env [] b' = Some msgs \<and> y \<in> set msgs \<and> public_copy x y"
  by (rule AddOut_offered [OF assms])

theorem composed_message_offered_witness:
  "\<exists>msgs y. DirHandler_GetOutbound example_gzip_env [] (snd (AddOut example_gzip_env example_mail example_box)) = Some msgs \<and> y \<in> set msgs \<and>
     public_copy example_mail y"
proof -
  obtain all where o: "Outbox example_gzip_env example_sender = Some (Inr all)" using example_outbox by blast
  have a: "AddOut example_gzip_env example_mail example_box = (None, example_sender)" by (rule example_sender_box)
  have "canonicalKey ''X-P2POnly'' = ''X-P2ponly''" by (rule private_keys)
  then have p: "Header_Get (m_header example_mail) ''X-P2POnly'' = []"
    by (simp add: Header_Get_def get_def h_values_def example_mail_def)
  show ?thesis
    unfolding example_sender_def [symmetric]
    by (rule composed_message_offered [OF example_box_ready example_mail_storable a o])
      (simp_all add: isDeferred_def example_box_handler example_mail_MID p)
qed

text \<open>C39. The message id of a received message is used as a file name as it is: a message with the id \<open>../out/Y\<close> is
  stored in the outbox, from where it is sent to the next station.\<close>

theorem inbound_reaches_outbox:
  assumes "DirHandler_ProcessInbound env [x] b = (None, b')" "MID x = ''../out/'' @ Y" "good_mid Y"
  shows "\<exists>data. Bytes env (in_header (Header_Set ''X-Unread'' ''true'') x) = Inr data \<and>
    fs_lookup (mb_fs b') (boxFile b ''out'' (Y @ Ext)) = Some (Reg data)"
proof -
  obtain data where d: "Bytes env (in_header (Header_Set ''X-Unread'' ''true'') x) = Inr data"
      "b' = b\<lparr>mb_fs := fs_set (locate (Join [MBoxPath (mb_handler b), DIR_INBOX, MID x @ Ext])) (Reg data) (mb_fs b)\<rparr>"
    using ProcessInbound_result [OF assms(1)] by auto
  let ?bl = "boxLoc (MBoxPath (mb_handler b))"
  have s: "Split (CHR ''/'') (MID x @ Ext) = [''..'', ''out'', Y @ Ext]"
    using assms(2,3) by (simp add: Split_none good_mid_def Ext_def)
  have p: "Y @ Ext \<noteq> []" "Y @ Ext \<noteq> ''.''" "Y @ Ext \<noteq> ''..''" using good_mid_plain [OF assms(3)] by (simp_all add: plain_name_def)
  have "locate (Join [MBoxPath (mb_handler b), DIR_INBOX, MID x @ Ext]) = (fst ?bl, resolve (fst ?bl) (rev (snd ?bl @ [''in''])) [''..'', ''out'', Y @ Ext])"
    using locate_Join_file [OF box_names(1), of DIR_INBOX "MID x @ Ext" "MBoxPath (mb_handler b)"] unfolding s by (simp add: DIR_INBOX_def Ext_def)
  also have "\<dots> = boxFile b ''out'' (Y @ Ext)" using p by simp
  finally show ?thesis using d by (simp add: fs_lookup_set)
qed

theorem inbound_reaches_outbox_witness:
  "\<exists>b' data. DirHandler_ProcessInbound example_env [example_intruder] example_box = (None, b') \<and>
     fs_lookup (mb_fs b') (True, [''m'', ''out'', ''A.b2f'']) = Some (Reg data)"
proof -
  have mid: "MID example_intruder = ''../out/A''"
    unfolding MID_def Header_Get_def by (simp add: get_def h_values_def example_intruder_def) (simp add: header_names)
  have "Header_Get (m_header (in_header (Header_Set ''X-Unread'' ''true'') example_intruder)) HEADER_DATE = []"
    by (simp add: Header_Get_def Header_Set_def private_keys) (simp add: get_def h_values_def example_intruder_def header_names)
  then obtain data where d: "Bytes example_env (in_header (Header_Set ''X-Unread'' ''true'') example_intruder) = Inr data"
    by (simp add: Bytes_def Message_Write_def ParseDate_def)
  let ?p = "Join [Join [''/m'', DIR_INBOX], ''../out/A.b2f'']"
  have "Split (CHR ''/'') ''../out/A.b2f'' = [''..'', ''out'', ''A.b2f'']" by simp
  then have l: "locate ?p = (True, [''m'', ''out'', ''A.b2f''])"
    using locate_inbox_twice [of "''../out/A.b2f''" example_box] locate_Join_file [OF box_names(1), of DIR_INBOX "''../out/A.b2f''" "''/m''"]
    by (simp add: example_box_handler example_loc DIR_INBOX_def)
  have "?p \<noteq> []" by (rule Join_nonempty) simp
  then obtain fs where "os_WriteFile ?p data (mb_fs example_box) = (None, fs)"
    by (simp add: os_WriteFile_def l Let_def example_box_fs fs_lookup_def fs_blocked_iff less_Suc_eq parent_def)
  then have w: "DirHandler_ProcessInbound example_env [example_intruder] example_box = (None, example_box\<lparr>mb_fs := fs\<rparr>)"
    using d mid by (simp add: example_box_handler Ext_def)
  show ?thesis using w inbound_reaches_outbox [OF w, of "''A''"] mid example_box_file by (auto simp: good_mid_def Ext_def)
qed

text \<open>For a station that forwards, the headers that are private to the mailbox are not removed: every proposed message
  tells the path of its file on the local disk.\<close>

theorem forwarded_tells_path:
  assumes "fws \<noteq> []" "DirHandler_GetOutbound env fws b = Some msgs" "y \<in> set msgs"
  shows "\<exists>name. Header_Get (m_header y) ''X-FilePath'' = Join [Join [MBoxPath (mb_handler b), DIR_OUTBOX], name]"
proof -
  let ?d = "Join [MBoxPath (mb_handler b), DIR_OUTBOX]"
  obtain r where r: "LoadMessageDir env ?d (mb_fs b) = Some r"
    using assms(2) by (auto simp: DirHandler_GetOutbound_def bind_eq_Some_conv)
  then obtain all where all: "r = Inr all" "y \<in> set all"
    using assms by (cases r) (auto simp: DirHandler_GetOutbound_def selectOutbound_def split: if_splits)
  obtain name where "OpenMessage env (Join [?d, name]) (mb_fs b) = Some (Inr y)"
    using loadFiles_members [OF outbox_read [of env b all] all(2)] r all(1) by auto
  then obtain m0 where "y = in_header (Header_Set ''X-FilePath'' (Join [?d, name])) m0" by (auto elim: OpenMessage_file)
  then show ?thesis by (auto simp: Header_Get_def get_def Header_Set_def h_values_update)
qed

theorem forwarded_tells_path_witness:
  "\<exists>y name. DirHandler_GetOutbound example_gzip_env [\<lparr>Proto = [], Addr = ''N0CALL''\<rparr>] example_sender = Some [y] \<and>
     Header_Get (m_header y) ''X-FilePath'' = Join [Join [''/m'', DIR_OUTBOX], name]"
proof -
  obtain h where h: "\<forall>k. h_values h k = h_values (m_header example_mail) k" "header_ok h"
    "Outbox example_gzip_env example_sender =
       Some (Inr [example_mail\<lparr>m_header := Header_Set ''X-FilePath'' (Join [Join [''/m'', DIR_OUTBOX], ''TJKYEIMMHSRB.b2f'']) h\<rparr>])"
    by (rule example_outbox)
  let ?y = "example_mail\<lparr>m_header := Header_Set ''X-FilePath'' (Join [Join [''/m'', DIR_OUTBOX], ''TJKYEIMMHSRB.b2f'']) h\<rparr>"
  have v: "h_values (m_header ?y) k = h_values (m_header example_mail) k" if "k \<noteq> ''X-Filepath''" for k
    using h(1) that by (simp add: Header_Set_def private_keys h_values_update)
  have "Receivers example_gzip_env ?y = [AddressFromString example_gzip_env ''N0CALL'']"
    unfolding Receivers_def To_def Cc_def using v [of HEADER_TO] v [of HEADER_CC] example_mail_fields(7)
    by (simp add: header_names) (simp add: h_values_def example_mail_def)
  moreover have "ToUpper example_gzip_env ''N0CALL'' = ''N0CALL''"
    by (simp add: ToUpper_ascii ascii_def upperChar_def isLower_def)
  then have "AddressFromString example_gzip_env ''N0CALL'' = \<lparr>Proto = [], Addr = ''N0CALL''\<rparr>" by (simp add: AddressFromString_def)
  ultimately have "IsOnlyReceiver example_gzip_env \<lparr>Proto = [], Addr = ''N0CALL''\<rparr> ?y" by (simp add: IsOnlyReceiver_def EqualFoldU_def)
  then have g: "DirHandler_GetOutbound example_gzip_env [\<lparr>Proto = [], Addr = ''N0CALL''\<rparr>] example_sender = Some [?y]"
    using h(3) by (simp add: DirHandler_GetOutbound_def Outbox_def selectOutbound_def isDeferred_def example_sender_handler example_box_handler)
  show ?thesis using g forwarded_tells_path [OF _ g, of ?y] by (auto simp: example_sender_handler example_box_handler)
qed

end
