(* ===== verification/Agwpe_Frame.thy ===== *)
theory Agwpe_Frame
  imports Go_Strings
begin

unbundle bit_operations_syntax

text \<open>
  The frames of the AGWPE protocol (\<^verbatim>\<open>src/transport/ax25/agwpe/frame.go\<close>, \<^verbatim>\<open>frame_kinds.go\<close>): a header of 36 bytes and data of
  the length the header tells. The TCP connection to the TNC delivers its bytes in segments; one \<open>Read\<close> returns bytes of one
  segment only. After the last segment comes an error, which is \<open>NetEOF\<close> when the other side has closed the connection.
\<close>

section \<open>Callsigns and strings\<close>

text \<open>An array of ten bytes.\<close>

type_synonym callsign = string

definition zero_callsign :: callsign where
  "zero_callsign = replicate 10 NUL"

text \<open>\<open>copy\<close> of a string into a zeroed array of \<open>n\<close> bytes.\<close>

definition copyInto :: "nat \<Rightarrow> string \<Rightarrow> string" where
  "copyInto n s = take n s @ replicate (n - length s) NUL"

definition callsignFromString :: "string \<Rightarrow> callsign" where
  "callsignFromString s = copyInto 10 s"

definition strFromBytes :: "string \<Rightarrow> string" where
  "strFromBytes b = takeWhile (\<lambda>c. c \<noteq> NUL) b"

definition callsign_String :: "callsign \<Rightarrow> string" where
  "callsign_String c = strFromBytes c"

section \<open>Headers and frames\<close>

record header =
  Port :: byte
  DataKind :: char
  PID :: byte
  From :: callsign
  To :: callsign
  DataLen :: "32 word"

record frame = header +
  Data :: string

definition zero_frame :: frame where
  "zero_frame = \<lparr>Port = 0, DataKind = NUL, PID = 0, From = zero_callsign, To = zero_callsign, DataLen = 0, Data = []\<rparr>"

abbreviation zeros :: "nat \<Rightarrow> string" where
  "zeros n \<equiv> replicate n NUL"

text \<open>\<^verbatim>\<open>binary.Write\<close> of the struct: the blank fields are zeros.\<close>

definition headerBytes :: "'a header_scheme \<Rightarrow> string" where
  "headerBytes h = of_bytes [Port h] @ zeros 3 @ [DataKind h] @ zeros 1 @ of_bytes [PID h] @ zeros 1 @ From h @ To h @
     of_bytes (le32 (DataLen h)) @ zeros 4"

definition headerSize :: nat where "headerSize = 36"

text \<open>\<^verbatim>\<open>binary.Read\<close> of the struct from its 36 bytes: the blank fields are skipped.\<close>

definition readHeader :: "string \<Rightarrow> frame \<Rightarrow> frame" where
  "readHeader bs f = f\<lparr>Port := to_bytes bs ! 0, DataKind := bs ! 4, PID := to_bytes bs ! 6, From := take 10 (drop 8 bs),
     To := take 10 (drop 18 bs), DataLen := of_le32 (to_bytes (take 4 (drop 28 bs)))\<rparr>"

section \<open>The connection to the TNC\<close>

datatype net_err = NetEOF | NetUnexpectedEOF | NetErr string

text \<open>What is still to come on a connection, what has been written to it, and the error that writing returns.\<close>

record tncConn =
  tc_segs :: "string list"
  tc_end :: net_err
  tc_out :: string
  tc_fail :: "net_err option"

text \<open>One \<open>Read\<close> into a slice of length \<open>n\<close>.\<close>

definition net_Read :: "nat \<Rightarrow> tncConn \<Rightarrow> (net_err + string) \<times> tncConn" where
  "net_Read n c =
     (if n = 0 then (Inr [], c)
      else case tc_segs c of
        [] \<Rightarrow> (Inl (tc_end c), c)
      | s # ss \<Rightarrow> if length s \<le> n then (Inr s, c\<lparr>tc_segs := ss\<rparr>) else (Inr (take n s), c\<lparr>tc_segs := drop n s # ss\<rparr>))"

text \<open>\<^verbatim>\<open>io.ReadFull\<close>: reads until the slice is full.\<close>

fun readFull :: "nat \<Rightarrow> string \<Rightarrow> string list \<Rightarrow> net_err \<Rightarrow> (net_err + string) \<times> string list" where
  "readFull n acc [] e =
     (if n \<le> length acc then Inr acc else if e = NetEOF \<and> acc \<noteq> [] then Inl NetUnexpectedEOF else Inl e, [])"
| "readFull n acc (s # ss) e =
     (if n \<le> length acc then (Inr acc, s # ss)
      else if length s \<le> n - length acc then readFull n (acc @ s) ss e
      else (Inr (acc @ take (n - length acc) s), drop (n - length acc) s # ss))"

definition net_Write :: "string \<Rightarrow> tncConn \<Rightarrow> (nat \<times> net_err option) \<times> tncConn" where
  "net_Write bs c =
     (case tc_fail c of
        Some e \<Rightarrow> ((0, Some e), c)
      | None \<Rightarrow> ((length bs, None), c\<lparr>tc_out := tc_out c @ bs\<rparr>))"

section \<open>Writing and reading\<close>

definition header_WriteTo :: "'a header_scheme \<Rightarrow> tncConn \<Rightarrow> (nat \<times> net_err option) \<times> tncConn" where
  "header_WriteTo h c = (case net_Write (headerBytes h) c of ((n, e), c) \<Rightarrow> ((headerSize, e), c))"

definition header_ReadFrom :: "frame \<Rightarrow> tncConn \<Rightarrow> (nat \<times> net_err option) \<times> frame \<times> tncConn" where
  "header_ReadFrom f c =
     (case readFull headerSize [] (tc_segs c) (tc_end c) of
        (Inl e, ss) \<Rightarrow> ((headerSize, Some e), f, c\<lparr>tc_segs := ss\<rparr>)
      | (Inr bs, ss) \<Rightarrow> ((headerSize, None), readHeader bs f, c\<lparr>tc_segs := ss\<rparr>))"

definition frame_WriteTo :: "frame \<Rightarrow> tncConn \<Rightarrow> (nat \<times> net_err option) \<times> tncConn" where
  "frame_WriteTo f c =
     (let f = f\<lparr>DataLen := of_nat (length (Data f))\<rparr> in
      case header_WriteTo f c of
        ((n, Some e), c) \<Rightarrow> ((n, Some e), c)
      | ((n, None), c) \<Rightarrow> (case net_Write (Data f) c of ((m, e), c) \<Rightarrow> ((n + m, e), c)))"

text \<open>The receiver is a new frame, whose data has no room yet: a slice of \<open>DataLen\<close> zeros is made and read into once.\<close>

definition frame_ReadFrom :: "tncConn \<Rightarrow> (nat \<times> net_err option) \<times> frame \<times> tncConn" where
  "frame_ReadFrom c =
     (case header_ReadFrom zero_frame c of
        ((n, Some e), f, c) \<Rightarrow> ((n, Some e), f, c)
      | ((n, None), f, c) \<Rightarrow>
          (let len = unat (DataLen f) in
           case net_Read len c of
             (Inl e, c) \<Rightarrow> ((n, Some e), f\<lparr>Data := zeros len\<rparr>, c)
           | (Inr d, c) \<Rightarrow>
               let f = f\<lparr>Data := d @ zeros (len - length d)\<rparr> in
               if length d \<noteq> len then ((n + length d, Some NetUnexpectedEOF), f, c)
               else ((n + length d, None), f, c)))"

section \<open>The kinds of frames\<close>

definition kindLogin :: char where "kindLogin = CHR ''P''"
definition kindRegister :: char where "kindRegister = CHR ''X''"
definition kindUnregister :: char where "kindUnregister = CHR ''x''"
definition kindVersionNumber :: char where "kindVersionNumber = CHR ''R''"
definition kindOutstandingFramesForPort :: char where "kindOutstandingFramesForPort = CHR ''y''"
definition kindPortCapabilities :: char where "kindPortCapabilities = CHR ''g''"
definition kindConnect :: char where "kindConnect = CHR ''C''"
definition kindConnectVia :: char where "kindConnectVia = CHR ''v''"
definition kindDisconnect :: char where "kindDisconnect = CHR ''d''"
definition kindConnectedData :: char where "kindConnectedData = CHR ''D''"
definition kindOutstandingFramesForConn :: char where "kindOutstandingFramesForConn = CHR ''Y''"
definition kindUnprotoInformation :: char where "kindUnprotoInformation = CHR ''M''"

lemmas kinds = kindLogin_def kindRegister_def kindUnregister_def kindVersionNumber_def kindOutstandingFramesForPort_def
  kindPortCapabilities_def kindConnect_def kindConnectVia_def kindDisconnect_def kindConnectedData_def
  kindOutstandingFramesForConn_def kindUnprotoInformation_def

definition versionNumberFrame :: frame where
  "versionNumberFrame = zero_frame\<lparr>DataKind := kindVersionNumber\<rparr>"

definition portCapabilitiesFrame :: "byte \<Rightarrow> frame" where
  "portCapabilitiesFrame port = zero_frame\<lparr>Port := port, DataKind := kindPortCapabilities\<rparr>"

definition connectedDataFrame :: "byte \<Rightarrow> string \<Rightarrow> string \<Rightarrow> string \<Rightarrow> frame" where
  "connectedDataFrame port from to data =
     zero_frame\<lparr>Port := port, DataKind := kindConnectedData, PID := 0xf0, From := callsignFromString from, To := callsignFromString to,
       DataLen := of_nat (length data), Data := data\<rparr>"

definition outstandingFramesForConnFrame :: "byte \<Rightarrow> string \<Rightarrow> string \<Rightarrow> frame" where
  "outstandingFramesForConnFrame port from to =
     zero_frame\<lparr>Port := port, DataKind := kindOutstandingFramesForConn, From := callsignFromString from, To := callsignFromString to\<rparr>"

definition outstandingFramesForPortFrame :: "byte \<Rightarrow> frame" where
  "outstandingFramesForPortFrame port = zero_frame\<lparr>Port := port, DataKind := kindOutstandingFramesForPort\<rparr>"

definition loginFrame :: "string \<Rightarrow> string \<Rightarrow> frame" where
  "loginFrame username password = zero_frame\<lparr>DataKind := kindLogin, Data := copyInto 255 username @ copyInto 255 password\<rparr>"

definition registerCallsignFrame :: "string \<Rightarrow> byte \<Rightarrow> frame" where
  "registerCallsignFrame callsign port = zero_frame\<lparr>DataKind := kindRegister, Port := port, From := copyInto 10 callsign\<rparr>"

definition unregisterCallsignFrame :: "string \<Rightarrow> byte \<Rightarrow> frame" where
  "unregisterCallsignFrame callsign port = zero_frame\<lparr>DataKind := kindUnregister, From := copyInto 10 callsign\<rparr>"

definition connectViaFrame :: "string \<Rightarrow> string \<Rightarrow> byte \<Rightarrow> string list \<Rightarrow> frame" where
  "connectViaFrame from to port digis =
     zero_frame\<lparr>DataKind := kindConnectVia, From := callsignFromString from, To := callsignFromString to,
       Data := of_bytes [of_nat (length digis)] @ concat (map callsignFromString digis)\<rparr>"

definition connectFrame :: "string \<Rightarrow> string \<Rightarrow> byte \<Rightarrow> string list \<Rightarrow> frame" where
  "connectFrame from to port digis =
     (if digis \<noteq> [] then connectViaFrame from to port digis
      else zero_frame\<lparr>DataKind := kindConnect, From := callsignFromString from, To := callsignFromString to\<rparr>)"

definition unprotoInformationFrame :: "string \<Rightarrow> string \<Rightarrow> byte \<Rightarrow> string \<Rightarrow> frame" where
  "unprotoInformationFrame from to port data =
     zero_frame\<lparr>DataKind := kindUnprotoInformation, From := callsignFromString from, To := callsignFromString to, Data := data\<rparr>"

definition disconnectFrame :: "string \<Rightarrow> string \<Rightarrow> byte \<Rightarrow> frame" where
  "disconnectFrame from to port = zero_frame\<lparr>DataKind := kindDisconnect, From := copyInto 10 from, To := copyInto 10 to\<rparr>"

lemmas frame_makers = versionNumberFrame_def portCapabilitiesFrame_def connectedDataFrame_def outstandingFramesForConnFrame_def
  outstandingFramesForPortFrame_def loginFrame_def registerCallsignFrame_def unregisterCallsignFrame_def connectViaFrame_def
  connectFrame_def unprotoInformationFrame_def disconnectFrame_def

section \<open>The bytes of a frame\<close>

definition frame_ok :: "frame \<Rightarrow> bool" where
  "frame_ok f \<longleftrightarrow> length (From f) = 10 \<and> length (To f) = 10 \<and> length (Data f) < 2 ^ 32 \<and> unat (DataLen f) = length (Data f)"

definition frameBytes :: "frame \<Rightarrow> string" where
  "frameBytes f = headerBytes (f\<lparr>DataLen := of_nat (length (Data f))\<rparr>) @ Data f"

lemma length_copyInto [simp]: "length (copyInto n s) = n"
  by (simp add: copyInto_def)

lemma length_headerBytes: "length (From h) = 10 \<Longrightarrow> length (To h) = 10 \<Longrightarrow> length (headerBytes h) = headerSize"
  by (simp add: headerBytes_def headerSize_def)

lemma byte_mod: "unat (b :: byte) mod 256 = unat b"
  using unsigned_less [of b, where 'a = nat] by simp

lemma readHeader_headerBytes:
  assumes "length (From f) = 10" "length (To f) = 10"
  shows "readHeader (headerBytes f) g = g\<lparr>Port := Port f, DataKind := DataKind f, PID := PID f, From := From f, To := To f, DataLen := DataLen f\<rparr>"
proof -
  let ?b = "headerBytes f"
  have b: "?b = of_bytes [Port f] @ [NUL, NUL, NUL, DataKind f, NUL] @ of_bytes [PID f] @ [NUL] @ From f @ To f @ of_bytes (le32 (DataLen f)) @ zeros 4"
    by (simp add: headerBytes_def numeral_3_eq_3 numeral_eq_Suc)
  have 1: "to_bytes ?b ! 0 = Port f" "?b ! 4 = DataKind f" "to_bytes ?b ! 6 = PID f"
    unfolding b by (simp_all add: to_bytes_def of_bytes_def of_char_of byte_mod)
  have 2: "take 10 (drop 8 ?b) = From f" "take 10 (drop 18 ?b) = To f" "take 4 (drop 28 ?b) = of_bytes (le32 (DataLen f))"
    unfolding b using assms by (simp_all add: of_bytes_def)
  show ?thesis unfolding readHeader_def 1 2 by (simp add: of_le32_le32)
qed

lemma frame_WriteTo_bytes:
  "tc_fail c = None \<Longrightarrow> frame_WriteTo f c = ((headerSize + length (Data f), None), c\<lparr>tc_out := tc_out c @ frameBytes f\<rparr>)"
  by (simp add: frame_WriteTo_def header_WriteTo_def net_Write_def frameBytes_def Let_def)

section \<open>Reading from segments\<close>

text \<open>What is left of a list of segments after \<open>n\<close> bytes.\<close>

fun dropBytes :: "nat \<Rightarrow> string list \<Rightarrow> string list" where
  "dropBytes n [] = []"
| "dropBytes n (s # ss) = (if n = 0 then s # ss else if length s \<le> n then dropBytes (n - length s) ss else drop n s # ss)"

lemma concat_dropBytes: "concat (dropBytes n ss) = drop n (concat ss)"
  by (induction n ss rule: dropBytes.induct) auto

lemma readFull_ok:
  "length acc \<le> n \<Longrightarrow> n - length acc \<le> length (concat ss) \<Longrightarrow>
   readFull n acc ss e = (Inr (acc @ take (n - length acc) (concat ss)), dropBytes (n - length acc) ss)"
proof (induction n acc ss e rule: readFull.induct)
  case (2 n acc s ss e)
  show ?case
  proof (cases "length s \<le> n - length acc \<and> \<not> n \<le> length acc")
    case True
    then have "readFull n (acc @ s) ss e = (Inr ((acc @ s) @ take (n - length (acc @ s)) (concat ss)), dropBytes (n - length (acc @ s)) ss)"
      using 2(1) [of] 2(2,3) True by simp linarith
    then show ?thesis using True by simp
  qed (use 2 in auto)
qed simp

text \<open>The data of every frame comes in one segment, as the single \<open>Read\<close> expects it.\<close>

fun arrives :: "frame list \<Rightarrow> string list \<Rightarrow> bool" where
  "arrives [] ss = True"
| "arrives (f # fs) ss =
     (let ss = dropBytes headerSize ss in
      (Data f = [] \<or> (case ss of [] \<Rightarrow> False | s # _ \<Rightarrow> length (Data f) \<le> length s)) \<and> arrives fs (dropBytes (length (Data f)) ss))"

lemma dropBytes_0 [simp]: "dropBytes 0 ss = ss"
  by (cases ss) simp_all

lemma frame_ReadFrom_ok:
  assumes f: "frame_ok f" and c: "concat (tc_segs c) = frameBytes f @ rest" and a: "arrives (f # fs) (tc_segs c)"
  shows "frame_ReadFrom c = ((headerSize + length (Data f), None), f, c\<lparr>tc_segs := dropBytes (length (Data f)) (dropBytes headerSize (tc_segs c))\<rparr>)"
proof -
  have len: "length (headerBytes f) = headerSize" using f by (simp add: frame_ok_def length_headerBytes)
  have DL: "DataLen f = of_nat (length (Data f))" using f unfolding frame_ok_def by (metis of_nat_unat ucast_id)
  then have fb: "frameBytes f = headerBytes f @ Data f" by (simp add: frameBytes_def headerBytes_def)
  let ?ss = "dropBytes headerSize (tc_segs c)"
  have full: "readFull headerSize [] (tc_segs c) (tc_end c) = (Inr (headerBytes f), ?ss)"
    using readFull_ok [of "[]" headerSize "tc_segs c" "tc_end c"] c fb len by simp
  let ?g = "zero_frame\<lparr>Port := Port f, DataKind := DataKind f, PID := PID f, From := From f, To := To f, DataLen := DataLen f\<rparr>"
  have h: "header_ReadFrom zero_frame c = ((headerSize, None), ?g, c\<lparr>tc_segs := ?ss\<rparr>)"
    using full f by (simp add: header_ReadFrom_def readHeader_headerBytes frame_ok_def)
  have d: "concat ?ss = Data f @ rest" using c fb len by (simp add: concat_dropBytes)
  have r: "net_Read (length (Data f)) (c\<lparr>tc_segs := ?ss\<rparr>) = (Inr (Data f), c\<lparr>tc_segs := dropBytes (length (Data f)) ?ss\<rparr>)"
  proof (cases "Data f = []")
    case False
    then obtain s ss where s: "?ss = s # ss" "length (Data f) \<le> length s" using a by (auto simp: Let_def split: list.splits)
    then have "take (length (Data f)) s = Data f" using d by (metis append_eq_conv_conj concat.simps(2) take_append diff_is_0_eq take0 append_Nil2)
    then show ?thesis using s False by (auto simp: net_Read_def)
  qed (simp add: net_Read_def)
  have "?g\<lparr>Data := Data f\<rparr> = f" by (simp add: zero_frame_def)
  moreover have "unat (DataLen f) = length (Data f)" using f by (simp add: frame_ok_def)
  ultimately show ?thesis unfolding frame_ReadFrom_def h using r by (simp add: Let_def)
qed

text \<open>\<open>TNC.run\<close> reads frames until a read fails; the frames go to the demultiplexer.\<close>

lemma readFull_shorter: "readFull n acc ss e = (Inr bs, ss') \<Longrightarrow> length acc < n \<Longrightarrow> length (concat ss') < length (concat ss)"
proof (induction n acc ss e rule: readFull.induct)
  case (2 n acc s ss e)
  show ?case
  proof (cases "length s \<le> n - length acc")
    case True
    then have r: "readFull n (acc @ s) ss e = (Inr bs, ss')" using 2(2,3) by simp
    show ?thesis
    proof (cases "length (acc @ s) < n")
      case l: True
      then show ?thesis using 2(1) [OF _ True r] 2(3) by simp
    next
      case False
      then have "ss' = ss" using r by (cases ss) auto
      then show ?thesis using False 2(3) by (cases s) simp_all
    qed
  next
    case False
    then show ?thesis using 2(2,3) by auto
  qed
qed (simp split: if_splits)

lemma net_Read_shorter: "net_Read n c = (r, c') \<Longrightarrow> length (concat (tc_segs c')) \<le> length (concat (tc_segs c))"
  by (auto simp: net_Read_def split: if_splits list.splits)

lemma frame_ReadFrom_shorter:
  "frame_ReadFrom c = ((n, None), f, c') \<Longrightarrow> length (concat (tc_segs c')) < length (concat (tc_segs c))"
proof -
  assume a: "frame_ReadFrom c = ((n, None), f, c')"
  then obtain g c1 where h: "header_ReadFrom zero_frame c = ((headerSize, None), g, c1)"
      "\<exists>d. net_Read (unat (DataLen g)) c1 = (Inr d, c')"
    by (auto simp: frame_ReadFrom_def header_ReadFrom_def Let_def split: prod.splits sum.splits if_splits)
  then have "length (concat (tc_segs c1)) < length (concat (tc_segs c))"
    using readFull_shorter [of headerSize "[]" "tc_segs c" "tc_end c"]
    by (auto simp: header_ReadFrom_def headerSize_def split: prod.splits sum.splits)
  then show ?thesis using h(2) net_Read_shorter by fastforce
qed

function readFrames :: "tncConn \<Rightarrow> frame list \<times> net_err" where
  "readFrames c =
     (case frame_ReadFrom c of
        ((n, Some e), f, c) \<Rightarrow> ([], e)
      | ((n, None), f, c) \<Rightarrow> (case readFrames c of (fs, e) \<Rightarrow> (f # fs, e)))"
  by pat_completeness auto
termination
  by (relation "measure (\<lambda>c. length (concat (tc_segs c)))") (auto dest!: sym [of "((_, _), _, _)"] frame_ReadFrom_shorter)

declare readFrames.simps [simp del]

lemma readFull_nothing: "concat ss = [] \<Longrightarrow> 0 < n \<Longrightarrow> readFull n [] ss e = (Inl e, [])"
  by (induction ss) auto

lemma readFrames_ok:
  "\<forall>f \<in> set fs. frame_ok f \<Longrightarrow> concat (tc_segs c) = concat (map frameBytes fs) \<Longrightarrow> arrives fs (tc_segs c) \<Longrightarrow> readFrames c = (fs, tc_end c)"
proof (induction fs arbitrary: c)
  case Nil
  then show ?case by (subst readFrames.simps) (simp add: frame_ReadFrom_def header_ReadFrom_def readFull_nothing headerSize_def)
next
  case (Cons f fs)
  let ?ss = "dropBytes (length (Data f)) (dropBytes headerSize (tc_segs c))"
  have r: "frame_ReadFrom c = ((headerSize + length (Data f), None), f, c\<lparr>tc_segs := ?ss\<rparr>)"
    using frame_ReadFrom_ok [of f c _ fs] Cons.prems by simp
  have "length (frameBytes f) = headerSize + length (Data f)"
    using Cons.prems(1) by (simp add: frame_ok_def frameBytes_def length_headerBytes)
  then have "concat ?ss = concat (map frameBytes fs)" using Cons.prems(2) by (simp add: concat_dropBytes add.commute)
  then have "readFrames (c\<lparr>tc_segs := ?ss\<rparr>) = (fs, tc_end c)" using Cons.IH [of "c\<lparr>tc_segs := ?ss\<rparr>"] Cons.prems by (simp add: Let_def)
  then show ?case using r by (subst readFrames.simps) simp
qed

definition writeFrames :: "frame list \<Rightarrow> tncConn \<Rightarrow> tncConn" where
  "writeFrames fs c = fold (\<lambda>f c. snd (frame_WriteTo f c)) fs c"

lemma writeFrames_bytes: "tc_fail c = None \<Longrightarrow> writeFrames fs c = c\<lparr>tc_out := tc_out c @ concat (map frameBytes fs)\<rparr>"
  unfolding writeFrames_def by (induction fs arbitrary: c) (simp_all add: frame_WriteTo_bytes)

section \<open>Properties\<close>

text \<open>C21. AGWPE frames written to a connection are read back by the other side as they were written, in order, if the network
  delivers the data of every frame in one piece; the headers may be cut anywhere. Then the error of the connection follows.\<close>

theorem frames_roundtrip:
  assumes "\<forall>f \<in> set fs. frame_ok f" "tc_fail w = None" "tc_out (writeFrames fs w) = tc_out w @ concat (tc_segs r)" "arrives fs (tc_segs r)"
  shows "readFrames r = (fs, tc_end r)"
  using readFrames_ok [OF assms(1) _ assms(4)] writeFrames_bytes [OF assms(2), of fs] assms(3) by simp

theorem frames_roundtrip_witness:
  "readFrames \<lparr>tc_segs = [take 5 (frameBytes (connectedDataFrame 1 ''LA5NTA'' ''N0CALL'' ''Hi'')), drop 5 (frameBytes (connectedDataFrame 1 ''LA5NTA'' ''N0CALL'' ''Hi''))],
     tc_end = NetEOF, tc_out = [], tc_fail = None\<rparr> = ([connectedDataFrame 1 ''LA5NTA'' ''N0CALL'' ''Hi''], NetEOF)"
proof -
  let ?f = "connectedDataFrame 1 ''LA5NTA'' ''N0CALL'' ''Hi''" let ?w = "\<lparr>tc_segs = [], tc_end = NetEOF, tc_out = [], tc_fail = None\<rparr>"
  have ok: "frame_ok ?f" by (simp add: frame_ok_def connectedDataFrame_def callsignFromString_def)
  have l: "length (frameBytes ?f) = 38" "Data ?f = ''Hi''" by (simp_all add: frameBytes_def headerBytes_def connectedDataFrame_def callsignFromString_def)
  show ?thesis
    using frames_roundtrip [of "[?f]" ?w "?w\<lparr>tc_segs := [take 5 (frameBytes ?f), drop 5 (frameBytes ?f)]\<rparr>"] ok l
    by (simp add: writeFrames_bytes headerSize_def)
qed

text \<open>A frame whose data comes in two pieces is an error: the single \<open>Read\<close> gets the first piece only, \<open>ReadFrom\<close> reports an
  unexpected end of the file, and \<open>TNC.run\<close> gives up with nothing of the frame or of what follows delivered.\<close>

theorem split_frame_lost:
  assumes "frame_ok f" "Data f = a @ b" "a \<noteq> []" "b \<noteq> []" "tc_segs c = headerBytes f # a # rest"
  shows "readFrames c = ([], NetUnexpectedEOF)"
proof -
  have len: "length (headerBytes f) = headerSize" using assms(1) by (simp add: frame_ok_def length_headerBytes)
  have "readFull headerSize [] (tc_segs c) (tc_end c) = (Inr (headerBytes f), a # rest)" using assms(5) len by (simp add: headerSize_def)
  then have "header_ReadFrom zero_frame c = ((headerSize, None), zero_frame\<lparr>Port := Port f, DataKind := DataKind f, PID := PID f, From := From f, To := To f,
      DataLen := DataLen f\<rparr>, c\<lparr>tc_segs := a # rest\<rparr>)"
    using assms(1) by (simp add: header_ReadFrom_def readHeader_headerBytes frame_ok_def)
  moreover have "unat (DataLen f) = length a + length b" "0 < length b" using assms(1,2,4) by (simp_all add: frame_ok_def)
  ultimately show ?thesis using assms(3) by (subst readFrames.simps) (simp add: frame_ReadFrom_def net_Read_def Let_def)
qed

theorem split_frame_lost_witness:
  "readFrames \<lparr>tc_segs = [headerBytes (connectedDataFrame 0 ''LA5NTA'' ''N0CALL'' ''Hi''), ''H'', ''i''], tc_end = NetEOF, tc_out = [], tc_fail = None\<rparr> =
     ([], NetUnexpectedEOF)"
proof -
  let ?f = "connectedDataFrame 0 ''LA5NTA'' ''N0CALL'' ''Hi''"
  have "frame_ok ?f" by (simp add: frame_ok_def connectedDataFrame_def callsignFromString_def)
  then show ?thesis
    using split_frame_lost [of ?f "''H''" "''i''" "\<lparr>tc_segs = [headerBytes ?f, ''H'', ''i''], tc_end = NetEOF, tc_out = [], tc_fail = None\<rparr>" "[''i'']"]
    by (simp add: connectedDataFrame_def)
qed

end
