(* ===== verification/Agwpe_Demux.thy ===== *)
theory Agwpe_Demux
  imports Agwpe_Frame "HOL-Library.Sublist"
begin

text \<open>
  The demultiplexer of frames (\<^verbatim>\<open>src/transport/ax25/agwpe/demux.go\<close>). A goroutine \<open>run\<close> takes frames from the channel
  \<open>in\<close> and sends each to the clients that want it; \<open>Enqueue\<close>, \<open>Close\<close>, \<open>NextFrame\<close>, \<open>Frames\<close> and \<open>Cancel\<close> are called from
  other goroutines. The state is what the goroutines share; every operation and every step of \<open>run\<close> is a function of it, and
  \<open>demux_step\<close> interleaves them in any order. An operation that would block has no step.

  The requests ever made are kept in \<open>dx_reqs\<close>, and a channel is the number of its request. Three fields are not in the code
  and only record what happened: the frames taken from \<open>in\<close> (\<open>dx_log\<close>), how many of them there were when a request was made
  (\<open>rq_start\<close>), and the frames that were read from a channel (\<open>rq_got\<close>). That a goroutine waits at an empty channel, which allows a
  send without a buffer, is the field \<open>rq_reading\<close>. The mutex is left out: it only excludes some of the interleavings.
\<close>

section \<open>Filters\<close>

record framesFilter =
  ff_kinds :: "char list"
  ff_port :: "byte option"
  ff_call :: callsign
  ff_to :: callsign

definition any_frame :: framesFilter where
  "any_frame = \<lparr>ff_kinds = [], ff_port = None, ff_call = zero_callsign, ff_to = zero_callsign\<rparr>"

definition Want :: "'a framesFilter_scheme \<Rightarrow> frame \<Rightarrow> bool" where
  "Want r f =
     (if (case ff_port r of None \<Rightarrow> False | Some p \<Rightarrow> p \<noteq> Port f) then False
      else if ff_call r \<noteq> zero_callsign \<and> \<not> (ff_call r = From f \<or> ff_call r = To f) then False
      else if ff_to r \<noteq> zero_callsign \<and> ff_to r \<noteq> To f then False
      else if ff_kinds r = [] then True
      else DataKind f \<in> set (ff_kinds r))"

section \<open>Requests\<close>

record framesReq = framesFilter +
  rq_once :: bool
  rq_done :: bool
  rq_resp :: "frame list"
  rq_size :: nat
  rq_closed :: bool
  rq_reading :: bool
  rq_got :: "frame list"
  rq_start :: nat

definition newFramesReq :: "nat \<Rightarrow> framesFilter \<Rightarrow> framesReq" where
  "newFramesReq bufSize flt = framesFilter.extend flt
     \<lparr>rq_once = False, rq_done = False, rq_resp = [], rq_size = bufSize, rq_closed = False, rq_reading = False, rq_got = [], rq_start = 0\<rparr>"

text \<open>Everything that was sent on the channel of a request.\<close>

definition sent_to :: "framesReq \<Rightarrow> frame list" where
  "sent_to r = rq_got r @ rq_resp r"

section \<open>The demultiplexer\<close>

datatype runState = Waiting | Matching frame nat | Exited

record demux =
  dx_closed :: bool
  dx_in :: "frame list"
  dx_reqs :: "framesReq list"
  dx_clients :: "nat list"
  dx_run :: runState
  dx_log :: "frame list"

definition newDemux :: demux where
  "newDemux = \<lparr>dx_closed = False, dx_in = [], dx_reqs = [], dx_clients = [], dx_run = Waiting, dx_log = []\<rparr>"

definition isClosed :: "demux \<Rightarrow> bool" where
  "isClosed d = dx_closed d"

definition demux_Close :: "demux \<Rightarrow> demux" where
  "demux_Close d = (if dx_closed d then d else d\<lparr>dx_closed := True\<rparr>)"

text \<open>The channel \<open>in\<close> has room for one frame. A frame that does not fit is dropped, and the caller is told that all is well.\<close>

definition Enqueue :: "frame \<Rightarrow> demux \<Rightarrow> bool \<times> demux" where
  "Enqueue f d =
     (if dx_closed d then (False, d)
      else if length (dx_in d) < 1 then (True, d\<lparr>dx_in := dx_in d @ [f]\<rparr>)
      else (True, d))"

text \<open>A channel: closed from the start, none at all, or that of a request.\<close>

datatype channel = ClosedChan | NilChan | Chan nat

text \<open>\<open>d.requests <- req\<close> meets \<open>case c := <-d.requests\<close> of \<open>run\<close>: both wait for each other.\<close>

definition sendRequest :: "framesReq \<Rightarrow> demux \<Rightarrow> demux option" where
  "sendRequest req d =
     (if dx_run d = Waiting
      then Some (d\<lparr>dx_reqs := dx_reqs d @ [req\<lparr>rq_start := length (dx_log d)\<rparr>], dx_clients := dx_clients d @ [length (dx_reqs d)]\<rparr>)
      else None)"

definition NextFrame :: "char list \<Rightarrow> demux \<Rightarrow> (channel \<times> demux) option" where
  "NextFrame ks d =
     (if dx_closed d then Some (ClosedChan, d)
      else let req = (newFramesReq 1 (any_frame\<lparr>ff_kinds := ks\<rparr>))\<lparr>rq_once := True\<rparr> in
        do { d' \<leftarrow> sendRequest req d; Some (Chan (length (dx_reqs d)), d') })"

definition Frames :: "nat \<Rightarrow> framesFilter \<Rightarrow> demux \<Rightarrow> (channel \<times> demux) option" where
  "Frames bufSize flt d =
     (if dx_closed d then Some (NilChan, d)
      else let req = (newFramesReq bufSize flt)\<lparr>rq_once := False\<rparr> in
        do { d' \<leftarrow> sendRequest req d; Some (Chan (length (dx_reqs d)), d') })"

text \<open>A change of one request.\<close>

definition onReq :: "nat \<Rightarrow> (framesReq \<Rightarrow> framesReq) \<Rightarrow> demux \<Rightarrow> demux" where
  "onReq k g d = d\<lparr>dx_reqs := (dx_reqs d)[k := g (dx_reqs d ! k)]\<rparr>"

text \<open>Closing a channel for the second time panics.\<close>

definition Cancel :: "nat \<Rightarrow> demux \<Rightarrow> demux option" where
  "Cancel k d = (if rq_done (dx_reqs d ! k) then None else Some (onReq k (\<lambda>r. r\<lparr>rq_done := True\<rparr>) d))"

text \<open>Reading from the channel of a request: a frame, or that it is closed and empty. Else the reader waits at the channel,
  which \<open>rq_reading\<close> records.\<close>

definition awaitFrame :: "nat \<Rightarrow> demux \<Rightarrow> demux option" where
  "awaitFrame k d =
     (let r = dx_reqs d ! k in
      if rq_resp r = [] \<and> \<not> rq_closed r then Some (onReq k (\<lambda>r. r\<lparr>rq_reading := True\<rparr>) d) else None)"

definition receive :: "nat \<Rightarrow> demux \<Rightarrow> (frame option \<times> demux) option" where
  "receive k d =
     (let r = dx_reqs d ! k in
      case rq_resp r of
        f # fs \<Rightarrow> Some (Some f, onReq k (\<lambda>r. r\<lparr>rq_resp := fs, rq_reading := False, rq_got := rq_got r @ [f]\<rparr>) d)
      | [] \<Rightarrow> if rq_closed r then Some (None, d) else None)"

section \<open>The goroutine\<close>

text \<open>\<open>close(c.resp)\<close> of a client; closing it twice would panic.\<close>

definition closeResp :: "nat \<Rightarrow> demux \<Rightarrow> demux option" where
  "closeResp k d = (if rq_closed (dx_reqs d ! k) then None else Some (onReq k (\<lambda>r. r\<lparr>rq_closed := True\<rparr>) d))"

definition takeFrame :: "demux \<Rightarrow> demux option" where
  "takeFrame d =
     (case dx_in d of
        f # fs \<Rightarrow> Some (d\<lparr>dx_in := fs, dx_run := Matching f 0, dx_log := dx_log d @ [f]\<rparr>)
      | [] \<Rightarrow> None)"

text \<open>The channel \<open>in\<close> is closed and empty.\<close>

definition closeAll :: "demux \<Rightarrow> demux option" where
  "closeAll d = do { d \<leftarrow> foldM closeResp (dx_clients d) d; Some (d\<lparr>dx_clients := [], dx_run := Exited\<rparr>) }"

text \<open>The client number \<open>i\<close> is closed and removed, the loop goes on with the one that took its place.\<close>

definition removeClient :: "frame \<Rightarrow> nat \<Rightarrow> demux \<Rightarrow> demux option" where
  "removeClient f i d = do {
     d \<leftarrow> closeResp (dx_clients d ! i) d;
     Some (d\<lparr>dx_clients := take i (dx_clients d) @ drop (i + 1) (dx_clients d), dx_run := Matching f i\<rparr>)
   }"

text \<open>After a successful send.\<close>

definition afterSend :: "frame \<Rightarrow> nat \<Rightarrow> demux \<Rightarrow> demux option" where
  "afterSend f i d =
     (if rq_once (dx_reqs d ! (dx_clients d ! i)) then removeClient f i d else Some (d\<lparr>dx_run := Matching f (i + 1)\<rparr>))"

text \<open>The cases of the inner \<open>select\<close>: room in the buffer, a reader that waits at an unbuffered channel, a cancelled request.
  Sending on a closed channel would panic.\<close>

definition sendBuffered :: "frame \<Rightarrow> nat \<Rightarrow> demux \<Rightarrow> demux option" where
  "sendBuffered f i d =
     (let k = dx_clients d ! i in
      if rq_closed (dx_reqs d ! k) then None
      else afterSend f i (onReq k (\<lambda>r. r\<lparr>rq_resp := rq_resp r @ [f]\<rparr>) d))"

definition sendDirect :: "frame \<Rightarrow> nat \<Rightarrow> demux \<Rightarrow> demux option" where
  "sendDirect f i d =
     (let k = dx_clients d ! i in
      if rq_closed (dx_reqs d ! k) then None
      else afterSend f i (onReq k (\<lambda>r. r\<lparr>rq_reading := False, rq_got := rq_got r @ [f]\<rparr>) d))"

abbreviation client :: "demux \<Rightarrow> nat \<Rightarrow> framesReq" where
  "client d i \<equiv> dx_reqs d ! (dx_clients d ! i)"

text \<open>The steps of \<open>run\<close>. The result \<open>None\<close> is a panic.\<close>

inductive run_step :: "demux \<Rightarrow> demux option \<Rightarrow> bool" where
  take: "dx_run d = Waiting \<Longrightarrow> dx_in d \<noteq> [] \<Longrightarrow> run_step d (takeFrame d)"
| exit: "dx_run d = Waiting \<Longrightarrow> dx_in d = [] \<Longrightarrow> dx_closed d \<Longrightarrow> run_step d (closeAll d)"
| skip: "dx_run d = Matching f i \<Longrightarrow> i < length (dx_clients d) \<Longrightarrow> \<not> Want (client d i) f \<Longrightarrow>
    run_step d (Some (d\<lparr>dx_run := Matching f (i + 1)\<rparr>))"
| buffered: "dx_run d = Matching f i \<Longrightarrow> i < length (dx_clients d) \<Longrightarrow> Want (client d i) f \<Longrightarrow>
    length (rq_resp (client d i)) < rq_size (client d i) \<Longrightarrow> run_step d (sendBuffered f i d)"
| direct: "dx_run d = Matching f i \<Longrightarrow> i < length (dx_clients d) \<Longrightarrow> Want (client d i) f \<Longrightarrow>
    rq_resp (client d i) = [] \<Longrightarrow> rq_reading (client d i) \<Longrightarrow> run_step d (sendDirect f i d)"
| cancelled: "dx_run d = Matching f i \<Longrightarrow> i < length (dx_clients d) \<Longrightarrow> Want (client d i) f \<Longrightarrow>
    rq_done (client d i) \<Longrightarrow> run_step d (removeClient f i d)"
| matched: "dx_run d = Matching f i \<Longrightarrow> length (dx_clients d) \<le> i \<Longrightarrow> run_step d (Some (d\<lparr>dx_run := Waiting\<rparr>))"

text \<open>The steps of all goroutines: those of \<open>run\<close> and of the clients, and \<open>Enqueue\<close>. The second \<open>Cancel\<close> of a request would panic;
  that it does not happen is left to the callers.\<close>

inductive local_step :: "demux \<Rightarrow> demux \<Rightarrow> bool" where
  run: "run_step d (Some d') \<Longrightarrow> local_step d d'"
| close: "local_step d (demux_Close d)"
| nextFrame: "NextFrame ks d = Some (c, d') \<Longrightarrow> local_step d d'"
| frames: "Frames n flt d = Some (c, d') \<Longrightarrow> local_step d d'"
| cancel: "k < length (dx_reqs d) \<Longrightarrow> Cancel k d = Some d' \<Longrightarrow> local_step d d'"
| await: "k < length (dx_reqs d) \<Longrightarrow> awaitFrame k d = Some d' \<Longrightarrow> local_step d d'"
| receive: "k < length (dx_reqs d) \<Longrightarrow> receive k d = Some (r, d') \<Longrightarrow> local_step d d'"

inductive demux_step :: "demux \<Rightarrow> demux \<Rightarrow> bool" where
  enqueue: "demux_step d (snd (Enqueue f d))"
| local: "local_step d d' \<Longrightarrow> demux_step d d'"

inductive reachable :: "demux \<Rightarrow> bool" where
  start: "reachable newDemux"
| step: "reachable d \<Longrightarrow> demux_step d d' \<Longrightarrow> reachable d'"

section \<open>The invariant\<close>

text \<open>The clients that have not been offered the current frame yet.\<close>

definition pending :: "demux \<Rightarrow> nat set" where
  "pending d = (case dx_run d of Matching f i \<Rightarrow> set (drop i (dx_clients d)) | _ \<Rightarrow> {})"

text \<open>The frames that a request has been offered.\<close>

definition offered :: "demux \<Rightarrow> nat \<Rightarrow> frame list" where
  "offered d k = (let fs = drop (rq_start (dx_reqs d ! k)) (dx_log d) in if k \<in> pending d then butlast fs else fs)"

definition clients_ok :: "demux \<Rightarrow> bool" where
  "clients_ok d \<longleftrightarrow> distinct (dx_clients d) \<and> (\<forall>k \<in> set (dx_clients d). k < length (dx_reqs d)) \<and>
     (\<forall>f i. dx_run d = Matching f i \<longrightarrow> dx_log d \<noteq> [] \<and> last (dx_log d) = f) \<and>
     (\<forall>k \<in> pending d. rq_start (dx_reqs d ! k) < length (dx_log d)) \<and> (dx_run d = Exited \<longrightarrow> dx_clients d = [] \<and> dx_closed d)"

definition req_ok :: "demux \<Rightarrow> nat \<Rightarrow> bool" where
  "req_ok d k \<longleftrightarrow> (let r = dx_reqs d ! k in rq_start r \<le> length (dx_log d) \<and>
     (if k \<in> set (dx_clients d) then \<not> rq_closed r \<and> sent_to r = filter (Want r) (offered d k) \<and> (rq_once r \<longrightarrow> sent_to r = [])
      else rq_closed r \<and> (\<exists>more. filter (Want r) (drop (rq_start r) (dx_log d)) = sent_to r @ more) \<and> (rq_once r \<longrightarrow> length (sent_to r) \<le> 1)))"

definition dinv :: "demux \<Rightarrow> bool" where
  "dinv d \<longleftrightarrow> clients_ok d \<and> (\<forall>k < length (dx_reqs d). req_ok d k)"

lemma req_ok_cong:
  "offered d' k = offered d k \<Longrightarrow> dx_reqs d' ! k = dx_reqs d ! k \<Longrightarrow> req_ok d k \<Longrightarrow> (k \<in> set (dx_clients d') \<longleftrightarrow> k \<in> set (dx_clients d)) \<Longrightarrow>
   dx_log d' = dx_log d \<Longrightarrow> req_ok d' k"
  by (auto simp: req_ok_def Let_def)

lemma sent_to_closed [simp]: "sent_to (r\<lparr>rq_closed := b\<rparr>) = sent_to r"
  by (simp add: sent_to_def)

lemma dinv_new: "dinv newDemux"
  by (simp add: dinv_def clients_ok_def newDemux_def pending_def)

text \<open>What a request may change without anybody noticing.\<close>

definition same_req :: "framesReq \<Rightarrow> framesReq \<Rightarrow> bool" where
  "same_req r r' \<longleftrightarrow> Want r' = Want r \<and> rq_once r' = rq_once r \<and> rq_start r' = rq_start r"

lemma Want_resp [simp]: "Want (r\<lparr>rq_once := a\<rparr>) = Want r" "Want (r\<lparr>rq_done := a\<rparr>) = Want r" "Want (r\<lparr>rq_resp := fs\<rparr>) = Want r" "Want (r\<lparr>rq_closed := a\<rparr>) = Want r"
  "Want (r\<lparr>rq_reading := a\<rparr>) = Want r" "Want (r\<lparr>rq_got := fs\<rparr>) = Want r" "Want (r\<lparr>rq_start := n\<rparr>) = Want r"
  by (simp_all add: Want_def fun_eq_iff)

lemma dinv_onReq:
  assumes "dinv d" "k < length (dx_reqs d)" "same_req (dx_reqs d ! k) r'" "rq_closed r' = rq_closed (dx_reqs d ! k)" "sent_to r' = sent_to (dx_reqs d ! k)"
  shows "dinv (d\<lparr>dx_reqs := (dx_reqs d)[k := r']\<rparr>)"
proof -
  let ?d = "d\<lparr>dx_reqs := (dx_reqs d)[k := r']\<rparr>"
  have r: "Want (dx_reqs ?d ! j) = Want (dx_reqs d ! j)" "rq_once (dx_reqs ?d ! j) = rq_once (dx_reqs d ! j)" "rq_start (dx_reqs ?d ! j) = rq_start (dx_reqs d ! j)"
    "rq_closed (dx_reqs ?d ! j) = rq_closed (dx_reqs d ! j)" "sent_to (dx_reqs ?d ! j) = sent_to (dx_reqs d ! j)" for j
    using assms(2-5) by (cases "j = k"; simp add: same_req_def)+
  have p: "pending ?d = pending d" by (simp add: pending_def split: runState.splits)
  then have "offered ?d j = offered d j" for j unfolding offered_def r by simp
  then have "req_ok ?d j = req_ok d j" for j unfolding req_ok_def Let_def r by simp
  moreover have "clients_ok ?d = clients_ok d" unfolding clients_ok_def p r by simp
  ultimately show ?thesis using assms(1) by (simp add: dinv_def)
qed

text \<open>A request is made: the new client has seen nothing.\<close>

lemma dinv_request:
  assumes "dinv d" "dx_run d = Waiting" "rq_resp r = []" "rq_got r = []" "\<not> rq_closed r"
  shows "dinv (d\<lparr>dx_reqs := dx_reqs d @ [r\<lparr>rq_start := length (dx_log d)\<rparr>], dx_clients := dx_clients d @ [length (dx_reqs d)]\<rparr>)"
proof -
  let ?d = "d\<lparr>dx_reqs := dx_reqs d @ [r\<lparr>rq_start := length (dx_log d)\<rparr>], dx_clients := dx_clients d @ [length (dx_reqs d)]\<rparr>"
  have p: "pending ?d = {}" "pending d = {}" using assms(2) by (simp_all add: pending_def)
  have c: "clients_ok d" using assms(1) by (simp add: dinv_def)
  have "req_ok ?d k" if "k < length (dx_reqs ?d)" for k
  proof (cases "k = length (dx_reqs d)")
    case True
    then show ?thesis using assms(3-5) p by (simp add: req_ok_def offered_def sent_to_def)
  next
    case False
    then have "k < length (dx_reqs d)" using that by simp
    then have "dx_reqs ?d ! k = dx_reqs d ! k" "req_ok d k" using assms(1) by (simp_all add: dinv_def nth_append)
    then show ?thesis using False p unfolding req_ok_def offered_def by (auto simp: Let_def split: if_splits)
  qed
  moreover have "clients_ok ?d" using c assms(2) p by (auto simp: clients_ok_def)
  ultimately show ?thesis by (simp add: dinv_def)
qed

lemma newFramesReq_fresh [simp]:
  "rq_resp (newFramesReq n flt) = []" "rq_got (newFramesReq n flt) = []" "\<not> rq_closed (newFramesReq n flt)"
  by (simp_all add: newFramesReq_def framesFilter.extend_def)

lemma dinv_sendRequest:
  "sendRequest r d = Some d' \<Longrightarrow> dinv d \<Longrightarrow> rq_resp r = [] \<Longrightarrow> rq_got r = [] \<Longrightarrow> \<not> rq_closed r \<Longrightarrow> dinv d'"
  using dinv_request [of d r] by (auto simp: sendRequest_def split: if_splits)

text \<open>The loop over the clients moves on: client number \<open>i\<close> stays, or is closed and removed.\<close>

lemma offered_current:
  assumes "clients_ok d" "dx_run d = Matching f i" "i < length (dx_clients d)"
  shows "drop (rq_start (client d i)) (dx_log d) = offered d (dx_clients d ! i) @ [f]"
proof -
  have "dx_clients d ! i \<in> set (drop i (dx_clients d))" using assms(3) by (metis Cons_nth_drop_Suc list.set_intros(1))
  then have p: "dx_clients d ! i \<in> pending d" using assms(2) by (simp add: pending_def)
  then have l: "rq_start (client d i) < length (dx_log d)" "dx_log d \<noteq> []" "last (dx_log d) = f" using assms(1,2) by (auto simp: clients_ok_def)
  then have "drop (rq_start (client d i)) (dx_log d) \<noteq> []" "last (drop (rq_start (client d i)) (dx_log d)) = f" by (simp_all add: last_drop)
  then have "butlast (drop (rq_start (client d i)) (dx_log d)) @ [f] = drop (rq_start (client d i)) (dx_log d)" by (metis append_butlast_last_id)
  then show ?thesis using p by (simp only: offered_def Let_def if_True)
qed

lemma dinv_advance:
  fixes d' :: demux
  assumes d: "dinv d" "dx_run d = Matching f i" "i < length (dx_clients d)" and r: "r = client d i" "same_req r r'"
    and d': "dx_reqs d' = (dx_reqs d)[dx_clients d ! i := r']" "dx_log d' = dx_log d" "dx_closed d' = dx_closed d"
    and how: "dx_clients d' = dx_clients d \<and> dx_run d' = Matching f (i + 1) \<and> \<not> rq_closed r' \<and> \<not> (Want r f \<and> rq_once r) \<and>
        sent_to r' = sent_to r @ (if Want r f then [f] else []) \<or>
      dx_clients d' = take i (dx_clients d) @ drop (i + 1) (dx_clients d) \<and> dx_run d' = Matching f i \<and> rq_closed r' \<and> Want r f \<and>
        (sent_to r' = sent_to r \<or> sent_to r' = sent_to r @ [f])"
  shows "dinv d'"
proof -
  let ?k = "dx_clients d ! i"
  have c: "clients_ok d" and q: "\<And>k. k < length (dx_reqs d) \<Longrightarrow> req_ok d k" using d(1) by (auto simp: dinv_def)
  have k: "?k \<in> set (dx_clients d)" "?k < length (dx_reqs d)" "distinct (dx_clients d)" using c d(3) by (auto simp: clients_ok_def)
  have drop_i: "drop i (dx_clients d) = ?k # drop (i + 1) (dx_clients d)" using d(3) by (simp add: Cons_nth_drop_Suc)
  have split: "dx_clients d = take i (dx_clients d) @ ?k # drop (i + 1) (dx_clients d)" using drop_i by (metis append_take_drop_id)
  have nk: "?k \<notin> set (take i (dx_clients d))" "?k \<notin> set (drop (i + 1) (dx_clients d))" using k(3) split by (metis distinct_append distinct.simps(2) not_distinct_conv_prefix, metis distinct_append distinct.simps(2))
  have pend: "pending d = insert ?k (set (drop (i + 1) (dx_clients d)))" using d(2) drop_i by (simp add: pending_def)
  have pend': "pending d' = set (drop (i + 1) (dx_clients d))" using how d(3) by (auto simp: pending_def)
  have sub: "set (dx_clients d') \<subseteq> set (dx_clients d)" "distinct (dx_clients d')"
    using how k(3) set_take_disj_set_drop_if_distinct [OF k(3), of i "i + 1"] by (auto dest: in_set_takeD in_set_dropD)
  have other: "j \<in> set (dx_clients d') \<longleftrightarrow> j \<in> set (dx_clients d)" if "j \<noteq> ?k" for j
    using how that split by (metis Un_iff set_append list.set(2) insert_iff)
  have off: "drop (rq_start r) (dx_log d) = offered d ?k @ [f]" using offered_current [OF c d(2,3)] r(1) by simp
  have start: "rq_start (dx_reqs d' ! j) = rq_start (dx_reqs d ! j)" for j using r k(2) d'(1) by (cases "j = ?k") (simp_all add: same_req_def)
  have "req_ok d' j" if "j < length (dx_reqs d')" for j
  proof (cases "j = ?k")
    case False
    have "offered d' j = offered d j" unfolding offered_def start d'(2) using False pend pend' by simp
    moreover have "dx_reqs d' ! j = dx_reqs d ! j" using False d'(1) by simp
    moreover have "req_ok d j" using q that d'(1) by simp
    ultimately show ?thesis using req_ok_cong other [OF False] d'(2) by blast
  next
    case True
    have rk: "rq_start r \<le> length (dx_log d)" "sent_to r = filter (Want r) (offered d ?k)" "rq_once r \<Longrightarrow> sent_to r = []"
      using q [OF k(2)] k(1) r(1) by (auto simp: req_ok_def Let_def)
    have r'': "dx_reqs d' ! ?k = r'" using d'(1) k(2) by simp
    have o': "offered d' ?k = drop (rq_start r) (dx_log d)" unfolding offered_def start d'(2) using pend' nk(2) r(1) by (simp add: Let_def)
    from how show ?thesis
    proof
      assume a: "dx_clients d' = dx_clients d \<and> dx_run d' = Matching f (i + 1) \<and> \<not> rq_closed r' \<and> \<not> (Want r f \<and> rq_once r) \<and>
        sent_to r' = sent_to r @ (if Want r f then [f] else [])"
      then show ?thesis using True k(1) rk r(2) off o' r'' d'(2) by (auto simp: req_ok_def same_req_def)
    next
      assume a: "dx_clients d' = take i (dx_clients d) @ drop (i + 1) (dx_clients d) \<and> dx_run d' = Matching f i \<and> rq_closed r' \<and> Want r f \<and>
        (sent_to r' = sent_to r \<or> sent_to r' = sent_to r @ [f])"
      then have "?k \<notin> set (dx_clients d')" using nk by simp
      then show ?thesis using True a rk r(2) off r'' d'(2) by (auto simp: req_ok_def same_req_def)
    qed
  qed
  moreover have "clients_ok d'"
    using c sub d(2) d'(1,3) how pend pend' start unfolding clients_ok_def d'(2) by auto
  ultimately show ?thesis by (simp add: dinv_def)
qed

lemma dinv_enqueue: "dinv d \<Longrightarrow> dinv (d\<lparr>dx_in := fs\<rparr>)" "dinv d \<Longrightarrow> dinv (d\<lparr>dx_closed := True\<rparr>)"
proof -
  have p: "pending (d\<lparr>dx_in := fs\<rparr>) = pending d" "pending (d\<lparr>dx_closed := True\<rparr>) = pending d" by (cases "dx_run d"; simp add: pending_def)+
  then have "offered (d\<lparr>dx_in := fs\<rparr>) k = offered d k" "offered (d\<lparr>dx_closed := True\<rparr>) k = offered d k" for k by (simp_all add: offered_def)
  then show "dinv d \<Longrightarrow> dinv (d\<lparr>dx_in := fs\<rparr>)" "dinv d \<Longrightarrow> dinv (d\<lparr>dx_closed := True\<rparr>)"
    using p req_ok_cong [of "d\<lparr>dx_in := fs\<rparr>" _ d] req_ok_cong [of "d\<lparr>dx_closed := True\<rparr>" _ d] by (simp_all add: dinv_def clients_ok_def)
qed

lemma dinv_take:
  assumes "dinv d" "dx_run d = Waiting"
  shows "dinv (d\<lparr>dx_in := fs, dx_run := Matching f 0, dx_log := dx_log d @ [f]\<rparr>)"
proof -
  let ?d = "d\<lparr>dx_in := fs, dx_run := Matching f 0, dx_log := dx_log d @ [f]\<rparr>"
  have c: "clients_ok d" and q: "\<And>k. k < length (dx_reqs d) \<Longrightarrow> req_ok d k" using assms(1) by (auto simp: dinv_def)
  have p: "pending d = {}" "pending ?d = set (dx_clients d)" using assms(2) by (simp_all add: pending_def)
  have st: "rq_start (dx_reqs d ! k) \<le> length (dx_log d)" if "k < length (dx_reqs d)" for k using q [OF that] by (simp add: req_ok_def Let_def)
  have "req_ok ?d k" if k: "k < length (dx_reqs d)" for k
  proof (cases "k \<in> set (dx_clients d)")
    case True
    then have "offered ?d k = offered d k" using p st [OF k] by (simp add: offered_def Let_def)
    then show ?thesis using q [OF k] True by (auto simp: req_ok_def Let_def)
  next
    case False
    then show ?thesis using q [OF k] st [OF k] by (auto simp: req_ok_def Let_def)
  qed
  moreover have "clients_ok ?d" using c p st assms(2) by (auto simp: clients_ok_def intro: le_imp_less_Suc)
  ultimately show ?thesis by (simp add: dinv_def)
qed

lemma dinv_matched:
  assumes "dinv d" "dx_run d = Matching f i" "length (dx_clients d) \<le> i"
  shows "dinv (d\<lparr>dx_run := Waiting\<rparr>)"
proof -
  have "pending d = {}" "pending (d\<lparr>dx_run := Waiting\<rparr>) = {}" using assms(2,3) by (simp_all add: pending_def)
  moreover from this have "offered (d\<lparr>dx_run := Waiting\<rparr>) k = offered d k" for k by (simp add: offered_def)
  ultimately show ?thesis using assms(1) req_ok_cong [of "d\<lparr>dx_run := Waiting\<rparr>" _ d] by (simp add: dinv_def clients_ok_def)
qed

lemma closeResp_ok:
  "k < length (dx_reqs d) \<Longrightarrow> \<not> rq_closed (dx_reqs d ! k) \<Longrightarrow> closeResp k d = Some (d\<lparr>dx_reqs := (dx_reqs d)[k := (dx_reqs d ! k)\<lparr>rq_closed := True\<rparr>]\<rparr>)"
  by (simp add: closeResp_def onReq_def)

lemma closeAll_ok:
  "distinct ks \<Longrightarrow> \<forall>k \<in> set ks. k < length (dx_reqs d) \<and> \<not> rq_closed (dx_reqs d ! k) \<Longrightarrow>
   foldM closeResp ks d = Some (d\<lparr>dx_reqs := map (\<lambda>k. if k \<in> set ks then (dx_reqs d ! k)\<lparr>rq_closed := True\<rparr> else dx_reqs d ! k) [0..<length (dx_reqs d)]\<rparr>)"
proof (induction ks arbitrary: d)
  case Nil
  then show ?case by (simp add: map_nth)
next
  case (Cons k ks)
  let ?d = "d\<lparr>dx_reqs := (dx_reqs d)[k := (dx_reqs d ! k)\<lparr>rq_closed := True\<rparr>]\<rparr>"
  have "foldM closeResp ks ?d = Some (?d\<lparr>dx_reqs := map (\<lambda>j. if j \<in> set ks then (dx_reqs ?d ! j)\<lparr>rq_closed := True\<rparr> else dx_reqs ?d ! j) [0..<length (dx_reqs ?d)]\<rparr>)"
    by (rule Cons.IH) (use Cons.prems in \<open>auto simp: nth_list_update\<close>)
  moreover have "map (\<lambda>j. if j \<in> set ks then (dx_reqs ?d ! j)\<lparr>rq_closed := True\<rparr> else dx_reqs ?d ! j) [0..<length (dx_reqs ?d)] =
      map (\<lambda>j. if j \<in> set (k # ks) then (dx_reqs d ! j)\<lparr>rq_closed := True\<rparr> else dx_reqs d ! j) [0..<length (dx_reqs d)]"
    using Cons.prems by (auto simp: nth_list_update)
  ultimately show ?case using closeResp_ok [of k d] Cons.prems by simp
qed

lemma dinv_closeAll:
  assumes "dinv d" "dx_run d = Waiting" "dx_closed d"
  shows "\<exists>d'. closeAll d = Some d' \<and> dinv d' \<and> dx_run d' = Exited \<and> length (dx_reqs d') = length (dx_reqs d) \<and> (\<forall>k < length (dx_reqs d). rq_closed (dx_reqs d' ! k))"
proof -
  let ?rs = "map (\<lambda>k. if k \<in> set (dx_clients d) then (dx_reqs d ! k)\<lparr>rq_closed := True\<rparr> else dx_reqs d ! k) [0..<length (dx_reqs d)]"
  let ?d = "d\<lparr>dx_reqs := ?rs, dx_clients := [], dx_run := Exited\<rparr>"
  have c: "clients_ok d" and q: "\<And>k. k < length (dx_reqs d) \<Longrightarrow> req_ok d k" using assms(1) by (auto simp: dinv_def)
  have op: "\<forall>k \<in> set (dx_clients d). k < length (dx_reqs d) \<and> \<not> rq_closed (dx_reqs d ! k)" using c q by (auto simp: clients_ok_def req_ok_def Let_def)
  have "closeAll d = Some ?d" using closeAll_ok [OF _ op] c by (simp add: closeAll_def clients_ok_def)
  moreover have p: "pending d = {}" "pending ?d = {}" using assms(2) by (simp_all add: pending_def)
  have "req_ok ?d k" if "k < length (dx_reqs d)" for k
    using q [OF that] that p by (auto simp: req_ok_def offered_def Let_def split: if_splits)
  then have "dinv ?d" using c p assms(3) by (simp add: dinv_def clients_ok_def)
  moreover have "rq_closed (?rs ! k)" if "k < length (dx_reqs d)" for k using q [OF that] that by (simp add: req_ok_def Let_def split: if_splits)
  ultimately show ?thesis by auto
qed

lemma run_step_ok:
  assumes "run_step d res" "dinv d"
  shows "\<exists>d'. res = Some d' \<and> dinv d'"
proof -
  have c: "clients_ok d" and q: "\<And>k. k < length (dx_reqs d) \<Longrightarrow> req_ok d k" using assms(2) by (auto simp: dinv_def)
  have op: "dx_clients d ! i < length (dx_reqs d) \<and> \<not> rq_closed (client d i)" if "i < length (dx_clients d)" for i
    using c q that nth_mem [OF that] by (auto simp: clients_ok_def req_ok_def Let_def)
  from assms(1) show ?thesis
  proof cases
    case take
    then obtain f fs where "dx_in d = f # fs" by (cases "dx_in d") auto
    then show ?thesis using take dinv_take [OF assms(2)] by (simp add: takeFrame_def)
  next
    case exit
    then show ?thesis using dinv_closeAll [OF assms(2)] by blast
  next
    case (skip f i)
    then show ?thesis using dinv_advance [OF assms(2) skip(2,3) refl, of "client d i" "d\<lparr>dx_run := Matching f (i + 1)\<rparr>"] op [OF skip(3)]
      by (simp add: same_req_def)
  next
    case (buffered f i)
    show ?thesis
    proof (cases "rq_once (client d i)")
      case True
      then show ?thesis using buffered op [OF buffered(3)] dinv_advance [OF assms(2) buffered(2,3) refl,
          of "(client d i)\<lparr>rq_resp := rq_resp (client d i) @ [f], rq_closed := True\<rparr>"]
        by (auto simp: sendBuffered_def afterSend_def removeClient_def closeResp_def onReq_def same_req_def sent_to_def Let_def)
    next
      case False
      then show ?thesis using buffered op [OF buffered(3)] dinv_advance [OF assms(2) buffered(2,3) refl,
          of "(client d i)\<lparr>rq_resp := rq_resp (client d i) @ [f]\<rparr>"]
        by (auto simp: sendBuffered_def afterSend_def onReq_def same_req_def sent_to_def Let_def)
    qed
  next
    case (direct f i)
    show ?thesis
    proof (cases "rq_once (client d i)")
      case True
      then show ?thesis using direct op [OF direct(3)] dinv_advance [OF assms(2) direct(2,3) refl,
          of "(client d i)\<lparr>rq_reading := False, rq_got := rq_got (client d i) @ [f], rq_closed := True\<rparr>"]
        by (auto simp: sendDirect_def afterSend_def removeClient_def closeResp_def onReq_def same_req_def sent_to_def Let_def)
    next
      case False
      then show ?thesis using direct op [OF direct(3)] dinv_advance [OF assms(2) direct(2,3) refl,
          of "(client d i)\<lparr>rq_reading := False, rq_got := rq_got (client d i) @ [f]\<rparr>"]
        by (auto simp: sendDirect_def afterSend_def onReq_def same_req_def sent_to_def Let_def)
    qed
  next
    case (cancelled f i)
    then show ?thesis using op [OF cancelled(3)] dinv_advance [OF assms(2) cancelled(2,3) refl, of "(client d i)\<lparr>rq_closed := True\<rparr>"]
      by (auto simp: removeClient_def closeResp_def onReq_def same_req_def sent_to_def)
  next
    case (matched f i)
    then show ?thesis using dinv_matched [OF assms(2)] by blast
  qed
qed

lemma local_step_dinv: "local_step d d' \<Longrightarrow> dinv d \<Longrightarrow> dinv d'"
proof (induction rule: local_step.induct)
  case (run d d')
  then show ?case using run_step_ok by blast
next
  case (close d)
  then show ?case using dinv_enqueue(2) by (simp add: demux_Close_def)
next
  case (nextFrame ks d c d')
  then show ?case by (auto simp: NextFrame_def Let_def bind_eq_Some_conv intro: dinv_sendRequest split: if_splits)
next
  case (frames n flt d c d')
  then show ?case by (auto simp: Frames_def Let_def bind_eq_Some_conv intro: dinv_sendRequest split: if_splits)
next
  case (cancel k d d')
  then show ?case using dinv_onReq [of d k "(dx_reqs d ! k)\<lparr>rq_done := True\<rparr>"]
    by (auto simp: Cancel_def onReq_def same_req_def sent_to_def split: if_splits)
next
  case (await k d d')
  then show ?case using dinv_onReq [of d k "(dx_reqs d ! k)\<lparr>rq_reading := True\<rparr>"]
    by (auto simp: awaitFrame_def onReq_def same_req_def sent_to_def Let_def split: if_splits)
next
  case (receive k d r d')
  show ?case
  proof (cases "rq_resp (dx_reqs d ! k)")
    case Nil
    then show ?thesis using receive by (auto simp: receive_def Let_def split: if_splits)
  next
    case (Cons f fs)
    then show ?thesis
      using receive dinv_onReq [of d k "(dx_reqs d ! k)\<lparr>rq_resp := fs, rq_reading := False, rq_got := rq_got (dx_reqs d ! k) @ [f]\<rparr>"]
      by (auto simp: receive_def onReq_def same_req_def sent_to_def Let_def)
  qed
qed

lemma demux_step_dinv: "demux_step d d' \<Longrightarrow> dinv d \<Longrightarrow> dinv d'"
  by (induction rule: demux_step.induct) (auto simp: Enqueue_def intro: dinv_enqueue local_step_dinv)

lemma reachable_dinv: "reachable d \<Longrightarrow> dinv d"
  by (induction rule: reachable.induct) (auto simp: dinv_new dest: demux_step_dinv)

section \<open>Chains\<close>

text \<open>\<open>Chain\<close> makes a demultiplexer that is fed by a goroutine with the frames of another one that a filter wants. It panics if
  that one is closed. The goroutine has taken the frames in \<open>rq_got\<close> from the channel \<open>ch_chan\<close> and has handed over the
  first \<open>ch_done\<close> of them; it reads the next frame only after that. It ends when the channel or the new demultiplexer is
  closed.\<close>

record chain =
  ch_up :: demux
  ch_chan :: nat
  ch_next :: demux
  ch_done :: nat
  ch_exited :: bool

definition Chain :: "framesFilter \<Rightarrow> demux \<Rightarrow> chain option" where
  "Chain flt d =
     (if isClosed d then None
      else do {
        (c, d') \<leftarrow> Frames 0 flt d;
        case c of Chan k \<Rightarrow> Some \<lparr>ch_up = d', ch_chan = k, ch_next = newDemux, ch_done = 0, ch_exited = False\<rparr> | _ \<Rightarrow> None
      })"

abbreviation taken :: "chain \<Rightarrow> frame list" where
  "taken c \<equiv> rq_got (dx_reqs (ch_up c) ! ch_chan c)"

definition forward :: "chain \<Rightarrow> chain" where
  "forward c =
     (case Enqueue (taken c ! ch_done c) (ch_next c) of
        (ok, d) \<Rightarrow> c\<lparr>ch_next := (if ok then d else demux_Close d), ch_done := ch_done c + 1, ch_exited := \<not> ok\<rparr>)"

inductive chain_step :: "chain \<Rightarrow> chain \<Rightarrow> bool" where
  up: "demux_step (ch_up c) d \<Longrightarrow> length (rq_got (dx_reqs d ! ch_chan c)) \<le> ch_done c + (if ch_exited c then 0 else 1) \<Longrightarrow> chain_step c (c\<lparr>ch_up := d\<rparr>)"
| down: "local_step (ch_next c) d \<Longrightarrow> chain_step c (c\<lparr>ch_next := d\<rparr>)"
| forward: "\<not> ch_exited c \<Longrightarrow> ch_done c < length (taken c) \<Longrightarrow> chain_step c (forward c)"
| ended: "\<not> ch_exited c \<Longrightarrow> ch_done c = length (taken c) \<Longrightarrow> receive (ch_chan c) (ch_up c) = Some (None, d) \<Longrightarrow>
    chain_step c (c\<lparr>ch_next := demux_Close (ch_next c), ch_exited := True\<rparr>)"

inductive chained :: "framesFilter \<Rightarrow> chain \<Rightarrow> bool" for flt where
  start: "reachable d \<Longrightarrow> Chain flt d = Some c \<Longrightarrow> chained flt c"
| step: "chained flt c \<Longrightarrow> chain_step c c' \<Longrightarrow> chained flt c'"

lemma closeAll_log: "closeAll d = Some d' \<Longrightarrow> dx_log d' @ dx_in d' = dx_log d @ dx_in d"
proof -
  assume "closeAll d = Some d'"
  then obtain e where e: "foldM closeResp (dx_clients d) d = Some e" "d' = e\<lparr>dx_clients := [], dx_run := Exited\<rparr>"
    by (auto simp: closeAll_def bind_eq_Some_conv)
  have "(dx_log e, dx_in e) = (dx_log d, dx_in d)"
    by (rule foldM_keeps [OF e(1)]) (auto simp: closeResp_def onReq_def split: if_splits)
  then show ?thesis using e(2) by simp
qed

lemma removeClient_log: "removeClient f i d = Some d' \<Longrightarrow> dx_log d' = dx_log d \<and> dx_in d' = dx_in d"
  by (auto simp: removeClient_def closeResp_def onReq_def bind_eq_Some_conv split: if_splits)

lemma afterSend_log: "afterSend f i d = Some d' \<Longrightarrow> dx_log d' = dx_log d \<and> dx_in d' = dx_in d"
  by (auto simp: afterSend_def removeClient_log split: if_splits)

lemma run_step_log: "run_step d res \<Longrightarrow> res = Some d' \<Longrightarrow> dx_log d' @ dx_in d' = dx_log d @ dx_in d"
  by (induction rule: run_step.induct)
    (auto simp: closeAll_log removeClient_log takeFrame_def sendBuffered_def sendDirect_def onReq_def Let_def dest!: afterSend_log split: list.splits if_splits)

lemma local_step_log: "local_step d d' \<Longrightarrow> dx_log d' @ dx_in d' = dx_log d @ dx_in d"
proof (induction rule: local_step.induct)
  case (receive k d r d')
  then show ?case by (auto simp: receive_def onReq_def Let_def split: list.splits if_splits)
qed (auto simp: run_step_log [OF _ refl] demux_Close_def NextFrame_def Frames_def sendRequest_def Cancel_def awaitFrame_def onReq_def Let_def bind_eq_Some_conv split: if_splits)

text \<open>A request keeps its filter, and what was read from its channel only grows.\<close>

definition grows :: "demux \<Rightarrow> demux \<Rightarrow> bool" where
  "grows d d' \<longleftrightarrow> length (dx_reqs d) \<le> length (dx_reqs d') \<and>
     (\<forall>k < length (dx_reqs d). same_req (dx_reqs d ! k) (dx_reqs d' ! k) \<and> prefix (rq_got (dx_reqs d ! k)) (rq_got (dx_reqs d' ! k)))"

lemma grows_refl [simp]: "grows d d"
  by (simp add: grows_def same_req_def)

lemma grows_trans: "grows d1 d2 \<Longrightarrow> grows d2 d3 \<Longrightarrow> grows d1 d3"
  unfolding grows_def same_req_def by (auto intro: prefix_order.trans)

lemma grows_onReq:
  assumes "same_req (dx_reqs d ! k) (g (dx_reqs d ! k))" "prefix (rq_got (dx_reqs d ! k)) (rq_got (g (dx_reqs d ! k)))"
  shows "grows d (onReq k g d)"
proof -
  have "same_req (dx_reqs d ! j) (dx_reqs (onReq k g d) ! j) \<and> prefix (rq_got (dx_reqs d ! j)) (rq_got (dx_reqs (onReq k g d) ! j))"
    if "j < length (dx_reqs d)" for j
    using assms that by (cases "j = k") (simp_all add: onReq_def same_req_def)
  then show ?thesis by (simp add: grows_def) (simp add: onReq_def)
qed

lemma grows_same: "dx_reqs d' = dx_reqs d \<Longrightarrow> grows d d'"
  by (simp add: grows_def same_req_def)

lemma closeResp_grows: "closeResp k d = Some d' \<Longrightarrow> grows d d'"
  by (auto simp: closeResp_def same_req_def intro!: grows_onReq split: if_splits)

lemma removeClient_grows: "removeClient f i d = Some d' \<Longrightarrow> grows d d'"
  by (auto simp: removeClient_def bind_eq_Some_conv intro!: grows_trans [OF closeResp_grows grows_same])

lemma afterSend_grows: "afterSend f i d = Some d' \<Longrightarrow> grows d d'"
  by (auto simp: afterSend_def split: if_splits intro: grows_same removeClient_grows)

lemma closeAll_grows: "closeAll d = Some d' \<Longrightarrow> grows d d'"
proof -
  have "grows e e'" if "foldM closeResp ks e = Some e'" for ks e e'
    using that by (induction ks arbitrary: e) (auto simp: bind_eq_Some_conv intro: grows_trans closeResp_grows)
  moreover have "grows e (e\<lparr>dx_clients := [], dx_run := Exited\<rparr>)" for e by (rule grows_same) simp
  ultimately show "closeAll d = Some d' \<Longrightarrow> grows d d'"
    using grows_trans by (fastforce simp: closeAll_def bind_eq_Some_conv)
qed

lemma run_step_grows: "run_step d res \<Longrightarrow> res = Some d' \<Longrightarrow> grows d d'"
proof (induction rule: run_step.induct)
  case (buffered d f i)
  have "grows d (onReq (dx_clients d ! i) (\<lambda>r. r\<lparr>rq_resp := rq_resp r @ [f]\<rparr>) d)" by (rule grows_onReq) (simp_all add: same_req_def)
  then show ?case using buffered by (auto simp: sendBuffered_def Let_def intro: grows_trans afterSend_grows split: if_splits)
next
  case (direct d f i)
  have "grows d (onReq (dx_clients d ! i) (\<lambda>r. r\<lparr>rq_reading := False, rq_got := rq_got r @ [f]\<rparr>) d)" by (rule grows_onReq) (simp_all add: same_req_def)
  then show ?case using direct by (auto simp: sendDirect_def Let_def intro: grows_trans afterSend_grows split: if_splits)
qed (auto simp: takeFrame_def intro: grows_same closeAll_grows removeClient_grows split: list.splits)

lemma local_step_grows: "local_step d d' \<Longrightarrow> grows d d'"
proof (induction rule: local_step.induct)
  case (run d d')
  then show ?case by (rule run_step_grows) simp
next
  case (receive k d r d')
  then show ?case by (auto simp: receive_def Let_def same_req_def intro!: grows_onReq split: list.splits if_splits)
next
  case (cancel k d d')
  then show ?case by (auto simp: Cancel_def same_req_def intro!: grows_onReq split: if_splits)
next
  case (await k d d')
  then show ?case by (auto simp: awaitFrame_def Let_def same_req_def intro!: grows_onReq split: if_splits)
qed (auto simp: demux_Close_def NextFrame_def Frames_def sendRequest_def Let_def bind_eq_Some_conv grows_def nth_append same_req_def split: if_splits)

lemma demux_step_grows: "demux_step d d' \<Longrightarrow> grows d d'"
  by (induction rule: demux_step.induct) (auto simp: Enqueue_def intro: grows_same local_step_grows)

text \<open>What a chain keeps: the new demultiplexer has only seen, in order, frames that were taken from the channel.\<close>

definition chain_inv :: "framesFilter \<Rightarrow> chain \<Rightarrow> bool" where
  "chain_inv flt c \<longleftrightarrow> reachable (ch_up c) \<and> reachable (ch_next c) \<and> ch_chan c < length (dx_reqs (ch_up c)) \<and>
     Want (dx_reqs (ch_up c) ! ch_chan c) = Want flt \<and> ch_done c \<le> length (taken c) \<and>
     subseq (dx_log (ch_next c) @ dx_in (ch_next c)) (take (ch_done c) (taken c))"

lemma Chain_inv:
  assumes "reachable d" "Chain flt d = Some c"
  shows "chain_inv flt c"
proof -
  let ?r = "(newFramesReq 0 flt)\<lparr>rq_once := False, rq_start := length (dx_log d)\<rparr>"
  let ?d = "d\<lparr>dx_reqs := dx_reqs d @ [?r], dx_clients := dx_clients d @ [length (dx_reqs d)]\<rparr>"
  have f: "Frames 0 flt d = Some (Chan (length (dx_reqs d)), ?d)"
      and c: "c = \<lparr>ch_up = ?d, ch_chan = length (dx_reqs d), ch_next = newDemux, ch_done = 0, ch_exited = False\<rparr>"
    using assms(2) by (auto simp: Chain_def isClosed_def Frames_def sendRequest_def Let_def bind_eq_Some_conv split: if_splits channel.splits)
  have "reachable ?d" using assms(1) f reachable.step demux_step.local local_step.frames by blast
  moreover have "Want ?r = Want flt" by (simp add: newFramesReq_def framesFilter.extend_def Want_def fun_eq_iff)
  ultimately show ?thesis by (simp add: chain_inv_def c reachable.start) (simp add: newDemux_def)
qed

lemma chain_step_inv:
  assumes "chain_step c c'" "chain_inv flt c"
  shows "chain_inv flt c'"
  using assms(1)
proof cases
  case (up d)
  have g: "grows (ch_up c) d" by (rule demux_step_grows [OF up(2)])
  let ?k = "ch_chan c"
  have k: "?k < length (dx_reqs (ch_up c))" using assms(2) by (simp add: chain_inv_def)
  then have r: "Want (dx_reqs d ! ?k) = Want (dx_reqs (ch_up c) ! ?k)" "prefix (taken c) (rq_got (dx_reqs d ! ?k))" "?k < length (dx_reqs d)"
    using g by (auto simp: grows_def same_req_def)
  have "take (ch_done c) (rq_got (dx_reqs d ! ?k)) = take (ch_done c) (taken c)"
    using r(2) assms(2) by (auto simp: prefix_def chain_inv_def)
  then show ?thesis using assms(2) up r prefix_length_le [OF r(2)] reachable.step by (auto simp: chain_inv_def)
next
  case (down d)
  then show ?thesis using assms(2) local_step_log [OF down(2)] reachable.step demux_step.local by (auto simp: chain_inv_def)
next
  case forward
  let ?f = "taken c ! ch_done c" and ?d = "ch_next c"
  have t: "take (ch_done c + 1) (taken c) = take (ch_done c) (taken c) @ [?f]" using forward(3) by (simp add: take_Suc_conv_app_nth)
  obtain ok e where e: "Enqueue ?f ?d = (ok, e)" by (cases "Enqueue ?f ?d")
  have re: "reachable e" using assms(2) reachable.step [OF _ demux_step.enqueue, of ?d ?f] e by (simp add: chain_inv_def)
  have "reachable (demux_Close e)" using re reachable.step demux_step.local local_step.close by blast
  moreover have "subseq (dx_log e @ dx_in e) (take (ch_done c + 1) (taken c))"
    using assms(2) e unfolding t chain_inv_def by (auto simp: Enqueue_def split: if_splits intro: list_emb_append_mono list_emb_append2 simp flip: append_assoc)
  ultimately show ?thesis using assms(2) forward e re by (auto simp: chain_inv_def forward_def demux_Close_def)
next
  case (ended d)
  have "reachable (demux_Close (ch_next c))" using assms(2) reachable.step demux_step.local local_step.close by (auto simp: chain_inv_def)
  then show ?thesis using assms(2) ended by (auto simp: chain_inv_def demux_Close_def)
qed

lemma chained_inv: "chained flt c \<Longrightarrow> chain_inv flt c"
  by (induction rule: chained.induct) (auto intro: Chain_inv chain_step_inv)

section \<open>Properties\<close>

lemma offered_prefix: "\<exists>fs. drop (rq_start (dx_reqs d ! k)) (dx_log d) = offered d k @ fs"
proof (cases "k \<in> pending d \<and> drop (rq_start (dx_reqs d ! k)) (dx_log d) \<noteq> []")
  case True
  then have "drop (rq_start (dx_reqs d ! k)) (dx_log d) = offered d k @ [last (drop (rq_start (dx_reqs d ! k)) (dx_log d))]"
    by (simp add: offered_def Let_def del: last_drop drop_eq_Nil)
  then show ?thesis ..
qed (auto simp: offered_def Let_def)

lemma sent_prefix:
  assumes "reachable d" "k < length (dx_reqs d)"
  shows "\<exists>later. filter (Want (dx_reqs d ! k)) (drop (rq_start (dx_reqs d ! k)) (dx_log d)) = sent_to (dx_reqs d ! k) @ later"
proof -
  have "req_ok d k" using reachable_dinv [OF assms(1)] assms(2) by (simp add: dinv_def)
  then show ?thesis using offered_prefix [of d k] by (auto simp: req_ok_def Let_def split: if_splits)
qed

text \<open>C12. Whatever the callers do and however the goroutines interleave, a client gets from the demultiplexer only frames it wants,
  in the order they came and without gaps: what was sent on its channel are the first of the frames it wants among those taken
  since its request. As long as its channel is open and no frame is being handed out, it has got all of them. A client that
  asked for one frame gets at most one, and its channel is open only while it has got none.\<close>

theorem demux_delivers:
  assumes "reachable d" "k < length (dx_reqs d)" "r = dx_reqs d ! k" "wanted = filter (Want r) (drop (rq_start r) (dx_log d))"
  shows "(\<exists>later. wanted = sent_to r @ later) \<and> (\<not> rq_closed r \<and> dx_run d = Waiting \<longrightarrow> sent_to r = wanted) \<and>
    (rq_once r \<longrightarrow> length (sent_to r) \<le> (if rq_closed r then 1 else 0))"
proof -
  have inv: "req_ok d k" using reachable_dinv [OF assms(1)] assms(2) by (simp_all add: dinv_def)
  have "sent_to r = wanted" if "\<not> rq_closed r" "dx_run d = Waiting"
    using inv that assms(3,4) by (auto simp: req_ok_def Let_def offered_def pending_def split: if_splits)
  moreover have "length (sent_to r) \<le> (if rq_closed r then 1 else 0)" if "rq_once r"
    using inv that assms(3) by (auto simp: req_ok_def Let_def split: if_splits)
  ultimately show ?thesis using sent_prefix [OF assms(1,2)] assms(3,4) by blast
qed

text \<open>A demultiplexer with a client that waits for one connect frame, after such a frame.\<close>

definition example_demux :: demux where
  "example_demux = \<lparr>dx_closed = False, dx_in = [], dx_reqs = [(newFramesReq 1 (any_frame\<lparr>ff_kinds := [kindConnect]\<rparr>))\<lparr>rq_once := True,
     rq_resp := [zero_frame\<lparr>DataKind := kindConnect\<rparr>], rq_closed := True\<rparr>], dx_clients = [], dx_run = Waiting, dx_log = [zero_frame\<lparr>DataKind := kindConnect\<rparr>]\<rparr>"

text \<open>The same demultiplexer while it hands out the frame.\<close>

definition example_matching :: demux where
  "example_matching = newDemux\<lparr>dx_reqs := [(newFramesReq 1 (any_frame\<lparr>ff_kinds := [kindConnect]\<rparr>))\<lparr>rq_once := True\<rparr>], dx_clients := [0],
     dx_run := Matching (zero_frame\<lparr>DataKind := kindConnect\<rparr>) 0, dx_log := [zero_frame\<lparr>DataKind := kindConnect\<rparr>]\<rparr>"

lemma example_matching_reachable: "reachable example_matching"
proof -
  let ?f = "zero_frame\<lparr>DataKind := kindConnect\<rparr>" let ?r = "(newFramesReq 1 (any_frame\<lparr>ff_kinds := [kindConnect]\<rparr>))\<lparr>rq_once := True\<rparr>"
  have w: "Want (?r\<lparr>rq_start := n\<rparr>) ?f" for n by (simp add: Want_def newFramesReq_def framesFilter.extend_def any_frame_def)
  let ?d1 = "newDemux\<lparr>dx_reqs := [?r], dx_clients := [0]\<rparr>"
  have r0: "?r\<lparr>rq_start := 0\<rparr> = ?r" by (simp add: newFramesReq_def framesFilter.extend_def)
  have "NextFrame [kindConnect] newDemux = Some (Chan 0, ?d1)"
    using r0 by (simp add: NextFrame_def sendRequest_def newDemux_def Let_def)
  then have 1: "reachable ?d1" using reachable.start reachable.step demux_step.local local_step.nextFrame by blast
  let ?d2 = "?d1\<lparr>dx_in := [?f]\<rparr>"
  have 2: "reachable ?d2" using reachable.step [OF 1 demux_step.enqueue [of _ ?f]] by (simp add: Enqueue_def newDemux_def)
  let ?d3 = "?d1\<lparr>dx_run := Matching ?f 0, dx_log := [?f]\<rparr>"
  have "run_step ?d2 (takeFrame ?d2)" by (rule run_step.take) (simp_all add: newDemux_def)
  then have "run_step ?d2 (Some ?d3)" by (simp add: takeFrame_def newDemux_def)
  then have "reachable ?d3" using 2 reachable.step demux_step.local local_step.run by blast
  then show ?thesis by (simp add: example_matching_def newDemux_def)
qed

lemma example_demux_reachable: "reachable example_demux"
proof -
  let ?f = "zero_frame\<lparr>DataKind := kindConnect\<rparr>" let ?r = "(newFramesReq 1 (any_frame\<lparr>ff_kinds := [kindConnect]\<rparr>))\<lparr>rq_once := True\<rparr>"
  have w: "Want (?r\<lparr>rq_start := n\<rparr>) ?f" for n by (simp add: Want_def newFramesReq_def framesFilter.extend_def any_frame_def)
  have r0: "?r\<lparr>rq_start := 0\<rparr> = ?r" by (simp add: newFramesReq_def framesFilter.extend_def)
  let ?d3 = "newDemux\<lparr>dx_reqs := [?r], dx_clients := [0], dx_run := Matching ?f 0, dx_log := [?f]\<rparr>"
  have 3: "reachable ?d3" using example_matching_reachable by (simp add: example_matching_def)
  let ?d4 = "example_demux\<lparr>dx_run := Matching ?f 0\<rparr>"
  have "run_step ?d3 (sendBuffered ?f 0 ?d3)"
    by (rule run_step.buffered) (use w [of 0] r0 in \<open>simp_all add: newFramesReq_def framesFilter.extend_def\<close>)
  then have "run_step ?d3 (Some ?d4)"
    by (simp add: sendBuffered_def afterSend_def removeClient_def closeResp_def onReq_def newDemux_def example_demux_def newFramesReq_def framesFilter.extend_def)
  then have 4: "reachable ?d4" using 3 reachable.step demux_step.local local_step.run by blast
  have "run_step ?d4 (Some (?d4\<lparr>dx_run := Waiting\<rparr>))" by (rule run_step.matched) (simp_all add: example_demux_def)
  then have "run_step ?d4 (Some example_demux)" by (simp add: example_demux_def)
  then show ?thesis using 4 reachable.step demux_step.local local_step.run by blast
qed

theorem demux_delivers_witness:
  "(\<exists>later. [zero_frame\<lparr>DataKind := kindConnect\<rparr>] = sent_to (dx_reqs example_demux ! 0) @ later) \<and> length (sent_to (dx_reqs example_demux ! 0)) \<le> 1"
proof -
  let ?f = "zero_frame\<lparr>DataKind := kindConnect\<rparr>" let ?r = "dx_reqs example_demux ! 0"
  have "Want ?r ?f" "rq_start ?r = 0" "rq_once ?r" "rq_closed ?r"
    by (simp_all add: example_demux_def Want_def newFramesReq_def framesFilter.extend_def any_frame_def)
  moreover have "dx_log example_demux = [?f]" "0 < length (dx_reqs example_demux)" by (simp_all add: example_demux_def)
  ultimately show ?thesis using demux_delivers [OF example_demux_reachable _ refl refl, of 0] by simp
qed

text \<open>How many steps handing out the current frame takes at most.\<close>

definition remaining :: "demux \<Rightarrow> nat" where
  "remaining d = (case dx_run d of Matching f i \<Rightarrow> Suc (length (dx_clients d) - i) | _ \<Rightarrow> 0)"

text \<open>A client that wants a frame and does not take it: its buffer is full, nobody waits at the channel, and it has not
  cancelled.\<close>

definition unwilling :: "framesReq \<Rightarrow> frame \<Rightarrow> bool" where
  "unwilling r f \<longleftrightarrow> Want r f \<and> rq_size r \<le> length (rq_resp r) \<and> \<not> (rq_resp r = [] \<and> rq_reading r) \<and> \<not> rq_done r"

lemma removeClient_remaining:
  "removeClient f i d = Some d' \<Longrightarrow> i < length (dx_clients d) \<Longrightarrow> remaining d' = Suc (length (dx_clients d) - 1 - i)"
  by (auto simp: removeClient_def closeResp_def onReq_def remaining_def bind_eq_Some_conv split: if_splits)

lemma afterSend_remaining:
  "afterSend f i d = Some d' \<Longrightarrow> i < length (dx_clients d) \<Longrightarrow> remaining d' \<le> length (dx_clients d) - i"
  by (auto simp: afterSend_def dest!: removeClient_remaining split: if_splits) (simp add: remaining_def)

lemma run_step_remaining:
  assumes "run_step d res" "res = Some d'" "dx_run d = Matching f i"
  shows "remaining d' < remaining d"
  using assms(1)
proof cases
  case (skip f i)
  then show ?thesis using assms(2) by (auto simp: remaining_def)
next
  case (buffered f i)
  then show ?thesis using assms(2) afterSend_remaining by (fastforce simp: sendBuffered_def onReq_def remaining_def Let_def split: if_splits)
next
  case (direct f i)
  then show ?thesis using assms(2) afterSend_remaining by (fastforce simp: sendDirect_def onReq_def remaining_def Let_def split: if_splits)
next
  case (cancelled f i)
  then show ?thesis using assms(2) removeClient_remaining [of f i d d'] by (simp add: remaining_def)
next
  case (matched f i)
  then show ?thesis using assms(2) by (auto simp: remaining_def)
qed (use assms(3) in simp_all)

lemma other_step_remaining:
  assumes "demux_step d d'" "\<not> run_step d (Some d')" "dx_run d = Matching f i"
  shows "remaining d' = remaining d"
  using assms(1)
proof cases
  case (enqueue g)
  then show ?thesis using assms(3) by (simp add: Enqueue_def remaining_def split: if_splits)
next
  case local
  then show ?thesis
  proof cases
    case run
    then show ?thesis using assms(2) by blast
  qed (use assms(3) in \<open>auto simp: demux_Close_def NextFrame_def Frames_def sendRequest_def Cancel_def awaitFrame_def receive_def onReq_def remaining_def Let_def
     bind_eq_Some_conv split: if_splits list.splits\<close>)
qed

text \<open>C13. The goroutine of a demultiplexer never panics: it never closes a channel twice and never sends on a closed one. When it
  has ended, every channel it gave out is closed. Handing out a frame ends: each of its steps, whether the client is skipped,
  served or removed, leaves fewer to do, and the steps of the other goroutines do not add to them. It is stuck exactly when
  it has ended, when it waits for a frame, or at a client that wants the frame and does not take it.\<close>

theorem demux_progress:
  assumes "reachable d"
  shows "\<not> run_step d None \<and> (dx_run d = Exited \<longrightarrow> (\<forall>r \<in> set (dx_reqs d). rq_closed r)) \<and>
    (\<forall>d'. demux_step d d' \<and> 0 < remaining d \<longrightarrow> (if run_step d (Some d') then remaining d' < remaining d else remaining d' = remaining d)) \<and>
    ((\<exists>d'. run_step d (Some d')) \<longleftrightarrow> \<not> (dx_run d = Exited \<or> dx_run d = Waiting \<and> dx_in d = [] \<and> \<not> dx_closed d \<or>
       (\<exists>f i. dx_run d = Matching f i \<and> i < length (dx_clients d) \<and> unwilling (client d i) f)))"
proof -
  have inv: "dinv d" by (rule reachable_dinv [OF assms])
  have some: "\<exists>d'. res = Some d'" if "run_step d res" for res using run_step_ok [OF that inv] by blast
  have "\<forall>r \<in> set (dx_reqs d). rq_closed r" if "dx_run d = Exited"
    using inv that by (auto simp: dinv_def clients_ok_def req_ok_def Let_def in_set_conv_nth)
  moreover have "if run_step d (Some d') then remaining d' < remaining d else remaining d' = remaining d"
    if "demux_step d d'" "0 < remaining d" for d'
  proof -
    have "0 < remaining d" by (rule that)
    then obtain f i where "dx_run d = Matching f i" by (cases "dx_run d") (simp_all add: remaining_def)
    then show ?thesis using run_step_remaining [OF _ refl, of d d'] other_step_remaining [OF that(1)] by simp
  qed
  moreover have "(\<exists>res. run_step d res) \<longleftrightarrow> \<not> (dx_run d = Exited \<or> dx_run d = Waiting \<and> dx_in d = [] \<and> \<not> dx_closed d \<or>
       (\<exists>f i. dx_run d = Matching f i \<and> i < length (dx_clients d) \<and> unwilling (client d i) f))"
  proof (cases "dx_run d")
    case Waiting
    then show ?thesis using run_step.take run_step.exit by (auto elim: run_step.cases)
  next
    case (Matching f i)
    show ?thesis
    proof (cases "i < length (dx_clients d) \<and> unwilling (client d i) f")
      case True
      then have "\<not> run_step d res" for res using Matching by (auto simp: unwilling_def elim: run_step.cases)
      then show ?thesis using True Matching by blast
    next
      case False
      then have "\<exists>res. run_step d res"
        using Matching run_step.skip run_step.buffered run_step.direct run_step.cancelled run_step.matched unfolding unwilling_def by (meson not_le)
      then show ?thesis using False Matching by auto
    qed
  next
    case Exited
    then show ?thesis by (auto elim: run_step.cases)
  qed
  ultimately show ?thesis using some by blast
qed

theorem demux_progress_witness:
  "\<not> run_step example_matching None \<and> (\<exists>d'. run_step example_matching (Some d') \<and> remaining d' < remaining example_matching)"
proof -
  let ?f = "zero_frame\<lparr>DataKind := kindConnect\<rparr>"
  have m: "dx_run example_matching = Matching ?f 0" "dx_clients example_matching = [0]" "rq_size (client example_matching 0) = 1" "rq_resp (client example_matching 0) = []"
    by (simp_all add: example_matching_def newDemux_def newFramesReq_def framesFilter.extend_def)
  note p = demux_progress [OF example_matching_reachable]
  have r: "0 < remaining example_matching" using m(1) by (simp add: remaining_def)
  have "\<not> unwilling (client example_matching 0) ?f" using m(3,4) by (simp add: unwilling_def)
  then obtain d' where d': "run_step example_matching (Some d')" using p m(1,2) by auto
  then show ?thesis using p r demux_step.local local_step.run by metis
qed

text \<open>C20. A chained demultiplexer sees a part of what the filter wants of the frames of the other one, in their order. So the
  demultiplexer of a port sees only frames of that port, and that of a connection only frames from or to its station.\<close>

theorem chain_filters:
  assumes "chained flt c"
  shows "subseq (dx_log (ch_next c)) (filter (Want flt) (dx_log (ch_up c)))"
proof -
  have inv: "chain_inv flt c" by (rule chained_inv [OF assms])
  let ?r = "dx_reqs (ch_up c) ! ch_chan c"
  obtain later where l: "filter (Want ?r) (drop (rq_start ?r) (dx_log (ch_up c))) = sent_to ?r @ later"
    using sent_prefix [of "ch_up c" "ch_chan c"] inv by (auto simp: chain_inv_def)
  have "subseq (dx_log (ch_next c)) (dx_log (ch_next c) @ dx_in (ch_next c))" by (intro subseq_rev_drop_many) simp
  also have "subseq \<dots> (take (ch_done c) (rq_got ?r))" using inv by (simp add: chain_inv_def)
  also have "subseq \<dots> (sent_to ?r @ later)" unfolding sent_to_def append_assoc
    by (intro subseq_rev_drop_many prefix_imp_subseq take_is_prefix)
  also have "\<dots> = filter (Want flt) (drop (rq_start ?r) (dx_log (ch_up c)))" using l inv by (simp add: chain_inv_def)
  also have "subseq \<dots> (filter (Want flt) (dx_log (ch_up c)))"
    by (rule subseq_filter) (simp add: suffix_imp_subseq suffix_drop)
  finally show ?thesis .
qed

theorem chain_filters_witness:
  "\<exists>c. Chain (any_frame\<lparr>ff_port := Some 1\<rparr>) newDemux = Some c \<and>
     subseq (dx_log (ch_next c)) (filter (Want (any_frame\<lparr>ff_port := Some 1\<rparr>)) (dx_log (ch_up c)))"
proof -
  obtain c where "Chain (any_frame\<lparr>ff_port := Some 1\<rparr>) newDemux = Some c"
    by (simp add: Chain_def isClosed_def Frames_def sendRequest_def newDemux_def Let_def)
  then show ?thesis using chain_filters [OF chained.start [OF reachable.start]] by blast
qed

text \<open>A frame that comes while the one before it is still in the channel \<open>in\<close> is lost although \<open>Enqueue\<close> reports success: whatever
  \<open>run\<close> and the clients do afterwards, the second of two frames in a row is never taken, so no client ever gets it. This holds for the
  data of a connection, too.\<close>

theorem second_frame_lost:
  assumes "\<not> dx_closed d" "dx_in d = []" "Enqueue f d = (ok1, d1)" "Enqueue g d1 = (ok2, d2)" "local_step\<^sup>*\<^sup>* d2 d'"
  shows "ok1 \<and> ok2 \<and> dx_log d' @ dx_in d' = dx_log d @ [f]"
proof -
  have "dx_log d' @ dx_in d' = dx_log d2 @ dx_in d2"
    using assms(5) by (induction rule: rtranclp_induct) (auto dest: local_step_log)
  then show ?thesis using assms(1-4) by (auto simp: Enqueue_def)
qed

theorem second_frame_lost_witness:
  "\<exists>d1 d2. Enqueue zero_frame newDemux = (True, d1) \<and> Enqueue (zero_frame\<lparr>DataKind := kindConnectedData\<rparr>) d1 = (True, d2) \<and> dx_log d2 @ dx_in d2 = [zero_frame]"
proof -
  let ?g = "zero_frame\<lparr>DataKind := kindConnectedData\<rparr>"
  obtain ok1 d1 where 1: "Enqueue zero_frame newDemux = (ok1, d1)" by (cases "Enqueue zero_frame newDemux")
  obtain ok2 d2 where 2: "Enqueue ?g d1 = (ok2, d2)" by (cases "Enqueue ?g d1")
  show ?thesis using second_frame_lost [OF _ _ 1 2 rtranclp.rtrancl_refl] 1 2 by (auto simp: newDemux_def)
qed

end
