(* ===== verification/Go_Outcome.thy ===== *)
theory Go_Outcome
  imports Main
begin

text \<open>
  What a call in Go can come to when it waits for other goroutines: it panics, it waits for ever, or it returns. The results
  of calls are passed on with \<open>andThen\<close>.
\<close>

datatype 'a outcome = Panic | Blocked | Done 'a

fun andThen :: "'a outcome \<Rightarrow> ('a \<Rightarrow> 'b outcome) \<Rightarrow> 'b outcome" where
  "andThen Panic k = Panic"
| "andThen Blocked k = Blocked"
| "andThen (Done x) k = k x"

lemma andThen_Done [simp]: "andThen x k = Done y \<longleftrightarrow> (\<exists>a. x = Done a \<and> k a = Done y)"
  by (cases x) simp_all

end
