(* ===== verification/Agwpe_Conn.thy ===== *)
theory Agwpe_Conn
  imports Agwpe_Demux Go_Outcome
begin

text \<open>
  Ports and connections of an AGWPE TNC (\<^verbatim>\<open>port.go\<close>, \<^verbatim>\<open>conn.go\<close>, \<^verbatim>\<open>listener.go\<close> and \<^verbatim>\<open>agwpe.go\<close> in \<^verbatim>\<open>src/transport/ax25/agwpe\<close>).
  The operations write frames to the TNC and wait for answers that the demultiplexer brings. What each wait ends with is part
  of the state: a frame, the closing of the channel, or a timeout. An operation that waits for something that never comes is
  \<open>Blocked\<close>.
\<close>

section \<open>Errors\<close>

datatype agw_err = ErrEOF | ErrNet net_err | ErrTimeout | ErrCtx | ErrPortClosed | ErrTNCClosed | ErrListenerClosed | ErrText string

section \<open>The state\<close>

text \<open>How a wait for an answer ends: with a frame, because the channel is closed, after the time the operation allows, or because the
  context of the caller is done.\<close>

datatype response = Got frame | ChanClosed | TimedOut | CtxDone

record world =
  w_tnc :: tncConn
  w_resp :: "response list"
  w_ticks :: "bool list"
  w_closed :: bool

text \<open>\<open>w_resp\<close> are the answers to come. \<open>w_ticks\<close> tells how the waits between two polls end: with the ticker, or because the context
  is done. \<open>w_closed\<close> is \<open>isClosed\<close> of the demultiplexer of the connection, or of the port where there is no connection.\<close>

definition nextResponse :: "world \<Rightarrow> (response \<times> world) outcome" where
  "nextResponse w = (case w_resp w of [] \<Rightarrow> Blocked | r # rs \<Rightarrow> Done (r, w\<lparr>w_resp := rs\<rparr>))"

record AgwPort =
  pt_port :: byte
  pt_mycall :: string
  pt_maxFrame :: int

record AgwConn =
  cn_p :: AgwPort
  cn_inbound :: bool
  cn_srcCall :: string
  cn_dstCall :: string
  cn_via :: "string list"
  cn_closing :: bool
  cn_reverse :: bool

text \<open>\<open>cn_reverse\<close> is the environment variable \<^verbatim>\<open>AGWPE_REVERSE_TO_FROM\<close>.\<close>

definition newConn :: "AgwPort \<Rightarrow> string \<Rightarrow> string list \<Rightarrow> bool \<Rightarrow> AgwConn" where
  "newConn p dstCall via rv =
     \<lparr>cn_p = p, cn_inbound = False, cn_srcCall = pt_mycall p, cn_dstCall = dstCall, cn_via = via, cn_closing = False, cn_reverse = rv\<rparr>"

section \<open>The TNC\<close>

definition TNC_write :: "frame \<Rightarrow> world \<Rightarrow> agw_err option \<times> world" where
  "TNC_write f w = (case frame_WriteTo f (w_tnc w) of ((n, e), c) \<Rightarrow> (map_option ErrNet e, w\<lparr>w_tnc := c\<rparr>))"

definition le16at :: "string \<Rightarrow> nat \<Rightarrow> nat" where
  "le16at d i = unat (of_le16 (to_bytes (take 2 (drop i d))))"

definition badLength :: "frame \<Rightarrow> string \<Rightarrow> agw_err" where
  "badLength f what = ErrText (CHR 0x27 # DataKind f # CHR 0x27 # '' frame with '' @ what @ '' data length'')"

definition TNC_Version :: "world \<Rightarrow> ((agw_err + string) \<times> world) outcome" where
  "TNC_Version w =
     (let w = snd (TNC_write versionNumberFrame w) in
      andThen (nextResponse w) (\<lambda>(r, w). case r of
        Got f \<Rightarrow> if length (Data f) \<noteq> 8 then Done (Inl (badLength f ''invalid''), w)
                 else Done (Inr (printInt (int (le16at (Data f) 0)) @ ''.'' @ printInt (int (le16at (Data f) 4))), w)
      | ChanClosed \<Rightarrow> Done (Inl ErrTNCClosed, w)
      | _ \<Rightarrow> Done (Inl ErrTimeout, w)))"

section \<open>Ports\<close>

definition Port_write :: "AgwPort \<Rightarrow> frame \<Rightarrow> world \<Rightarrow> (agw_err option \<times> world) outcome" where
  "Port_write p f w = (if Port f \<noteq> pt_port p then Panic else Done (TNC_write f w))"

text \<open>A closed channel delivers a zero frame here, because the second result of the receive is not used.\<close>

definition frameOf :: "response \<Rightarrow> frame option" where
  "frameOf r = (case r of Got f \<Rightarrow> Some f | ChanClosed \<Rightarrow> Some zero_frame | _ \<Rightarrow> None)"

text \<open>The answer has 12 bytes; the one that is used is the maximal number of frames.\<close>

definition getCapabilities :: "AgwPort \<Rightarrow> world \<Rightarrow> ((agw_err + int) \<times> world) outcome" where
  "getCapabilities p w =
     andThen (Port_write p (portCapabilitiesFrame (pt_port p)) w) (\<lambda>(e, w).
       case e of
         Some e \<Rightarrow> Done (Inl e, w)
       | None \<Rightarrow> andThen (nextResponse w) (\<lambda>(r, w). case frameOf r of
           None \<Rightarrow> Done (Inl ErrCtx, w)
         | Some f \<Rightarrow> if length (Data f) < 12 then Done (Inl (if Data f = [] then ErrEOF else ErrNet NetUnexpectedEOF), w)
                     else Done (Inr (int (byte_val (Data f ! 6))), w)))"

definition register :: "AgwPort \<Rightarrow> world \<Rightarrow> ((agw_err option \<times> AgwPort) \<times> world) outcome" where
  "register p w =
     andThen (getCapabilities p w) (\<lambda>(c, w).
       let p = (case c of Inl e \<Rightarrow> p\<lparr>pt_maxFrame := 7\<rparr> | Inr n \<Rightarrow> p\<lparr>pt_maxFrame := n\<rparr>) in
       andThen (Port_write p (registerCallsignFrame (pt_mycall p) (pt_port p)) w) (\<lambda>(e, w).
         case e of
           Some e \<Rightarrow> Done ((Some e, p), w)
         | None \<Rightarrow> andThen (nextResponse w) (\<lambda>(r, w). case frameOf r of
             None \<Rightarrow> Done ((Some ErrCtx, p), w)
           | Some f \<Rightarrow>
               if length (Data f) \<noteq> 1 then Done ((Some (ErrText (''unexpected registration response ('' @ [DataKind f] @ '')'')), p), w)
               else if Data f ! 0 \<noteq> CHR 0x01 then Done ((Some (ErrText ''callsign in use''), p), w)
               else Done ((None, p), w))))"

text \<open>A port that cannot be registered closes the TNC.\<close>

definition RegisterPort :: "int \<Rightarrow> string \<Rightarrow> world \<Rightarrow> ((agw_err option \<times> AgwPort) \<times> world) outcome" where
  "RegisterPort port mycall w =
     andThen (register \<lparr>pt_port = word_of_int port, pt_mycall = mycall, pt_maxFrame = 0\<rparr> w) (\<lambda>((e, p), w).
       Done ((e, p), if e = None then w else w\<lparr>w_closed := True\<rparr>))"

definition Port_Close :: "AgwPort \<Rightarrow> world \<Rightarrow> world outcome" where
  "Port_Close p w =
     andThen (Port_write p (unregisterCallsignFrame (pt_mycall p) (pt_port p)) w) (\<lambda>(e, w). Done (w\<lparr>w_closed := True\<rparr>))"

definition SendUI :: "AgwPort \<Rightarrow> string \<Rightarrow> string \<Rightarrow> world \<Rightarrow> agw_err option \<times> world" where
  "SendUI p data dst w =
     (if w_closed w then (Some ErrPortClosed, w)
      else TNC_write (unprotoInformationFrame (pt_mycall p) dst (pt_port p) data) w)"

text \<open>The number in an answer to a poll.\<close>

definition count :: "frame \<Rightarrow> int" where
  "count f = int (unat (of_le32 (to_bytes (Data f))))"

definition Port_numOutstandingFrames :: "AgwPort \<Rightarrow> world \<Rightarrow> ((agw_err + int) \<times> world) outcome" where
  "Port_numOutstandingFrames p w =
     andThen (Port_write p (outstandingFramesForPortFrame (pt_port p)) w) (\<lambda>(e, w).
       case e of
         Some e \<Rightarrow> Done (Inl e, w)
       | None \<Rightarrow> andThen (nextResponse w) (\<lambda>(r, w). case r of
           Got f \<Rightarrow> if length (Data f) \<noteq> 4 then Done (Inl (badLength f ''unexpected''), w) else Done (Inr (count f), w)
         | ChanClosed \<Rightarrow> Done (Inr 0, w)
         | _ \<Rightarrow> Done (Inl ErrTimeout, w)))"

section \<open>Connections\<close>

definition pollFrame :: "AgwConn \<Rightarrow> frame" where
  "pollFrame c =
     (let (from, to) = (cn_srcCall c, cn_dstCall c);
          (from, to) = (if cn_inbound c \<and> cn_reverse c then (to, from) else (from, to))
      in outstandingFramesForConnFrame (pt_port (cn_p c)) from to)"

definition numOutstandingFrames :: "AgwConn \<Rightarrow> world \<Rightarrow> ((agw_err + int) \<times> world) outcome" where
  "numOutstandingFrames c w =
     (if w_closed w then Done (Inl ErrEOF, w)
      else andThen (Port_write (cn_p c) (pollFrame c) w) (\<lambda>(e, w).
        case e of
          Some e \<Rightarrow> Done (Inl e, w)
        | None \<Rightarrow> andThen (nextResponse w) (\<lambda>(r, w). case r of
            Got f \<Rightarrow> if length (Data f) \<noteq> 4 then Done (Inl (badLength f ''unexpected''), w) else Done (Inr (count f), w)
          | ChanClosed \<Rightarrow> Done (Inl ErrEOF, w)
          | TimedOut \<Rightarrow> Done (Inl ErrTimeout, w)
          | CtxDone \<Rightarrow> Done (Inl ErrCtx, w))))"

lemma numOutstandingFrames_consumes:
  "numOutstandingFrames c w = Done (Inr n, w') \<Longrightarrow> length (w_resp w') < length (w_resp w)"
  by (auto simp: numOutstandingFrames_def Port_write_def TNC_write_def nextResponse_def split: if_splits option.splits prod.splits list.splits response.splits)

text \<open>Polls until \<open>stop\<close> is satisfied. A context that is done while the answer to a poll is awaited ends the wait like one that is done
  between two polls. The caller of the polling goroutine is taken to wait before the first answer comes, so that it sees the context
  first.\<close>

function waitOutstandingFrames :: "(int \<Rightarrow> bool) \<Rightarrow> AgwConn \<Rightarrow> world \<Rightarrow> (agw_err option \<times> world) outcome" where
  "waitOutstandingFrames stop c w =
     (case numOutstandingFrames c w of
        Panic \<Rightarrow> Panic
      | Blocked \<Rightarrow> Blocked
      | Done (Inl e, w) \<Rightarrow> Done (Some e, w)
      | Done (Inr n, w) \<Rightarrow>
          if stop n then Done (None, w)
          else (case w_ticks w of
                  [] \<Rightarrow> Blocked
                | tick # ts \<Rightarrow> if tick then waitOutstandingFrames stop c (w\<lparr>w_ticks := ts\<rparr>) else Done (Some ErrCtx, w\<lparr>w_ticks := ts\<rparr>)))"
  by pat_completeness auto
termination
  by (relation "measure (\<lambda>(stop, c, w). length (w_resp w))") (auto dest!: sym [of "Done _"] numOutstandingFrames_consumes)

declare waitOutstandingFrames.simps [simp del]

definition Conn_Flush :: "AgwConn \<Rightarrow> world \<Rightarrow> (agw_err option \<times> world) outcome" where
  "Conn_Flush c w = waitOutstandingFrames (\<lambda>n. n = 0) c w"

definition dataFrame :: "AgwConn \<Rightarrow> string \<Rightarrow> frame" where
  "dataFrame c p = connectedDataFrame (pt_port (cn_p c)) (cn_srcCall c) (cn_dstCall c) p"

definition Conn_Write :: "AgwConn \<Rightarrow> string \<Rightarrow> world \<Rightarrow> ((nat \<times> agw_err option) \<times> world) outcome" where
  "Conn_Write c p w =
     (if cn_closing c then Done ((0, Some ErrEOF), w)
      else andThen (waitOutstandingFrames (\<lambda>n. n \<le> pt_maxFrame (cn_p c)) c w) (\<lambda>(e, w).
        case e of
          Some e \<Rightarrow> Done ((0, Some e), w)
        | None \<Rightarrow> andThen (Port_write (cn_p c) (dataFrame c p) w) (\<lambda>(e, w).
            case e of
              Some e \<Rightarrow> Done ((0, Some e), w)
            | None \<Rightarrow> andThen (waitOutstandingFrames (\<lambda>n. 0 < n) c w) (\<lambda>(e, w).
                case e of Some e \<Rightarrow> Done ((0, Some e), w) | None \<Rightarrow> Done ((length p, None), w)))))"

text \<open>\<open>Read\<close> into a slice of length \<open>n\<close>; the answers are what the channel \<open>dataFrames\<close> delivers. What is read is the data.\<close>

definition Conn_Read :: "nat \<Rightarrow> world \<Rightarrow> ((agw_err + string) \<times> world) outcome" where
  "Conn_Read n w =
     andThen (nextResponse w) (\<lambda>(r, w). case r of
       Got f \<Rightarrow> if n < length (Data f) then Panic else Done (Inr (Data f), w)
     | ChanClosed \<Rightarrow> Done (Inl ErrEOF, w)
     | _ \<Rightarrow> Done (Inl ErrCtx, w))"

definition Conn_Close :: "AgwConn \<Rightarrow> world \<Rightarrow> ((agw_err option \<times> AgwConn) \<times> world) outcome" where
  "Conn_Close c w =
     (if cn_closing c \<or> w_closed w then Done ((None, c), w)
      else let c = c\<lparr>cn_closing := True\<rparr> in
        andThen (Conn_Flush c w) (\<lambda>(e, w).
          if e = Some ErrEOF then Done ((None, c), w\<lparr>w_closed := True\<rparr>)
          else andThen (Port_write (cn_p c) (disconnectFrame (cn_srcCall c) (cn_dstCall c) (pt_port (cn_p c))) w) (\<lambda>(e, w).
            case e of
              Some e \<Rightarrow> Done ((Some e, c), w\<lparr>w_closed := True\<rparr>)
            | None \<Rightarrow> andThen (nextResponse w) (\<lambda>(r, w).
                Done ((if frameOf r = None then Some ErrCtx else None, c), w\<lparr>w_closed := True\<rparr>)))))"

text \<open>Waiting for the answer to a connect frame. When the context is done a disconnect frame is sent, and the wait goes on.\<close>

definition hangUp :: "AgwConn \<Rightarrow> frame" where
  "hangUp c = disconnectFrame (cn_srcCall c) (cn_dstCall c) (pt_port (cn_p c))"

function awaitConnect :: "bool \<Rightarrow> AgwConn \<Rightarrow> world \<Rightarrow> (agw_err option \<times> world) outcome" where
  "awaitConnect cancelled c w =
     (case w_resp w of
        [] \<Rightarrow> Blocked
      | ChanClosed # rs \<Rightarrow> Done (Some ErrPortClosed, w\<lparr>w_resp := rs\<rparr>)
      | Got f # rs \<Rightarrow>
          (let w = w\<lparr>w_resp := rs\<rparr> in
           if DataKind f = kindConnect then
             if HasPrefix (Data f) ''*** CONNECTED With '' then Done (None, w)
             else andThen (Port_write (cn_p c) (hangUp c) w) (\<lambda>(e, w). Done (Some (ErrText ''connect precondition failed''), w))
           else if DataKind f = kindDisconnect then
             Done (Some (if cancelled then ErrCtx else ErrText (TrimSpace (strFromBytes (Data f)))), w)
           else Panic)
      | _ # rs \<Rightarrow>
          (let w = w\<lparr>w_resp := rs\<rparr> in
           if cancelled then awaitConnect True c w
           else (case Port_write (cn_p c) (hangUp c) w of Panic \<Rightarrow> Panic | Blocked \<Rightarrow> Blocked | Done (e, w) \<Rightarrow> awaitConnect True c w)))"
  by pat_completeness auto
termination
  by (relation "measure (\<lambda>(b, c, w). length (w_resp w))")
     (auto simp: Port_write_def TNC_write_def split: if_splits prod.splits dest!: sym [of "Done _"])

declare awaitConnect.simps [simp del]

definition connect :: "AgwConn \<Rightarrow> world \<Rightarrow> (agw_err option \<times> world) outcome" where
  "connect c w =
     andThen (Port_write (cn_p c) (connectFrame (cn_srcCall c) (cn_dstCall c) (pt_port (cn_p c)) (cn_via c)) w) (\<lambda>(e, w).
       case e of Some e \<Rightarrow> Done (Some e, w) | None \<Rightarrow> awaitConnect False c w)"

definition DialContext :: "AgwPort \<Rightarrow> string \<Rightarrow> string list \<Rightarrow> bool \<Rightarrow> world \<Rightarrow> ((agw_err + AgwConn) \<times> world) outcome" where
  "DialContext p target via rv w =
     (if w_closed w then Done (Inl ErrPortClosed, w)
      else let c = newConn p target via rv in
        andThen (connect c w) (\<lambda>(e, w). case e of Some e \<Rightarrow> Done (Inl e, w) | None \<Rightarrow> Done (Inr c, w)))"

text \<open>\<open>handleInbound\<close> for one connect frame: a connection for whoever waits in \<open>Accept\<close>, or it is closed again. Its demultiplexer is new, so it is not closed before.\<close>

definition handleConnect :: "AgwPort \<Rightarrow> bool \<Rightarrow> bool \<Rightarrow> frame \<Rightarrow> world \<Rightarrow> (AgwConn option \<times> world) outcome" where
  "handleConnect p rv accepting f w =
     (if \<not> HasPrefix (Data f) ''*** CONNECTED To '' then Done (None, w)
      else let conn = (newConn p (callsign_String (From f)) [] rv)\<lparr>cn_inbound := True\<rparr> in
        if accepting then Done (Some conn, w)
        else andThen (Conn_Close conn (w\<lparr>w_closed := False\<rparr>)) (\<lambda>(r, w'). Done (None, w'\<lparr>w_closed := w_closed w\<rparr>)))"

text \<open>\<open>Accept\<close>: the next inbound connection, unless the port or the listener is closed. The listener is its \<open>done\<close> channel.\<close>

datatype inbound = Inbound AgwConn | InboundClosed | ListenerDone

definition Listener_Accept :: "inbound \<Rightarrow> agw_err + AgwConn" where
  "Listener_Accept i = (case i of Inbound c \<Rightarrow> Inr c | InboundClosed \<Rightarrow> Inl ErrPortClosed | ListenerDone \<Rightarrow> Inl ErrListenerClosed)"

definition DialURLContext :: "AgwPort \<Rightarrow> string \<Rightarrow> string \<Rightarrow> string list \<Rightarrow> bool \<Rightarrow> world \<Rightarrow> ((agw_err + AgwConn) \<times> world) outcome" where
  "DialURLContext p scheme target digis rv w =
     (if scheme \<noteq> ''ax25'' \<and> scheme \<noteq> ''ax25+agwpe'' \<and> scheme \<noteq> ''agwpe+ax25''
      then Done (Inl (ErrText (''unsupported scheme '' @ [CHR 0x27] @ scheme @ [CHR 0x27])), w)
      else DialContext p target digis rv w)"

definition TNCPort_Close :: "AgwPort \<Rightarrow> world \<Rightarrow> world outcome" where
  "TNCPort_Close p w = andThen (Port_Close p w) (\<lambda>w. Done (w\<lparr>w_closed := True\<rparr>))"

text \<open>The address of a connection as a string.\<close>

definition addr_String :: "string \<Rightarrow> string list \<Rightarrow> string" where
  "addr_String dest digis = (if digis = [] then dest else dest @ '' via '' @ joinWith '' '' digis)"

section \<open>Polling\<close>

text \<open>The bytes of \<open>n\<close> polls.\<close>

definition polled :: "AgwConn \<Rightarrow> nat \<Rightarrow> string" where
  "polled c n = concat (replicate n (frameBytes (pollFrame c)))"

lemma pollFrame_Port [simp]: "Port (pollFrame c) = pt_port (cn_p c)"
  by (simp add: pollFrame_def outstandingFramesForConnFrame_def Let_def split: prod.splits)

lemma dataFrame_Port [simp]: "Port (dataFrame c p) = pt_port (cn_p c)"
  by (simp add: dataFrame_def connectedDataFrame_def)

lemma TNC_write_ok: "TNC_write f w = (None, w') \<longleftrightarrow> tc_fail (w_tnc w) = None \<and> w' = w\<lparr>w_tnc := (w_tnc w)\<lparr>tc_out := tc_out (w_tnc w) @ frameBytes f\<rparr>\<rparr>"
proof (cases "tc_fail (w_tnc w)")
  case None
  then show ?thesis by (auto simp: TNC_write_def frame_WriteTo_bytes)
next
  case (Some e)
  then show ?thesis by (simp add: TNC_write_def frame_WriteTo_def header_WriteTo_def net_Write_def)
qed

lemma TNC_write_resp: "w_resp (snd (TNC_write f w)) = w_resp w"
  by (simp add: TNC_write_def split: prod.splits)

definition wrote :: "string \<Rightarrow> world \<Rightarrow> world" where
  "wrote s w = w\<lparr>w_tnc := (w_tnc w)\<lparr>tc_out := tc_out (w_tnc w) @ s\<rparr>\<rparr>"

lemma wrote_simps [simp]: "w_resp (wrote s w) = w_resp w" "w_ticks (wrote s w) = w_ticks w" "w_closed (wrote s w) = w_closed w"
    "tc_fail (w_tnc (wrote s w)) = tc_fail (w_tnc w)" "tc_out (w_tnc (wrote s w)) = tc_out (w_tnc w) @ s"
  by (simp_all add: wrote_def)

lemma numOutstandingFrames_ok:
  "numOutstandingFrames c w = Done (Inr n, w') \<longleftrightarrow>
     (\<exists>f rs. \<not> w_closed w \<and> tc_fail (w_tnc w) = None \<and> w_resp w = Got f # rs \<and> length (Data f) = 4 \<and> n = count f \<and>
        w' = (wrote (polled c 1) w)\<lparr>w_resp := rs\<rparr>)"
  (is "?l \<longleftrightarrow> ?r")
proof
  assume ?l
  then obtain w1 where 1: "\<not> w_closed w" "TNC_write (pollFrame c) w = (None, w1)"
    by (cases "TNC_write (pollFrame c) w") (auto simp: numOutstandingFrames_def Port_write_def split: if_splits option.splits)
  then have w1: "w1 = wrote (polled c 1) w" "tc_fail (w_tnc w) = None" by (simp_all add: TNC_write_ok wrote_def polled_def)
  then show ?r using \<open>?l\<close> 1
    by (auto simp: numOutstandingFrames_def Port_write_def nextResponse_def split: if_splits list.splits response.splits)
next
  assume ?r
  moreover have "TNC_write (pollFrame c) w = (None, wrote (polled c 1) w)" if "tc_fail (w_tnc w) = None"
    using that by (simp add: TNC_write_ok wrote_def polled_def)
  ultimately show ?l by (auto simp: numOutstandingFrames_def Port_write_def nextResponse_def)
qed

definition report :: "(int \<Rightarrow> bool) \<Rightarrow> frame \<Rightarrow> bool" where
  "report P f \<longleftrightarrow> length (Data f) = 4 \<and> P (count f)"

lemma polled_Suc: "polled c (Suc n) = polled c 1 @ polled c n"
  by (simp add: polled_def)

lemma waitOutstandingFrames_ok:
  "waitOutstandingFrames stop c w = Done (None, w') \<Longrightarrow>
   \<exists>fs f ts. w_resp w = map Got (fs @ [f]) @ w_resp w' \<and> list_all (report (\<lambda>n. \<not> stop n)) fs \<and> report stop f \<and>
     tc_fail (w_tnc w) = None \<and> w' = (wrote (polled c (length fs + 1)) w)\<lparr>w_resp := w_resp w', w_ticks := ts\<rparr>"
proof (induction stop c w rule: waitOutstandingFrames.induct)
  case (1 stop c w)
  from "1.prems" obtain n w1 where n: "numOutstandingFrames c w = Done (Inr n, w1)"
    by (subst (asm) waitOutstandingFrames.simps) (auto split: outcome.splits sum.splits)
  then obtain f rs where f: "\<not> w_closed w" "tc_fail (w_tnc w) = None" "w_resp w = Got f # rs" "length (Data f) = 4" "n = count f"
      "w1 = (wrote (polled c 1) w)\<lparr>w_resp := rs\<rparr>" by (auto simp: numOutstandingFrames_ok)
  show ?case
  proof (cases "stop n")
    case True
    then have "w' = w1" using "1.prems" n by (subst (asm) waitOutstandingFrames.simps) simp
    then show ?thesis using f True by (intro exI [of _ "[]"] exI [of _ f] exI [of _ "w_ticks w"]) (simp add: report_def wrote_def)
  next
    case False
    then obtain ts where t: "w_ticks w1 = True # ts" "waitOutstandingFrames stop c (w1\<lparr>w_ticks := ts\<rparr>) = Done (None, w')"
      using "1.prems" n by (subst (asm) waitOutstandingFrames.simps) (auto split: list.splits if_splits)
    from "1.IH" [OF n refl refl False t(1) TrueI t(2)] obtain fs g us where ih:
        "rs = map Got (fs @ [g]) @ w_resp w'" "list_all (report (\<lambda>n. \<not> stop n)) fs" "report stop g"
        "w' = (wrote (polled c (length fs + 1)) (w1\<lparr>w_ticks := ts\<rparr>))\<lparr>w_resp := w_resp w', w_ticks := us\<rparr>"
      using f by auto
    have "wrote (polled c (length fs + 1)) (w1\<lparr>w_ticks := ts\<rparr>) = (wrote (polled c (length (f # fs) + 1)) w)\<lparr>w_resp := rs, w_ticks := ts\<rparr>"
      using f(6) by (simp add: wrote_def polled_Suc [of c "Suc (length fs)"])
    moreover have "report (\<lambda>n. \<not> stop n) f" using f False by (simp add: report_def)
    ultimately show ?thesis using f ih by (intro exI [of _ "f # fs"] exI [of _ g] exI [of _ us]) simp
  qed
qed

lemma waitOutstandingFrames_completes:
  "list_all (report (\<lambda>n. \<not> stop n)) fs \<Longrightarrow> report stop f \<Longrightarrow> \<not> w_closed w \<Longrightarrow> tc_fail (w_tnc w) = None \<Longrightarrow>
   w_resp w = map Got (fs @ [f]) @ rs \<Longrightarrow> w_ticks w = replicate (length fs) True @ ts \<Longrightarrow>
   waitOutstandingFrames stop c w = Done (None, (wrote (polled c (length fs + 1)) w)\<lparr>w_resp := rs, w_ticks := ts\<rparr>)"
proof (induction fs arbitrary: w)
  case Nil
  then have "numOutstandingFrames c w = Done (Inr (count f), (wrote (polled c 1) w)\<lparr>w_resp := rs\<rparr>)"
    by (simp add: numOutstandingFrames_ok report_def)
  then show ?case using Nil by (subst waitOutstandingFrames.simps) (simp add: report_def wrote_def)
next
  case (Cons g fs)
  let ?rs = "map Got (fs @ [f]) @ rs" and ?ts = "replicate (length fs) True @ ts"
  let ?w = "(wrote (polled c 1) w)\<lparr>w_resp := ?rs\<rparr>"
  have n: "numOutstandingFrames c w = Done (Inr (count g), ?w)" using Cons.prems by (simp add: numOutstandingFrames_ok report_def)
  have "waitOutstandingFrames stop c (?w\<lparr>w_ticks := ?ts\<rparr>) =
      Done (None, (wrote (polled c (length fs + 1)) (?w\<lparr>w_ticks := ?ts\<rparr>))\<lparr>w_resp := rs, w_ticks := ts\<rparr>)"
    using Cons.prems by (intro Cons.IH) simp_all
  moreover have "(wrote (polled c (length fs + 1)) (?w\<lparr>w_ticks := ?ts\<rparr>))\<lparr>w_resp := rs, w_ticks := ts\<rparr> =
      (wrote (polled c (length (g # fs) + 1)) w)\<lparr>w_resp := rs, w_ticks := ts\<rparr>"
    by (simp add: wrote_def polled_Suc [of c "Suc (length fs)"])
  moreover have "waitOutstandingFrames stop c w = waitOutstandingFrames stop c (?w\<lparr>w_ticks := ?ts\<rparr>)"
    using n Cons.prems by (subst waitOutstandingFrames.simps) (simp add: report_def)
  ultimately show ?case by simp
qed

section \<open>Properties\<close>

lemma Conn_Write_ok:
  "Conn_Write c p w = Done ((n, None), w') \<Longrightarrow>
   \<exists>w1 w2. \<not> cn_closing c \<and> n = length p \<and> waitOutstandingFrames (\<lambda>n. n \<le> pt_maxFrame (cn_p c)) c w = Done (None, w1) \<and>
     w2 = wrote (frameBytes (dataFrame c p)) w1 \<and> waitOutstandingFrames (\<lambda>n. 0 < n) c w2 = Done (None, w')"
  by (auto simp: Conn_Write_def Port_write_def TNC_write_ok wrote_def split: if_splits option.splits prod.splits)

text \<open>C17. A write to an AX.25 connection that succeeds has sent the data in one frame, and has obeyed the flow control: the frame was sent
  directly after the TNC had reported at most \<open>maxFrame\<close> outstanding frames, every report before had more, and the write did not return before
  the TNC reported an outstanding frame. Nothing else but the polls for these reports was sent.\<close>

theorem write_flow_control:
  assumes "Conn_Write c p w = Done ((n, None), w')"
  shows "n = length p \<and> (\<exists>fs f gs g. w_resp w = map Got (fs @ f # gs @ [g]) @ w_resp w' \<and>
     list_all (report (\<lambda>n. n > pt_maxFrame (cn_p c))) fs \<and> report (\<lambda>n. n \<le> pt_maxFrame (cn_p c)) f \<and>
     list_all (report (\<lambda>n. n \<le> 0)) gs \<and> report (\<lambda>n. 0 < n) g \<and>
     tc_out (w_tnc w') = tc_out (w_tnc w) @ polled c (length fs + 1) @ frameBytes (dataFrame c p) @ polled c (length gs + 1))"
proof -
  obtain w1 where 1: "n = length p" "waitOutstandingFrames (\<lambda>n. n \<le> pt_maxFrame (cn_p c)) c w = Done (None, w1)"
      "waitOutstandingFrames (\<lambda>n. 0 < n) c (wrote (frameBytes (dataFrame c p)) w1) = Done (None, w')"
    using Conn_Write_ok [OF assms] by auto
  obtain fs f ts where a: "w_resp w = map Got (fs @ [f]) @ w_resp w1" "list_all (report (\<lambda>n. \<not> n \<le> pt_maxFrame (cn_p c))) fs"
      "report (\<lambda>n. n \<le> pt_maxFrame (cn_p c)) f" "w1 = (wrote (polled c (length fs + 1)) w)\<lparr>w_resp := w_resp w1, w_ticks := ts\<rparr>"
    using waitOutstandingFrames_ok [OF 1(2)] by blast
  obtain gs g us where b: "w_resp w1 = map Got (gs @ [g]) @ w_resp w'" "list_all (report (\<lambda>n. \<not> 0 < n)) gs" "report (\<lambda>n. 0 < n) g"
      "w' = (wrote (polled c (length gs + 1)) (wrote (frameBytes (dataFrame c p)) w1))\<lparr>w_resp := w_resp w', w_ticks := us\<rparr>"
    using waitOutstandingFrames_ok [OF 1(3)] by auto
  have "tc_out (w_tnc w1) = tc_out (w_tnc w) @ polled c (length fs + 1)" by (subst a(4)) simp
  moreover have "tc_out (w_tnc w') = tc_out (w_tnc w1) @ frameBytes (dataFrame c p) @ polled c (length gs + 1)" by (subst b(4)) simp
  ultimately show ?thesis using 1(1) a(1-3) b(1-3)
    by (intro conjI exI [of _ fs] exI [of _ f] exI [of _ gs] exI [of _ g]) (simp_all add: not_le not_less)
qed

definition exampleConn :: AgwConn where
  "exampleConn = newConn \<lparr>pt_port = 1, pt_mycall = ''LA5NTA'', pt_maxFrame = 4\<rparr> ''N0CALL'' [] False"

definition counted :: "nat \<Rightarrow> frame" where
  "counted n = zero_frame\<lparr>Port := 1, DataKind := kindOutstandingFramesForConn, Data := of_bytes (le32 (of_nat n))\<rparr>"

definition exampleWorld :: world where
  "exampleWorld = \<lparr>w_tnc = \<lparr>tc_segs = [], tc_end = NetEOF, tc_out = [], tc_fail = None\<rparr>,
     w_resp = map Got [counted 6, counted 5, counted 2, counted 4], w_ticks = [True, True], w_closed = False\<rparr>"

lemma report_counted: "n < 2 ^ 32 \<Longrightarrow> report P (counted n) \<longleftrightarrow> P (int n)"
  by (simp add: report_def counted_def count_def of_le32_le32 unsigned_of_nat take_bit_nat_eq_self)

lemma exampleWrite:
  "\<exists>w'. Conn_Write exampleConn ''Hi'' exampleWorld = Done ((2, None), w')"
proof -
  let ?c = exampleConn and ?w = exampleWorld
  note ex = exampleConn_def exampleWorld_def newConn_def
  let ?w1 = "(wrote (polled ?c 3) ?w)\<lparr>w_resp := [Got (counted 4)], w_ticks := []\<rparr>"
  have 1: "waitOutstandingFrames (\<lambda>n. n \<le> pt_maxFrame (cn_p ?c)) ?c ?w = Done (None, ?w1)"
    using waitOutstandingFrames_completes [of "\<lambda>n. n \<le> 4" "[counted 6, counted 5]" "counted 2" ?w "[Got (counted 4)]" "[]" ?c]
    by (simp add: ex report_counted numeral_3_eq_3)
  let ?w2 = "wrote (frameBytes (dataFrame ?c ''Hi'')) ?w1"
  have 2: "TNC_write (dataFrame ?c ''Hi'') ?w1 = (None, ?w2)" by (simp add: TNC_write_ok wrote_def exampleWorld_def)
  have 3: "waitOutstandingFrames (\<lambda>n. 0 < n) ?c ?w2 = Done (None, (wrote (polled ?c 1) ?w2)\<lparr>w_resp := [], w_ticks := []\<rparr>)"
    using waitOutstandingFrames_completes [of "\<lambda>n. 0 < n" "[]" "counted 4" ?w2 "[]" "[]" ?c]
    by (simp add: exampleWorld_def report_counted)
  have "\<not> cn_closing ?c" by (simp add: ex)
  then show ?thesis using 1 2 3 by (simp add: Conn_Write_def Port_write_def)
qed

theorem write_flow_control_witness:
  "\<exists>w' fs f gs g. Conn_Write exampleConn ''Hi'' exampleWorld = Done ((2, None), w') \<and>
     w_resp exampleWorld = map Got (fs @ f # gs @ [g]) @ w_resp w' \<and> report (\<lambda>n. n \<le> 4) f"
proof -
  obtain w' where w: "Conn_Write exampleConn ''Hi'' exampleWorld = Done ((2, None), w')" using exampleWrite by blast
  have "pt_maxFrame (cn_p exampleConn) = 4" by (simp add: exampleConn_def newConn_def)
  then show ?thesis using write_flow_control [OF w] w by auto
qed

text \<open>C24. A write completes if the TNC answers its polls: the connection is open, the network does not fail, the number of outstanding
  frames drops to \<open>maxFrame\<close> in time, and after the data frame a positive number is reported: a TNC that has transmitted the frame
  before the first poll after it reports zero, and the write goes on waiting. The bytes sent are the polls and the frame.\<close>

theorem write_completes:
  assumes "\<not> cn_closing c" "\<not> w_closed w" "tc_fail (w_tnc w) = None"
    and "list_all (report (\<lambda>n. n > pt_maxFrame (cn_p c))) fs" "report (\<lambda>n. n \<le> pt_maxFrame (cn_p c)) f"
    and "list_all (report (\<lambda>n. n \<le> 0)) gs" "report (\<lambda>n. 0 < n) g"
    and "w_resp w = map Got (fs @ f # gs @ [g]) @ rs" "w_ticks w = replicate (length fs + length gs) True @ ts"
  shows "Conn_Write c p w = Done ((length p, None),
     (wrote (polled c (length fs + 1) @ frameBytes (dataFrame c p) @ polled c (length gs + 1)) w)\<lparr>w_resp := rs, w_ticks := ts\<rparr>)"
proof -
  let ?rs = "map Got (gs @ [g]) @ rs" and ?ts = "replicate (length gs) True @ ts"
  let ?w1 = "(wrote (polled c (length fs + 1)) w)\<lparr>w_resp := ?rs, w_ticks := ?ts\<rparr>"
  have 1: "waitOutstandingFrames (\<lambda>n. n \<le> pt_maxFrame (cn_p c)) c w = Done (None, ?w1)"
    using assms by (intro waitOutstandingFrames_completes) (simp_all add: not_le replicate_add)
  let ?w2 = "wrote (frameBytes (dataFrame c p)) ?w1"
  have 2: "TNC_write (dataFrame c p) ?w1 = (None, ?w2)" using assms(3) by (simp add: TNC_write_ok wrote_def)
  have 3: "waitOutstandingFrames (\<lambda>n. 0 < n) c ?w2 = Done (None, (wrote (polled c (length gs + 1)) ?w2)\<lparr>w_resp := rs, w_ticks := ts\<rparr>)"
    using assms by (intro waitOutstandingFrames_completes) (simp_all add: not_less)
  have "Conn_Write c p w = Done ((length p, None), (wrote (polled c (length gs + 1)) ?w2)\<lparr>w_resp := rs, w_ticks := ts\<rparr>)"
    using assms(1) 1 2 3 by (simp add: Conn_Write_def Port_write_def)
  then show ?thesis by (simp add: wrote_def)
qed

theorem write_completes_witness:
  "Conn_Write exampleConn ''Hi'' exampleWorld = Done ((2, None),
     (wrote (polled exampleConn 3 @ frameBytes (dataFrame exampleConn ''Hi'') @ polled exampleConn 1) exampleWorld)\<lparr>w_resp := [], w_ticks := []\<rparr>)"
  using write_completes [of exampleConn exampleWorld "[counted 6, counted 5]" "counted 2" "[]" "counted 4" "[]" "[]" "''Hi''"]
  by (simp add: exampleConn_def exampleWorld_def newConn_def report_counted numeral_3_eq_3)

lemma awaitConnect_no_panic:
  "pt_port (cn_p c) = 0 \<Longrightarrow> \<forall>f. Got f \<in> set (w_resp w) \<longrightarrow> DataKind f \<in> {kindConnect, kindDisconnect} \<Longrightarrow> awaitConnect b c w \<noteq> Panic"
proof (induction b c w rule: awaitConnect.induct)
  case (1 b c w)
  have hp: "Port (hangUp c) = 0" by (simp add: hangUp_def disconnectFrame_def zero_frame_def)
  have wr: "\<exists>e w'. Port_write (cn_p c) (hangUp c) v = Done (e, w') \<and> w_resp w' = w_resp v" for v
    using hp "1.prems"(1) by (auto simp: Port_write_def TNC_write_def split: prod.splits)
  show ?case
  proof (cases "w_resp w")
    case Nil
    then show ?thesis by (subst awaitConnect.simps) simp
  next
    case (Cons r rs)
    obtain e w1 where w1: "Port_write (cn_p c) (hangUp c) (w\<lparr>w_resp := rs\<rparr>) = Done (e, w1)" "w_resp w1 = rs"
      using wr [of "w\<lparr>w_resp := rs\<rparr>"] by auto
    have ks: "\<forall>f. Got f \<in> set rs \<longrightarrow> DataKind f \<in> {kindConnect, kindDisconnect}" using Cons "1.prems"(2) by simp
    show ?thesis
    proof (cases r)
      case (Got f)
      then have "DataKind f \<in> {kindConnect, kindDisconnect}" using Cons "1.prems"(2) by simp
      then show ?thesis using Cons Got w1 by (subst awaitConnect.simps) (auto simp: Let_def kinds)
    next
      case ChanClosed
      then show ?thesis using Cons by (subst awaitConnect.simps) simp
    next
      case TimedOut
      then show ?thesis using "1.IH"(1,2) "1.prems"(1) Cons ks w1 by (subst awaitConnect.simps) (auto simp: Let_def)
    next
      case CtxDone
      then show ?thesis using "1.IH"(3,4) "1.prems"(1) Cons ks w1 by (subst awaitConnect.simps) (auto simp: Let_def)
    qed
  qed
qed

text \<open>C35. Dialing works on the first port of the TNC only: the frames that ask for a connection do not carry the port number, so on every other
  port \<open>Port.write\<close> panics. On port 0 dialing never panics, whatever the answers are, as long as they have the kinds that were asked for.\<close>

theorem dial_panics_iff:
  assumes "\<not> w_closed w" "\<forall>f. Got f \<in> set (w_resp w) \<longrightarrow> DataKind f \<in> {kindConnect, kindDisconnect}"
  shows "DialContext p target via rv w = Panic \<longleftrightarrow> pt_port p \<noteq> 0"
proof -
  let ?c = "newConn p target via rv"
  have p: "cn_p ?c = p" by (simp add: newConn_def)
  have port: "Port (connectFrame a b q ds) = 0" for a b q ds
    by (simp add: connectFrame_def connectViaFrame_def zero_frame_def)
  show ?thesis
  proof (cases "pt_port p = 0")
    case True
    let ?f = "connectFrame (cn_srcCall ?c) (cn_dstCall ?c) (pt_port p) (cn_via ?c)"
    obtain e w1 where w1: "TNC_write ?f w = (e, w1)" "w_resp w1 = w_resp w"
      using TNC_write_resp [of ?f w] by (cases "TNC_write ?f w") simp
    then have "awaitConnect False ?c w1 \<noteq> Panic" using awaitConnect_no_panic [of ?c w1] True p assms(2) by simp
    then have "connect ?c w \<noteq> Panic" using w1 True p port by (auto simp: connect_def Port_write_def split: option.splits)
    then show ?thesis using True assms(1) by (cases "connect ?c w") (auto simp: DialContext_def Let_def split: option.splits)
  next
    case False
    then show ?thesis using assms(1) p port by (simp add: DialContext_def connect_def Port_write_def Let_def)
  qed
qed

theorem dial_panics_iff_witness:
  "DialContext \<lparr>pt_port = 1, pt_mycall = ''LA5NTA'', pt_maxFrame = 4\<rparr> ''N0CALL'' [] False
     (exampleWorld\<lparr>w_resp := [Got (zero_frame\<lparr>DataKind := kindConnect, Data := ''*** CONNECTED With N0CALL''\<rparr>)]\<rparr>) = Panic"
  by (rule iffD2 [OF dial_panics_iff]) (simp_all add: exampleWorld_def)

end
