(* ===== verification/Ardop_Crc.thy ===== *)
theory Ardop_Crc
  imports Lzhuf_Crc
begin

unbundle bit_operations_syntax

text \<open>
  The checksum of the ARDOP host protocol over serial lines (\<^verbatim>\<open>src/transport/ardop/crc16.go\<close>). The register is divided by
  \<open>x^16 + x^15 + x^11 + x^4\<close>, which is \<open>x^4\<close> times a polynomial of degree 12. The theorems say what that means for the
  detection of errors: bursts of up to 12 bits are detected, and there is one of 13 bits that is not, in any data.
\<close>

definition polynomial :: "16 word" where "polynomial = 0x8810"

text \<open>The body of the inner loop.\<close>

definition crc16_step :: "byte \<Rightarrow> 16 word \<Rightarrow> 16 word \<Rightarrow> 16 word" where
  "crc16_step b msk sm =
     (let divisible = (sm AND 0x8000 \<noteq> 0);
          sm = push_bit 1 sm;
          dataBit = ucast b AND msk;
          sm = (if dataBit \<noteq> 0 then sm + 1 else sm)
      in if divisible then sm XOR polynomial else sm)"

function crc16_byte :: "byte \<Rightarrow> 16 word \<Rightarrow> 16 word \<Rightarrow> 16 word" where
  "crc16_byte b msk sm = (if msk > 0 then crc16_byte b (drop_bit 1 msk) (crc16_step b msk sm) else sm)"
  by pat_completeness auto
termination
proof (relation "measure (\<lambda>(b, msk, sm). unat msk)", simp_all)
  fix msk :: "16 word"
  assume "0 < msk"
  then have "0 < unat msk" by (simp add: word_less_nat_alt)
  then show "unat (drop_bit (Suc 0) msk) < unat msk" by (simp add: drop_bit_Suc unat_div)
qed

declare crc16_byte.simps [simp del]

definition crc16Sum :: "byte list \<Rightarrow> 16 word" where
  "crc16Sum data = fold (\<lambda>b. crc16_byte b 0x80) data 0xffff"

section \<open>Bit by bit\<close>

definition crc16_bit :: "bool \<Rightarrow> 16 word \<Rightarrow> 16 word" where
  "crc16_bit b s = shift_in b s XOR (if bit s 15 then polynomial else 0)"

lemma plus_one_shift: "push_bit (Suc 0) s + 1 = shift_in True (s :: 16 word)"
proof -
  have "push_bit (Suc 0) s + 1 = push_bit (Suc 0) s OR 1"
    by (rule disjunctive_add) (auto simp: bit_simps simp del: push_bit_Suc)
  also have "\<dots> = shift_in True s" by (rule bit_word_eqI) (auto simp: bit_shift_in bit_simps simp del: push_bit_Suc)
  finally show ?thesis .
qed

lemma top_bit: "(s AND 0x8000 \<noteq> 0) = bit (s :: 16 word) 15"
proof -
  have "(0x8000 :: 16 word) = push_bit 15 1" by simp
  then show ?thesis by (metis and_exp_eq_0_iff_not_bit push_bit_of_1)
qed

lemma mask_bit: "n < 8 \<Longrightarrow> (ucast (b :: byte) AND (push_bit n 1 :: 16 word) \<noteq> 0) = bit b n"
  by (simp add: push_bit_of_1 and_exp_eq_0_iff_not_bit bit_simps)

lemma crc16_step_bit: "n < 8 \<Longrightarrow> crc16_step b (push_bit n 1) s = crc16_bit (bit b n) s"
  using mask_bit [of n b] plus_one_shift [of s] unfolding crc16_step_def crc16_bit_def top_bit [symmetric]
  by (cases "bit b n") (simp_all add: Let_def shift_in_def del: push_bit_Suc)

lemma crc16_byte_from: "n < 8 \<Longrightarrow> crc16_byte b (push_bit n 1) s = fold crc16_bit (map (bit b) (rev [0..<Suc n])) s"
proof (induction n arbitrary: s)
  case 0
  have "crc16_byte b 1 s = crc16_byte b (drop_bit 1 1) (crc16_step b 1 s)" by (subst crc16_byte.simps) simp
  moreover have "drop_bit 1 (1 :: 16 word) = 0" by simp
  moreover have "crc16_byte b 0 t = t" for t by (subst crc16_byte.simps) simp
  ultimately show ?case using crc16_step_bit [of 0 b s] by simp
next
  case (Suc n)
  have "bit (push_bit (Suc n) 1 :: 16 word) (Suc n)" using Suc.prems by (simp add: bit_simps del: push_bit_Suc)
  then have nz: "(push_bit (Suc n) 1 :: 16 word) > 0" unfolding word_gt_0 by (metis bit_0_eq bot_apply bot_bool_def)
  have "drop_bit 1 (push_bit (Suc n) 1) = (push_bit n 1 :: 16 word)"
    using Suc.prems by (intro bit_word_eqI) (auto simp: bit_simps simp del: push_bit_Suc)
  then have "crc16_byte b (push_bit (Suc n) 1) s = crc16_byte b (push_bit n 1) (crc16_bit (bit b (Suc n)) s)"
    using Suc.prems nz crc16_step_bit [of "Suc n" b s] by (subst crc16_byte.simps) (simp only: if_True)
  then show ?case using Suc by simp
qed

lemma crc16_byte_bits: "crc16_byte b 0x80 s = fold crc16_bit (byte_bits b) s"
proof -
  have "byte_bits b = map (bit b) (rev [0..<Suc 7])" by (simp add: byte_bits_def upt_rec eval_nat_numeral)
  moreover have "(0x80 :: 16 word) = push_bit 7 1" by simp
  ultimately show ?thesis using crc16_byte_from [of 7 b s] by simp
qed

lemma crc16Sum_bits: "crc16Sum p = fold crc16_bit (stream_bits p) 0xffff"
proof -
  have "fold (\<lambda>b. crc16_byte b 0x80) p s = fold crc16_bit (stream_bits p) s" for s
    by (induction p arbitrary: s) (simp_all add: crc16_byte_bits)
  then show ?thesis by (simp add: crc16Sum_def)
qed

section \<open>Linearity\<close>

lemma crc16_bit_xor: "crc16_bit (b = (\<not> c)) (s XOR t) = crc16_bit b s XOR crc16_bit c t"
  by (rule bit_word_eqI) (auto simp: crc16_bit_def bit_shift_in bit_simps)

lemma crc16_bits_xor:
  "length bs = length cs \<Longrightarrow>
    fold crc16_bit (map2 (\<lambda>x y. x = (\<not> y)) bs cs) (s XOR t) = fold crc16_bit bs s XOR fold crc16_bit cs t"
proof (induction bs cs arbitrary: s t rule: list_induct2)
  case (Cons b bs c cs)
  then show ?case by (simp add: crc16_bit_xor)
qed simp

section \<open>The factor of degree 12\<close>

text \<open>\<open>x^12 + x^11 + x^7 + 1\<close>, and the remainder of the register by it: what is left after the upper four bits are divided out.\<close>

definition rem12 :: "16 word \<Rightarrow> 16 word" where
  "rem12 s = (s AND 0xfff) XOR (if bit s 12 then 0x881 else 0) XOR (if bit s 13 then 0x983 else 0) XOR
     (if bit s 14 then 0xb87 else 0) XOR (if bit s 15 then 0xf8f else 0)"

definition step12 :: "16 word \<Rightarrow> 16 word" where
  "step12 r = shift_in False r XOR (if bit r 11 then 0x1881 else 0)"

lemma rem12_step: "rem12 (crc16_bit False s) = step12 (rem12 s)"
proof (rule bit_word_eqI)
  fix n assume "n < LENGTH(16)"
  then have "n \<in> {0, 1, 2, 3, 4, 5, 6, 7, 8, 9, 10, 11, 12, 13, 14, 15}" by simp presburger
  then show "bit (rem12 (crc16_bit False s)) n = bit (step12 (rem12 s)) n"
    unfolding rem12_def step12_def crc16_bit_def polynomial_def
    by (elim insertE emptyE) (auto simp: bit_shift_in bit_simps bit_numeral_rec)
qed

lemma step12_inj: "step12 r = step12 t \<Longrightarrow> \<forall>n \<ge> 12. \<not> bit r n \<and> \<not> bit t n \<Longrightarrow> r = t"
proof -
  assume eq: "step12 r = step12 t" and hi: "\<forall>n \<ge> 12. \<not> bit r n \<and> \<not> bit t n"
  have b: "bit (step12 u) n = (if n = 0 then bit u 11 else n < 16 \<and> (bit u (n - 1) \<noteq> (bit u 11 \<and> bit (0x1881 :: 16 word) n)))" for u n
    by (auto simp: step12_def bit_shift_in bit_simps)
  have top: "bit r 11 = bit t 11" using arg_cong [OF eq, of "\<lambda>w. bit w 0"] b [of r 0] b [of t 0] by simp
  show "r = t"
  proof (rule bit_word_eqI)
    fix n :: nat
    assume "n < LENGTH(16)"
    show "bit r n = bit t n"
    proof (cases "n < 12")
      case True
      then show ?thesis using arg_cong [OF eq, of "\<lambda>w. bit w (Suc n)"] b [of r "Suc n"] b [of t "Suc n"] top by auto
    qed (use hi in auto)
  qed
qed

lemma bit_rem12_high: "12 \<le> n \<Longrightarrow> \<not> bit (rem12 s) n"
proof
  assume n: "12 \<le> n" and b: "bit (rem12 s) n"
  then have "n < 16" using bit_imp_le_length by fastforce
  then have "n \<in> {12, 13, 14, 15}" using n by simp presburger
  then show False using b unfolding rem12_def by (elim insertE emptyE) (auto simp: bit_simps bit_numeral_rec split: if_splits)
qed

lemma rem12_0: "rem12 0 = 0" and step12_0: "step12 0 = 0"
  by (simp_all add: rem12_def step12_def shift_in_def)

lemma rem12_persists: "rem12 s \<noteq> 0 \<Longrightarrow> fold crc16_bit (replicate n False) s \<noteq> 0"
proof (induction n arbitrary: s)
  case 0
  then show ?case using rem12_0 by auto
next
  case (Suc n)
  have "rem12 (crc16_bit False s) \<noteq> 0"
    using step12_inj [of "rem12 s" 0] bit_rem12_high [of _ s] Suc.prems by (auto simp: rem12_step step12_0)
  then show ?case using Suc.IH by simp
qed

lemma crc16_no_feedback:
  assumes "length bs \<le> 16" and "\<And>i. 16 - length bs \<le> i \<Longrightarrow> \<not> bit s i"
  shows "fold crc16_bit bs s = crc_shift bs s"
  using assms
proof (induction bs arbitrary: s)
  case (Cons b bs)
  have "\<not> bit s 15" using Cons.prems(2) [of 15] by simp
  then have eq: "crc16_bit b s = shift_in b s" by (simp add: crc16_bit_def)
  have "\<not> bit (shift_in b s) i" if "16 - length bs \<le> i" for i
    using that Cons.prems(1) Cons.prems(2) [of "i - 1"] by (auto simp: bit_shift_in)
  then show ?case using Cons.IH [of "shift_in b s"] Cons.prems(1) by (simp add: crc_shift_def eq)
qed (simp add: crc_shift_def)

lemma xor_self: "map2 (\<lambda>x y. x = (\<not> y)) bs bs = replicate (length bs) False"
  by (induction bs) simp_all

lemma crc16_window:
  assumes "length e = length e'" "length e \<le> 12" "e \<noteq> e'"
  shows "fold crc16_bit (e @ vs) s \<noteq> fold crc16_bit (e' @ vs) s"
proof
  let ?d = "map2 (\<lambda>x y. x = (\<not> y)) e e'"
  let ?r = "crc_shift ?d 0"
  assume eq: "fold crc16_bit (e @ vs) s = fold crc16_bit (e' @ vs) s"
  have "fold crc16_bit ?d 0 = ?r" using assms(1,2) by (intro crc16_no_feedback) simp_all
  moreover have "fold crc16_bit (?d @ replicate (length vs) False) 0 = 0"
    using crc16_bits_xor [of "e @ vs" "e' @ vs" s s] eq assms(1) by (simp add: xor_self)
  ultimately have z: "fold crc16_bit (replicate (length vs) False) ?r = 0" by simp
  have low: "\<not> bit ?r n" if "12 \<le> n" for n using that assms(1,2) by (auto simp: bit_crc_shift)
  then have "rem12 ?r = ?r AND 0xfff" by (simp add: rem12_def)
  also have "\<dots> = ?r"
  proof (rule bit_word_eqI)
    fix n assume "n < LENGTH(16)"
    have "bit (0xfff :: 16 word) n \<longleftrightarrow> n < 12"
      using bit_mask_iff [of 12 n, where 'a = "16 word"] by (simp add: mask_eq_exp_minus_1 possible_bit_def) linarith
    then show "bit (?r AND 0xfff) n = bit ?r n" using low [of n] by (auto simp: bit_and_iff)
  qed
  finally have "?r = 0" using rem12_persists [of ?r "length vs"] z by metis
  moreover obtain i where i: "i < length e" "e ! i \<noteq> e' ! i" using assms(1,3) nth_equalityI [of e e'] by blast
  then have "bit ?r (length e - 1 - i)" using assms(1,2) by (auto simp: bit_crc_shift rev_nth)
  ultimately show False by simp
qed

lemma byte_bits_inj: "byte_bits a = byte_bits b \<Longrightarrow> a = b"
proof (rule bit_word_eqI)
  fix n assume e: "byte_bits a = byte_bits b" and "n < LENGTH(8)"
  then have "n \<in> {0, 1, 2, 3, 4, 5, 6, 7}" by simp presburger
  then show "bit a n = bit b n" using e by (auto simp: byte_bits_def)
qed

lemma stream_bits_inj: "stream_bits p = stream_bits q \<Longrightarrow> p = q"
proof (induction p arbitrary: q)
  case Nil
  then show ?case by (cases q) (auto simp: byte_bits_def)
next
  case (Cons a p)
  then obtain b r where q: "q = b # r" by (cases q) (auto simp: byte_bits_def)
  then have "byte_bits a = byte_bits b \<and> stream_bits p = stream_bits r" using Cons.prems by (simp add: append_eq_append_conv)
  then show ?case using Cons.IH byte_bits_inj q by blast
qed

section \<open>Properties\<close>

text \<open>C30. The checksum of the ARDOP host protocol detects every error that is confined to 12 adjacent bits.\<close>

theorem crc16_detects_bursts:
  assumes "stream_bits p = us @ e @ vs" "stream_bits q = us @ e' @ vs" "length e = length e'" "length e \<le> 12" "p \<noteq> q"
  shows "crc16Sum p \<noteq> crc16Sum q"
proof -
  have "e \<noteq> e'" using assms(1,2,5) stream_bits_inj by metis
  then show ?thesis using crc16_window [OF assms(3,4), of vs] assms(1,2) by (simp add: crc16Sum_bits)
qed

theorem crc16_detects_bursts_witness: "crc16Sum [0x52, 0x44, 0x59] \<noteq> crc16Sum [0x52, 0x45, 0x19]"
  using crc16_detects_bursts [of "[0x52, 0x44, 0x59]" "byte_bits 0x52 @ take 7 (byte_bits 0x44)" "[False, False, True]" "drop 2 (byte_bits 0x59)"
     "[0x52, 0x45, 0x19]" "[True, False, False]"]
  by (simp add: byte_bits_def bit_numeral_rec)

text \<open>C34. The polynomial has the factor \<open>x^4\<close>, so the checksum is weaker than that of CRC-16-CCITT: in any data the same change of
  four bits, within 13 adjacent bits of two bytes that another byte follows, leaves the checksum as it is.\<close>

theorem crc16_burst_undetected: "crc16Sum (p @ [a XOR 0xc4, b XOR 0x08, c] @ q) = crc16Sum (p @ [a, b, c] @ q)"
proof -
  have x: "byte_bits (u XOR v) = map2 (\<lambda>x y. x = (\<not> y)) (byte_bits u) (byte_bits v)" for u v
    by (auto simp: byte_bits_def bit_simps)
  let ?d = "byte_bits 0xc4 @ byte_bits 0x08 @ byte_bits 0"
  let ?b = "byte_bits a @ byte_bits b @ byte_bits c"
  have d: "fold crc16_bit ?d 0 = 0" by (simp add: byte_bits_def crc16_bit_def shift_in_def polynomial_def bit_numeral_rec)
  have "byte_bits (a XOR 0xc4) @ byte_bits (b XOR 0x08) @ byte_bits c = map2 (\<lambda>x y. x = (\<not> y)) ?b ?d"
    using x [of a "0xc4"] x [of b "0x08"] x [of c 0] by simp
  then have "fold crc16_bit (byte_bits (a XOR 0xc4) @ byte_bits (b XOR 0x08) @ byte_bits c) s = fold crc16_bit ?b s" for s
    using crc16_bits_xor [of ?b ?d s 0] d by simp
  then show ?thesis by (simp add: crc16Sum_bits)
qed

end
