(* ===== verification/Go_Bufio.thy ===== *)
theory Go_Bufio
  imports Go_Strings
begin

text \<open>
  The \<^verbatim>\<open>bufio.Reader\<close> of Go on a connection. The bytes arrive in segments, and one \<open>Read\<close> of the connection returns bytes of one
  segment; the buffer of the reader has 4096 bytes. An error is the end of the stream, an error of the network, or one that
  is made of its text. Then the case mappings of \<^verbatim>\<open>strings\<close>; those of runes beyond ASCII are a parameter.
\<close>

section \<open>A buffered reader\<close>

datatype read_err = EOF | NetErr string | ErrText string

record bufReader =
  br_buf :: string
  br_segs :: "string list"
  br_end :: read_err

definition bufSize :: nat where "bufSize = 4096"

text \<open>One \<open>Read\<close> of at most \<open>n\<close> bytes from the connection, if there is something to read.\<close>

fun readSegment :: "nat \<Rightarrow> string list \<Rightarrow> (string \<times> string list) option" where
  "readSegment n [] = None"
| "readSegment n (s # ss) =
     (if s = [] then readSegment n ss
      else if length s \<le> n then Some (s, ss) else Some (take n s, drop n s # ss))"

text \<open>The bytes that are still to come, and how many segments hold them.\<close>

abbreviation pending :: "bufReader \<Rightarrow> string" where
  "pending rd \<equiv> br_buf rd @ concat (br_segs rd)"

lemma readSegment_Some:
  "readSegment n ss = Some (d, ss') \<Longrightarrow> concat ss = d @ concat ss' \<and> length d \<le> n \<and> (0 < n \<longrightarrow> d \<noteq> [])"
  by (induction n ss rule: readSegment.induct) (auto split: if_splits simp: append_eq_conv_conj)

lemma readSegment_None: "readSegment n ss = None \<longleftrightarrow> concat ss = []"
  by (induction n ss rule: readSegment.induct) (auto split: if_splits)

definition fill :: "bufReader \<Rightarrow> bufReader option" where
  "fill rd =
     (case readSegment (bufSize - length (br_buf rd)) (br_segs rd) of
        None \<Rightarrow> None
      | Some (d, ss) \<Rightarrow> Some (rd\<lparr>br_buf := br_buf rd @ d, br_segs := ss\<rparr>))"

lemma fill_pending: "fill rd = Some rd' \<Longrightarrow> pending rd' = pending rd \<and> br_end rd' = br_end rd"
  by (auto simp: fill_def dest: readSegment_Some split: option.splits)

lemma fill_shorter:
  "fill rd = Some rd' \<Longrightarrow> length (br_buf rd) < bufSize \<Longrightarrow> length (concat (br_segs rd')) < length (concat (br_segs rd))"
  by (auto simp: fill_def dest!: readSegment_Some split: option.splits)

function rd_ReadByte :: "bufReader \<Rightarrow> (read_err + char) \<times> bufReader" where
  "rd_ReadByte rd =
     (case br_buf rd of
        b # bs \<Rightarrow> (Inr b, rd\<lparr>br_buf := bs\<rparr>)
      | [] \<Rightarrow> (case fill rd of None \<Rightarrow> (Inl (br_end rd), rd) | Some rd \<Rightarrow> rd_ReadByte rd))"
  by pat_completeness auto
termination
  by (relation "measure (\<lambda>rd. length (concat (br_segs rd)))") (auto dest: fill_shorter simp: bufSize_def)

text \<open>\<open>Peek(n)\<close> for \<open>n\<close> up to the size of the buffer.\<close>

function rd_Peek :: "nat \<Rightarrow> bufReader \<Rightarrow> (read_err + string) \<times> bufReader" where
  "rd_Peek n rd =
     (if n \<le> length (br_buf rd) then (Inr (take n (br_buf rd)), rd)
      else if bufSize \<le> length (br_buf rd) then (Inl (ErrText ''bufio: buffer full''), rd)
      else case fill rd of None \<Rightarrow> (Inl (br_end rd), rd) | Some rd \<Rightarrow> rd_Peek n rd)"
  by pat_completeness auto
termination
  by (relation "measure (\<lambda>(n, rd). length (concat (br_segs rd)))") (auto dest: fill_shorter)

text \<open>\<open>Read\<close> into a slice of length \<open>n\<close>, which is not zero: large reads go past an empty buffer.\<close>

definition rd_Read :: "nat \<Rightarrow> bufReader \<Rightarrow> (read_err + string) \<times> bufReader" where
  "rd_Read n rd =
     (if br_buf rd = [] then
        if bufSize \<le> n then
          (case readSegment n (br_segs rd) of
             None \<Rightarrow> (Inl (br_end rd), rd)
           | Some (d, ss) \<Rightarrow> (Inr d, rd\<lparr>br_segs := ss\<rparr>))
        else
          (case fill rd of
             None \<Rightarrow> (Inl (br_end rd), rd)
           | Some rd \<Rightarrow> (Inr (take n (br_buf rd)), rd\<lparr>br_buf := drop n (br_buf rd)\<rparr>))
      else (Inr (take n (br_buf rd)), rd\<lparr>br_buf := drop n (br_buf rd)\<rparr>))"

text \<open>\<open>ReadBytes\<close>: everything up to the delimiter, or an error.\<close>

function rd_ReadBytes :: "char \<Rightarrow> string \<Rightarrow> bufReader \<Rightarrow> (string \<times> read_err option) \<times> bufReader" where
  "rd_ReadBytes delim acc rd =
     (case dropWhile (\<lambda>c. c \<noteq> delim) (br_buf rd) of
        d # rest \<Rightarrow> ((acc @ takeWhile (\<lambda>c. c \<noteq> delim) (br_buf rd) @ [d], None), rd\<lparr>br_buf := rest\<rparr>)
      | [] \<Rightarrow>
          if bufSize \<le> length (br_buf rd) then rd_ReadBytes delim (acc @ br_buf rd) (rd\<lparr>br_buf := []\<rparr>)
          else (case fill rd of
                  None \<Rightarrow> ((acc @ br_buf rd, Some (br_end rd)), rd\<lparr>br_buf := []\<rparr>)
                | Some rd \<Rightarrow> rd_ReadBytes delim acc rd))"
  by pat_completeness auto
termination
  by (relation "measures [\<lambda>(d, acc, rd). length (concat (br_segs rd)), \<lambda>(d, acc, rd). length (br_buf rd)]")
     (auto dest: fill_shorter simp: bufSize_def)

declare rd_ReadByte.simps [simp del] rd_Peek.simps [simp del] rd_ReadBytes.simps [simp del]

lemma ReadByte_pending: "rd_ReadByte rd = (Inr b, rd') \<Longrightarrow> pending rd = b # pending rd' \<and> br_end rd' = br_end rd"
proof (induction rd rule: rd_ReadByte.induct)
  case (1 rd)
  show ?case
  proof (cases "br_buf rd")
    case Nil
    then obtain r where r: "fill rd = Some r" "rd_ReadByte r = (Inr b, rd')"
      using "1.prems" by (subst (asm) rd_ReadByte.simps) (auto split: option.splits)
    then show ?thesis using "1.IH" [OF Nil r(1) r(2)] fill_pending [OF r(1)] by simp
  next
    case (Cons c cs)
    then show ?thesis using "1.prems" by (subst (asm) rd_ReadByte.simps) auto
  qed
qed

lemma ReadByte_le: "length (pending (snd (rd_ReadByte rd))) \<le> length (pending rd)"
proof (induction rd rule: rd_ReadByte.induct)
  case (1 rd)
  show ?case
  proof (cases "br_buf rd")
    case Nil
    show ?thesis
    proof (cases "fill rd")
      case None
      then show ?thesis using Nil by (simp add: rd_ReadByte.simps [of rd])
    next
      case (Some r)
      then show ?thesis using Nil "1.IH" [OF Nil Some] arg_cong [OF conjunct1 [OF fill_pending [OF Some]], of length] by (simp add: rd_ReadByte.simps [of rd])
    qed
  qed (simp add: rd_ReadByte.simps [of rd])
qed

lemma split_at: "a @ d # b = s @ d # r \<Longrightarrow> d \<notin> set a \<Longrightarrow> d \<notin> set s \<Longrightarrow> a = s \<and> b = r"
proof (induction a arbitrary: s)
  case Nil
  then show ?case by (cases s) auto
next
  case (Cons x a)
  then show ?case by (cases s) auto
qed

lemma before_delim: "x @ y = s @ d # r \<Longrightarrow> d \<notin> set x \<Longrightarrow> \<exists>t. s = x @ t \<and> y = t @ d # r"
proof (induction x arbitrary: s)
  case (Cons a x)
  then show ?case by (cases s) auto
qed simp

lemma fill_some: "0 < length (concat (br_segs rd)) \<Longrightarrow> \<exists>r. fill rd = Some r"
  using readSegment_None [of "bufSize - length (br_buf rd)" "br_segs rd"] by (auto simp: fill_def split: option.splits)

lemma ReadBytes_ok:
  "pending rd = s @ delim # rest \<Longrightarrow> delim \<notin> set s \<Longrightarrow>
   \<exists>rd'. rd_ReadBytes delim acc rd = ((acc @ s @ [delim], None), rd') \<and> pending rd' = rest \<and> br_end rd' = br_end rd"
proof (induction delim acc rd arbitrary: s rule: rd_ReadBytes.induct)
  case (1 delim acc rd)
  show ?case
  proof (cases "delim \<in> set (br_buf rd)")
    case True
    then obtain a b where b: "br_buf rd = a @ delim # b" "delim \<notin> set a" by (meson split_list_first)
    then have "a = s \<and> b @ concat (br_segs rd) = rest"
      using split_at [of a delim "b @ concat (br_segs rd)" s rest] "1.prems" by simp
    moreover have "dropWhile (\<lambda>c. c \<noteq> delim) (br_buf rd) = delim # b" "takeWhile (\<lambda>c. c \<noteq> delim) (br_buf rd) = a"
      using b by (auto simp: dropWhile_append takeWhile_append)
    ultimately show ?thesis by (subst rd_ReadBytes.simps) simp
  next
    case False
    then have d: "dropWhile (\<lambda>c. c \<noteq> delim) (br_buf rd) = []" by (simp add: dropWhile_eq_Nil_conv) blast
    obtain t where t: "s = br_buf rd @ t" "concat (br_segs rd) = t @ delim # rest"
      using before_delim [OF "1.prems"(1) False] by auto
    show ?thesis
    proof (cases "bufSize \<le> length (br_buf rd)")
      case True
      then show ?thesis using "1.IH"(1) [OF d True, of t] t "1.prems"(2) d by (subst rd_ReadBytes.simps) (auto simp del: dropWhile_eq_Nil_conv)
    next
      case small: False
      then obtain r where r: "fill rd = Some r" using t(2) fill_some by fastforce
      then show ?thesis using "1.IH"(2) [OF d small r, of s] fill_pending [OF r] "1.prems" d small by (subst rd_ReadBytes.simps) (simp del: dropWhile_eq_Nil_conv)
    qed
  qed
qed

lemma Peek_ok: "n \<le> bufSize \<Longrightarrow> n \<le> length (pending rd) \<Longrightarrow>
   \<exists>rd'. rd_Peek n rd = (Inr (take n (pending rd)), rd') \<and> pending rd' = pending rd \<and> br_end rd' = br_end rd"
proof (induction n rd rule: rd_Peek.induct)
  case (1 n rd)
  show ?case
  proof (cases "n \<le> length (br_buf rd)")
    case True
    then show ?thesis by (subst rd_Peek.simps) simp
  next
    case False
    then have small: "\<not> bufSize \<le> length (br_buf rd)" using "1.prems" by simp
    have "0 < length (concat (br_segs rd))" using False "1.prems"(2) unfolding length_append by linarith
    then obtain r where r: "fill rd = Some r" using fill_some by blast
    then show ?thesis using "1.IH" [OF False small r] fill_pending [OF r] "1.prems" False small by (subst rd_Peek.simps) simp
  qed
qed

lemma Read_ok:
  assumes "0 < n" "0 < length (pending rd)"
  shows "\<exists>d rd'. rd_Read n rd = (Inr d, rd') \<and> d \<noteq> [] \<and> length d \<le> n \<and> pending rd = d @ pending rd' \<and> br_end rd' = br_end rd"
proof (cases "br_buf rd = []")
  case False
  then show ?thesis using assms by (simp add: rd_Read_def)
next
  case True
  show ?thesis
  proof (cases "bufSize \<le> n")
    case big: True
    obtain d ss where "readSegment n (br_segs rd) = Some (d, ss)" using assms(2) True readSegment_None [of n "br_segs rd"] by fastforce
    then show ?thesis using True big assms(1) readSegment_Some [of n "br_segs rd" d ss] by (simp add: rd_Read_def)
  next
    case small: False
    obtain r where r: "fill rd = Some r" using assms(2) True fill_some by fastforce
    have "br_buf r \<noteq> []" using True fill_shorter [OF r] arg_cong [OF conjunct1 [OF fill_pending [OF r]], of length] by (auto simp: bufSize_def)
    then show ?thesis using r True small assms(1) fill_pending [OF r] by (auto simp: rd_Read_def simp del: append_assoc simp flip: append_assoc)
  qed
qed

lemma ReadBytes_EOF: "pending rd = [] \<Longrightarrow> \<exists>rd'. rd_ReadBytes delim acc rd = ((acc, Some (br_end rd)), rd')"
  using readSegment_None [of bufSize "br_segs rd"] by (subst rd_ReadBytes.simps) (simp add: fill_def bufSize_def)

lemma Peek_EOF: "pending rd = [] \<Longrightarrow> rd_Peek 2 rd = (Inl (br_end rd), rd)"
  using readSegment_None [of bufSize "br_segs rd"] by (subst rd_Peek.simps) (simp add: fill_def bufSize_def)

lemma ReadBytes_buffered: "br_buf rd = s @ delim # rest \<Longrightarrow> delim \<notin> set s \<Longrightarrow>
   rd_ReadBytes delim acc rd = ((acc @ s @ [delim], None), rd\<lparr>br_buf := rest\<rparr>)"
  by (subst rd_ReadBytes.simps) (auto simp: dropWhile_append takeWhile_append)

section \<open>Case mappings\<close>

record unicode =
  u_upper :: "nat \<Rightarrow> nat"
  u_lower :: "nat \<Rightarrow> nat"

definition mapRunes :: "(nat \<Rightarrow> nat) \<Rightarrow> string \<Rightarrow> string" where
  "mapRunes f s = concat (map (\<lambda>r. runeString (f r)) (runes s))"

definition toUpper :: "unicode \<Rightarrow> string \<Rightarrow> string" where
  "toUpper u s = mapRunes (\<lambda>r. if r < 128 then if 97 \<le> r \<and> r \<le> 122 then r - 32 else r else u_upper u r) s"

definition toLower :: "unicode \<Rightarrow> string \<Rightarrow> string" where
  "toLower u s = mapRunes (\<lambda>r. if r < 128 then if 65 \<le> r \<and> r \<le> 90 then r + 32 else r else u_lower u r) s"

lemma mapRunes_ascii:
  "ascii s \<Longrightarrow> (\<And>r. r < 128 \<Longrightarrow> f r < 128) \<Longrightarrow> mapRunes f s = map (\<lambda>c. char_of (f (byte_val c))) s"
  by (induction s) (auto simp: mapRunes_def runes_ascii ascii_def runeString_def)

definition capital :: "char \<Rightarrow> bool" where
  "capital c \<longleftrightarrow> 65 \<le> byte_val c \<and> byte_val c \<le> 90"

lemma toUpper_capitals: "\<forall>c \<in> set s. capital c \<Longrightarrow> toUpper u s = s"
proof -
  assume c: "\<forall>c \<in> set s. capital c"
  then have "ascii s" by (fastforce simp: ascii_def capital_def)
  then show ?thesis using c unfolding toUpper_def by (subst mapRunes_ascii) (auto simp: capital_def intro!: map_idI)
qed

lemma toLower_ascii: "ascii s \<Longrightarrow> toLower u s = map (\<lambda>c. if capital c then char_of (byte_val c + 32) else c) s"
  by (auto simp: toLower_def mapRunes_ascii ascii_def capital_def)

lemma capital_visible: "capital c \<Longrightarrow> visible c" "\<not> capital (CHR '' '')"
  by (simp_all add: capital_def visible_def)

end
