(* ===== verification/Ardop_Frame.thy ===== *)
theory Ardop_Frame
  imports Ardop_Crc Go_Bufio
begin

unbundle bit_operations_syntax

text \<open>
  The host protocol of an ARDOP TNC (\<^verbatim>\<open>frame.go\<close>, \<^verbatim>\<open>command.go\<close> and \<^verbatim>\<open>ardop.go\<close> in \<^verbatim>\<open>src/transport/ardop\<close>): frames with commands
  and frames with data, read from a \<^verbatim>\<open>bufio.Reader\<close>. A result \<open>None\<close> is a panic.
\<close>

section \<open>Formatting without arguments\<close>

text \<open>\<^verbatim>\<open>fmt.Sprintf\<close> of a format with no arguments: what the verbs of the format become.\<close>

fun parsenum :: "nat \<Rightarrow> bool \<Rightarrow> string \<Rightarrow> bool \<times> string" where
  "parsenum n isnum [] = (isnum, [])"
| "parsenum n isnum (c # s) =
     (if 48 \<le> byte_val c \<and> byte_val c \<le> 57 then
        if 1000000 < n then (False, []) else parsenum (n * 10 + (byte_val c - 48)) True s
      else (isnum, c # s))"

text \<open>An argument index in brackets: what follows it, whether it has the form of an index, and whether the argument exists.\<close>

definition argNumber :: "string \<Rightarrow> string \<times> bool \<times> bool" where
  "argNumber s =
     (case s of
        [] \<Rightarrow> (s, False, True)
      | c # t \<Rightarrow>
          if c \<noteq> CHR ''['' then (s, False, True)
          else if length s < 3 then (t, False, False)
          else (case dropWhile (\<lambda>c. c \<noteq> CHR '']'') t of
                  [] \<Rightarrow> (t, False, False)
                | _ # r \<Rightarrow> (r, parsenum 0 False (takeWhile (\<lambda>c. c \<noteq> CHR '']'') t) = (True, []), False)))"

definition startsWith :: "char \<Rightarrow> string \<Rightarrow> bool" where
  "startsWith c s \<longleftrightarrow> s \<noteq> [] \<and> hd s = c"

definition fmtWidth :: "string \<Rightarrow> string \<times> string \<times> bool \<times> bool" where
  "fmtWidth s =
     (let (s, after, good) = argNumber s in
      if startsWith (CHR ''*'') s then (''%!(BADWIDTH)'', tl s, False, good)
      else (case parsenum 0 False s of (isnum, t) \<Rightarrow> ([], t, after, good \<and> \<not> (after \<and> isnum))))"

definition fmtPrec :: "string \<Rightarrow> bool \<Rightarrow> bool \<Rightarrow> string \<times> string \<times> bool \<times> bool" where
  "fmtPrec s after good =
     (if startsWith (CHR ''.'') s then
        let good = (good \<and> \<not> after); (s, after, g) = argNumber (tl s); good = (good \<and> g) in
        if startsWith (CHR ''*'') s then (''%!(BADPREC)'', tl s, False, good)
        else ([], snd (parsenum 0 False s), after, good)
      else ([], s, after, good))"

definition fmtVerb :: "string \<Rightarrow> string \<times> string" where
  "fmtVerb s =
     (let s = dropWhile (\<lambda>c. c \<in> set ''#0+- '') s;
          (p, s, after, good) = fmtWidth s;
          (q, s, after, good) = fmtPrec s after good;
          (s, good) = (if after then (s, good) else let (s, _, g) = argNumber s in (s, good \<and> g))
      in if s = [] then (p @ q @ ''%!(NOVERB)'', [])
         else case decodeRune s of (verb, wid) \<Rightarrow>
           (p @ q @ (if verb = 37 then ''%''
                     else ''%!'' @ runeString verb @ (if good then ''(MISSING)'' else ''(BADINDEX)'')), drop wid s))"

lemma parsenum_length: "length (snd (parsenum n b s)) \<le> length s"
  by (induction n b s rule: parsenum.induct) auto

lemma argNumber_length: "length (fst (argNumber s)) \<le> length s"
proof -
  have "length t \<le> length s" if "dropWhile P s = c # t" for P and c :: char and s t
    using that length_dropWhile_le [of P s] by simp
  then show ?thesis by (auto simp: argNumber_def split: list.splits intro: le_SucI)
qed

lemma fmtWidth_length: "length (fst (snd (fmtWidth s))) \<le> length s"
  using argNumber_length [of s] parsenum_length [of 0 False "fst (argNumber s)"]
  by (auto simp: fmtWidth_def Let_def split: prod.splits)

lemma fmtPrec_length: "length (fst (snd (fmtPrec s a g))) \<le> length s"
  using argNumber_length [of "tl s"] parsenum_length [of 0 False "fst (argNumber (tl s))"]
  by (auto simp: fmtPrec_def Let_def split: prod.splits)

lemma fmtVerb_length: "length (snd (fmtVerb s)) \<le> length s"
proof -
  let ?s = "dropWhile (\<lambda>c. c \<in> set ''#0+- '') s"
  obtain p s1 a g where w: "fmtWidth ?s = (p, s1, a, g)" by (metis prod_cases4)
  obtain q s2 a2 g2 where c: "fmtPrec s1 a g = (q, s2, a2, g2)" by (metis prod_cases4)
  obtain s3 u v where n: "argNumber s2 = (s3, u, v)" by (metis prod_cases3)
  have "length ?s \<le> length s" "length s1 \<le> length ?s" "length s2 \<le> length s1" "length s3 \<le> length s2"
    using length_dropWhile_le fmtWidth_length [of ?s] fmtPrec_length [of s1 a g] argNumber_length [of s2] w c n by auto
  then show ?thesis using w c n by (auto simp: fmtVerb_def Let_def split: prod.splits if_splits)
qed

function Sprintf0 :: "string \<Rightarrow> string" where
  "Sprintf0 s =
     (case s of
        [] \<Rightarrow> []
      | c # s \<Rightarrow> if c \<noteq> CHR ''%'' then c # Sprintf0 s else (case fmtVerb s of (t, s) \<Rightarrow> t @ Sprintf0 s))"
  by pat_completeness auto
termination
  by (relation "measure length") (use fmtVerb_length in \<open>auto dest!: sym [of "(_, _)"] simp: less_Suc_eq_le\<close>, metis snd_conv)

declare Sprintf0.simps [simp del]

lemma Sprintf0_plain: "CHR ''%'' \<notin> set s \<Longrightarrow> Sprintf0 s = s"
proof (induction s)
  case (Cons c s)
  then show ?case by (subst Sprintf0.simps) auto
qed (simp add: Sprintf0.simps)

section \<open>Frames\<close>

definition ErrChecksumMismatch :: read_err where
  "ErrChecksumMismatch = ErrText ''Control protocol checksum mismatch''"

text \<open>A writer is what was written to it and the error that writing returns.\<close>

record ctrlWriter =
  cw_out :: string
  cw_fail :: "read_err option"

definition cw_Write :: "string \<Rightarrow> ctrlWriter \<Rightarrow> read_err option \<times> ctrlWriter" where
  "cw_Write s w = (case cw_fail w of None \<Rightarrow> (None, w\<lparr>cw_out := cw_out w @ s\<rparr>) | Some e \<Rightarrow> (Some e, w))"

text \<open>Big endian integers.\<close>

definition be16 :: "16 word \<Rightarrow> string" where
  "be16 x = of_bytes (rev (le16 x))"

definition of_be16 :: "string \<Rightarrow> 16 word" where
  "of_be16 s = of_le16 (rev (to_bytes s))"

definition writeCtrlFrame :: "bool \<Rightarrow> string \<Rightarrow> ctrlWriter \<Rightarrow> read_err option \<times> ctrlWriter" where
  "writeCtrlFrame isTCP format w =
     (let prefix = (if \<not> isTCP then ''C:'' else []);
          payload = Sprintf0 (format @ [CR]);
          (e, w) = cw_Write (prefix @ payload) w
      in if \<not> isTCP \<and> e = None then cw_Write (be16 (crc16Sum (to_bytes payload))) w else (e, w))"

record dFrame =
  dataType :: string
  fr_data :: string

definition ARQFrame :: "dFrame \<Rightarrow> bool" where "ARQFrame f \<longleftrightarrow> dataType f = ''ARQ''"
definition FECFrame :: "dFrame \<Rightarrow> bool" where "FECFrame f \<longleftrightarrow> dataType f = ''FEC''"
definition ErrFrame :: "dFrame \<Rightarrow> bool" where "ErrFrame f \<longleftrightarrow> dataType f = ''ERR''"
definition IDFrame :: "dFrame \<Rightarrow> bool" where "IDFrame f \<longleftrightarrow> dataType f = ''IDF''"

datatype aframe = CmdFrame string | DataFrame dFrame

text \<open>The loop that reads the data of a frame. Its error is assigned to a variable of the inner block and is lost; what was not
  read stays zero. A \<open>Read\<close> never returns no byte without an error.\<close>

function readData :: "nat \<Rightarrow> string \<Rightarrow> bufReader \<Rightarrow> string \<times> bufReader" where
  "readData length' acc rd =
     (if length' \<le> length acc then (acc, rd)
      else case rd_Read (length' - length acc) rd of
             (Inl e, rd) \<Rightarrow> (acc @ replicate (length' - length acc) NUL, rd)
           | (Inr d, rd) \<Rightarrow> if d = [] then (acc @ replicate (length' - length acc) NUL, rd) else readData length' (acc @ d) rd)"
  by pat_completeness auto
termination
  by (relation "measure (\<lambda>(n, acc, rd). n - length acc)") (auto simp: neq_Nil_conv)

declare readData.simps [simp del]

text \<open>The checksum after a frame, where there is one. Of a failed or short read the missing bytes are zero.\<close>

definition checked :: "bool \<Rightarrow> string \<Rightarrow> bufReader \<Rightarrow> bool \<times> bufReader" where
  "checked isTCP data rd =
     (if isTCP then (True, rd)
      else case rd_Read 2 rd of (r, rd) \<Rightarrow>
        let sumBytes = (case r of Inl e \<Rightarrow> [NUL, NUL] | Inr d \<Rightarrow> d @ replicate (2 - length d) NUL)
        in (crc16Sum (to_bytes data) = of_be16 sumBytes, rd))"

function readFrameOfType :: "char \<Rightarrow> bool \<Rightarrow> bufReader \<Rightarrow> ((read_err + aframe) \<times> bufReader) option" where
  "readFrameOfType fType isTCP rd =
     (if fType = CHR ''*'' then
        case rd_ReadByte rd of
          (Inl e, rd) \<Rightarrow> Some (Inl e, rd)
        | (Inr t, rd) \<Rightarrow> readFrameOfType t isTCP (snd (rd_ReadByte rd))
      else if fType = CHR ''c'' then
        case rd_ReadBytes CR [] rd of
          ((data, Some e), rd) \<Rightarrow> Some (Inl e, rd)
        | ((data, None), rd) \<Rightarrow>
            (case checked isTCP data rd of (ok, rd) \<Rightarrow>
               Some (if ok then Inr (CmdFrame (butlast data)) else Inl ErrChecksumMismatch, rd))
      else if fType = CHR ''d'' then
        case rd_Peek 2 rd of
          (Inl e, rd) \<Rightarrow> Some (Inl e, rd)
        | (Inr peeked, rd) \<Rightarrow>
            (case readData (unat (of_be16 peeked + 2)) [] rd of (data, rd) \<Rightarrow>
             case checked isTCP data rd of (ok, rd) \<Rightarrow>
               if \<not> ok then Some (Inl ErrChecksumMismatch, rd)
               else if length data < 5 then None
               else Some (Inr (DataFrame \<lparr>dataType = take 3 (drop 2 data), fr_data = drop 5 data\<rparr>), rd))
      else Some (Inl (ErrText (''Unexpected frame type '' @ runeString (byte_val fType))), rd))"
  by pat_completeness auto
termination
proof (relation "measure (\<lambda>(t, b, rd). length (pending rd))", goal_cases)
  case (2 fType isTCP rd x y t)
  then have "rd_ReadByte rd = (Inr t, y)" by simp
  then have "length (pending rd) = Suc (length (pending y))" using ReadByte_pending [of rd t y] by (metis length_Cons)
  then show ?case using ReadByte_le [of y] by simp
qed simp

declare readFrameOfType.simps [simp del]

text \<open>The regular expression \<^verbatim>\<open>(\w+)[:\s]*\[(\w+)\]\<close>: its leftmost match.\<close>

definition wordChar :: "char \<Rightarrow> bool" where
  "wordChar c \<longleftrightarrow> (let n = byte_val c in (48 \<le> n \<and> n \<le> 57) \<or> (65 \<le> n \<and> n \<le> 90) \<or> n = 95 \<or> (97 \<le> n \<and> n \<le> 122))"

definition colonOrSpace :: "char \<Rightarrow> bool" where
  "colonOrSpace c \<longleftrightarrow> byte_val c \<in> {9, 10, 12, 13, 32, 58}"

definition matchID :: "string \<Rightarrow> (string \<times> string) option" where
  "matchID s =
     (let call = takeWhile wordChar s; rest = dropWhile colonOrSpace (dropWhile wordChar s) in
      if call = [] \<or> \<not> startsWith (CHR ''['') rest then None
      else let grid = takeWhile wordChar (tl rest) in
        if grid = [] \<or> \<not> startsWith (CHR '']'') (dropWhile wordChar (tl rest)) then None else Some (call, grid))"

fun findID :: "string \<Rightarrow> (string \<times> string) option" where
  "findID [] = None"
| "findID (c # s) = (case matchID (c # s) of Some m \<Rightarrow> Some m | None \<Rightarrow> findID s)"

definition parseIDFrame :: "dFrame \<Rightarrow> read_err + string \<times> string" where
  "parseIDFrame df =
     (if \<not> IDFrame df then Inl (ErrText ''Unexpected frame type'')
      else case findID (fr_data df) of None \<Rightarrow> Inl (ErrText ''Unexpected ID format'') | Some m \<Rightarrow> Inr m)"

section \<open>Commands\<close>

text \<open>The states of the TNC and the bandwidths.\<close>

datatype State = Unknown | Offline | Disconnected | ISS | IRS | Idle | FECSend | FECReceive

definition stateMap :: "string \<rightharpoonup> State" where
  "stateMap = [
     [] \<mapsto> Unknown, ''OFFLINE'' \<mapsto> Offline, ''DISC'' \<mapsto> Disconnected, ''ISS'' \<mapsto> ISS, ''IRS'' \<mapsto> IRS, ''IDLE'' \<mapsto> Idle,
     ''FECRcv'' \<mapsto> FECReceive, ''FECSend'' \<mapsto> FECSend]"

definition strToState :: "unicode \<Rightarrow> string \<Rightarrow> State \<times> bool" where
  "strToState u str = (case stateMap (toUpper u str) of None \<Rightarrow> (Unknown, False) | Some st \<Rightarrow> (st, True))"

datatype cvalue = VNil | VBool bool | VState State | VString string | VList "string list" | VInt int

record ctrlMsg =
  cm_cmd :: string
  cm_value :: cvalue

text \<open>\<^verbatim>\<open>strings.SplitN(s, " ", 2)\<close>: the command, and its parameter if there is one.\<close>

definition splitSpace :: "string \<Rightarrow> string \<times> string option" where
  "splitSpace s =
     (case dropWhile (\<lambda>c. c \<noteq> CHR '' '') s of
        [] \<Rightarrow> (s, None)
      | _ # rest \<Rightarrow> (takeWhile (\<lambda>c. c \<noteq> CHR '' '') s, Some rest))"

definition parseList :: "string \<Rightarrow> char \<Rightarrow> string list" where
  "parseList str sep = map TrimSpace (Split sep str)"

definition boolCmds :: "string list" where
  "boolCmds = [''CODEC'', ''PTT'', ''BUSY'', ''TWOTONETEST'', ''CWID'', ''LISTEN'', ''AUTOBREAK'', ''FSKONLY'']"

definition plainCmds :: "string list" where
  "plainCmds = [''INPUTPEAKS'', ''ABORT'', ''DISCONNECT'', ''CLOSE'', ''DISCONNECTED'', ''CRCFAULT'', ''PENDING'', ''CANCELPENDING'', ''SENDID'',
     ''INITIALIZE'', ''ARQCALL'', ''PROTOCOLMODE'']"

definition stateCmds :: "string list" where
  "stateCmds = [''NEWSTATE'', ''STATE'']"

definition stringCmds :: "string list" where
  "stringCmds = [''FAULT'', ''MYCALL'', ''GRIDSQUARE'', ''CAPTURE'', ''PLAYBACK'', ''VERSION'', ''TARGET'', ''STATUS'', ''ARQBW'']"

definition listCmds :: "string list" where
  "listCmds = [''CATPUREDEVICES'', ''PLAYBACKDEVICES'', ''MYAUX'']"

definition intCmds :: "string list" where
  "intCmds = [''DRIVELEVEL'', ''BUFFER'', ''ARQTIMEOUT'', ''FREQUENCY'']"

text \<open>The value of a command from its parameter. A missing parameter is an index out of range.\<close>

definition cmdValue :: "unicode \<Rightarrow> string \<Rightarrow> string option \<Rightarrow> cvalue option" where
  "cmdValue u cmd param =
     (if cmd \<in> set boolCmds then map_option (\<lambda>p. VBool (toLower u p = ''true'')) param
      else if cmd \<in> set plainCmds then Some VNil
      else if cmd \<in> set stateCmds then map_option (\<lambda>p. VState (case stateMap (toUpper u p) of None \<Rightarrow> Unknown | Some st \<Rightarrow> st)) param
      else if cmd \<in> set stringCmds then map_option VString param
      else if cmd = ''CONNECTED'' then map_option (\<lambda>p. VList (parseList p (CHR '' ''))) param
      else if cmd \<in> set listCmds then map_option (\<lambda>p. VList (parseList p (CHR '',''))) param
      else if cmd \<in> set intCmds then map_option (\<lambda>p. VInt (fst (Atoi p))) param
      else Some VNil)"

definition parseCtrlMsg :: "unicode \<Rightarrow> string \<Rightarrow> ctrlMsg option" where
  "parseCtrlMsg u str =
     (let str = TrimSpace str;
          (cmd, param) = splitSpace str;
          cmd = toUpper u cmd;
          param = map_option (\<lambda>p. if HasPrefix (toLower u p) ''now '' then drop 4 p else p) param
      in map_option (\<lambda>v. \<lparr>cm_cmd = cmd, cm_value = v\<rparr>) (cmdValue u cmd param))"

section \<open>Bandwidths\<close>

record Bandwidth =
  Forced :: bool
  Max :: nat

definition Bandwidth_String :: "Bandwidth \<Rightarrow> string" where
  "Bandwidth_String bw = printNat 10 (Max bw) @ (if Forced bw then ''FORCED'' else ''MAX'')"

definition Bandwidth_IsZero :: "Bandwidth \<Rightarrow> bool" where
  "Bandwidth_IsZero bw \<longleftrightarrow> Max bw = 0"

definition Bandwidths :: "Bandwidth list" where
  "Bandwidths = map (\<lambda>n. \<lparr>Forced = False, Max = n\<rparr>) [200, 500, 1000, 2000] @ map (\<lambda>n. \<lparr>Forced = True, Max = n\<rparr>) [200, 500, 1000, 2000]"

definition BandwidthFromString :: "string \<Rightarrow> Bandwidth option" where
  "BandwidthFromString str =
     (let str = (if HasSuffix str ''0'' then str @ ''MAX'' else str) in find (\<lambda>bw. Bandwidth_String bw = str) Bandwidths)"

section \<open>Reading a stream\<close>

text \<open>The first \<open>n\<close> results of \<open>decodeTNCStream\<close>: frames and errors in the order they are sent to the control loop. The loop ends after
  \<open>EOF\<close>; \<open>None\<close> is a panic.\<close>

fun decodeTNCStream :: "nat \<Rightarrow> char \<Rightarrow> bool \<Rightarrow> bufReader \<Rightarrow> (read_err + aframe) option list" where
  "decodeTNCStream 0 fType isTCP rd = []"
| "decodeTNCStream (Suc n) fType isTCP rd =
     (case readFrameOfType fType isTCP rd of
        None \<Rightarrow> [None]
      | Some (r, rd) \<Rightarrow> Some r # (if r = Inl EOF then [] else decodeTNCStream n fType isTCP rd))"

lemma length_be16 [simp]: "length (be16 x) = 2"
  by (simp add: be16_def)

lemma of_be16_be16 [simp]: "of_be16 (be16 x) = x"
  by (simp add: of_be16_def be16_def of_le16_le16)

lemma readData_ok:
  "length acc \<le> n \<Longrightarrow> n - length acc \<le> length (pending rd) \<Longrightarrow>
   \<exists>rd'. readData n acc rd = (acc @ take (n - length acc) (pending rd), rd') \<and> pending rd' = drop (n - length acc) (pending rd) \<and> br_end rd' = br_end rd"
proof (induction n acc rd rule: readData.induct)
  case (1 n acc rd)
  show ?case
  proof (cases "n \<le> length acc")
    case True
    then show ?thesis by (subst readData.simps) simp
  next
    case False
    then obtain d rd1 where d: "rd_Read (n - length acc) rd = (Inr d, rd1)" "d \<noteq> []" "length d \<le> n - length acc"
        "pending rd = d @ pending rd1" "br_end rd1 = br_end rd"
      using Read_ok [of "n - length acc" rd] "1.prems"(2) by fastforce
    have "length (pending rd) = length d + length (pending rd1)" using d(4) by (metis length_append)
    then have "\<exists>rd'. readData n (acc @ d) rd1 = ((acc @ d) @ take (n - length (acc @ d)) (pending rd1), rd') \<and>
        pending rd' = drop (n - length (acc @ d)) (pending rd1) \<and> br_end rd' = br_end rd1"
      using "1.IH" [OF False d(1) [symmetric] refl d(2)] d(3) "1.prems" by simp
    then show ?thesis using False d by (subst readData.simps) (auto simp: take_Cons')
  qed
qed

section \<open>Properties\<close>

text \<open>What the TNC sends over TCP: commands end with a carriage return, data follows its length.\<close>

fun tcpFrame :: "aframe \<Rightarrow> string" where
  "tcpFrame (CmdFrame s) = s @ [CR]"
| "tcpFrame (DataFrame d) = be16 (of_nat (3 + length (fr_data d))) @ dataType d @ fr_data d"

fun aframe_ok :: "char \<Rightarrow> aframe \<Rightarrow> bool" where
  "aframe_ok t (CmdFrame s) = (t = CHR ''c'' \<and> CR \<notin> set s)"
| "aframe_ok t (DataFrame d) = (t = CHR ''d'' \<and> length (dataType d) = 3 \<and> length (fr_data d) \<le> 65530)"

lemma data_length: "n \<le> 65530 \<Longrightarrow> unat (of_nat (3 + n) + 2 :: 16 word) = n + 5"
proof -
  assume "n \<le> 65530"
  moreover have "(of_nat (3 + n) + 2 :: 16 word) = of_nat (n + 5)" by simp
  ultimately show ?thesis by (simp only: unsigned_of_nat take_bit_nat_eq_self) (simp add: take_bit_nat_eq_self)
qed

lemma readData_frame:
  assumes "pending rd = be16 (of_nat (3 + length (fr_data d))) @ dataType d @ fr_data d @ rest" "length (dataType d) = 3" "length (fr_data d) \<le> 65530"
  shows "\<exists>rd1 rd2. rd_Peek 2 rd = (Inr (be16 (of_nat (3 + length (fr_data d)))), rd1) \<and>
     readData (unat (of_nat (3 + length (fr_data d)) + 2 :: 16 word)) [] rd1 =
       (be16 (of_nat (3 + length (fr_data d))) @ dataType d @ fr_data d, rd2) \<and> pending rd2 = rest \<and> br_end rd2 = br_end rd"
proof -
  let ?l = "be16 (of_nat (3 + length (fr_data d)))"
  have len: "length (pending rd) \<ge> length (fr_data d) + 5" using arg_cong [OF assms(1), of length] assms(2) by simp
  obtain rd1 where r1: "rd_Peek 2 rd = (Inr (take 2 (pending rd)), rd1)" "pending rd1 = pending rd" "br_end rd1 = br_end rd"
    using Peek_ok [of 2 rd] len by (fastforce simp: bufSize_def)
  obtain rd2 where r2: "readData (length (fr_data d) + 5) [] rd1 = (take (length (fr_data d) + 5) (pending rd), rd2)"
      "pending rd2 = drop (length (fr_data d) + 5) (pending rd)" "br_end rd2 = br_end rd"
    using readData_ok [of "[]" "length (fr_data d) + 5" rd1] r1 len by auto
  have "take 2 (pending rd) = ?l" "take (length (fr_data d) + 5) (pending rd) = ?l @ dataType d @ fr_data d"
      "drop (length (fr_data d) + 5) (pending rd) = rest"
    using assms(2) unfolding assms(1) by simp_all
  then show ?thesis using r1 r2 data_length [OF assms(3)] by simp
qed

lemma read_tcpFrame:
  assumes "aframe_ok t f" "pending rd = tcpFrame f @ rest"
  shows "\<exists>rd'. readFrameOfType t True rd = Some (Inr f, rd') \<and> pending rd' = rest \<and> br_end rd' = br_end rd"
proof (cases f)
  case (CmdFrame s)
  then obtain rd' where "rd_ReadBytes CR [] rd = ((s @ [CR], None), rd')" "pending rd' = rest" "br_end rd' = br_end rd"
    using ReadBytes_ok [of rd s CR rest "[]"] assms by auto
  then show ?thesis using CmdFrame assms(1) by (subst readFrameOfType.simps) (simp add: checked_def)
next
  case (DataFrame d)
  then obtain rd1 rd2 where "rd_Peek 2 rd = (Inr (be16 (of_nat (3 + length (fr_data d)))), rd1)"
      "readData (unat (of_nat (3 + length (fr_data d)) + 2 :: 16 word)) [] rd1 = (be16 (of_nat (3 + length (fr_data d))) @ dataType d @ fr_data d, rd2)"
      "pending rd2 = rest" "br_end rd2 = br_end rd"
    using readData_frame [of rd d rest] assms by auto
  then show ?thesis using DataFrame assms(1) by (subst readFrameOfType.simps) (simp add: checked_def)
qed

text \<open>C22. Over TCP, commands and data of the TNC are read as they were sent, in order, however the network splits the stream; then the end of the
  stream is reported.\<close>

theorem tcp_stream_decodes:
  assumes "t \<in> {CHR ''c'', CHR ''d''}" "\<forall>f \<in> set fs. aframe_ok t f" "pending rd = concat (map tcpFrame fs)" "br_end rd = EOF"
  shows "decodeTNCStream (Suc (length fs)) t True rd = map (Some \<circ> Inr) fs @ [Some (Inl EOF)]"
  using assms(2-4)
proof (induction fs arbitrary: rd)
  case Nil
  then have "\<exists>rd'. readFrameOfType t True rd = Some (Inl EOF, rd')"
    using ReadBytes_EOF [of rd CR "[]"] Peek_EOF [of rd] assms(1) by (subst readFrameOfType.simps) auto
  then show ?case by auto
next
  case (Cons f fs)
  then obtain rd' where "readFrameOfType t True rd = Some (Inr f, rd')" "pending rd' = concat (map tcpFrame fs)" "br_end rd' = EOF"
    using read_tcpFrame [of t f rd "concat (map tcpFrame fs)"] by auto
  then show ?case using Cons.IH [of rd'] Cons.prems(1) by simp
qed

definition example_reader :: "string list \<Rightarrow> bufReader" where
  "example_reader ss = \<lparr>br_buf = [], br_segs = ss, br_end = EOF\<rparr>"

theorem tcp_stream_decodes_witness:
  "decodeTNCStream 3 (CHR ''c'') True (example_reader [''PTT tr'', ''ue'' @ [CR] @ ''BUFF'', ''ER 0'' @ [CR]]) =
     [Some (Inr (CmdFrame ''PTT true'')), Some (Inr (CmdFrame ''BUFFER 0'')), Some (Inl EOF)]"
  using tcp_stream_decodes [of "CHR ''c''" "[CmdFrame ''PTT true'', CmdFrame ''BUFFER 0'']" "example_reader [''PTT tr'', ''ue'' @ [CR] @ ''BUFF'', ''ER 0'' @ [CR]]"]
  by (simp add: example_reader_def numeral_3_eq_3)

text \<open>What the TNC sends over a serial line. A command looks like one that is sent to the TNC, with a small letter in front.\<close>

fun serialFrame :: "aframe \<Rightarrow> string" where
  "serialFrame (CmdFrame s) = CHR ''c'' # tl (cw_out (snd (writeCtrlFrame False s \<lparr>cw_out = [], cw_fail = None\<rparr>)))"
| "serialFrame (DataFrame d) = ''d:'' @ tcpFrame (DataFrame d) @ be16 (crc16Sum (to_bytes (tcpFrame (DataFrame d))))"

lemma serialFrame_Cmd: "CHR ''%'' \<notin> set s \<Longrightarrow> serialFrame (CmdFrame s) = ''c:'' @ s @ CR # be16 (crc16Sum (to_bytes (s @ [CR])))"
  using Sprintf0_plain [of "s @ [CR]"] by (simp add: writeCtrlFrame_def cw_Write_def Let_def)

lemma readData_buffered: "0 < n \<Longrightarrow> n \<le> length (br_buf rd) \<Longrightarrow> readData n [] rd = (take n (br_buf rd), rd\<lparr>br_buf := drop n (br_buf rd)\<rparr>)"
  by (subst readData.simps) (auto simp: rd_Read_def readData.simps)

lemma checked_buffered: "br_buf rd = be16 (crc16Sum (to_bytes data)) @ rest \<Longrightarrow> checked False data rd = (True, rd\<lparr>br_buf := rest\<rparr>)"
proof -
  let ?c = "be16 (crc16Sum (to_bytes data))"
  assume b: "br_buf rd = ?c @ rest"
  have "br_buf rd \<noteq> []" "take 2 (br_buf rd) = ?c" "drop 2 (br_buf rd) = rest" unfolding b by (simp_all flip: length_0_conv)
  then have "rd_Read 2 rd = (Inr ?c, rd\<lparr>br_buf := rest\<rparr>)" by (simp add: rd_Read_def)
  then show ?thesis by (simp add: checked_def)
qed

lemma read_serialFrame:
  assumes "aframe_ok t f" "\<forall>s. f = CmdFrame s \<longrightarrow> CHR ''%'' \<notin> set s" "br_buf rd = serialFrame f @ rest"
  shows "readFrameOfType (CHR ''*'') False rd = Some (Inr f, rd\<lparr>br_buf := rest\<rparr>)"
proof (cases f)
  case (CmdFrame s)
  then have b: "br_buf rd = CHR ''c'' # CHR '':'' # s @ CR # be16 (crc16Sum (to_bytes (s @ [CR]))) @ rest"
    using assms(2,3) serialFrame_Cmd [of s] by simp
  let ?rd = "rd\<lparr>br_buf := s @ CR # be16 (crc16Sum (to_bytes (s @ [CR]))) @ rest\<rparr>"
  have "readFrameOfType (CHR ''*'') False rd = readFrameOfType (CHR ''c'') False ?rd"
    by (subst readFrameOfType.simps) (simp add: b rd_ReadByte.simps)
  moreover have "rd_ReadBytes CR [] ?rd = ((s @ [CR], None), rd\<lparr>br_buf := be16 (crc16Sum (to_bytes (s @ [CR]))) @ rest\<rparr>)"
    using ReadBytes_buffered [of ?rd s CR _ "[]"] assms(1) CmdFrame by simp
  ultimately show ?thesis using CmdFrame checked_buffered [of _ "s @ [CR]" rest]
    by (simp add: readFrameOfType.simps [of "CHR ''c''"])
next
  case (DataFrame d)
  let ?p = "tcpFrame (DataFrame d)" and ?l = "be16 (of_nat (3 + length (fr_data d)))"
  let ?rd = "rd\<lparr>br_buf := ?p @ be16 (crc16Sum (to_bytes ?p)) @ rest\<rparr>"
  have "readFrameOfType (CHR ''*'') False rd = readFrameOfType (CHR ''d'') False ?rd"
    using assms(3) DataFrame by (subst readFrameOfType.simps) (simp add: rd_ReadByte.simps)
  moreover have "rd_Peek 2 ?rd = (Inr ?l, ?rd)" by (subst rd_Peek.simps) simp
  moreover have "readData (unat (of_nat (3 + length (fr_data d)) + 2 :: 16 word)) [] ?rd = (?p, ?rd\<lparr>br_buf := be16 (crc16Sum (to_bytes ?p)) @ rest\<rparr>)"
    using assms(1) DataFrame data_length [of "length (fr_data d)"] readData_buffered [of "length (fr_data d) + 5" ?rd] by simp
  moreover have "checked False ?p (?rd\<lparr>br_buf := be16 (crc16Sum (to_bytes ?p)) @ rest\<rparr>) = (True, rd\<lparr>br_buf := rest\<rparr>)"
    by (subst checked_buffered [of _ _ rest]) simp_all
  moreover have "\<not> length ?p < 5" "take 3 (drop 2 ?p) = dataType d" "drop 5 ?p = fr_data d"
    using assms(1) DataFrame by simp_all
  ultimately show ?thesis using DataFrame
    by (simp only: readFrameOfType.simps [of "CHR ''d''"]) (simp del: tcpFrame.simps)
qed

lemma serialFrame_nonempty: "serialFrame f \<noteq> []"
  by (cases f) simp_all

text \<open>The reader has all of a segment once it has read a byte of it.\<close>

lemma fill_segment:
  "br_buf rd = [] \<Longrightarrow> br_segs rd = s # ss \<Longrightarrow> s \<noteq> [] \<Longrightarrow> length s \<le> bufSize \<Longrightarrow> fill rd = Some (rd\<lparr>br_buf := s, br_segs := ss\<rparr>)"
  by (simp add: fill_def)

lemma readFrame_segment:
  assumes "br_buf rd = []" "br_segs rd = s # ss" "s \<noteq> []" "length s \<le> bufSize"
  shows "readFrameOfType (CHR ''*'') False rd = readFrameOfType (CHR ''*'') False (rd\<lparr>br_buf := s, br_segs := ss\<rparr>)"
proof -
  have "rd_ReadByte rd = rd_ReadByte (rd\<lparr>br_buf := s, br_segs := ss\<rparr>)" using assms fill_segment [OF assms] by (simp add: rd_ReadByte.simps [of rd])
  then show ?thesis by (simp add: readFrameOfType.simps [of "CHR ''*''"])
qed

lemma decode_buffered:
  assumes "\<forall>f \<in> set fs. \<exists>t. aframe_ok t f" "\<forall>s. CmdFrame s \<in> set fs \<longrightarrow> CHR ''%'' \<notin> set s" "br_buf rd = concat (map serialFrame fs)"
  shows "decodeTNCStream (length fs + n) (CHR ''*'') False rd = map (Some \<circ> Inr) fs @ decodeTNCStream n (CHR ''*'') False (rd\<lparr>br_buf := []\<rparr>)"
  using assms
proof (induction fs arbitrary: rd)
  case Nil
  then show ?case by (cases rd) simp
next
  case (Cons f fs)
  then obtain t where "aframe_ok t f" by auto
  then have "readFrameOfType (CHR ''*'') False rd = Some (Inr f, rd\<lparr>br_buf := concat (map serialFrame fs)\<rparr>)"
    using read_serialFrame [of t f rd "concat (map serialFrame fs)"] Cons.prems by simp
  then show ?case using Cons.IH [of "rd\<lparr>br_buf := concat (map serialFrame fs)\<rparr>"] Cons.prems by simp
qed

text \<open>C23. Over a serial line, where every frame has a checksum, the frames are read as they were sent, in order, and then the end of the stream. It
  is so when the bytes arrive in segments that hold whole frames and fit into the buffer of the reader: the code takes the checksum with a
  single read and would miss the part that has not arrived. The commands are written by \<open>writeCtrlFrame\<close>, whose argument is a format string
  and must not have a percent sign.\<close>

theorem serial_stream_decodes:
  assumes "\<forall>f \<in> set (concat fss). \<exists>t. aframe_ok t f" "\<forall>s. CmdFrame s \<in> set (concat fss) \<longrightarrow> CHR ''%'' \<notin> set s"
    and "\<forall>fs \<in> set fss. fs \<noteq> [] \<and> length (concat (map serialFrame fs)) \<le> bufSize"
    and "rd = \<lparr>br_buf = [], br_segs = map (concat \<circ> map serialFrame) fss, br_end = EOF\<rparr>"
  shows "decodeTNCStream (Suc (length (concat fss))) (CHR ''*'') False rd = map (Some \<circ> Inr) (concat fss) @ [Some (Inl EOF)]"
  using assms
proof (induction fss arbitrary: rd)
  case Nil
  then have "rd_ReadByte rd = (Inl EOF, rd)" by (subst rd_ReadByte.simps) (simp add: fill_def)
  then show ?case using Nil by (simp add: readFrameOfType.simps)
next
  case (Cons fs fss)
  let ?s = "concat (map serialFrame fs)" and ?rd = "\<lparr>br_buf = [], br_segs = map (concat \<circ> map serialFrame) fss, br_end = EOF\<rparr>"
  have "?s \<noteq> []" using Cons.prems(3) serialFrame_nonempty by (cases fs) auto
  then have "readFrameOfType (CHR ''*'') False rd = readFrameOfType (CHR ''*'') False (?rd\<lparr>br_buf := ?s\<rparr>)"
    using readFrame_segment [of rd ?s "map (concat \<circ> map serialFrame) fss"] Cons.prems(3,4) by simp
  then have "decodeTNCStream (Suc n) (CHR ''*'') False rd = decodeTNCStream (Suc n) (CHR ''*'') False (?rd\<lparr>br_buf := ?s\<rparr>)" for n by simp
  also have "decodeTNCStream (length fs + Suc (length (concat fss))) (CHR ''*'') False (?rd\<lparr>br_buf := ?s\<rparr>) =
      map (Some \<circ> Inr) fs @ decodeTNCStream (Suc (length (concat fss))) (CHR ''*'') False ?rd"
    using decode_buffered [of fs "?rd\<lparr>br_buf := ?s\<rparr>" "Suc (length (concat fss))"] Cons.prems(1,2) by (simp del: decodeTNCStream.simps)
  ultimately show ?case using Cons.IH [OF _ _ _ refl] Cons.prems by (simp del: decodeTNCStream.simps)
qed

theorem serial_stream_decodes_witness:
  "decodeTNCStream 4 (CHR ''*'') False
     \<lparr>br_buf = [], br_segs = [serialFrame (CmdFrame ''PTT true'') @ serialFrame (DataFrame \<lparr>dataType = ''ARQ'', fr_data = ''Hi''\<rparr>),
        serialFrame (CmdFrame ''PTT false'')], br_end = EOF\<rparr> =
   [Some (Inr (CmdFrame ''PTT true'')), Some (Inr (DataFrame \<lparr>dataType = ''ARQ'', fr_data = ''Hi''\<rparr>)), Some (Inr (CmdFrame ''PTT false'')), Some (Inl EOF)]"
proof -
  let ?fss = "[[CmdFrame ''PTT true'', DataFrame \<lparr>dataType = ''ARQ'', fr_data = ''Hi''\<rparr>], [CmdFrame ''PTT false'']]"
  have "\<forall>fs \<in> set ?fss. fs \<noteq> [] \<and> length (concat (map serialFrame fs)) \<le> bufSize"
    by (simp add: serialFrame_Cmd bufSize_def del: serialFrame.simps(1))
  then have "decodeTNCStream (Suc (length (concat ?fss))) (CHR ''*'') False \<lparr>br_buf = [], br_segs = map (concat \<circ> map serialFrame) ?fss, br_end = EOF\<rparr> =
      map (Some \<circ> Inr) (concat ?fss) @ [Some (Inl EOF)]"
    using serial_stream_decodes [OF _ _ _ refl, of ?fss] by (auto simp del: serialFrame.simps decodeTNCStream.simps)
  moreover have "(4 :: nat) = Suc (length (concat ?fss))" by simp
  ultimately show ?thesis by (simp only: list.map concat.simps append.simps o_apply append_Nil2)
qed

lemma length_readData: "length acc \<le> n \<Longrightarrow> length (fst (readData n acc rd)) = n"
proof (induction n acc rd rule: readData.induct)
  case (1 n acc rd)
  show ?case
  proof (cases "\<exists>d r. rd_Read (n - length acc) rd = (Inr d, r) \<and> d \<noteq> [] \<and> \<not> n \<le> length acc")
    case True
    then obtain d r where d: "rd_Read (n - length acc) rd = (Inr d, r)" "d \<noteq> []" "\<not> n \<le> length acc" by auto
    then have "length d \<le> n - length acc" by (auto simp: rd_Read_def dest: readSegment_Some split: if_splits option.splits)
    then show ?thesis using d "1.IH" [OF d(3) d(1) [symmetric] refl d(2)] by (subst readData.simps) simp
  next
    case False
    then show ?thesis using "1.prems" by (subst readData.simps) (auto split: sum.splits prod.splits)
  qed
qed

text \<open>A data frame whose length field is less than 3, or so large that adding 2 overflows, panics: the type of the data is sliced from the
  frame without a check of its length.\<close>

theorem short_data_panics:
  assumes "pending rd = be16 n @ rest" "n + 2 < 5"
  shows "readFrameOfType (CHR ''d'') True rd = None"
proof -
  obtain rd1 where "rd_Peek 2 rd = (Inr (be16 n), rd1)"
    using Peek_ok [of 2 rd] assms(1) by (fastforce simp: bufSize_def)
  moreover have "length (fst (readData k [] r)) = k" for k r
    using length_readData [of "[]" k r] by simp
  then have "length (fst (readData (unat (n + 2)) [] rd1)) < 5" using assms(2) by (simp add: word_less_nat_alt)
  ultimately show ?thesis by (cases "readData (unat (n + 2)) [] rd1") (simp add: readFrameOfType.simps checked_def)
qed

theorem short_data_panics_witness: "readFrameOfType (CHR ''d'') True (example_reader [be16 2 @ ''OK'']) = None"
  using short_data_panics [of "example_reader [be16 2 @ ''OK'']" 2 "''OK''"] by (simp add: example_reader_def)

lemma readData_short:
  "length acc \<le> n \<Longrightarrow> length acc + length (pending rd) \<le> n \<Longrightarrow>
   fst (readData n acc rd) = acc @ pending rd @ replicate (n - length acc - length (pending rd)) NUL"
proof (induction n acc rd rule: readData.induct)
  case (1 n acc rd)
  show ?case
  proof (cases "0 < length (pending rd) \<and> \<not> n \<le> length acc")
    case True
    then obtain d r where d: "rd_Read (n - length acc) rd = (Inr d, r)" "d \<noteq> []" "length d \<le> n - length acc" "pending rd = d @ pending r"
      using Read_ok [of "n - length acc" rd] by fastforce
    have l: "length (pending rd) = length d + length (pending r)" using d(4) by (metis length_append)
    then have "fst (readData n (acc @ d) r) = (acc @ d) @ pending r @ replicate (n - length (acc @ d) - length (pending r)) NUL"
      using "1.IH" [OF _ d(1) [symmetric] refl d(2)] d(3) True "1.prems" by simp
    moreover have "readData n acc rd = readData n (acc @ d) r" using True d by (subst readData.simps) simp
    ultimately show ?thesis using l d(4) by simp
  next
    case False
    show ?thesis
    proof (cases "n \<le> length acc")
      case True
      then have "length (pending rd) = 0" using "1.prems"(2) by linarith
      then show ?thesis using True by (simp only: length_0_conv readData.simps [of n acc rd]) simp
    next
      case n: False
      then have p: "br_buf rd = []" "concat (br_segs rd) = []" using False by auto
      then have "readSegment k (br_segs rd) = None" for k using readSegment_None by blast
      then have "rd_Read (n - length acc) rd = (Inl (br_end rd), rd)" using p by (simp add: rd_Read_def fill_def)
      then show ?thesis using n p by (simp add: readData.simps [of n acc rd] del: concat_eq_Nil_conv)
    qed
  qed
qed

text \<open>C37. When the TCP connection ends in the middle of a data frame, the frame is delivered all the same, with zeros in place of the bytes that
  did not arrive: the error of the read is assigned to a variable that is not looked at.\<close>

theorem truncated_data_delivered:
  assumes "pending rd = be16 (of_nat (3 + n)) @ ty @ d" "length ty = 3" "length d \<le> n" "n \<le> 65530"
  shows "\<exists>rd'. readFrameOfType (CHR ''d'') True rd = Some (Inr (DataFrame \<lparr>dataType = ty, fr_data = d @ replicate (n - length d) NUL\<rparr>), rd')"
proof -
  let ?l = "be16 (of_nat (3 + n))"
  obtain rd1 where r: "rd_Peek 2 rd = (Inr (take 2 (pending rd)), rd1)" "pending rd1 = pending rd"
    using Peek_ok [of 2 rd] assms(1) by (fastforce simp: bufSize_def)
  have lp: "length (pending rd) = length d + 5" using arg_cong [OF assms(1), of length] assms(2) by simp
  have "fst (readData (n + 5) [] rd1) = pending rd @ replicate (n - length d) NUL"
    using readData_short [of "[]" "n + 5" rd1] r(2) lp assms(3) by simp
  then obtain rd2 where "readData (n + 5) [] rd1 = (?l @ ty @ d @ replicate (n - length d) NUL, rd2)"
    using assms(1) by (cases "readData (n + 5) [] rd1") simp
  moreover have "take 2 (pending rd) = ?l" unfolding assms(1) by simp
  ultimately show ?thesis using r(1) data_length [OF assms(4)] assms(2) by (simp add: readFrameOfType.simps checked_def)
qed

theorem truncated_data_delivered_witness:
  "\<exists>rd'. readFrameOfType (CHR ''d'') True (example_reader [be16 8 @ ''ARQ'', ''Hel'']) =
     Some (Inr (DataFrame \<lparr>dataType = ''ARQ'', fr_data = ''Hel'' @ [NUL, NUL]\<rparr>), rd')"
  using truncated_data_delivered [of "example_reader [be16 8 @ ''ARQ'', ''Hel'']" 5 "''ARQ''" "''Hel''"]
  by (simp add: example_reader_def numeral_2_eq_2)

text \<open>The commands that need a parameter.\<close>

definition needsParam :: "string \<Rightarrow> bool" where
  "needsParam cmd \<longleftrightarrow> cmd \<in> set (boolCmds @ stateCmds @ stringCmds @ [''CONNECTED''] @ listCmds @ intCmds)"

lemma cmdValue_None: "cmdValue u cmd param = None \<longleftrightarrow> needsParam cmd \<and> param = None"
  by (auto simp: cmdValue_def needsParam_def boolCmds_def plainCmds_def stateCmds_def stringCmds_def listCmds_def intCmds_def)

lemma splitSpace_param: "CHR '' '' \<notin> set cmd \<Longrightarrow> splitSpace (cmd @ CHR '' '' # p) = (cmd, Some p)"
  by (auto simp: splitSpace_def dropWhile_append takeWhile_append)

lemma splitSpace_plain: "CHR '' '' \<notin> set cmd \<Longrightarrow> splitSpace cmd = (cmd, None)"
proof -
  assume "CHR '' '' \<notin> set cmd"
  then have "dropWhile (\<lambda>c. c \<noteq> CHR '' '') cmd = []" by (simp add: dropWhile_eq_Nil_conv) blast
  then show ?thesis by (simp only: splitSpace_def list.case)
qed

text \<open>A command with its parameter is read as such, with or without the word that marks an echo.\<close>

lemma parseCtrlMsg_param:
  assumes "cmd \<noteq> []" "\<forall>c \<in> set cmd. capital c" "p \<noteq> []" "visible (last p)"
  shows "parseCtrlMsg u (cmd @ CHR '' '' # p) =
     map_option (\<lambda>v. \<lparr>cm_cmd = cmd, cm_value = v\<rparr>) (cmdValue u cmd (Some (if HasPrefix (toLower u p) ''now '' then drop 4 p else p)))"
proof -
  have "TrimSpace (cmd @ CHR '' '' # p) = cmd @ CHR '' '' # p"
    using assms capital_visible by (intro TrimSpace_line(2)) (auto simp: hd_append)
  moreover have "CHR '' '' \<notin> set cmd" using assms(2) capital_visible by blast
  ultimately show ?thesis using toUpper_capitals [OF assms(2)] by (simp add: parseCtrlMsg_def splitSpace_param)
qed

lemma parseCtrlMsg_plain:
  assumes "cmd \<noteq> []" "\<forall>c \<in> set cmd. capital c"
  shows "parseCtrlMsg u cmd = map_option (\<lambda>v. \<lparr>cm_cmd = cmd, cm_value = v\<rparr>) (cmdValue u cmd None)"
proof -
  have "TrimSpace cmd = cmd" using assms capital_visible by (intro TrimSpace_line(2)) auto
  moreover have "CHR '' '' \<notin> set cmd" using assms(2) capital_visible by blast
  ultimately show ?thesis using toUpper_capitals [OF assms(2)] by (simp add: parseCtrlMsg_def splitSpace_plain)
qed

lemmas command_lists = boolCmds_def plainCmds_def stateCmds_def stringCmds_def listCmds_def intCmds_def

end
