(* ===== verification/Ardop_Tnc.thy ===== *)
theory Ardop_Tnc
  imports Ardop_Frame Go_Outcome "HOL-Library.Sublist"
begin

text \<open>
  The ARDOP TNC as the host sees it (\<^verbatim>\<open>tnc.go\<close>, \<^verbatim>\<open>conn.go\<close>, \<^verbatim>\<open>dial.go\<close>, \<^verbatim>\<open>listen.go\<close> and \<^verbatim>\<open>lock.go\<close> in \<^verbatim>\<open>src/transport/ardop\<close>). The
  control loop reads the frames of the TNC and keeps the state; an operation sends a command and waits for the messages the loop broadcasts.
  The frames still to come are part of the state, and a waiting operation is told of every message before the next frame is handled.
  The outcome is \<open>Blocked\<close> when the operation waits for a frame that never comes.
\<close>

section \<open>The state\<close>

datatype tnc_err = ErrEOF | ErrTNCClosed | ErrBusy | ErrConnectInProgress | ErrConnectTimeout | ErrActiveListenerExists |
  ErrDisconnectTimeout | ErrUnsupportedBandwidth | ErrUnsupportedScheme | ErrMsg string

text \<open>A lock is whether its channel is there.\<close>

type_synonym lock = bool

definition lock_Lock :: "lock \<Rightarrow> lock" where "lock_Lock l = True"
definition lock_Unlock :: "lock \<Rightarrow> lock" where "lock_Unlock l = False"

text \<open>Whether a receive from \<open>WaitChan\<close> goes through at once.\<close>

definition WaitChan :: "lock \<Rightarrow> bool" where "WaitChan l \<longleftrightarrow> \<not> l"

record arqConn =
  ac_in :: "string list"
  ac_eof :: bool
  ac_isTCP :: bool
  ac_onClose :: "Bandwidth list"
  ac_remoteAddr :: string
  ac_localAddr :: string
  ac_flushLock :: lock
  ac_buffer :: int
  ac_nWritten :: int

definition newArqConn :: "bool \<Rightarrow> Bandwidth list \<Rightarrow> string \<Rightarrow> string \<Rightarrow> arqConn" where
  "newArqConn isTCP onClose remote local =
     \<lparr>ac_in = [], ac_eof = False, ac_isTCP = isTCP, ac_onClose = onClose, ac_remoteAddr = remote, ac_localAddr = local,
      ac_flushLock = False, ac_buffer = 0, ac_nWritten = 0\<rparr>"

text \<open>\<open>tn_conn\<close> is the connection made last, and \<open>tn_live\<close> tells that it is the one in the field \<open>data\<close>. While it is, its channel
  \<open>dataIn\<close> is that of the TNC; later \<open>ac_in\<close> is what is left in the closed channel. \<open>tn_pttLog\<close> are the calls of the PTT controller.
  The last four fields are the outside: the frames to come, the time, and what has been sent.\<close>

record TNC =
  tn_busy :: bool
  tn_state :: State
  tn_heard :: "string \<rightharpoonup> nat"
  tn_ptt :: bool
  tn_pttLog :: "bool list"
  tn_isTCP :: bool
  tn_connected :: bool
  tn_listenerActive :: bool
  tn_closed :: bool
  tn_dataIn :: "string list"
  tn_live :: bool
  tn_conn :: arqConn
  tn_frames :: "(read_err + aframe) list"
  tn_now :: nat
  tn_sent :: "string list"
  tn_sentData :: "string list"

definition newTNC :: "bool \<Rightarrow> (read_err + aframe) list \<Rightarrow> nat \<Rightarrow> TNC" where
  "newTNC isTCP frames now =
     \<lparr>tn_busy = False, tn_state = Unknown, tn_heard = Map.empty, tn_ptt = False, tn_pttLog = [], tn_isTCP = isTCP, tn_connected = False,
      tn_listenerActive = False, tn_closed = False, tn_dataIn = [], tn_live = False, tn_conn = newArqConn isTCP [] [] [], tn_frames = frames,
      tn_now = now, tn_sent = [], tn_sentData = []\<rparr>"

definition SetPTT :: "bool \<Rightarrow> TNC \<Rightarrow> TNC" where
  "SetPTT ptt t = t\<lparr>tn_ptt := ptt\<rparr>"

section \<open>The control loop\<close>

definition eof :: "TNC \<Rightarrow> TNC" where
  "eof t =
     (if tn_live t then
        t\<lparr>tn_conn := (tn_conn t)\<lparr>ac_in := tn_dataIn t, ac_eof := True\<rparr>, tn_connected := False, tn_dataIn := [], tn_live := False\<rparr>
      else t)"

definition updateBuffer :: "int \<Rightarrow> arqConn \<Rightarrow> arqConn" where
  "updateBuffer b c =
     (let c = c\<lparr>ac_buffer := b\<rparr> in if b = 0 then c\<lparr>ac_flushLock := lock_Unlock (ac_flushLock c)\<rparr> else c)"

definition dataInSize :: nat where "dataInSize = 4096"

text \<open>A data frame. The frame is lost if the channel stays full for a minute; that a disconnect is started then is not modelled.\<close>

definition handleData :: "dFrame \<Rightarrow> TNC \<Rightarrow> TNC" where
  "handleData d t =
     (if ARQFrame d then
        if tn_connected t \<and> length (tn_dataIn t) < dataInSize then t\<lparr>tn_dataIn := tn_dataIn t @ [fr_data d]\<rparr> else t
      else if IDFrame d then
        (case parseIDFrame d of Inl e \<Rightarrow> t | Inr (call, grid) \<Rightarrow> t\<lparr>tn_heard := (tn_heard t)(call \<mapsto> tn_now t)\<rparr>)
      else t)"

text \<open>A message, before it is broadcast. A value of another type than the command has panics.\<close>

definition handleMsg :: "ctrlMsg \<Rightarrow> TNC \<Rightarrow> TNC option" where
  "handleMsg msg t =
     (if cm_cmd msg = ''PTT'' then
        if tn_ptt t then (case cm_value msg of VBool b \<Rightarrow> Some (t\<lparr>tn_pttLog := tn_pttLog t @ [b]\<rparr>) | _ \<Rightarrow> None) else Some t
      else if cm_cmd msg = ''DISCONNECTED'' then Some (eof (t\<lparr>tn_state := Disconnected\<rparr>))
      else if cm_cmd msg = ''BUFFER'' then
        (case cm_value msg of VInt b \<Rightarrow> Some (if tn_live t then t\<lparr>tn_conn := updateBuffer b (tn_conn t)\<rparr> else t) | _ \<Rightarrow> None)
      else if cm_cmd msg = ''NEWSTATE'' then
        (case cm_value msg of
           VState st \<Rightarrow> Some (let t = t\<lparr>tn_state := st\<rparr> in if st = Disconnected then eof t else t)
         | _ \<Rightarrow> None)
      else if cm_cmd msg = ''BUSY'' then (case cm_value msg of VBool b \<Rightarrow> Some (t\<lparr>tn_busy := b\<rparr>) | _ \<Rightarrow> None)
      else Some t)"

text \<open>\<open>close\<close>; that the beacon, the control connection and the channels are closed too is not part of the state.\<close>

definition close_TNC :: "TNC \<Rightarrow> TNC" where
  "close_TNC t = (if tn_closed t then t else eof (t\<lparr>tn_closed := True\<rparr>))"

fun isOpError :: "read_err \<Rightarrow> bool" where
  "isOpError (NetErr s) = True"
| "isOpError e = False"

text \<open>One round of the loop: the message to broadcast, if the frame is one. \<open>NetErr\<close> is an error of the network (\<^verbatim>\<open>net.OpError\<close>).\<close>

definition handleFrame :: "unicode \<Rightarrow> read_err + aframe \<Rightarrow> TNC \<Rightarrow> (ctrlMsg option \<times> TNC) option" where
  "handleFrame u f t =
     (case f of
        Inl e \<Rightarrow> Some (None, if e = EOF \<or> isOpError e then close_TNC t else t)
      | Inr (DataFrame d) \<Rightarrow> Some (None, handleData d t)
      | Inr (CmdFrame line) \<Rightarrow>
          (case parseCtrlMsg u line of
             None \<Rightarrow> None
           | Some msg \<Rightarrow> (case handleMsg msg t of None \<Rightarrow> None | Some t \<Rightarrow> Some (Some msg, t))))"

lemma handleMsg_frames: "handleMsg msg t = Some t' \<Longrightarrow> tn_frames t' = tn_frames t"
  by (auto simp: handleMsg_def eof_def Let_def split: if_splits cvalue.splits)

lemma handleData_frames [simp]: "tn_frames (handleData d t) = tn_frames t"
  by (auto simp: handleData_def split: sum.splits prod.splits)

lemma handleFrame_frames: "handleFrame u f t = Some (m, t') \<Longrightarrow> tn_frames t' = tn_frames t"
  by (auto simp: handleFrame_def close_TNC_def eof_def dest: handleMsg_frames split: sum.splits aframe.splits option.splits if_splits)

text \<open>Handles frames until there is a message: the next one a receiver gets, or \<open>None\<close> when the channel of the receiver is closed.\<close>

function nextMsg :: "unicode \<Rightarrow> TNC \<Rightarrow> (ctrlMsg option \<times> TNC) outcome" where
  "nextMsg u t =
     (if tn_closed t then Done (None, t)
      else case tn_frames t of
        [] \<Rightarrow> Blocked
      | f # fs \<Rightarrow>
          (case handleFrame u f (t\<lparr>tn_frames := fs\<rparr>) of
             None \<Rightarrow> Panic
           | Some (None, t) \<Rightarrow> nextMsg u t
           | Some (Some msg, t) \<Rightarrow> Done (Some msg, t)))"
  by pat_completeness auto
termination
  by (relation "measure (\<lambda>(u, t). length (tn_frames t))") (auto dest: handleFrame_frames)

declare nextMsg.simps [simp del]

lemma nextMsg_trace [consumes 1, case_names closed message silent]:
  assumes "nextMsg u t = Done (r, t')"
    and "\<And>t. tn_closed t \<Longrightarrow> P t None t"
    and "\<And>t f fs msg t'. \<not> tn_closed t \<Longrightarrow> tn_frames t = f # fs \<Longrightarrow> handleFrame u f (t\<lparr>tn_frames := fs\<rparr>) = Some (Some msg, t') \<Longrightarrow> P t (Some msg) t'"
    and "\<And>t f fs t1 r t'. \<not> tn_closed t \<Longrightarrow> tn_frames t = f # fs \<Longrightarrow> handleFrame u f (t\<lparr>tn_frames := fs\<rparr>) = Some (None, t1) \<Longrightarrow> P t1 r t' \<Longrightarrow> P t r t'"
  shows "P t r t'"
  using assms(1,3,4)
proof (induction u t rule: nextMsg.induct [case_names step])
  case (step u t)
  show ?case
  proof (cases "tn_closed t")
    case True
    then show ?thesis using step.prems(1) assms(2) by (simp add: nextMsg.simps [of u t])
  next
    case False
    then obtain f fs where f: "tn_frames t = f # fs" using step.prems(1) by (simp add: nextMsg.simps [of u t] split: list.splits)
    then obtain m t1 where h: "handleFrame u f (t\<lparr>tn_frames := fs\<rparr>) = Some (m, t1)"
      using step.prems(1) False by (auto simp: nextMsg.simps [of u t] split: option.splits)
    show ?thesis
    proof (cases m)
      case None
      then show ?thesis using step.prems step.IH [OF False f h refl None] f h False by (simp add: nextMsg.simps [of u t])
    next
      case (Some msg)
      then show ?thesis using step.prems f h False by (auto simp: nextMsg.simps [of u t])
    qed
  qed
qed

lemma nextMsg_shorter: "nextMsg u t = Done (Some msg, t') \<Longrightarrow> length (tn_frames t') < length (tn_frames t)"
proof -
  have "nextMsg u t = Done (r, t') \<Longrightarrow> r \<noteq> None \<Longrightarrow> length (tn_frames t') < length (tn_frames t)" for r
    by (induction rule: nextMsg_trace) (auto dest!: handleFrame_frames)
  then show "nextMsg u t = Done (Some msg, t') \<Longrightarrow> length (tn_frames t') < length (tn_frames t)" by blast
qed

section \<open>Commands\<close>

definition send :: "string \<Rightarrow> TNC \<Rightarrow> TNC" where
  "send str t = t\<lparr>tn_sent := tn_sent t @ [str]\<rparr>"

lemma send_frames [simp]: "tn_frames (send str t) = tn_frames t"
  by (simp add: send_def)

text \<open>Waits for the answer to a command: its value, or the text of a fault.\<close>

function answer :: "unicode \<Rightarrow> string \<Rightarrow> TNC \<Rightarrow> ((tnc_err + cvalue) \<times> TNC) outcome" where
  "answer u cmd t =
     (case nextMsg u t of
        Panic \<Rightarrow> Panic
      | Blocked \<Rightarrow> Blocked
      | Done (None, t) \<Rightarrow> Done (Inl ErrTNCClosed, t)
      | Done (Some msg, t) \<Rightarrow>
          if cm_cmd msg = cmd then Done (Inr (cm_value msg), t)
          else if cm_cmd msg = ''FAULT'' then (case cm_value msg of VString s \<Rightarrow> Done (Inl (ErrMsg s), t) | _ \<Rightarrow> Panic)
          else answer u cmd t)"
  by pat_completeness auto
termination
  by (relation "measure (\<lambda>(u, cmd, t). length (tn_frames t))") (auto dest!: sym [of "Done _"] nextMsg_shorter)

declare answer.simps [simp del]

definition getCmd :: "unicode \<Rightarrow> string \<Rightarrow> TNC \<Rightarrow> ((tnc_err + cvalue) \<times> TNC) outcome" where
  "getCmd u cmd t = (if tn_closed t then Done (Inl ErrTNCClosed, t) else answer u cmd (send cmd t))"

definition setCmd :: "unicode \<Rightarrow> string \<Rightarrow> string option \<Rightarrow> TNC \<Rightarrow> (tnc_err option \<times> TNC) outcome" where
  "setCmd u cmd param t =
     (if tn_closed t then Done (Some ErrTNCClosed, t)
      else andThen (answer u cmd (send (case param of None \<Rightarrow> cmd | Some p \<Rightarrow> cmd @ '' '' @ p) t)) (\<lambda>(r, t).
        Done (case r of Inl e \<Rightarrow> Some e | Inr v \<Rightarrow> None, t)))"

text \<open>\<open>getString\<close> and \<open>getBool\<close> drop the error; \<open>getInt\<close> returns it. A value of another type panics.\<close>

definition getString :: "unicode \<Rightarrow> string \<Rightarrow> TNC \<Rightarrow> (string \<times> TNC) outcome" where
  "getString u cmd t = andThen (getCmd u cmd t) (\<lambda>(r, t). case r of Inl e \<Rightarrow> Done ([], t) | Inr v \<Rightarrow> (case v of VString s \<Rightarrow> Done (s, t) | _ \<Rightarrow> Panic))"

definition getBool :: "unicode \<Rightarrow> string \<Rightarrow> TNC \<Rightarrow> (bool \<times> TNC) outcome" where
  "getBool u cmd t = andThen (getCmd u cmd t) (\<lambda>(r, t). case r of Inl e \<Rightarrow> Done (False, t) | Inr v \<Rightarrow> (case v of VBool b \<Rightarrow> Done (b, t) | _ \<Rightarrow> Panic))"

definition getInt :: "unicode \<Rightarrow> string \<Rightarrow> TNC \<Rightarrow> ((tnc_err + int) \<times> TNC) outcome" where
  "getInt u cmd t = andThen (getCmd u cmd t) (\<lambda>(r, t). case r of Inl e \<Rightarrow> Done (Inl e, t) | Inr v \<Rightarrow> (case v of VInt i \<Rightarrow> Done (Inr i, t) | _ \<Rightarrow> Panic))"

definition getState :: "unicode \<Rightarrow> TNC \<Rightarrow> (State \<times> TNC) outcome" where
  "getState u t = andThen (getCmd u ''STATE'' t) (\<lambda>(r, t). case r of Inl e \<Rightarrow> Done (Offline, t) | Inr v \<Rightarrow> (case v of VState s \<Rightarrow> Done (s, t) | _ \<Rightarrow> Panic))"

definition printBool :: "bool \<Rightarrow> string" where
  "printBool b = (if b then ''true'' else ''false'')"

definition ardop_Version :: "unicode \<Rightarrow> TNC \<Rightarrow> (string \<times> TNC) outcome" where "ardop_Version u t = getString u ''VERSION'' t"
definition GridSquare :: "unicode \<Rightarrow> TNC \<Rightarrow> (string \<times> TNC) outcome" where "GridSquare u t = getString u ''GRIDSQUARE'' t"
definition MyCall :: "unicode \<Rightarrow> TNC \<Rightarrow> (string \<times> TNC) outcome" where "MyCall u t = getString u ''MYCALL'' t"
definition AutoBreak :: "unicode \<Rightarrow> TNC \<Rightarrow> (bool \<times> TNC) outcome" where "AutoBreak u t = getBool u ''AUTOBREAK'' t"
definition SetAutoBreak :: "unicode \<Rightarrow> bool \<Rightarrow> TNC \<Rightarrow> (tnc_err option \<times> TNC) outcome" where "SetAutoBreak u on t = setCmd u ''AUTOBREAK'' (Some (printBool on)) t"
definition SetARQBandwidth :: "unicode \<Rightarrow> Bandwidth \<Rightarrow> TNC \<Rightarrow> (tnc_err option \<times> TNC) outcome" where "SetARQBandwidth u bw t = setCmd u ''ARQBW'' (Some (Bandwidth_String bw)) t"
definition SetARQTimeout :: "unicode \<Rightarrow> int \<Rightarrow> TNC \<Rightarrow> (tnc_err option \<times> TNC) outcome" where "SetARQTimeout u seconds t = setCmd u ''ARQTIMEOUT'' (Some (printInt seconds)) t"
definition SetGridSquare :: "unicode \<Rightarrow> string \<Rightarrow> TNC \<Rightarrow> (tnc_err option \<times> TNC) outcome" where "SetGridSquare u gs t = setCmd u ''GRIDSQUARE'' (Some gs) t"
definition SetMycall :: "unicode \<Rightarrow> string \<Rightarrow> TNC \<Rightarrow> (tnc_err option \<times> TNC) outcome" where "SetMycall u mycall t = setCmd u ''MYCALL'' (Some mycall) t"
definition SetCWID :: "unicode \<Rightarrow> bool \<Rightarrow> TNC \<Rightarrow> (tnc_err option \<times> TNC) outcome" where "SetCWID u on t = setCmd u ''CWID'' (Some (printBool on)) t"
definition CWID :: "unicode \<Rightarrow> TNC \<Rightarrow> (bool \<times> TNC) outcome" where "CWID u t = getBool u ''CWID'' t"
definition SendID :: "unicode \<Rightarrow> TNC \<Rightarrow> (tnc_err option \<times> TNC) outcome" where "SendID u t = setCmd u ''SENDID'' None t"
definition SetAuxiliaryCalls :: "unicode \<Rightarrow> string list \<Rightarrow> TNC \<Rightarrow> (tnc_err option \<times> TNC) outcome" where "SetAuxiliaryCalls u calls t = setCmd u ''MYAUX'' (Some (joinWith '', '' calls)) t"
definition SetCodec :: "unicode \<Rightarrow> bool \<Rightarrow> TNC \<Rightarrow> (tnc_err option \<times> TNC) outcome" where "SetCodec u on t = setCmd u ''CODEC'' (Some (printBool on)) t"
definition SetListenEnabled :: "unicode \<Rightarrow> bool \<Rightarrow> TNC \<Rightarrow> (tnc_err option \<times> TNC) outcome" where "SetListenEnabled u on t = setCmd u ''LISTEN'' (Some (printBool on)) t"
definition setFSKOnly :: "unicode \<Rightarrow> bool \<Rightarrow> TNC \<Rightarrow> (tnc_err option \<times> TNC) outcome" where "setFSKOnly u on t = setCmd u ''FSKONLY'' (Some (printBool on)) t"
definition Abort :: "unicode \<Rightarrow> TNC \<Rightarrow> (tnc_err option \<times> TNC) outcome" where "Abort u t = setCmd u ''ABORT'' None t"

definition ARQTimeout :: "unicode \<Rightarrow> TNC \<Rightarrow> ((tnc_err + int) \<times> TNC) outcome" where
  "ARQTimeout u t = getInt u ''ARQTIMEOUT'' t"

definition ARQBandwidth :: "unicode \<Rightarrow> TNC \<Rightarrow> ((tnc_err + Bandwidth) \<times> TNC) outcome" where
  "ARQBandwidth u t =
     andThen (getString u ''ARQBW'' t) (\<lambda>(str, t). case BandwidthFromString str of
       None \<Rightarrow> Done (Inl (ErrMsg ''invalid ARQBW response: Unsupported ARQ bandwidth''), t)
     | Some bw \<Rightarrow> Done (Inr bw, t))"

definition Ping :: "unicode \<Rightarrow> TNC \<Rightarrow> (tnc_err option \<times> TNC) outcome" where
  "Ping u t = (if tn_closed t then Done (Some ErrTNCClosed, t) else andThen (getString u ''VERSION'' t) (\<lambda>(s, t). Done (None, t)))"

section \<open>Opening and closing\<close>

fun errText :: "tnc_err \<Rightarrow> string" where
  "errText ErrEOF = ''EOF''"
| "errText ErrTNCClosed = ''TNC closed''"
| "errText ErrBusy = ''TNC control port is busy.''"
| "errText ErrConnectInProgress = ''A connect is in progress.''"
| "errText ErrConnectTimeout = ''Connect timeout''"
| "errText ErrActiveListenerExists = ''An active listener is already registered with this TNC.''"
| "errText ErrDisconnectTimeout = ''Disconnect timeout: aborted connection.''"
| "errText ErrUnsupportedBandwidth = ''Unsupported ARQ bandwidth''"
| "errText ErrUnsupportedScheme = ''unsupported scheme''"
| "errText (ErrMsg s) = s"

text \<open>A step of a sequence of commands: an error ends the sequence, with a text in front of it.\<close>

definition orFail :: "(tnc_err option \<times> TNC) outcome \<Rightarrow> string \<Rightarrow> (TNC \<Rightarrow> (tnc_err option \<times> TNC) outcome) \<Rightarrow> (tnc_err option \<times> TNC) outcome" where
  "orFail x what k = andThen x (\<lambda>(e, t). case e of Some e \<Rightarrow> Done (Some (ErrMsg (what @ '': '' @ errText e)), t) | None \<Rightarrow> k t)"

text \<open>\<open>fskOnly\<close> is the environment variable \<^verbatim>\<open>ARDOP_FSKONLY_EXPERIMENT\<close>.\<close>

definition init :: "bool \<Rightarrow> unicode \<Rightarrow> TNC \<Rightarrow> (tnc_err option \<times> TNC) outcome" where
  "init fskOnly u t =
     andThen (setCmd u ''INITIALIZE'' None t) (\<lambda>(e, t). case e of Some e \<Rightarrow> Done (Some e, t) | None \<Rightarrow>
     andThen (getState u t) (\<lambda>(st, t).
       let t = t\<lparr>tn_state := st\<rparr> in
       orFail (if st = Offline then SetCodec u True t else Done (None, t)) ''Enable codec failed'' (\<lambda>t.
       orFail (setCmd u ''PROTOCOLMODE'' (Some ''ARQ'') t) ''Set protocol mode ARQ failed'' (\<lambda>t.
       orFail (SetARQTimeout u 90 t) ''Set ARQ timeout failed'' (\<lambda>t.
       orFail (SetListenEnabled u False t) ''Disable listen failed'' (\<lambda>t.
       if fskOnly then orFail (setFSKOnly u True t) ''Set FSK only failed'' (\<lambda>t. Done (None, t)) else Done (None, t)))))))"

definition open_TNC :: "bool \<Rightarrow> unicode \<Rightarrow> string \<Rightarrow> string \<Rightarrow> TNC \<Rightarrow> (tnc_err option \<times> TNC) outcome" where
  "open_TNC fskOnly u mycall gridSquare t =
     andThen (init fskOnly u t) (\<lambda>(e, t).
       if e = Some ErrEOF then Done (Some ErrBusy, t)
       else orFail (Done (e, t)) ''Failed to initialize TNC'' (\<lambda>t.
            orFail (SetMycall u mycall t) ''Set my call failed'' (\<lambda>t.
            orFail (SetGridSquare u gridSquare t) ''Set grid square failed'' (\<lambda>t. Done (None, t)))))"

definition TNC_Idle :: "TNC \<Rightarrow> bool" where
  "TNC_Idle t \<longleftrightarrow> tn_state t = Disconnected \<or> tn_state t = Offline"

text \<open>\<open>BeaconEvery\<close>: one tick of the timer of the beacon.\<close>

definition beaconTick :: "unicode \<Rightarrow> TNC \<Rightarrow> TNC outcome" where
  "beaconTick u t = (if TNC_Idle t then andThen (SendID u t) (\<lambda>(e, t). Done t) else Done t)"

function awaitDisconnected :: "unicode \<Rightarrow> TNC \<Rightarrow> (tnc_err option \<times> TNC) outcome" where
  "awaitDisconnected u t =
     (case nextMsg u t of
        Panic \<Rightarrow> Panic
      | Blocked \<Rightarrow> Blocked
      | Done (None, t) \<Rightarrow> Done (Some ErrTNCClosed, t)
      | Done (Some msg, t) \<Rightarrow> if cm_cmd msg = ''DISCONNECTED'' \<or> TNC_Idle t then Done (None, t) else awaitDisconnected u t)"
  by pat_completeness auto
termination
  by (relation "measure (\<lambda>(u, t). length (tn_frames t))") (auto dest!: sym [of "Done _"] nextMsg_shorter)

declare awaitDisconnected.simps [simp del]

definition TNC_Disconnect :: "unicode \<Rightarrow> TNC \<Rightarrow> (tnc_err option \<times> TNC) outcome" where
  "TNC_Disconnect u t = (if TNC_Idle t then Done (None, t) else awaitDisconnected u (send ''DISCONNECT'' (eof t)))"

definition TNC_Close :: "unicode \<Rightarrow> TNC \<Rightarrow> (tnc_err option \<times> TNC) outcome" where
  "TNC_Close u t =
     (if tn_closed t then Done (None, t)
      else andThen (SetListenEnabled u False t) (\<lambda>(e, t). case e of Some e \<Rightarrow> Done (Some e, t) | None \<Rightarrow>
           andThen (TNC_Disconnect u t) (\<lambda>(e, t). case e of Some e \<Rightarrow> Done (Some e, t) | None \<Rightarrow> Done (None, close_TNC t))))"

section \<open>Dialing and listening\<close>

function awaitConnected :: "unicode \<Rightarrow> TNC \<Rightarrow> (tnc_err option \<times> TNC) outcome" where
  "awaitConnected u t =
     (case nextMsg u t of
        Panic \<Rightarrow> Panic
      | Blocked \<Rightarrow> Blocked
      | Done (None, t) \<Rightarrow> Done (Some ErrTNCClosed, t)
      | Done (Some msg, t) \<Rightarrow>
          if cm_cmd msg = ''FAULT'' then (case cm_value msg of VString s \<Rightarrow> Done (Some (ErrMsg (Sprintf0 s)), t) | _ \<Rightarrow> Panic)
          else if cm_cmd msg = ''NEWSTATE'' \<and> tn_state t = Disconnected then Done (Some ErrConnectTimeout, t)
          else if cm_cmd msg = ''CONNECTED'' then Done (None, t\<lparr>tn_connected := True\<rparr>)
          else awaitConnected u t)"
  by pat_completeness auto
termination
  by (relation "measure (\<lambda>(u, t). length (tn_frames t))") (auto dest!: sym [of "Done _"] nextMsg_shorter)

declare awaitConnected.simps [simp del]

definition arqCall :: "unicode \<Rightarrow> string \<Rightarrow> int \<Rightarrow> TNC \<Rightarrow> (tnc_err option \<times> TNC) outcome" where
  "arqCall u targetcall repeat t =
     (if \<not> TNC_Idle t then Done (Some ErrConnectInProgress, t)
      else awaitConnected u (send (''ARQCALL '' @ targetcall @ '' '' @ printInt repeat) t))"

text \<open>The functions that restore the bandwidth, whose errors are ignored.\<close>

fun restore :: "unicode \<Rightarrow> Bandwidth list \<Rightarrow> TNC \<Rightarrow> TNC outcome" where
  "restore u [] t = Done t"
| "restore u (bw # bws) t = andThen (SetARQBandwidth u bw t) (\<lambda>(e, t). restore u bws t)"

definition changeBandwidth :: "unicode \<Rightarrow> Bandwidth \<Rightarrow> TNC \<Rightarrow> ((tnc_err + Bandwidth list) \<times> TNC) outcome" where
  "changeBandwidth u bw t =
     (if Bandwidth_IsZero bw then Done (Inr [], t)
      else andThen (ARQBandwidth u t) (\<lambda>(r, t). case r of Inl e \<Rightarrow> Done (Inl e, t) | Inr currentBw \<Rightarrow>
           andThen (SetARQBandwidth u bw t) (\<lambda>(e, t). case e of Some e \<Rightarrow> Done (Inl e, t) | None \<Rightarrow> Done (Inr [currentBw], t))))"

definition DialBandwidth :: "unicode \<Rightarrow> string \<Rightarrow> Bandwidth \<Rightarrow> TNC \<Rightarrow> (tnc_err option \<times> TNC) outcome" where
  "DialBandwidth u targetcall bw t =
     (if tn_closed t then Done (Some ErrTNCClosed, t)
      else andThen (changeBandwidth u bw t) (\<lambda>(r, t). case r of
        Inl e \<Rightarrow> Done (Some e, t)
      | Inr defers \<Rightarrow>
          andThen (arqCall u targetcall 10 t) (\<lambda>(e, t). case e of
            Some e \<Rightarrow> andThen (restore u defers t) (\<lambda>t. Done (Some e, t))
          | None \<Rightarrow>
              andThen (MyCall u t) (\<lambda>(mycall, t).
                Done (None, t\<lparr>tn_conn := newArqConn (tn_isTCP t) defers targetcall mycall, tn_live := True\<rparr>)))))"

definition TNC_Dial :: "unicode \<Rightarrow> string \<Rightarrow> TNC \<Rightarrow> (tnc_err option \<times> TNC) outcome" where
  "TNC_Dial u targetcall t = DialBandwidth u targetcall \<lparr>Forced = False, Max = 0\<rparr> t"

text \<open>The parts of the URL that are used: scheme, target and the parameter \<open>bw\<close>, empty if there is none.\<close>

definition DialURL :: "unicode \<Rightarrow> string \<Rightarrow> string \<Rightarrow> string \<Rightarrow> TNC \<Rightarrow> (tnc_err option \<times> TNC) outcome" where
  "DialURL u scheme target bwStr t =
     (if scheme \<noteq> ''ardop'' then Done (Some ErrUnsupportedScheme, t)
      else if bwStr = [] then TNC_Dial u target t
      else case BandwidthFromString bwStr of
             None \<Rightarrow> Done (Some ErrUnsupportedBandwidth, t)
           | Some bw \<Rightarrow> DialBandwidth u target bw t)"

text \<open>\<open>Listen\<close> up to the start of its goroutine; the address of the listener is its result.\<close>

definition TNC_Listen :: "unicode \<Rightarrow> TNC \<Rightarrow> ((tnc_err + string) \<times> TNC) outcome" where
  "TNC_Listen u t =
     (if tn_closed t then Done (Inl ErrTNCClosed, t)
      else if tn_listenerActive t then Done (Inl ErrActiveListenerExists, t)
      else andThen (MyCall u (t\<lparr>tn_listenerActive := True\<rparr>)) (\<lambda>(mycall, t).
           andThen (SetListenEnabled u True t) (\<lambda>(e, t). case e of
             Some e \<Rightarrow> Done (Inl (ErrMsg (''TNC failed to enable listening: '' @ errText e)), t)
           | None \<Rightarrow> Done (Inr mycall, t))))"

text \<open>The goroutine of the listener on one message: the call sign that is being called, and whether a connection is handed to \<open>Accept\<close>.\<close>

definition listenMsg :: "ctrlMsg \<Rightarrow> string \<Rightarrow> TNC \<Rightarrow> (bool \<times> string \<times> TNC) option" where
  "listenMsg msg targetcall t =
     (if cm_cmd msg \<in> {''CANCELPENDING'', ''DISCONNECTED''} then Some (False, [], t)
      else if cm_cmd msg = ''TARGET'' then (case cm_value msg of VString s \<Rightarrow> Some (False, s, t) | _ \<Rightarrow> None)
      else if cm_cmd msg = ''CONNECTED'' then
        if targetcall = [] then Some (False, targetcall, t)
        else (case cm_value msg of
                VList (remotecall # _) \<Rightarrow>
                  Some (True, [], t\<lparr>tn_conn := newArqConn (tn_isTCP t) [] remotecall targetcall, tn_live := True, tn_connected := True\<rparr>)
              | _ \<Rightarrow> None)
      else Some (False, targetcall, t))"

section \<open>Connections\<close>

text \<open>\<open>Read\<close>. While nothing is buffered the control loop goes on; if the loop has ended before the connection was made, nothing ever closes the
  channel.\<close>

function arq_Read :: "unicode \<Rightarrow> nat \<Rightarrow> TNC \<Rightarrow> ((tnc_err + string) \<times> TNC) outcome" where
  "arq_Read u n t =
     (if n = 0 then Done (Inr [], t)
      else case (if tn_live t then tn_dataIn t else ac_in (tn_conn t)) of
        d # ds \<Rightarrow>
          if n < length d then Panic
          else Done (Inr d, if tn_live t then t\<lparr>tn_dataIn := ds\<rparr> else t\<lparr>tn_conn := (tn_conn t)\<lparr>ac_in := ds\<rparr>\<rparr>)
      | [] \<Rightarrow>
          if \<not> tn_live t then Done (Inl ErrEOF, t)
          else if tn_closed t then Blocked
          else (case tn_frames t of
                  [] \<Rightarrow> Blocked
                | f # fs \<Rightarrow> (case handleFrame u f (t\<lparr>tn_frames := fs\<rparr>) of None \<Rightarrow> Panic | Some (m, t) \<Rightarrow> arq_Read u n t)))"
  by pat_completeness auto
termination
  by (relation "measure (\<lambda>(u, n, t). length (tn_frames t))") (auto dest: handleFrame_frames)

declare arq_Read.simps [simp del]

text \<open>What is sent for a piece of data.\<close>

definition arqBytes :: "bool \<Rightarrow> string \<Rightarrow> string" where
  "arqBytes isTCP p =
     (let body = be16 (of_nat (length p)) @ p in
      (if isTCP then [] else ''D:'') @ body @ (if isTCP then [] else be16 (crc16Sum (to_bytes body))))"

datatype writeEnd = Reported | Fault | Hangup

text \<open>Waits for the TNC to report its buffer or a fault.\<close>

function awaitReport :: "unicode \<Rightarrow> TNC \<Rightarrow> (writeEnd \<times> TNC) outcome" where
  "awaitReport u t =
     (if ac_eof (tn_conn t) then Done (Hangup, t)
      else case nextMsg u t of
        Panic \<Rightarrow> Panic
      | Blocked \<Rightarrow> Blocked
      | Done (None, t) \<Rightarrow> Done (Hangup, t)
      | Done (Some msg, t) \<Rightarrow>
          if cm_cmd msg = ''BUFFER'' then Done (Reported, t)
          else if cm_cmd msg = ''CRCFAULT'' then Done (Fault, t)
          else awaitReport u t)"
  by pat_completeness auto
termination
  by (relation "measure (\<lambda>(u, t). length (tn_frames t))") (auto dest!: sym [of "Done _"] nextMsg_shorter)

declare awaitReport.simps [simp del]

text \<open>The loop of \<open>Write\<close> with \<open>k\<close> attempts left.\<close>

fun attempts :: "unicode \<Rightarrow> nat \<Rightarrow> string \<Rightarrow> nat \<Rightarrow> TNC \<Rightarrow> ((nat \<times> tnc_err option) \<times> TNC) outcome" where
  "attempts u 0 buf n t = Done ((0, Some (ErrMsg ''CRC failure'')), t)"
| "attempts u (Suc k) buf n t =
     (let t = t\<lparr>tn_sentData := tn_sentData t @ [buf], tn_conn := (tn_conn t)\<lparr>ac_nWritten := ac_nWritten (tn_conn t) + int n\<rparr>\<rparr> in
      andThen (awaitReport u t) (\<lambda>(r, t). case r of
        Reported \<Rightarrow> Done ((n, None), t\<lparr>tn_conn := (tn_conn t)\<lparr>ac_flushLock := lock_Lock (ac_flushLock (tn_conn t))\<rparr>\<rparr>)
      | Fault \<Rightarrow> attempts u k buf n t
      | Hangup \<Rightarrow> Done ((n, Some ErrEOF), t)))"

definition arq_Write :: "unicode \<Rightarrow> string \<Rightarrow> TNC \<Rightarrow> ((nat \<times> tnc_err option) \<times> TNC) outcome" where
  "arq_Write u p t =
     (let p = (if 65535 < length p then take 65535 p else p) in attempts u 3 (arqBytes (ac_isTCP (tn_conn t)) p) (length p) t)"

text \<open>\<open>Flush\<close>. Where both channels of the select are ready, the lock is looked at first.\<close>

function arq_Flush :: "unicode \<Rightarrow> TNC \<Rightarrow> (tnc_err option \<times> TNC) outcome" where
  "arq_Flush u t =
     (if WaitChan (ac_flushLock (tn_conn t)) then Done (None, t)
      else if ac_eof (tn_conn t) then Done (Some ErrEOF, t)
      else case nextMsg u t of
        Panic \<Rightarrow> Panic
      | Blocked \<Rightarrow> Blocked
      | Done (None, t) \<Rightarrow> Done (if WaitChan (ac_flushLock (tn_conn t)) then None else Some ErrEOF, t)
      | Done (Some msg, t) \<Rightarrow> arq_Flush u t)"
  by pat_completeness auto
termination
  by (relation "measure (\<lambda>(u, t). length (tn_frames t))") (auto dest!: sym [of "Done _"] nextMsg_shorter)

declare arq_Flush.simps [simp del]

text \<open>\<open>Close\<close>. Its two timeouts expire when no message is left; the data that is left is handled before.\<close>

definition drainFrames :: "TNC \<Rightarrow> TNC" where
  "drainFrames t = fold (\<lambda>f t. case f of Inr (DataFrame d) \<Rightarrow> handleData d t | _ \<Rightarrow> t) (tn_frames t) (t\<lparr>tn_frames := []\<rparr>)"

function flushOrTimeout :: "unicode \<Rightarrow> TNC \<Rightarrow> TNC outcome" where
  "flushOrTimeout u t =
     (if WaitChan (ac_flushLock (tn_conn t)) then Done t
      else case nextMsg u t of
        Panic \<Rightarrow> Panic
      | Blocked \<Rightarrow> Done (drainFrames t)
      | Done (None, t) \<Rightarrow> Done t
      | Done (Some msg, t) \<Rightarrow> flushOrTimeout u t)"
  by pat_completeness auto
termination
  by (relation "measure (\<lambda>(u, t). length (tn_frames t))") (auto dest!: sym [of "Done _"] nextMsg_shorter)

function awaitDisc :: "unicode \<Rightarrow> TNC \<Rightarrow> (tnc_err option \<times> TNC) outcome" where
  "awaitDisc u t =
     (case nextMsg u t of
        Panic \<Rightarrow> Panic
      | Blocked \<Rightarrow> Done (Some ErrDisconnectTimeout, send ''ABORT'' (drainFrames t))
      | Done (None, t) \<Rightarrow> Done (Some (ErrMsg ''TNC hung up while waiting for requested disconnect''), t)
      | Done (Some msg, t) \<Rightarrow>
          if cm_cmd msg = ''DISCONNECTED'' \<or> (cm_cmd msg = ''NEWSTATE'' \<and> cm_value msg = VState Disconnected) then Done (None, t)
          else awaitDisc u t)"
  by pat_completeness auto
termination
  by (relation "measure (\<lambda>(u, t). length (tn_frames t))") (auto dest!: sym [of "Done _"] nextMsg_shorter)

declare flushOrTimeout.simps [simp del] awaitDisc.simps [simp del]

definition arq_Close :: "unicode \<Rightarrow> TNC \<Rightarrow> (tnc_err option \<times> TNC) outcome" where
  "arq_Close u t =
     andThen (flushOrTimeout u t) (\<lambda>t.
     andThen (awaitDisc u (send ''DISCONNECT'' t)) (\<lambda>(e, t).
     andThen (restore u (ac_onClose (tn_conn t)) t) (\<lambda>t. Done (e, t))))"

definition TxBufferLen :: "TNC \<Rightarrow> int" where
  "TxBufferLen t = ac_buffer (tn_conn t)"

section \<open>What the control loop keeps\<close>

text \<open>A frame that reports an empty buffer.\<close>

fun zeroReport :: "unicode \<Rightarrow> read_err + aframe \<Rightarrow> bool" where
  "zeroReport u (Inr (CmdFrame line)) = (parseCtrlMsg u line = Some \<lparr>cm_cmd = ''BUFFER'', cm_value = VInt 0\<rparr>)"
| "zeroReport u f = False"

lemma eof_keeps [simp]: "ac_flushLock (tn_conn (eof t)) = ac_flushLock (tn_conn t)" "tn_sentData (eof t) = tn_sentData t" "tn_sent (eof t) = tn_sent t"
  by (simp_all add: eof_def)

lemma close_TNC_keeps [simp]: "ac_flushLock (tn_conn (close_TNC t)) = ac_flushLock (tn_conn t)" "tn_sentData (close_TNC t) = tn_sentData t"
    "tn_frames (close_TNC t) = tn_frames t"
  by (simp_all add: close_TNC_def eof_def)

lemma handleData_keeps [simp]: "tn_conn (handleData d t) = tn_conn t" "tn_sentData (handleData d t) = tn_sentData t"
  by (auto simp: handleData_def split: sum.splits prod.splits)

lemma handleMsg_keeps: "handleMsg msg t = Some t' \<Longrightarrow> tn_sentData t' = tn_sentData t"
  by (auto simp: handleMsg_def Let_def split: if_splits cvalue.splits)

lemma handleMsg_lock:
  "handleMsg msg t = Some t' \<Longrightarrow> ac_flushLock (tn_conn t) \<Longrightarrow> \<not> ac_flushLock (tn_conn t') \<Longrightarrow> msg = \<lparr>cm_cmd = ''BUFFER'', cm_value = VInt 0\<rparr>"
  by (cases msg) (auto simp: handleMsg_def updateBuffer_def Let_def split: if_splits cvalue.splits)

lemma nextMsg_keeps:
  "nextMsg u t = Done (r, t') \<Longrightarrow> tn_sentData t' = tn_sentData t \<and>
     (\<exists>fs. tn_frames t = fs @ tn_frames t' \<and> (ac_flushLock (tn_conn t) \<and> \<not> ac_flushLock (tn_conn t') \<longrightarrow> list_ex (zeroReport u) fs))"
proof (induction rule: nextMsg_trace)
  case (message t f fs msg t')
  then obtain line where l: "f = Inr (CmdFrame line)" "parseCtrlMsg u line = Some msg" "handleMsg msg (t\<lparr>tn_frames := fs\<rparr>) = Some t'"
    by (auto simp: handleFrame_def split: sum.splits aframe.splits option.splits)
  show ?case using message l handleMsg_keeps [OF l(3)] handleMsg_frames [OF l(3)] handleMsg_lock [OF l(3)]
    by (intro conjI exI [of _ "[f]"]) auto
next
  case (silent t f fs t1 r t')
  then obtain gs where gs: "tn_sentData t' = tn_sentData t1" "tn_frames t1 = gs @ tn_frames t'"
      "ac_flushLock (tn_conn t1) \<and> \<not> ac_flushLock (tn_conn t') \<longrightarrow> list_ex (zeroReport u) gs" by blast
  have "tn_sentData t1 = tn_sentData t" "ac_flushLock (tn_conn t1) = ac_flushLock (tn_conn t)"
    using silent(3) by (auto simp: handleFrame_def split: sum.splits aframe.splits option.splits if_splits)
  then show ?case using gs silent(2) handleFrame_frames [OF silent(3)] by (intro conjI exI [of _ "f # gs"]) auto
qed simp

lemma Flush_zero:
  "arq_Flush u t = Done (None, t') \<Longrightarrow> ac_flushLock (tn_conn t) \<Longrightarrow> \<exists>fs. tn_frames t = fs @ tn_frames t' \<and> list_ex (zeroReport u) fs"
proof (induction u t rule: arq_Flush.induct)
  case (1 u t)
  have l: "\<not> WaitChan (ac_flushLock (tn_conn t))" using "1.prems"(2) by (simp add: WaitChan_def)
  have e: "\<not> ac_eof (tn_conn t)" using "1.prems" l by (subst (asm) arq_Flush.simps) (auto split: if_splits)
  obtain r t1 where n: "nextMsg u t = Done (r, t1)"
    using "1.prems"(1) l e by (subst (asm) arq_Flush.simps) (auto split: outcome.splits prod.splits)
  obtain fs where fs: "tn_frames t = fs @ tn_frames t1" "ac_flushLock (tn_conn t) \<and> \<not> ac_flushLock (tn_conn t1) \<longrightarrow> list_ex (zeroReport u) fs"
    using nextMsg_keeps [OF n] by blast
  show ?case
  proof (cases r)
    case None
    then have "t' = t1" "\<not> ac_flushLock (tn_conn t1)"
      using "1.prems"(1) l e n by (auto simp: arq_Flush.simps [of u t] WaitChan_def split: if_splits)
    then show ?thesis using fs "1.prems"(2) by auto
  next
    case (Some msg)
    then have f: "arq_Flush u t1 = Done (None, t')" using "1.prems"(1) l e n by (simp add: arq_Flush.simps [of u t])
    show ?thesis
    proof (cases "ac_flushLock (tn_conn t1)")
      case True
      then obtain gs where "tn_frames t1 = gs @ tn_frames t'" "list_ex (zeroReport u) gs"
        using "1.IH" [OF l e n refl Some f] by auto
      then show ?thesis using fs(1) by (intro exI [of _ "fs @ gs"]) simp
    next
      case False
      then have "t' = t1" using f by (simp add: arq_Flush.simps [of u t1] WaitChan_def)
      then show ?thesis using fs "1.prems"(2) False by auto
    qed
  qed
qed

lemma awaitReport_keeps: "awaitReport u t = Done (r, t') \<Longrightarrow> tn_sentData t' = tn_sentData t"
proof (induction u t rule: awaitReport.induct)
  case (1 u t)
  show ?case
  proof (cases "ac_eof (tn_conn t)")
    case True
    then show ?thesis using "1.prems" by (simp add: awaitReport.simps [of u t])
  next
    case False
    then obtain m t1 where n: "nextMsg u t = Done (m, t1)" using "1.prems" by (auto simp: awaitReport.simps [of u t] split: outcome.splits)
    then show ?thesis using nextMsg_keeps [OF n] "1.IH" [OF False n refl] "1.prems" False
      by (cases m) (auto simp: awaitReport.simps [of u t] split: if_splits)
  qed
qed

lemma attempts_ok:
  "attempts u k buf n t = Done ((m, None), t') \<Longrightarrow>
   m = n \<and> ac_flushLock (tn_conn t') \<and> (\<exists>j. 1 \<le> j \<and> j \<le> k \<and> tn_sentData t' = tn_sentData t @ replicate j buf)"
proof (induction k arbitrary: t)
  case (Suc k)
  let ?t = "t\<lparr>tn_sentData := tn_sentData t @ [buf], tn_conn := (tn_conn t)\<lparr>ac_nWritten := ac_nWritten (tn_conn t) + int n\<rparr>\<rparr>"
  obtain r t1 where a: "awaitReport u ?t = Done (r, t1)" using Suc.prems by (auto simp: Let_def)
  have s: "tn_sentData t1 = tn_sentData t @ [buf]" using awaitReport_keeps [OF a] by simp
  show ?case
  proof (cases r)
    case Reported
    then show ?thesis using Suc.prems a s by (auto simp: Let_def lock_Lock_def intro: exI [of _ 1])
  next
    case Fault
    then have "attempts u k buf n t1 = Done ((m, None), t')" using Suc.prems a by (simp add: Let_def)
    then obtain j where "m = n" "ac_flushLock (tn_conn t')" "1 \<le> j" "j \<le> k" "tn_sentData t' = tn_sentData t1 @ replicate j buf"
      using Suc.IH by blast
    then show ?thesis using s by (auto intro!: exI [of _ "Suc j"])
  next
    case Hangup
    then show ?thesis using Suc.prems a by (simp add: Let_def)
  qed
qed simp

section \<open>Properties\<close>

text \<open>C18. A write on an ARQ connection that succeeds has sent its data one to three times, once more for every checksum fault, and the data is at
  most 65535 bytes. A flush after it that succeeds has seen the TNC report an empty buffer, in a report that came after the one that
  ended the write.\<close>

theorem flush_after_write:
  assumes "arq_Write u p t = Done ((n, None), t1)" "arq_Flush u t1 = Done (None, t2)"
  shows "n = min (length p) 65535 \<and>
    (\<exists>k. 1 \<le> k \<and> k \<le> 3 \<and> tn_sentData t1 = tn_sentData t @ replicate k (arqBytes (ac_isTCP (tn_conn t)) (take 65535 p))) \<and>
    (\<exists>fs. tn_frames t1 = fs @ tn_frames t2 \<and> list_ex (zeroReport u) fs)"
proof -
  have "(if 65535 < length p then take 65535 p else p) = take 65535 p" by simp
  then have w: "attempts u 3 (arqBytes (ac_isTCP (tn_conn t)) (take 65535 p)) (length (take 65535 p)) t = Done ((n, None), t1)"
    using assms(1) by (simp only: arq_Write_def Let_def)
  then have a: "n = length (take 65535 p)" "ac_flushLock (tn_conn t1)"
      "\<exists>k. 1 \<le> k \<and> k \<le> 3 \<and> tn_sentData t1 = tn_sentData t @ replicate k (arqBytes (ac_isTCP (tn_conn t)) (take 65535 p))"
    using attempts_ok [OF w] by auto
  show ?thesis using a Flush_zero [OF assms(2) a(2)] by simp
qed

lemma parse_examples:
  "parseCtrlMsg u ''BUFFER 5'' = Some \<lparr>cm_cmd = ''BUFFER'', cm_value = VInt 5\<rparr>"
  "parseCtrlMsg u ''BUFFER 0'' = Some \<lparr>cm_cmd = ''BUFFER'', cm_value = VInt 0\<rparr>"
  "parseCtrlMsg u ''CONNECTED N0CALL 500'' = Some \<lparr>cm_cmd = ''CONNECTED'', cm_value = VList (parseList ''N0CALL 500'' (CHR '' ''))\<rparr>"
  "parseCtrlMsg u ''DISCONNECTED'' = Some \<lparr>cm_cmd = ''DISCONNECTED'', cm_value = VNil\<rparr>"
  "parseCtrlMsg u ''MYCALL LA5NTA'' = Some \<lparr>cm_cmd = ''MYCALL'', cm_value = VString ''LA5NTA''\<rparr>"
  "parseCtrlMsg u ''FAULT listen'' = Some \<lparr>cm_cmd = ''FAULT'', cm_value = VString ''listen''\<rparr>"
  using parseCtrlMsg_param [of "''BUFFER''" "''5''" u] parseCtrlMsg_param [of "''BUFFER''" "''0''" u]
    parseCtrlMsg_param [of "''CONNECTED''" "''N0CALL 500''" u] parseCtrlMsg_plain [of "''DISCONNECTED''" u]
    parseCtrlMsg_param [of "''MYCALL''" "''LA5NTA''" u] parseCtrlMsg_param [of "''FAULT''" "''listen''" u]
  by (simp_all add: cmdValue_def command_lists capital_def visible_def toLower_ascii ascii_def HasPrefix_def
      Atoi_def ParseInt_def parseUint_def digit_val_def maxUint64_def)

definition example_link :: "string list \<Rightarrow> TNC" where
  "example_link lines = (newTNC True (map (Inr \<circ> CmdFrame) lines) 0)\<lparr>tn_state := ISS, tn_live := True, tn_connected := True\<rparr>"

lemma nextMsg_line: "\<not> tn_closed t \<Longrightarrow> tn_frames t = Inr (CmdFrame line) # fs \<Longrightarrow> parseCtrlMsg u line = Some msg \<Longrightarrow>
   handleMsg msg (t\<lparr>tn_frames := fs\<rparr>) = Some t' \<Longrightarrow> nextMsg u t = Done (Some msg, t')"
  by (simp add: nextMsg.simps [of u t] handleFrame_def)

lemmas link_defs = example_link_def newTNC_def newArqConn_def

definition asciiOnly :: unicode where
  "asciiOnly = \<lparr>u_upper = id, u_lower = id\<rparr>"

theorem flush_after_write_witness:
  "\<exists>t1 t2. arq_Write asciiOnly ''Hello'' (example_link [''BUFFER 5'', ''BUFFER 0'']) = Done ((5, None), t1) \<and> arq_Flush asciiOnly t1 = Done (None, t2) \<and>
     tn_frames t2 = [] \<and> list_ex (zeroReport asciiOnly) (tn_frames t1)"
proof -
  note defs = link_defs nextMsg.simps handleFrame_def parse_examples handleMsg_def updateBuffer_def Let_def lock_Lock_def lock_Unlock_def WaitChan_def
  obtain t1 where w: "arq_Write asciiOnly ''Hello'' (example_link [''BUFFER 5'', ''BUFFER 0'']) = Done ((5, None), t1)"
      "ac_flushLock (tn_conn t1)" "\<not> ac_eof (tn_conn t1)" "tn_live t1" "\<not> tn_closed t1" "tn_frames t1 = [Inr (CmdFrame ''BUFFER 0'')]"
    by (simp add: arq_Write_def numeral_3_eq_3 awaitReport.simps defs)
  then obtain t2 where f: "arq_Flush asciiOnly t1 = Done (None, t2)" "tn_frames t2 = []"
    by (simp add: arq_Flush.simps defs)
  show ?thesis using flush_after_write [OF w(1) f(1)] w(1) f by auto
qed

lemma nextMsg_invariant:
  assumes "\<And>fs x. P x \<Longrightarrow> P (x\<lparr>tn_frames := fs\<rparr>)" "\<And>d x. P x \<Longrightarrow> P (handleData d x)"
    and "\<And>msg x y. P x \<Longrightarrow> handleMsg msg x = Some y \<Longrightarrow> P y" "\<And>x. P x \<Longrightarrow> P (close_TNC x)"
  shows "nextMsg u t = Done (r, t') \<Longrightarrow> P t \<Longrightarrow> P t'"
proof (induction rule: nextMsg_trace)
  case (message t f fs msg t')
  then obtain msg where "handleMsg msg (t\<lparr>tn_frames := fs\<rparr>) = Some t'" by (auto simp: handleFrame_def split: sum.splits aframe.splits option.splits)
  then show ?case using assms(1,3) message by blast
next
  case (silent t f fs t1 r t')
  then have "P t1" using assms by (auto simp: handleFrame_def split: sum.splits aframe.splits option.splits if_splits)
  then show ?case using silent by blast
qed

lemma nextMsg_listener: "nextMsg u t = Done (r, t') \<Longrightarrow> tn_listenerActive t' = tn_listenerActive t"
  by (erule nextMsg_invariant [of "\<lambda>x. tn_listenerActive x = tn_listenerActive t", rotated -2])
     (auto simp: handleData_def handleMsg_def close_TNC_def eof_def Let_def split: if_splits cvalue.splits sum.splits prod.splits)

lemma answer_listener: "answer u cmd t = Done (r, t') \<Longrightarrow> tn_listenerActive t' = tn_listenerActive t"
proof (induction u cmd t rule: answer.induct)
  case (1 u cmd t)
  then obtain m t1 where n: "nextMsg u t = Done (m, t1)" by (auto simp: answer.simps [of u cmd t] split: outcome.splits)
  show ?case
  proof (cases m)
    case None
    then show ?thesis using "1.prems" n nextMsg_listener [OF n] by (simp add: answer.simps [of u cmd t])
  next
    case (Some msg)
    then show ?thesis using "1.prems" "1.IH" [OF n refl Some] n nextMsg_listener [OF n]
      by (auto simp: answer.simps [of u cmd t] split: if_splits cvalue.splits)
  qed
qed

lemma getCmd_listener: "getCmd u cmd t = Done (r, t') \<Longrightarrow> tn_listenerActive t' = tn_listenerActive t"
  using answer_listener [of u cmd "send cmd t" r t'] by (auto simp: getCmd_def send_def split: if_splits)

lemma getString_listener: "getString u cmd t = Done (s, t') \<Longrightarrow> tn_listenerActive t' = tn_listenerActive t"
proof -
  assume a: "getString u cmd t = Done (s, t')"
  then obtain r t1 where g: "getCmd u cmd t = Done (r, t1)" by (auto simp: getString_def)
  then have "t' = t1" using a by (simp add: getString_def split: sum.splits cvalue.splits)
  then show ?thesis using getCmd_listener [OF g] by simp
qed

lemma setCmd_listener: "setCmd u cmd p t = Done (e, t') \<Longrightarrow> tn_listenerActive t' = tn_listenerActive t"
  using answer_listener [of u cmd "send (case p of None \<Rightarrow> cmd | Some p \<Rightarrow> cmd @ '' '' @ p) t" _ t']
  by (auto simp: setCmd_def send_def split: if_splits)

text \<open>When \<open>Listen\<close> fails after the first checks, it leaves the mark that a listener is active, so every later \<open>Listen\<close> is refused.\<close>

theorem listen_failure_sticks:
  assumes "TNC_Listen u t = Done (Inl e, t1)" "\<not> tn_closed t" "\<not> tn_listenerActive t" "\<not> tn_closed t1"
  shows "TNC_Listen u' t1 = Done (Inl ErrActiveListenerExists, t1)"
proof -
  obtain c t2 e2 where m: "MyCall u (t\<lparr>tn_listenerActive := True\<rparr>) = Done (c, t2)" "SetListenEnabled u True t2 = Done (e2, t1)"
    using assms(1-3) by (auto simp: TNC_Listen_def split: option.splits)
  then have "tn_listenerActive t2" using getString_listener [of u "''MYCALL''" _ c t2] by (simp add: MyCall_def)
  then have "tn_listenerActive t1" using setCmd_listener [of u "''LISTEN''" _ t2 e2 t1] m(2) by (simp add: SetListenEnabled_def)
  then show ?thesis using assms(4) by (simp add: TNC_Listen_def)
qed

theorem listen_failure_sticks_witness:
  "\<exists>t1. TNC_Listen asciiOnly ((example_link [''MYCALL LA5NTA'', ''FAULT listen''])) = Done (Inl (ErrMsg ''TNC failed to enable listening: listen''), t1) \<and>
     TNC_Listen asciiOnly t1 = Done (Inl ErrActiveListenerExists, t1)"
proof -
  let ?t = "example_link [''MYCALL LA5NTA'', ''FAULT listen'']"
  let ?t1 = "send ''MYCALL'' (?t\<lparr>tn_listenerActive := True\<rparr>)"
  let ?t2 = "send ''LISTEN true'' (?t1\<lparr>tn_frames := [Inr (CmdFrame ''FAULT listen'')]\<rparr>)"
  have "nextMsg asciiOnly ?t1 = Done (Some \<lparr>cm_cmd = ''MYCALL'', cm_value = VString ''LA5NTA''\<rparr>, ?t1\<lparr>tn_frames := [Inr (CmdFrame ''FAULT listen'')]\<rparr>)"
    by (rule nextMsg_line [of _ "''MYCALL LA5NTA''" "[Inr (CmdFrame ''FAULT listen'')]"]) (simp_all add: link_defs send_def parse_examples handleMsg_def)
  then have m: "MyCall asciiOnly (?t\<lparr>tn_listenerActive := True\<rparr>) = Done (''LA5NTA'', ?t1\<lparr>tn_frames := [Inr (CmdFrame ''FAULT listen'')]\<rparr>)"
    by (simp add: MyCall_def getString_def getCmd_def answer.simps link_defs)
  have "nextMsg asciiOnly ?t2 = Done (Some \<lparr>cm_cmd = ''FAULT'', cm_value = VString ''listen''\<rparr>, ?t2\<lparr>tn_frames := []\<rparr>)"
    by (rule nextMsg_line [of _ "''FAULT listen''" "[]"]) (simp_all add: link_defs send_def parse_examples handleMsg_def)
  then have "SetListenEnabled asciiOnly True (?t1\<lparr>tn_frames := [Inr (CmdFrame ''FAULT listen'')]\<rparr>) = Done (Some (ErrMsg ''listen''), ?t2\<lparr>tn_frames := []\<rparr>)"
    by (simp add: SetListenEnabled_def setCmd_def printBool_def answer.simps) (simp add: link_defs send_def)
  then have l: "TNC_Listen asciiOnly ?t = Done (Inl (ErrMsg ''TNC failed to enable listening: listen''), ?t2\<lparr>tn_frames := []\<rparr>)"
    using m by (simp add: TNC_Listen_def) (simp add: link_defs)
  show ?thesis using listen_failure_sticks [OF l] l by (simp add: link_defs send_def)
qed

section \<open>The control loop between the calls\<close>

text \<open>A message that does not end the connection, with a value of the type its command has.\<close>

definition mild :: "ctrlMsg \<Rightarrow> bool" where
  "mild msg =
     (if cm_cmd msg \<in> {''PTT'', ''BUSY''} then (case cm_value msg of VBool b \<Rightarrow> True | _ \<Rightarrow> False)
      else if cm_cmd msg = ''BUFFER'' then (case cm_value msg of VInt b \<Rightarrow> True | _ \<Rightarrow> False)
      else if cm_cmd msg = ''NEWSTATE'' then (case cm_value msg of VState st \<Rightarrow> st \<noteq> Disconnected | _ \<Rightarrow> False)
      else cm_cmd msg \<noteq> ''DISCONNECTED'')"

text \<open>What may come while the link is up.\<close>

definition passes :: "unicode \<Rightarrow> read_err + aframe \<Rightarrow> bool" where
  "passes u f =
     (case f of
        Inl e \<Rightarrow> e \<noteq> EOF \<and> \<not> isOpError e
      | Inr (DataFrame d) \<Rightarrow> True
      | Inr (CmdFrame line) \<Rightarrow> (case parseCtrlMsg u line of None \<Rightarrow> False | Some msg \<Rightarrow> mild msg))"

abbreviation disconnected :: "read_err + aframe" where
  "disconnected \<equiv> Inr (CmdFrame ''DISCONNECTED'')"

abbreviation arqFrame :: "string \<Rightarrow> read_err + aframe" where
  "arqFrame d \<equiv> Inr (DataFrame \<lparr>dataType = ''ARQ'', fr_data = d\<rparr>)"

text \<open>The data of the other station in a sequence of frames.\<close>

definition arqPart :: "read_err + aframe \<Rightarrow> string list" where
  "arqPart f = (case f of Inr (DataFrame d) \<Rightarrow> if ARQFrame d then [fr_data d] else [] | _ \<Rightarrow> [])"

definition arqData :: "(read_err + aframe) list \<Rightarrow> string list" where
  "arqData fs = concat (map arqPart fs)"

lemma arqData_simps [simp]: "arqData [] = []" "arqData (f # fs) = arqPart f @ arqData fs"
  by (simp_all add: arqData_def)

lemma handleMsg_mild:
  "mild msg \<Longrightarrow> \<exists>t'. handleMsg msg t = Some t' \<and> tn_live t' = tn_live t \<and> tn_connected t' = tn_connected t \<and> tn_closed t' = tn_closed t \<and>
     tn_dataIn t' = tn_dataIn t"
  by (auto simp: mild_def handleMsg_def Let_def split: if_splits cvalue.splits)

lemma handleFrame_passes:
  assumes "passes u f"
  obtains m t' where "handleFrame u f t = Some (m, t')" "tn_live t' = tn_live t" "tn_connected t' = tn_connected t" "tn_closed t' = tn_closed t"
    "tn_connected t \<and> (arqPart f = [] \<or> length (tn_dataIn t) < dataInSize) \<longrightarrow> tn_dataIn t' = tn_dataIn t @ arqPart f"
proof (cases f)
  case (Inl e)
  then show ?thesis using that assms by (auto simp: passes_def handleFrame_def arqPart_def)
next
  case (Inr g)
  show ?thesis
  proof (cases g)
    case (DataFrame d)
    have "tn_live (handleData d t) = tn_live t" "tn_connected (handleData d t) = tn_connected t" "tn_closed (handleData d t) = tn_closed t"
        "tn_connected t \<and> (arqPart f = [] \<or> length (tn_dataIn t) < dataInSize) \<longrightarrow> tn_dataIn (handleData d t) = tn_dataIn t @ arqPart f"
      using Inr DataFrame by (auto simp: arqPart_def handleData_def split: sum.splits prod.splits)
    then show ?thesis by (rule that [of None, rotated]) (simp_all add: handleFrame_def Inr DataFrame)
  next
    case (CmdFrame line)
    then obtain msg where m: "parseCtrlMsg u line = Some msg" "mild msg" using assms Inr by (auto simp: passes_def split: option.splits)
    then show ?thesis using that handleMsg_mild [OF m(2), of t] Inr CmdFrame by (auto simp: handleFrame_def arqPart_def)
  qed
qed

lemma handleFrame_disconnected: "handleFrame u disconnected t = Some (Some \<lparr>cm_cmd = ''DISCONNECTED'', cm_value = VNil\<rparr>, eof (t\<lparr>tn_state := Disconnected\<rparr>))"
  by (simp add: handleFrame_def parse_examples handleMsg_def)

text \<open>After the end of the connection nothing changes what is left of its data.\<close>

lemma handleFrame_ended:
  "handleFrame u f t = Some (m, t') \<Longrightarrow> \<not> tn_live t \<Longrightarrow> \<not> tn_live t' \<and> ac_in (tn_conn t') = ac_in (tn_conn t)"
  by (auto simp: handleFrame_def handleData_def handleMsg_def close_TNC_def eof_def Let_def
      split: sum.splits aframe.splits option.splits if_splits cvalue.splits prod.splits)

text \<open>A frame is handled whenever the loop is not waiting for room in the channel of the data. A reader that is given slices of length \<open>n\<close> takes
  what is in the channel, or the end if it is closed and empty. Both happen in any order; the results of the reads are collected.\<close>

definition loopWaits :: "TNC \<Rightarrow> bool" where
  "loopWaits t \<longleftrightarrow> tn_connected t \<and> dataInSize \<le> length (tn_dataIn t) \<and> (case tn_frames t of [] \<Rightarrow> False | f # fs \<Rightarrow> arqPart f \<noteq> [])"

inductive conn_step :: "unicode \<Rightarrow> nat \<Rightarrow> TNC \<times> (tnc_err + string) list \<Rightarrow> TNC \<times> (tnc_err + string) list \<Rightarrow> bool" for u n where
  loop: "\<not> tn_closed t \<Longrightarrow> \<not> loopWaits t \<Longrightarrow> tn_frames t = f # fs \<Longrightarrow> handleFrame u f (t\<lparr>tn_frames := fs\<rparr>) = Some (m, t') \<Longrightarrow>
    conn_step u n (t, rs) (t', rs)"
| reader: "\<not> tn_live t \<or> tn_dataIn t \<noteq> [] \<Longrightarrow> arq_Read u n t = Done (r, t') \<Longrightarrow> conn_step u n (t, rs) (t', rs @ [r])"

text \<open>What holds at any time, when \<open>ds\<close> is all that the other station sends.\<close>

definition delivers :: "unicode \<Rightarrow> string list \<Rightarrow> TNC \<times> (tnc_err + string) list \<Rightarrow> bool" where
  "delivers u ds = (\<lambda>(t, rs).
     if tn_live t then tn_connected t \<and> \<not> tn_closed t \<and>
       (\<exists>xs fs fs'. rs = map Inr xs \<and> tn_frames t = fs @ disconnected # fs' \<and> (\<forall>f \<in> set fs. passes u f) \<and> xs @ tn_dataIn t @ arqData fs = ds)
     else \<exists>xs k. rs = map Inr xs @ replicate k (Inl ErrEOF) \<and> xs @ ac_in (tn_conn t) = ds \<and> (k \<noteq> 0 \<longrightarrow> ac_in (tn_conn t) = []))"

definition toDo :: "TNC \<times> (tnc_err + string) list \<Rightarrow> nat" where
  "toDo = (\<lambda>(t, rs). 2 * length (tn_frames t) + length (if tn_live t then tn_dataIn t else ac_in (tn_conn t)) + (if Inl ErrEOF \<in> set rs then 0 else 1))"

lemma delivers_live:
  "tn_live t \<Longrightarrow> tn_connected t \<Longrightarrow> \<not> tn_closed t \<Longrightarrow> rs = map Inr xs \<Longrightarrow> tn_frames t = fs @ disconnected # fs' \<Longrightarrow>
   \<forall>f \<in> set fs. passes u f \<Longrightarrow> xs @ tn_dataIn t @ arqData fs = ds \<Longrightarrow> delivers u ds (t, rs)"
  unfolding delivers_def by auto

lemma loop_delivers:
  assumes "delivers u ds (t, rs)" "\<not> loopWaits t" "tn_frames t = f # fs"
  shows "handleFrame u f (t\<lparr>tn_frames := fs\<rparr>) = Some (m, t') \<Longrightarrow> delivers u ds (t', rs) \<and> toDo (t', rs) < toDo (t, rs)"
    and "tn_live t \<Longrightarrow> \<exists>m t'. handleFrame u f (t\<lparr>tn_frames := fs\<rparr>) = Some (m, t')"
proof -
  let ?t = "t\<lparr>tn_frames := fs\<rparr>"
  have "handleFrame u f ?t = Some (m, t') \<Longrightarrow> delivers u ds (t', rs) \<and> toDo (t', rs) < toDo (t, rs)"
    if "\<not> tn_live t" for m t'
  proof -
    assume h: "handleFrame u f ?t = Some (m, t')"
    have "\<not> tn_live t'" "ac_in (tn_conn t') = ac_in (tn_conn t)" using handleFrame_ended [OF h] that by simp_all
    then show ?thesis using assms(1,3) that handleFrame_frames [OF h] by (auto simp: delivers_def toDo_def)
  qed
  moreover have "\<exists>m t'. handleFrame u f ?t = Some (m, t') \<and> delivers u ds (t', rs) \<and> toDo (t', rs) < toDo (t, rs)" if l: "tn_live t"
  proof -
    obtain xs gs fs' where g: "tn_connected t" "\<not> tn_closed t" "rs = map Inr xs" "tn_frames t = gs @ disconnected # fs'" "\<forall>f \<in> set gs. passes u f"
        "xs @ tn_dataIn t @ arqData gs = ds"
      using assms(1) l unfolding delivers_def by auto
    show ?thesis
    proof (cases gs)
      case Nil
      then have "delivers u ds (eof (?t\<lparr>tn_state := Disconnected\<rparr>), rs)" "toDo (eof (?t\<lparr>tn_state := Disconnected\<rparr>), rs) < toDo (t, rs)"
        using g l assms(3) by (auto simp: delivers_def toDo_def eof_def intro!: exI [of _ xs] exI [of _ 0])
      then show ?thesis using handleFrame_disconnected [of u ?t] Nil g(4) assms(3) by auto
    next
      case (Cons f' gs')
      then have f: "passes u f" "fs = gs' @ disconnected # fs'" "f' = f" using g(4,5) assms(3) by auto
      obtain m t' where h: "handleFrame u f ?t = Some (m, t')" "tn_live t' = tn_live ?t" "tn_connected t' = tn_connected ?t" "tn_closed t' = tn_closed ?t"
          "tn_connected ?t \<and> (arqPart f = [] \<or> length (tn_dataIn ?t) < dataInSize) \<longrightarrow> tn_dataIn t' = tn_dataIn ?t @ arqPart f"
        by (rule handleFrame_passes [OF f(1), of ?t])
      have d: "tn_dataIn t' = tn_dataIn t @ arqPart f" using h(5) g(1) assms(2,3) by (auto simp: loopWaits_def)
      have fr: "tn_frames t' = gs' @ disconnected # fs'" using handleFrame_frames [OF h(1)] f(2) by simp
      have "delivers u ds (t', rs)"
        by (rule delivers_live [of _ _ xs gs' fs']) (use h(2-4) g l d fr Cons f(3) in simp_all)
      moreover have "length (arqPart f) \<le> 1" by (auto simp: arqPart_def split: sum.splits aframe.splits)
      then have "toDo (t', rs) < toDo (t, rs)" using h(2) l d fr assms(3) f(2) by (simp add: toDo_def)
      ultimately show ?thesis using h(1) by blast
    qed
  qed
  ultimately show "handleFrame u f ?t = Some (m, t') \<Longrightarrow> delivers u ds (t', rs) \<and> toDo (t', rs) < toDo (t, rs)"
    and "tn_live t \<Longrightarrow> \<exists>m t'. handleFrame u f ?t = Some (m, t')" by fastforce+
qed

lemma reader_delivers:
  assumes "delivers u ds (t, rs)" "\<not> tn_live t \<or> tn_dataIn t \<noteq> []" "\<forall>d \<in> set ds. length d \<le> n" "0 < n"
  obtains r t' where "arq_Read u n t = Done (r, t')" "delivers u ds (t', rs @ [r])" "Inl ErrEOF \<notin> set rs \<Longrightarrow> toDo (t', rs @ [r]) < toDo (t, rs)"
proof (cases "tn_live t")
  case True
  then obtain xs gs fs' where g: "tn_connected t" "\<not> tn_closed t" "rs = map Inr xs" "tn_frames t = gs @ disconnected # fs'" "\<forall>f \<in> set gs. passes u f"
      "xs @ tn_dataIn t @ arqData gs = ds"
    using assms(1) unfolding delivers_def by auto
  obtain d es where e: "tn_dataIn t = d # es" using True assms(2) by (cases "tn_dataIn t") auto
  then have "length d \<le> n" using g(6) assms(3) by auto
  then have "arq_Read u n t = Done (Inr d, t\<lparr>tn_dataIn := es\<rparr>)" using True e assms(4) by (simp add: arq_Read.simps [of u n t])
  moreover have "delivers u ds (t\<lparr>tn_dataIn := es\<rparr>, rs @ [Inr d])"
    by (rule delivers_live [of _ _ "xs @ [d]" gs fs']) (use True g e in simp_all)
  moreover have "Inl ErrEOF \<notin> set rs \<Longrightarrow> toDo (t\<lparr>tn_dataIn := es\<rparr>, rs @ [Inr d]) < toDo (t, rs)" using True e by (simp add: toDo_def)
  ultimately show ?thesis by (rule that)
next
  case False
  then obtain xs k where g: "rs = map Inr xs @ replicate k (Inl ErrEOF)" "xs @ ac_in (tn_conn t) = ds" "k \<noteq> 0 \<longrightarrow> ac_in (tn_conn t) = []"
    using assms(1) unfolding delivers_def by auto
  show ?thesis
  proof (cases "ac_in (tn_conn t)")
    case Nil
    then have "arq_Read u n t = Done (Inl ErrEOF, t)" using False assms(4) by (simp add: arq_Read.simps [of u n t])
    moreover have "delivers u ds (t, rs @ [Inl ErrEOF])"
      using False g Nil by (auto simp: delivers_def replicate_append_same intro!: exI [of _ xs] exI [of _ "Suc k"])
    moreover have "Inl ErrEOF \<notin> set rs \<Longrightarrow> toDo (t, rs @ [Inl ErrEOF]) < toDo (t, rs)" by (simp add: toDo_def)
    ultimately show ?thesis by (rule that)
  next
    case (Cons d es)
    let ?t = "t\<lparr>tn_conn := (tn_conn t)\<lparr>ac_in := es\<rparr>\<rparr>"
    have "length d \<le> n" using Cons g(2) assms(3) by auto
    then have "arq_Read u n t = Done (Inr d, ?t)" using False Cons assms(4) by (simp add: arq_Read.simps [of u n t])
    moreover have "delivers u ds (?t, rs @ [Inr d])"
      using False g Cons by (auto simp: delivers_def intro!: exI [of _ "xs @ [d]"] exI [of _ 0])
    moreover have "Inl ErrEOF \<notin> set rs \<Longrightarrow> toDo (?t, rs @ [Inr d]) < toDo (t, rs)" using False Cons by (simp add: toDo_def)
    ultimately show ?thesis by (rule that)
  qed
qed

lemma conn_step_delivers:
  assumes "conn_step u n s s'" "delivers u ds s" "\<forall>d \<in> set ds. length d \<le> n" "0 < n"
  shows "delivers u ds s' \<and> (Inl ErrEOF \<notin> set (snd s) \<longrightarrow> toDo s' < toDo s)"
  using assms(1)
proof cases
  case (loop t f fs m t' rs)
  then show ?thesis using loop_delivers(1) [of u ds t rs f fs m t'] assms(2) by simp
next
  case (reader t r t' rs)
  obtain r' t'' where "arq_Read u n t = Done (r', t'')" "delivers u ds (t'', rs @ [r'])" "Inl ErrEOF \<notin> set rs \<Longrightarrow> toDo (t'', rs @ [r']) < toDo (t, rs)"
    using reader_delivers [of u ds t rs n] reader assms(2-4) by blast
  then show ?thesis using reader by simp
qed

lemma delivers_continues:
  assumes "delivers u ds (t, rs)" "\<forall>d \<in> set ds. length d \<le> n" "0 < n"
  shows "\<exists>s. conn_step u n (t, rs) s"
proof (cases "\<not> tn_live t \<or> tn_dataIn t \<noteq> []")
  case True
  then show ?thesis using reader_delivers [OF assms(1) True assms(2,3)] conn_step.reader by metis
next
  case False
  then obtain gs fs' where g: "\<not> tn_closed t" "tn_frames t = gs @ disconnected # fs'" using assms(1) unfolding delivers_def by auto
  obtain f fs where f: "tn_frames t = f # fs" using g(2) by (cases gs) auto
  have w: "\<not> loopWaits t" using False by (simp add: loopWaits_def dataInSize_def)
  then obtain m t' where "handleFrame u f (t\<lparr>tn_frames := fs\<rparr>) = Some (m, t')" using loop_delivers(2) [OF assms(1) w f] False by blast
  then show ?thesis using conn_step.loop [OF g(1) w f] by blast
qed

text \<open>C19. However the control loop and the reader interleave, what is read from an ARQ connection is the buffered data and then the data that
  comes before the TNC reports the disconnect, complete and in order, and after that only the end of the stream. The reader and the loop never
  both wait, and the end is reached after finitely many steps. Other frames may come in between, as long as none of them ends the link, the
  channel of the data has room when the loop has waited for it, and the slices given to \<open>Read\<close> are large enough.\<close>

theorem arq_data_in_order:
  assumes "tn_live t" "tn_connected t" "\<not> tn_closed t" "tn_frames t = fs @ disconnected # fs'" "\<forall>f \<in> set fs. passes u f"
    and "\<forall>d \<in> set (tn_dataIn t @ arqData fs). length d \<le> n" "0 < n" "(conn_step u n)\<^sup>*\<^sup>* (t, []) (t', rs)"
  shows "(\<exists>k. prefix rs (map Inr (tn_dataIn t @ arqData fs) @ replicate k (Inl ErrEOF))) \<and> (\<exists>s. conn_step u n (t', rs) s) \<and>
    (Inl ErrEOF \<notin> set rs \<longrightarrow> (\<forall>s. conn_step u n (t', rs) s \<longrightarrow> toDo s < toDo (t', rs)))"
proof -
  let ?ds = "tn_dataIn t @ arqData fs"
  have "delivers u ?ds (t, [])" using assms(1-5) by (auto simp: delivers_def)
  with assms(8) have d: "delivers u ?ds (t', rs)"
    by (induction rule: rtranclp_induct) (use conn_step_delivers [OF _ _ assms(6,7)] in blast)+
  have "\<exists>k. prefix rs (map Inr ?ds @ replicate k (Inl ErrEOF))"
  proof (cases "tn_live t'")
    case True
    then obtain xs fs1 where x: "rs = map Inr xs" "xs @ tn_dataIn t' @ arqData fs1 = ?ds" using d unfolding delivers_def by auto
    have "prefix rs (map Inr (xs @ tn_dataIn t' @ arqData fs1) @ replicate 0 (Inl ErrEOF))" by (simp add: x(1))
    then show ?thesis unfolding x(2) by blast
  next
    case False
    then obtain xs k where k: "rs = map Inr xs @ replicate k (Inl ErrEOF)" "xs @ ac_in (tn_conn t') = ?ds" "k \<noteq> 0 \<longrightarrow> ac_in (tn_conn t') = []"
      using d unfolding delivers_def by auto
    have "prefix rs (map Inr (xs @ ac_in (tn_conn t')) @ replicate k (Inl ErrEOF))" using k(1,3) by (cases "k = 0") simp_all
    then show ?thesis unfolding k(2) by blast
  qed
  then show ?thesis using delivers_continues [OF d assms(6,7)] conn_step_delivers [OF _ d assms(6,7)] by auto
qed

theorem arq_data_in_order_witness:
  "\<exists>t' s. (conn_step asciiOnly 10)\<^sup>*\<^sup>* ((example_link [])\<lparr>tn_dataIn := [''FF''], tn_frames := [arqFrame ''FQ'', disconnected]\<rparr>, []) (t', [Inr ''FF'']) \<and>
     \<not> tn_live t' \<and> tn_frames t' = [] \<and> conn_step asciiOnly 10 (t', [Inr ''FF'']) s \<and> toDo s < toDo (t', [Inr ''FF''])"
proof -
  let ?t = "(example_link [])\<lparr>tn_dataIn := [''FF''], tn_frames := [arqFrame ''FQ'', disconnected]\<rparr>"
  let ?t1 = "?t\<lparr>tn_frames := [disconnected], tn_dataIn := [''FF'', ''FQ'']\<rparr>"
  let ?t2 = "eof (?t1\<lparr>tn_frames := [], tn_state := Disconnected\<rparr>)"
  let ?t3 = "?t2\<lparr>tn_conn := (tn_conn ?t2)\<lparr>ac_in := [''FQ'']\<rparr>\<rparr>"
  have "conn_step asciiOnly 10 (?t, []) (?t1, [])"
    by (rule conn_step.loop [of _ "arqFrame ''FQ''" "[disconnected]" _ None])
       (simp_all add: link_defs loopWaits_def dataInSize_def handleFrame_def handleData_def ARQFrame_def)
  moreover have "conn_step asciiOnly 10 (?t1, []) (?t2, [])"
    by (rule conn_step.loop [of _ disconnected "[]" _ "Some \<lparr>cm_cmd = ''DISCONNECTED'', cm_value = VNil\<rparr>"])
       (simp_all add: link_defs loopWaits_def dataInSize_def handleFrame_disconnected)
  moreover have "conn_step asciiOnly 10 (?t2, []) (?t3, [] @ [Inr ''FF''])"
    by (rule conn_step.reader) (simp_all add: link_defs eof_def arq_Read.simps)
  ultimately have r: "(conn_step asciiOnly 10)\<^sup>*\<^sup>* (?t, []) (?t3, [Inr ''FF''])" by (simp add: converse_rtranclp_into_rtranclp)
  have "(\<exists>s. conn_step asciiOnly 10 (?t3, [Inr ''FF'']) s) \<and> (\<forall>s. conn_step asciiOnly 10 (?t3, [Inr ''FF'']) s \<longrightarrow> toDo s < toDo (?t3, [Inr ''FF'']))"
    using arq_data_in_order [of ?t "[arqFrame ''FQ'']" "[]" asciiOnly 10 ?t3, OF _ _ _ _ _ _ _ r]
    by (simp add: link_defs passes_def arqPart_def ARQFrame_def)
  then obtain s where s: "conn_step asciiOnly 10 (?t3, [Inr ''FF'']) s" "toDo s < toDo (?t3, [Inr ''FF''])" by blast
  have "\<not> tn_live ?t3" "tn_frames ?t3 = []" by (simp_all add: eof_def link_defs)
  then show ?thesis using r s by blast
qed

section \<open>Dialing\<close>

text \<open>A frame that may come while the answer to a command is awaited, and is not the answer.\<close>

definition unrelated :: "unicode \<Rightarrow> string \<Rightarrow> read_err + aframe \<Rightarrow> bool" where
  "unrelated u cmd f =
     (case f of
        Inl e \<Rightarrow> e \<noteq> EOF \<and> \<not> isOpError e
      | Inr (DataFrame d) \<Rightarrow> True
      | Inr (CmdFrame line) \<Rightarrow>
          (case parseCtrlMsg u line of
             None \<Rightarrow> False
           | Some msg \<Rightarrow> (mild msg \<or> cm_cmd msg = ''DISCONNECTED'') \<and> cm_cmd msg \<notin> {cmd, ''FAULT''}))"

lemma handleFrame_unrelated:
  assumes "unrelated u cmd f" "\<not> tn_live t"
  obtains m t' where "handleFrame u f t = Some (m, t')" "\<not> tn_live t'" "tn_connected t' = tn_connected t" "tn_closed t' = tn_closed t"
    "\<And>msg. m = Some msg \<Longrightarrow> cm_cmd msg \<notin> {cmd, ''FAULT''}"
proof (cases "passes u f")
  case True
  then obtain m t' where h: "handleFrame u f t = Some (m, t')" "tn_live t' = tn_live t" "tn_connected t' = tn_connected t" "tn_closed t' = tn_closed t"
    by (rule handleFrame_passes [of u f t])
  moreover have "cm_cmd msg \<notin> {cmd, ''FAULT''}" if "m = Some msg" for msg
    using h(1) that assms(1) by (auto simp: handleFrame_def unrelated_def split: sum.splits aframe.splits option.splits)
  ultimately show ?thesis using that assms(2) by blast
next
  case False
  then obtain line msg where l: "f = Inr (CmdFrame line)" "parseCtrlMsg u line = Some msg" "cm_cmd msg = ''DISCONNECTED''" "cm_cmd msg \<notin> {cmd, ''FAULT''}"
    using assms(1) by (auto simp: unrelated_def passes_def split: sum.splits aframe.splits option.splits)
  then have "handleFrame u f t = Some (Some msg, t\<lparr>tn_state := Disconnected\<rparr>)" using assms(2) by (simp add: handleFrame_def handleMsg_def eof_def)
  then show ?thesis using that l(4) assms(2) by simp
qed

lemma answer_unrelated:
  assumes "unrelated u cmd f" "\<not> tn_live t" "\<not> tn_closed t" "tn_frames t = f # fs"
  obtains t' where "answer u cmd t = answer u cmd t'" "\<not> tn_live t'" "\<not> tn_closed t'" "tn_connected t' = tn_connected t" "tn_frames t' = fs"
proof -
  obtain m t' where h: "handleFrame u f (t\<lparr>tn_frames := fs\<rparr>) = Some (m, t')" "\<not> tn_live t'" "tn_connected t' = tn_connected t" "tn_closed t' = tn_closed t"
      "\<And>msg. m = Some msg \<Longrightarrow> cm_cmd msg \<notin> {cmd, ''FAULT''}"
    using handleFrame_unrelated [OF assms(1), of "t\<lparr>tn_frames := fs\<rparr>"] assms(2) by auto
  have "answer u cmd t = answer u cmd t'"
  proof (cases m)
    case None
    then have "nextMsg u t = nextMsg u t'" using assms(3,4) h(1) by (simp add: nextMsg.simps [of u t])
    then show ?thesis by (simp add: answer.simps [of u cmd t] answer.simps [of u cmd t'])
  next
    case (Some msg)
    then have "nextMsg u t = Done (Some msg, t')" using assms(3,4) h(1) by (simp add: nextMsg.simps [of u t])
    then show ?thesis using h(5) [OF Some] by (simp add: answer.simps [of u cmd t])
  qed
  then show ?thesis using that h(2-4) handleFrame_frames [OF h(1)] assms(3) by simp
qed

lemma answer_skips:
  "\<forall>g \<in> set gs. unrelated u cmd g \<Longrightarrow> \<not> tn_live t \<Longrightarrow> \<not> tn_closed t \<Longrightarrow> tn_frames t = gs @ fs \<Longrightarrow>
   \<exists>t'. answer u cmd t = answer u cmd t' \<and> \<not> tn_live t' \<and> \<not> tn_closed t' \<and> tn_connected t' = tn_connected t \<and> tn_frames t' = fs"
proof (induction gs arbitrary: t)
  case (Cons g gs)
  obtain t1 where t1: "answer u cmd t = answer u cmd t1" "\<not> tn_live t1" "\<not> tn_closed t1" "tn_connected t1 = tn_connected t" "tn_frames t1 = gs @ fs"
    using answer_unrelated [of u cmd g t "gs @ fs"] Cons.prems by auto
  then show ?case using Cons.IH [of t1] Cons.prems(1) by auto
qed auto

lemma answer_string:
  assumes "\<not> tn_closed t" "tn_frames t = Inr (CmdFrame l) # fs" "parseCtrlMsg u l = Some \<lparr>cm_cmd = ''MYCALL'', cm_value = VString c\<rparr>"
  shows "answer u ''MYCALL'' t = Done (Inr (VString c), t\<lparr>tn_frames := fs\<rparr>)"
proof -
  have "nextMsg u t = Done (Some \<lparr>cm_cmd = ''MYCALL'', cm_value = VString c\<rparr>, t\<lparr>tn_frames := fs\<rparr>)"
    by (rule nextMsg_line [OF assms]) (simp add: handleMsg_def)
  then show ?thesis by (simp add: answer.simps [of u _ t])
qed

lemma answer_lost:
  assumes "\<not> tn_closed t" "tn_frames t = Inl e # fs" "e = EOF \<or> isOpError e"
  shows "answer u cmd t = Done (Inl ErrTNCClosed, close_TNC (t\<lparr>tn_frames := fs\<rparr>))"
proof -
  have "tn_closed (close_TNC (t\<lparr>tn_frames := fs\<rparr>))" by (auto simp: close_TNC_def eof_def)
  then have "nextMsg u t = Done (None, close_TNC (t\<lparr>tn_frames := fs\<rparr>))"
    using assms by (simp add: nextMsg.simps [of u t] nextMsg.simps [of u "close_TNC (t\<lparr>tn_frames := fs\<rparr>)"] handleFrame_def)
  then show ?thesis by (simp add: answer.simps [of u _ t])
qed



end
