(* ===== verification/Transport.thy ===== *)
theory Transport
  imports Go_Bufio
begin

text \<open>
  URLs and dialers (\<^verbatim>\<open>url.go\<close> and \<^verbatim>\<open>dial.go\<close> in \<^verbatim>\<open>src/transport\<close>) and the telnet transport (\<^verbatim>\<open>src/transport/telnet\<close>). A URL comes
  from \<^verbatim>\<open>url.Parse\<close>, whose result is an argument here: scheme, host, user, the decoded path and the query. A dialer is a
  function from a context and a URL to a connection or an error.
\<close>

section \<open>URLs\<close>

datatype dial_err = ErrInvalidTarget | ErrDigisUnsupported | ErrMissingDialer | ErrUnsupportedScheme | OtherErr string

type_synonym userinfo = "string \<times> string option"

text \<open>What \<^verbatim>\<open>url.Parse\<close> returns; the query as \<^verbatim>\<open>Query()\<close> gives it.\<close>

record netURL =
  nu_scheme :: string
  nu_host :: string
  nu_user :: "userinfo option"
  nu_path :: string
  nu_query :: "string \<rightharpoonup> string list"

record URL =
  Scheme :: string
  Host :: string
  User :: "userinfo option"
  Target :: string
  Digis :: "string list"
  Params :: "string \<rightharpoonup> string list"

definition Values_Get :: "(string \<rightharpoonup> string list) \<Rightarrow> string \<Rightarrow> string" where
  "Values_Get q k = (case q k of Some (v # _) \<Rightarrow> v | _ \<Rightarrow> [])"

text \<open>\<^verbatim>\<open>path.Split\<close>: after the last slash. \<^verbatim>\<open>strings.Trim(s, "/")\<close>.\<close>

definition path_Split :: "string \<Rightarrow> string \<times> string" where
  "path_Split p = (case lastIndex (\<lambda>c. c = CHR ''/'') p of None \<Rightarrow> ([], p) | Some i \<Rightarrow> (take (Suc i) p, drop (Suc i) p))"

definition trimSlash :: "string \<Rightarrow> string" where
  "trimSlash s = rev (dropWhile (\<lambda>c. c = CHR ''/'') (rev (dropWhile (\<lambda>c. c = CHR ''/'') s)))"

definition ParseURL :: "unicode \<Rightarrow> dial_err + netURL \<Rightarrow> URL option \<times> dial_err option" where
  "ParseURL uc parsed =
     (case parsed of
        Inl err \<Rightarrow> (None, Some err)
      | Inr u \<Rightarrow>
          let (via, target) = path_Split (toUpper uc (nu_path u)) in
          if length target < 3 then (None, Some ErrInvalidTarget)
          else
            let str = Values_Get (nu_query u) ''host'';
                host = (if str \<noteq> [] then str else nu_host u);
                ds = Split (CHR ''/'') (trimSlash via);
                digis = (if length ds = 1 \<and> ds ! 0 = [] then [] else ds);
                url = \<lparr>Scheme = nu_scheme u, Host = host, User = nu_user u, Target = target, Digis = digis, Params = nu_query u\<rparr>;
                digisUnsupported = (nu_scheme u = ''ardop'' \<or> nu_scheme u = ''telnet'')
            in (Some url, if 0 < length digis \<and> digisUnsupported then Some ErrDigisUnsupported else None))"

definition SetUser :: "string \<Rightarrow> URL \<Rightarrow> URL" where
  "SetUser call url = url\<lparr>User := Some (call, None)\<rparr>"

section \<open>Dialers\<close>

text \<open>A dialer that implements \<^verbatim>\<open>ContextDialer\<close>, or one that does not.\<close>

datatype ('x, 'c) dialer = ContextDialer "'x \<Rightarrow> URL \<Rightarrow> dial_err + 'c" | Dialer "URL \<Rightarrow> dial_err + 'c"

type_synonym ('x, 'c) dialers = "string \<rightharpoonup> ('x \<Rightarrow> URL \<Rightarrow> dial_err + 'c)"

definition RegisterContextDialer :: "string \<Rightarrow> ('x \<Rightarrow> URL \<Rightarrow> dial_err + 'c) \<Rightarrow> ('x, 'c) dialers \<Rightarrow> ('x, 'c) dialers" where
  "RegisterContextDialer scheme dialer m = m(scheme \<mapsto> dialer)"

definition noCtxDialer :: "(URL \<Rightarrow> dial_err + 'c) \<Rightarrow> 'x \<Rightarrow> URL \<Rightarrow> dial_err + 'c" where
  "noCtxDialer d = (\<lambda>_ url. d url)"

definition RegisterDialer :: "string \<Rightarrow> ('x, 'c) dialer \<Rightarrow> ('x, 'c) dialers \<Rightarrow> ('x, 'c) dialers" where
  "RegisterDialer scheme dialer m =
     RegisterContextDialer scheme (case dialer of ContextDialer d \<Rightarrow> d | Dialer d \<Rightarrow> noCtxDialer d) m"

definition UnregisterDialer :: "string \<Rightarrow> ('x, 'c) dialers \<Rightarrow> ('x, 'c) dialers" where
  "UnregisterDialer scheme m = m(scheme := None)"

definition transport_DialURLContext :: "('x, 'c) dialers \<Rightarrow> 'x \<Rightarrow> URL \<Rightarrow> dial_err + 'c" where
  "transport_DialURLContext m ctx url = (case m (Scheme url) of None \<Rightarrow> Inl ErrMissingDialer | Some dialer \<Rightarrow> dialer ctx url)"

definition transport_DialURL :: "('x, 'c) dialers \<Rightarrow> 'x \<Rightarrow> URL \<Rightarrow> dial_err + 'c" where
  "transport_DialURL m background url = transport_DialURLContext m background url"

section \<open>Telnet\<close>

text \<open>A TCP connection: what is still to be read from it, what was written, whether writing works, and whether it was
  closed. The errors of the writes are not looked at.\<close>

record tcpConn =
  tc_segs :: "string list"
  tc_end :: read_err
  tc_out :: string
  tc_works :: bool
  tc_closed :: bool

definition tc_Write :: "string \<Rightarrow> tcpConn \<Rightarrow> tcpConn" where
  "tc_Write s c = (if tc_works c then c\<lparr>tc_out := tc_out c @ s\<rparr> else c)"

text \<open>A new reader on a connection, and the connection after the reader was used: what the reader has buffered is no
  longer in it.\<close>

definition bufio_NewReader :: "tcpConn \<Rightarrow> bufReader" where
  "bufio_NewReader c = \<lparr>br_buf = [], br_segs = tc_segs c, br_end = tc_end c\<rparr>"

definition withReader :: "bufReader \<Rightarrow> tcpConn \<Rightarrow> tcpConn" where
  "withReader rd c = c\<lparr>tc_segs := br_segs rd\<rparr>"

record telnetConn =
  tl_conn :: tcpConn
  remoteCall :: string

definition CMSTargetCall :: string where "CMSTargetCall = ''wl2k''"
definition CMSPassword :: string where "CMSPassword = ''CMSTelnet''"

fun readErrString :: "read_err \<Rightarrow> string" where
  "readErrString EOF = ''EOF''"
| "readErrString (NetErr s) = s"
| "readErrString (ErrText s) = s"

lemma ReadBytes_progress: "rd_ReadBytes delim acc rd = ((line, None), rd') \<Longrightarrow> length (pending rd') < length (pending rd)"
proof (induction delim acc rd rule: rd_ReadBytes.induct)
  case (1 delim acc rd)
  show ?case
  proof (cases "dropWhile (\<lambda>c. c \<noteq> delim) (br_buf rd)")
    case (Cons d rest)
    have "length (dropWhile (\<lambda>c. c \<noteq> delim) (br_buf rd)) \<le> length (br_buf rd)" by (rule length_dropWhile_le)
    then have "length rest < length (br_buf rd)" using Cons by simp
    moreover have "rd' = rd\<lparr>br_buf := rest\<rparr>" using "1.prems" Cons by (simp add: rd_ReadBytes.simps [of delim acc rd])
    ultimately show ?thesis by simp
  next
    case Nil
    show ?thesis
    proof (cases "bufSize \<le> length (br_buf rd)")
      case True
      have "rd_ReadBytes delim (acc @ br_buf rd) (rd\<lparr>br_buf := []\<rparr>) = ((line, None), rd')"
        using "1.prems" Nil True by (simp add: rd_ReadBytes.simps [of delim acc rd])
      from "1.IH"(1) [OF Nil True this] show ?thesis by simp
    next
      case False
      then obtain r where r: "fill rd = Some r" "rd_ReadBytes delim acc r = ((line, None), rd')"
        using "1.prems" Nil by (cases "fill rd") (simp_all add: rd_ReadBytes.simps [of delim acc rd])
      show ?thesis using "1.IH"(2) [OF Nil False r] fill_pending [OF r(1)] by simp
    qed
  qed
qed

text \<open>The loop of \<open>DialContext\<close> that answers the prompts.\<close>

function telnetLogin :: "unicode \<Rightarrow> string \<Rightarrow> string \<Rightarrow> bufReader \<Rightarrow> tcpConn \<Rightarrow> read_err option \<times> bufReader \<times> tcpConn" where
  "telnetLogin uc mycall password rd c =
     (case rd_ReadBytes CR [] rd of
        ((line, Some err), rd) \<Rightarrow> (Some (ErrText (''Error while logging in: '' @ readErrString err)), rd, c\<lparr>tc_closed := True\<rparr>)
      | ((line, None), rd) \<Rightarrow>
          let line = TrimSpace (toLower uc line) in
          if HasPrefix line ''callsign'' then telnetLogin uc mycall password rd (tc_Write (mycall @ [CR]) c)
          else if HasPrefix line ''password'' then (None, rd, tc_Write (password @ [CR]) c)
          else telnetLogin uc mycall password rd c)"
  by pat_completeness auto
termination
  by (relation "measure (\<lambda>(uc, mycall, password, rd, c). length (pending rd))")
     (auto dest!: ReadBytes_progress [OF sym])

declare telnetLogin.simps [simp del]

text \<open>\<open>DialContext\<close>, from the result of \<^verbatim>\<open>net.Dialer.DialContext\<close>.\<close>

definition telnet_DialContext :: "unicode \<Rightarrow> read_err + tcpConn \<Rightarrow> string \<Rightarrow> string \<Rightarrow> read_err + telnetConn" where
  "telnet_DialContext uc dialed mycall password =
     (case dialed of
        Inl err \<Rightarrow> Inl err
      | Inr c \<Rightarrow>
          case telnetLogin uc mycall password (bufio_NewReader c) c of
            (Some err, _) \<Rightarrow> Inl err
          | (None, rd, c) \<Rightarrow> Inr \<lparr>tl_conn = withReader rd c, remoteCall = CMSTargetCall\<rparr>)"

text \<open>\<open>DialCMS\<close>, with what the attempts to connect come to.\<close>

fun dialRetry :: "unicode \<Rightarrow> string \<Rightarrow> (nat \<Rightarrow> read_err + tcpConn) \<Rightarrow> nat \<Rightarrow> read_err + telnetConn \<Rightarrow> read_err + telnetConn" where
  "dialRetry uc mycall dialed 0 res = res"
| "dialRetry uc mycall dialed (Suc n) res =
     (case telnet_DialContext uc (dialed (3 - n)) mycall CMSPassword of Inr c \<Rightarrow> Inr c | res \<Rightarrow> dialRetry uc mycall dialed n res)"

definition DialCMS :: "unicode \<Rightarrow> string \<Rightarrow> (nat \<Rightarrow> read_err + tcpConn) \<Rightarrow> read_err + telnetConn" where
  "DialCMS uc mycall dialed = dialRetry uc mycall dialed 4 (Inl EOF)"

text \<open>\<open>Accept\<close>, from the result of the \<open>Accept\<close> of the TCP listener. The connection is returned with the error: without the
  call sign of the other station if that was not read.\<close>

definition telnetAccept :: "read_err + tcpConn \<Rightarrow> (tcpConn + telnetConn) option \<times> read_err option" where
  "telnetAccept accepted =
     (case accepted of
        Inl err \<Rightarrow> (None, Some err)
      | Inr c \<Rightarrow>
          let c = tc_Write (''Callsign :'' @ [CR]) c in
          case rd_ReadBytes CR [] (bufio_NewReader c) of
            ((_, Some err), rd) \<Rightarrow> (Some (Inl (withReader rd c)), Some err)
          | ((line, None), rd) \<Rightarrow>
              let c = tc_Write (''Password :'' @ [CR]) c in
              case rd_ReadBytes CR [] rd of
                ((_, err), rd) \<Rightarrow> (Some (Inr \<lparr>tl_conn = withReader rd c, remoteCall = TrimSpace line\<rparr>), err))"

section \<open>Properties\<close>

subsection \<open>URLs and dialers\<close>

lemma toUpper_ascii: "ascii s \<Longrightarrow> toUpper u s = map (\<lambda>c. if 97 \<le> byte_val c \<and> byte_val c \<le> 122 then char_of (byte_val c - 32) else c) s"
  unfolding toUpper_def by (subst mapRunes_ascii) (auto simp: ascii_def)

text \<open>A part of a path that is written in capitals: not empty, no slash, no small letters.\<close>

definition call_ok :: "string \<Rightarrow> bool" where
  "call_ok s \<longleftrightarrow> s \<noteq> [] \<and> (\<forall>c \<in> set s. c \<noteq> CHR ''/'' \<and> byte_val c < 97)"

lemma call_ok_upper: "\<forall>c \<in> set s. byte_val c < 97 \<Longrightarrow> toUpper u s = s"
proof -
  assume "\<forall>c \<in> set s. byte_val c < 97"
  moreover from this have "ascii s" by (auto simp: ascii_def)
  ultimately show ?thesis by (simp only: toUpper_ascii) (auto intro!: map_idI)
qed

lemma call_ends: "call_ok s \<Longrightarrow> s \<noteq> [] \<and> hd s \<noteq> CHR ''/'' \<and> last s \<noteq> CHR ''/''"
  unfolding call_ok_def using hd_in_set last_in_set by blast

lemma lastIndex_slash: "\<not> (\<exists>c \<in> set t. P c) \<Longrightarrow> P x \<Longrightarrow> lastIndex P (s @ x # t) = Some (length s)"
proof (induction s)
  case Nil
  have "lastIndex P t = None" using Nil(1) by (induction t) auto
  then show ?case using Nil by simp
qed auto

lemma path_Split_last: "CHR ''/'' \<notin> set t \<Longrightarrow> path_Split (s @ CHR ''/'' # t) = (s @ [CHR ''/''], t)"
  by (subst path_Split_def, subst lastIndex_slash) auto

lemma Split_slashes:
  "ps \<noteq> [] \<Longrightarrow> \<forall>p \<in> set ps. CHR ''/'' \<notin> set p \<Longrightarrow> Split (CHR ''/'') (joinWith ''/'' ps) = ps"
  by (induction "''/''" ps rule: joinWith.induct) (simp_all add: string_simps)

lemma hd_joinWith: "ps \<noteq> [] \<Longrightarrow> hd ps \<noteq> [] \<Longrightarrow> joinWith sep ps \<noteq> [] \<and> hd (joinWith sep ps) = hd (hd ps)"
  by (induction sep ps rule: joinWith.induct) simp_all

lemma last_joinWith: "ps \<noteq> [] \<Longrightarrow> last ps \<noteq> [] \<Longrightarrow> last (joinWith sep ps) = last (last ps) \<and> joinWith sep ps \<noteq> []"
  by (induction sep ps rule: joinWith.induct) auto

lemma trimSlash_inner:
  "s \<noteq> [] \<Longrightarrow> hd s \<noteq> CHR ''/'' \<Longrightarrow> last s \<noteq> CHR ''/'' \<Longrightarrow> trimSlash (CHR ''/'' # s @ [CHR ''/'']) = s"
proof -
  assume s: "s \<noteq> []" "hd s \<noteq> CHR ''/''" "last s \<noteq> CHR ''/''"
  have "dropWhile (\<lambda>c. c = CHR ''/'') (s @ [CHR ''/'']) = s @ [CHR ''/'']" using s by (cases s) simp_all
  moreover have "dropWhile (\<lambda>c. c = CHR ''/'') (rev s) = rev s" using s by (cases s rule: rev_cases) simp_all
  ultimately show ?thesis by (simp add: trimSlash_def)
qed

text \<open>The path of a URL names the digipeaters in the order of the path and then the target, in capitals. Digipeaters
  are refused for ARDOP and telnet, but the URL is returned all the same.\<close>

theorem ParseURL_path:
  assumes "call_ok target" "3 \<le> length target" "\<forall>d \<in> set digis. call_ok d"
    and "nu_path u = concat (map (\<lambda>d. CHR ''/'' # d) (digis @ [target]))"
  shows "\<exists>url. ParseURL uc (Inr u) = (Some url, if digis \<noteq> [] \<and> nu_scheme u \<in> {''ardop'', ''telnet''} then Some ErrDigisUnsupported else None) \<and>
    Digis url = digis \<and> Target url = target \<and> Scheme url = nu_scheme u"
proof -
  let ?via = "concat (map (\<lambda>d. CHR ''/'' # d) digis)"
  have path: "nu_path u = ?via @ CHR ''/'' # target" using assms(4) by simp
  have "toUpper uc (nu_path u) = nu_path u"
    by (rule call_ok_upper) (use assms(1,3) in \<open>auto simp: path call_ok_def\<close>)
  then have s: "path_Split (toUpper uc (nu_path u)) = (?via @ ''/'', target)"
    using assms(1) path_Split_last [of target ?via] by (auto simp only: path call_ok_def append.simps)
  have join: "?via @ ''/'' = CHR ''/'' # joinWith ''/'' digis @ ''/''" if "digis \<noteq> []"
    using that by (induction "''/''" digis rule: joinWith.induct) simp_all
  have ds: "Split (CHR ''/'') (trimSlash (?via @ ''/'')) = (if digis = [] then [[]] else digis)"
  proof (cases "digis = []")
    case True
    then show ?thesis by (simp add: trimSlash_def)
  next
    case False
    have h: "hd digis \<noteq> []" "last digis \<noteq> []" "hd (hd digis) \<noteq> CHR ''/''" "last (last digis) \<noteq> CHR ''/''"
      using call_ends [of "hd digis"] call_ends [of "last digis"] assms(3) False by simp_all
    have "trimSlash (?via @ ''/'') = joinWith ''/'' digis"
      unfolding join [OF False] using hd_joinWith [OF False h(1)] last_joinWith [OF False h(2)] h by (auto intro!: trimSlash_inner)
    then show ?thesis using Split_slashes [OF False] assms(3) False by (auto simp: call_ok_def)
  qed
  have nz: "\<not> (length digis = 1 \<and> digis ! 0 = [])" using assms(3) by (cases digis) (auto simp: call_ok_def)
  show ?thesis
  proof (cases "digis = []")
    case True
    then show ?thesis using assms(2) s by (simp add: ParseURL_def Let_def trimSlash_def)
  next
    case False
    then show ?thesis using assms(2) nz by (simp add: ParseURL_def s ds Let_def)
  qed
qed

definition example_netURL :: netURL where
  "example_netURL = \<lparr>nu_scheme = ''ax25'', nu_host = ''axport'', nu_user = None, nu_path = ''/LD5SK/LA1B-10'', nu_query = Map.empty\<rparr>"

theorem ParseURL_path_witness:
  "\<exists>url. ParseURL \<lparr>u_upper = id, u_lower = id\<rparr> (Inr example_netURL) = (Some url, None) \<and> Digis url = [''LD5SK''] \<and>
     Target url = ''LA1B-10'' \<and> Scheme url = ''ax25''"
  using ParseURL_path [of "''LA1B-10''" "[''LD5SK'']" example_netURL] by (simp add: example_netURL_def call_ok_def)

text \<open>What happens to the list of dialers, and what it holds for a scheme afterwards.\<close>

datatype ('x, 'c) dialer_op = Register string "('x, 'c) dialer" | Unregister string

fun dialer_step :: "('x, 'c) dialer_op \<Rightarrow> ('x, 'c) dialers \<Rightarrow> ('x, 'c) dialers" where
  "dialer_step (Register s d) m = RegisterDialer s d m"
| "dialer_step (Unregister s) m = UnregisterDialer s m"

fun op_scheme :: "('x, 'c) dialer_op \<Rightarrow> string" where
  "op_scheme (Register s d) = s"
| "op_scheme (Unregister s) = s"

fun op_dials :: "('x, 'c) dialer_op \<Rightarrow> 'x \<Rightarrow> URL \<Rightarrow> dial_err + 'c" where
  "op_dials (Register s (ContextDialer d)) ctx url = d ctx url"
| "op_dials (Register s (Dialer d)) ctx url = d url"
| "op_dials (Unregister s) ctx url = Inl ErrMissingDialer"

text \<open>A URL is dialed with the dialer that was registered last for its scheme; if there is none, or it was unregistered
  since, that is an error.\<close>

lemma dial_last_registered:
  "transport_DialURLContext (fold dialer_step ops Map.empty) ctx url =
     (case filter (\<lambda>p. op_scheme p = Scheme url) ops of [] \<Rightarrow> Inl ErrMissingDialer | ps \<Rightarrow> op_dials (last ps) ctx url)"
proof (induction ops rule: rev_induct)
  case Nil
  show ?case by (simp add: transport_DialURLContext_def)
next
  case (snoc p ops)
  have "transport_DialURLContext (dialer_step p m) ctx url = (if op_scheme p = Scheme url then op_dials p ctx url else transport_DialURLContext m ctx url)" for m
    by (cases "(p, ctx, url)" rule: op_dials.cases)
       (auto simp: transport_DialURLContext_def RegisterDialer_def RegisterContextDialer_def UnregisterDialer_def noCtxDialer_def)
  then show ?case using snoc by (auto split: list.splits)
qed

subsection \<open>Telnet\<close>

definition neutral :: "unicode \<Rightarrow> string \<Rightarrow> bool" where
  "neutral uc l \<longleftrightarrow> CR \<notin> set l \<and>
     (let line = TrimSpace (toLower uc (l @ [CR])) in \<not> HasPrefix line ''callsign'' \<and> \<not> HasPrefix line ''password'')"

lemma prompts:
  "TrimSpace (toLower uc (''Callsign :'' @ [CR])) = ''callsign :''" "TrimSpace (toLower uc (''Password :'' @ [CR])) = ''password :''"
proof -
  have "toLower uc (''Callsign :'' @ [CR]) = ''callsign :'' @ [CR]"
    by (subst toLower_ascii) (simp add: ascii_def, code_simp)
  moreover have "toLower uc (''Password :'' @ [CR]) = ''password :'' @ [CR]"
    by (subst toLower_ascii) (simp add: ascii_def, code_simp)
  ultimately show "TrimSpace (toLower uc (''Callsign :'' @ [CR])) = ''callsign :''" "TrimSpace (toLower uc (''Password :'' @ [CR])) = ''password :''"
    using TrimSpace_line(1) [of "''callsign :''"] TrimSpace_line(1) [of "''password :''"] by (simp_all add: visible_def)
qed

lemma telnetLogin_ok:
  assumes "pending rd = concat (map (\<lambda>l. l @ [CR]) banner) @ ''Callsign :'' @ CR # ''Password :'' @ CR # rest"
    and "\<forall>l \<in> set banner. neutral uc l" "tc_works c"
  shows "\<exists>rd'. telnetLogin uc mycall password rd c = (None, rd', c\<lparr>tc_out := tc_out c @ mycall @ CR # password @ [CR]\<rparr>) \<and> pending rd' = rest"
  using assms
proof (induction banner arbitrary: rd)
  case Nil
  have p: "pending rd = ''Callsign :'' @ CR # ''Password :'' @ CR # rest" using Nil(1) by simp
  from ReadBytes_ok [OF p, of "[]"] obtain r where
    r: "rd_ReadBytes CR [] rd = ((''Callsign :'' @ [CR], None), r)" "pending r = ''Password :'' @ CR # rest" by auto
  from ReadBytes_ok [OF r(2), of "[]"] obtain q where q: "rd_ReadBytes CR [] r = ((''Password :'' @ [CR], None), q)" "pending q = rest" by auto
  have "HasPrefix ''callsign :'' ''callsign''" "\<not> HasPrefix ''password :'' ''callsign''" "HasPrefix ''password :'' ''password''"
    by (simp_all add: HasPrefix_def)
  then have "telnetLogin uc mycall password rd c = (None, q, c\<lparr>tc_out := tc_out c @ mycall @ CR # password @ [CR]\<rparr>)"
    using Nil(3) r(1) q(1) prompts
    by (simp add: telnetLogin.simps [of _ _ _ rd] telnetLogin.simps [of _ _ _ r] tc_Write_def Let_def del: append.simps)
  then show ?case using q(2) by blast
next
  case (Cons l banner)
  have p: "pending rd = l @ CR # concat (map (\<lambda>l. l @ [CR]) banner) @ ''Callsign :'' @ CR # ''Password :'' @ CR # rest" and l: "CR \<notin> set l"
    using Cons.prems(1,2) by (simp_all add: neutral_def)
  from ReadBytes_ok [OF p l, of "[]"] obtain r where r: "rd_ReadBytes CR [] rd = ((l @ [CR], None), r)"
      "pending r = concat (map (\<lambda>l. l @ [CR]) banner) @ ''Callsign :'' @ CR # ''Password :'' @ CR # rest"
    by auto
  show ?case using Cons.IH [OF r(2)] Cons.prems(2,3) r(1) by (simp add: telnetLogin.simps [of _ _ _ rd] neutral_def Let_def)
qed

lemma pending_NewReader [simp]: "pending (bufio_NewReader c) = concat (tc_segs c)"
  by (simp add: bufio_NewReader_def)

text \<open>The dialing and the accepting side of a telnet connection log in to each other: in whatever pieces the text arrives,
  and whatever other lines come before the prompts, each writes what the other reads, and the accepting side knows the
  call sign.\<close>

theorem telnet_login:
  assumes "mycall \<noteq> []" "visible (hd mycall)" "visible (last mycall)" "CR \<notin> set mycall" "CR \<notin> set password"
    and "tc_works c" "concat (tc_segs c) = concat (map (\<lambda>l. l @ [CR]) banner) @ ''Callsign :'' @ CR # ''Password :'' @ [CR]"
    and "\<forall>l \<in> set banner. neutral uc l"
    and "tc_works sc" "concat (tc_segs sc) = mycall @ CR # password @ [CR]"
  shows "\<exists>c' sc'. telnet_DialContext uc (Inr c) mycall password = Inr \<lparr>tl_conn = c', remoteCall = CMSTargetCall\<rparr> \<and>
    tc_out c' = tc_out c @ mycall @ CR # password @ [CR] \<and> concat (tc_segs c') = [] \<and>
    telnetAccept (Inr sc) = (Some (Inr \<lparr>tl_conn = sc', remoteCall = mycall\<rparr>), None) \<and>
    tc_out sc' = tc_out sc @ ''Callsign :'' @ CR # ''Password :'' @ [CR] \<and> concat (tc_segs sc') = []"
proof -
  have "pending (bufio_NewReader c) = concat (map (\<lambda>l. l @ [CR]) banner) @ ''Callsign :'' @ CR # ''Password :'' @ CR # []"
    using assms(7) by simp
  from telnetLogin_ok [OF this assms(8,6), of mycall password] obtain rd' where
    l: "telnetLogin uc mycall password (bufio_NewReader c) c = (None, rd', c\<lparr>tc_out := tc_out c @ mycall @ CR # password @ [CR]\<rparr>)"
      "pending rd' = []" by blast
  let ?s1 = "tc_Write (''Callsign :'' @ [CR]) sc"
  have p: "pending (bufio_NewReader ?s1) = mycall @ CR # password @ [CR]" using assms(10) by (simp add: tc_Write_def)
  from ReadBytes_ok [OF p assms(4), of "[]"] obtain r where
    r: "rd_ReadBytes CR [] (bufio_NewReader ?s1) = ((mycall @ [CR], None), r)" "pending r = password @ [CR]" by auto
  from ReadBytes_ok [OF r(2) assms(5), of "[]"] obtain q where
    q: "rd_ReadBytes CR [] r = ((password @ [CR], None), q)" "pending q = []" by auto
  have t: "TrimSpace (mycall @ [CR]) = mycall" by (rule TrimSpace_line) (use assms in simp_all)
  let ?c = "withReader rd' (c\<lparr>tc_out := tc_out c @ mycall @ CR # password @ [CR]\<rparr>)"
  let ?sc = "withReader q (tc_Write (''Password :'' @ [CR]) ?s1)"
  have "telnet_DialContext uc (Inr c) mycall password = Inr \<lparr>tl_conn = ?c, remoteCall = CMSTargetCall\<rparr>"
    by (simp add: telnet_DialContext_def l(1))
  moreover have "telnetAccept (Inr sc) = (Some (Inr \<lparr>tl_conn = ?sc, remoteCall = mycall\<rparr>), None)"
    using r(1) q(1) t by (simp add: telnetAccept_def Let_def del: append.simps)
  moreover have "tc_out ?c = tc_out c @ mycall @ CR # password @ [CR]" "concat (tc_segs ?c) = []" "concat (tc_segs ?sc) = []"
      "tc_out ?sc = tc_out sc @ ''Callsign :'' @ CR # ''Password :'' @ [CR]"
    using l(2) q(2) assms(9) by (simp_all add: withReader_def tc_Write_def)
  ultimately show ?thesis by blast
qed

definition example_tcp :: "string list \<Rightarrow> tcpConn" where
  "example_tcp ss = \<lparr>tc_segs = ss, tc_end = EOF, tc_out = [], tc_works = True, tc_closed = False\<rparr>"

theorem telnet_login_witness:
  "\<exists>c' sc'. telnet_DialContext \<lparr>u_upper = id, u_lower = id\<rparr> (Inr (example_tcp [''Hello'' @ CR # ''Call'', ''sign :'' @ [CR], ''Password :'' @ [CR]])) ''LA5NTA'' ''pw'' =
      Inr \<lparr>tl_conn = c', remoteCall = CMSTargetCall\<rparr> \<and> tc_out c' = ''LA5NTA'' @ CR # ''pw'' @ [CR] \<and>
    telnetAccept (Inr (example_tcp [''LA5NTA'', CR # ''pw'' @ [CR]])) = (Some (Inr \<lparr>tl_conn = sc', remoteCall = ''LA5NTA''\<rparr>), None)"
proof -
  let ?uc = "\<lparr>u_upper = id, u_lower = id\<rparr>"
  have "toLower ?uc (''Hello'' @ [CR]) = ''hello'' @ [CR]" by (subst toLower_ascii) (simp add: ascii_def, code_simp)
  moreover have "TrimSpace (''hello'' @ [CR]) = ''hello''" by (rule TrimSpace_line) (simp_all add: visible_def)
  ultimately have "neutral ?uc ''Hello''" by (simp add: neutral_def HasPrefix_def)
  then show ?thesis
    using telnet_login [of "''LA5NTA''" "''pw''" "example_tcp [''Hello'' @ CR # ''Call'', ''sign :'' @ [CR], ''Password :'' @ [CR]]" "[''Hello'']" ?uc
      "example_tcp [''LA5NTA'', CR # ''pw'' @ [CR]]"]
    by (fastforce simp: example_tcp_def visible_def)
qed

text \<open>What arrives together with the password is lost: the listener reads it into the buffer of a reader that it
  drops, and the connection it returns goes on with what comes after.\<close>

theorem telnet_early_data_lost:
  assumes "CR \<notin> set mycall" "CR \<notin> set password" "length (mycall @ CR # password @ CR # early) \<le> bufSize"
    and "tc_segs sc = (mycall @ CR # password @ CR # early) # later"
  shows "\<exists>sc'. telnetAccept (Inr sc) = (Some (Inr \<lparr>tl_conn = sc', remoteCall = TrimSpace (mycall @ [CR])\<rparr>), None) \<and> tc_segs sc' = later"
proof -
  let ?all = "mycall @ CR # password @ CR # early"
  define s1 where "s1 = tc_Write (''Callsign :'' @ [CR]) sc"
  let ?rd = "\<lparr>br_buf = ?all, br_segs = later, br_end = tc_end sc\<rparr>"
  let ?r = "\<lparr>br_buf = password @ CR # early, br_segs = later, br_end = tc_end sc\<rparr>"
  have w: "tc_segs s1 = ?all # later" "tc_end s1 = tc_end sc" using assms(4) by (simp_all add: tc_Write_def s1_def)
  have f: "fill (bufio_NewReader s1) = Some ?rd"
    using assms(3) by (simp add: fill_def bufio_NewReader_def w)
  have "rd_ReadBytes CR [] (bufio_NewReader s1) = rd_ReadBytes CR [] ?rd"
    using f by (subst rd_ReadBytes.simps) (simp add: bufio_NewReader_def bufSize_def)
  also have "\<dots> = ((mycall @ [CR], None), ?r)" using ReadBytes_buffered [of ?rd mycall CR "password @ CR # early" "[]"] assms(1) by simp
  finally have r: "rd_ReadBytes CR [] (bufio_NewReader s1) = ((mycall @ [CR], None), ?r)" .
  have q: "rd_ReadBytes CR [] ?r = ((password @ [CR], None), ?r\<lparr>br_buf := early\<rparr>)"
    using ReadBytes_buffered [of ?r password CR early "[]"] assms(2) by simp
  show ?thesis using r q by (simp add: telnetAccept_def s1_def [symmetric] Let_def withReader_def del: append.simps)
qed

theorem telnet_early_data_lost_witness:
  "\<exists>sc' call. telnetAccept (Inr (example_tcp [''LA5NTA'' @ CR # ''pw'' @ CR # ''[RMS]'', ''FF''])) = (Some (Inr \<lparr>tl_conn = sc', remoteCall = call\<rparr>), None) \<and>
     tc_segs sc' = [''FF'']"
  using telnet_early_data_lost [of "''LA5NTA''" "''pw''" "''[RMS]''" "example_tcp [''LA5NTA'' @ CR # ''pw'' @ CR # ''[RMS]'', ''FF'']" "[''FF'']"]
  by (fastforce simp: example_tcp_def bufSize_def)

text \<open>\<open>DialCMS\<close> returns the connection of the first of four attempts that succeeds, or the error of the last one.\<close>

lemma DialCMS_result:
  "DialCMS uc mycall dialed =
     (let res = map (\<lambda>i. telnet_DialContext uc (dialed i) mycall CMSPassword) [0, 1, 2, 3] in
      case dropWhile isl res of [] \<Rightarrow> last res | r # _ \<Rightarrow> r)"
  by (auto simp: DialCMS_def numeral_eq_Suc Let_def split: sum.splits)

end
