(* ===== verification/Rigctld.thy ===== *)
theory Rigctld
  imports Go_Bufio
begin

text \<open>
  Control of a radio through the daemon of Hamlib (\<^verbatim>\<open>src/rigcontrol/hamlib/rigctld.go\<close>). A rig keeps a connection while it works and
  dials again when it does not; the results of the dials to come are part of the state, and so is what the daemon will send
  on a connection and what the writes to it will return. Connections that were dropped without being closed are kept in a
  list. The lines of the daemon are shorter than the buffer of the reader.
\<close>

datatype rig_err = RigIO read_err | NumError string num_err | CodeErr int | ErrNotVFOMode | ErrUnexpectedValue

record rigConn =
  rc_rd :: bufReader
  rc_writes :: "read_err option list"
  rc_out :: "string list"
  rc_closed :: bool

record TCPRig =
  rg_conn :: "rigConn option"
  rg_dials :: "(read_err + rigConn) list"
  rg_dropped :: "rigConn list"

section \<open>One command\<close>

text \<open>\<^verbatim>\<open>textproto.Reader.ReadLine\<close>. What comes before the end of the stream is a line as well.\<close>

definition tp_ReadLine :: "bufReader \<Rightarrow> (read_err + string) \<times> bufReader" where
  "tp_ReadLine rd =
     (case rd_ReadBytes LF [] rd of
        ((line, None), rd) \<Rightarrow>
          let line = butlast line in (Inr (if line \<noteq> [] \<and> last line = CR then butlast line else line), rd)
      | ((line, Some err), rd) \<Rightarrow> (if line = [] then Inl err else Inr line, rd))"

text \<open>A line is written with \<^verbatim>\<open>PrintfLine\<close>; the lines are kept without their end.\<close>

definition rc_Cmd :: "string \<Rightarrow> rigConn \<Rightarrow> read_err option \<times> rigConn" where
  "rc_Cmd line c =
     (if rc_closed c then (Some (NetErr ''use of closed network connection''), c)
      else case rc_writes c of
        Some err # ws \<Rightarrow> (Some err, c\<lparr>rc_writes := ws\<rparr>)
      | ws \<Rightarrow> (None, c\<lparr>rc_writes := tl ws, rc_out := rc_out c @ [line]\<rparr>))"

definition toError :: "string \<Rightarrow> rig_err option" where
  "toError str =
     (if \<not> HasPrefix str ''RPRT '' then None
      else case Atoi (TrimPrefix str ''RPRT '') of
        (_, Some err) \<Rightarrow> Some (NumError (TrimPrefix str ''RPRT '') err)
      | (code, None) \<Rightarrow> if code = 0 then None else Some (CodeErr code))"

definition doCmd :: "string \<Rightarrow> rigConn \<Rightarrow> (string \<times> rig_err option) \<times> rigConn" where
  "doCmd line c =
     (case rc_Cmd line c of
        (Some err, c) \<Rightarrow> (([], Some (RigIO err)), c)
      | (None, c) \<Rightarrow>
          case tp_ReadLine (rc_rd c) of
            (Inl err, rd) \<Rightarrow> (([], Some (RigIO err)), c\<lparr>rc_rd := rd\<rparr>)
          | (Inr resp, rd) \<Rightarrow> ((resp, toError resp), c\<lparr>rc_rd := rd\<rparr>))"

section \<open>Connecting and retrying\<close>

definition rig_dial :: "TCPRig \<Rightarrow> read_err option \<times> TCPRig" where
  "rig_dial r =
     (case rg_dials r of
        [] \<Rightarrow> (Some (NetErr ''connection refused''), r)
      | Inl err # ds \<Rightarrow> (Some err, r\<lparr>rg_dials := ds\<rparr>)
      | Inr c # ds \<Rightarrow> (None, r\<lparr>rg_dials := ds, rg_conn := Some c\<rparr>))"

fun connLost :: "rig_err \<Rightarrow> bool" where
  "connLost (RigIO EOF) = True"
| "connLost (RigIO (NetErr _)) = True"
| "connLost _ = False"

text \<open>The body of the loop with a connection.\<close>

definition tryCmd :: "string \<Rightarrow> rigConn \<Rightarrow> TCPRig \<Rightarrow> (string \<times> rig_err option) \<times> TCPRig" where
  "tryCmd line c r =
     (case doCmd line c of
        ((resp, Some err), c) \<Rightarrow>
          ((resp, Some err), if connLost err then r\<lparr>rg_conn := None, rg_dropped := rg_dropped r @ [c]\<rparr> else r\<lparr>rg_conn := Some c\<rparr>)
      | (res, c) \<Rightarrow> (res, r\<lparr>rg_conn := Some c\<rparr>))"

fun rig_cmdLoop :: "nat \<Rightarrow> string \<Rightarrow> string \<times> rig_err option \<Rightarrow> TCPRig \<Rightarrow> (string \<times> rig_err option) \<times> TCPRig" where
  "rig_cmdLoop 0 line res r = (res, r)"
| "rig_cmdLoop (Suc n) line res r =
     (let again = (\<lambda>c r. case tryCmd line c r of
                     ((resp, None), r) \<Rightarrow> ((resp, None), r)
                   | (res, r) \<Rightarrow> rig_cmdLoop n line res r)
      in case rg_conn r of
           Some c \<Rightarrow> again c r
         | None \<Rightarrow>
             case rig_dial r of
               (Some err, r) \<Rightarrow> ((fst res, Some (RigIO err)), r)
             | (None, r) \<Rightarrow> (case rg_conn r of Some c \<Rightarrow> again c r | None \<Rightarrow> (res, r)))"

definition rig_cmd :: "string \<Rightarrow> TCPRig \<Rightarrow> (string \<times> rig_err option) \<times> TCPRig" where
  "rig_cmd line r = rig_cmdLoop 3 line ([], None) r"

definition OpenTCP :: "(read_err + rigConn) list \<Rightarrow> TCPRig" where
  "OpenTCP dials = \<lparr>rg_conn = None, rg_dials = dials, rg_dropped = []\<rparr>"

definition rig_Ping :: "TCPRig \<Rightarrow> rig_err option \<times> TCPRig" where
  "rig_Ping r = (case rig_cmd ''dump_caps'' r of ((_, err), r) \<Rightarrow> (err, r))"

definition rig_Close :: "TCPRig \<Rightarrow> TCPRig" where
  "rig_Close r = (case rg_conn r of None \<Rightarrow> r | Some c \<Rightarrow> r\<lparr>rg_conn := Some (c\<lparr>rc_closed := True\<rparr>)\<rparr>)"

section \<open>Oscillators\<close>

text \<open>\<^verbatim>\<open>Sprintf\<close> with the verb \<^verbatim>\<open>%d\<close> only.\<close>

fun sprintfD :: "string \<Rightarrow> int list \<Rightarrow> string" where
  "sprintfD (a # b # s) (i # is) = (if a = CHR ''%'' \<and> b = CHR ''d'' then printInt i @ sprintfD s is else a # sprintfD (b # s) (i # is))"
| "sprintfD s is = s"

definition vfo_format :: "string \<Rightarrow> string \<Rightarrow> string" where
  "vfo_format prefix format =
     (if prefix \<noteq> [] then case Split (CHR '' '') format of p # ps \<Rightarrow> joinWith '' '' ([p, prefix] @ ps) | [] \<Rightarrow> format else format)"

definition vfo_cmd :: "string \<Rightarrow> string \<Rightarrow> int list \<Rightarrow> TCPRig \<Rightarrow> (string \<times> rig_err option) \<times> TCPRig" where
  "vfo_cmd prefix format args r = rig_cmd (sprintfD (vfo_format prefix format) args) r"

definition VFOMode :: "TCPRig \<Rightarrow> (bool \<times> rig_err option) \<times> TCPRig" where
  "VFOMode r =
     (case rig_cmd (CHR 0x5C # ''chk_vfo'') r of
        ((_, Some err), r) \<Rightarrow> ((False, Some err), r)
      | ((resp, None), r) \<Rightarrow> ((TrimPrefix resp ''CHKVFO '' = ''1'', None), r))"

text \<open>An oscillator of the rig is its prefix.\<close>

definition CurrentVFO :: string where "CurrentVFO = []"

definition vfoNamed :: "string \<Rightarrow> TCPRig \<Rightarrow> (rig_err + string) \<times> TCPRig" where
  "vfoNamed prefix r =
     (case VFOMode r of
        ((_, Some err), r) \<Rightarrow> (Inl err, r)
      | ((ok, None), r) \<Rightarrow> (if ok then Inr prefix else Inl ErrNotVFOMode, r))"

definition VFOA :: "TCPRig \<Rightarrow> (rig_err + string) \<times> TCPRig" where "VFOA r = vfoNamed ''VFOA'' r"
definition VFOB :: "TCPRig \<Rightarrow> (rig_err + string) \<times> TCPRig" where "VFOB r = vfoNamed ''VFOB'' r"

definition GetFreq :: "string \<Rightarrow> TCPRig \<Rightarrow> (int \<times> rig_err option) \<times> TCPRig" where
  "GetFreq v r =
     (case vfo_cmd v (CHR 0x5C # ''get_freq'') [] r of
        ((_, Some err), r) \<Rightarrow> ((- 1, Some err), r)
      | ((resp, None), r) \<Rightarrow>
          (case Atoi resp of (_, Some err) \<Rightarrow> ((- 1, Some (NumError resp err)), r) | (freq, None) \<Rightarrow> ((freq, None), r)))"

definition SetFreq :: "string \<Rightarrow> int \<Rightarrow> TCPRig \<Rightarrow> rig_err option \<times> TCPRig" where
  "SetFreq v freq r = (case vfo_cmd v (CHR 0x5C # ''set_freq %d'') [freq] r of ((_, err), r) \<Rightarrow> (err, r))"

definition GetPTT :: "string \<Rightarrow> TCPRig \<Rightarrow> (bool \<times> rig_err option) \<times> TCPRig" where
  "GetPTT v r =
     (case vfo_cmd v ''t'' [] r of
        ((_, Some err), r) \<Rightarrow> ((False, Some err), r)
      | ((resp, None), r) \<Rightarrow>
          (if resp = ''0'' then (False, None)
           else if resp \<in> {''1'', ''2'', ''3''} then (True, None)
           else (False, Some ErrUnexpectedValue), r))"

text \<open>\<^verbatim>\<open>experimentalPTT3Enabled\<close> is an argument.\<close>

definition rig_SetPTT :: "bool \<Rightarrow> string \<Rightarrow> bool \<Rightarrow> TCPRig \<Rightarrow> rig_err option \<times> TCPRig" where
  "rig_SetPTT ptt3 v on r =
     (let bInt = (if on then if ptt3 then 3 else 1 else 0) in
      case vfo_cmd v (CHR 0x5C # ''set_ptt %d'') [bInt] r of ((_, err), r) \<Rightarrow> (err, r))"

section \<open>Properties\<close>

text \<open>All the commands that were sent.\<close>

definition rig_sent :: "TCPRig \<Rightarrow> string list" where
  "rig_sent r = concat (map rc_out (rg_dropped r)) @ (case rg_conn r of None \<Rightarrow> [] | Some c \<Rightarrow> rc_out c)"

text \<open>Nothing was written to the connections that are still to be dialed.\<close>

definition dials_fresh :: "TCPRig \<Rightarrow> bool" where
  "dials_fresh r \<longleftrightarrow> (\<forall>c. Inr c \<in> set (rg_dials r) \<longrightarrow> rc_out c = [])"

lemma tryCmd_sends:
  assumes "rg_conn r = Some c" "tryCmd line c r = (res, r')"
  shows "rig_sent r' = rig_sent r \<or> rig_sent r' = rig_sent r @ [line]" "rg_dials r' = rg_dials r"
  using assms
  by (auto simp: tryCmd_def doCmd_def rc_Cmd_def rig_sent_def split: prod.splits option.splits if_splits list.splits sum.splits)

lemma rig_dial_sent:
  assumes "rg_conn r = None" "dials_fresh r" "rig_dial r = (e, r')"
  shows "rig_sent r' = rig_sent r" "dials_fresh r'" "length (rg_dials r) \<le> Suc (length (rg_dials r'))"
proof -
  have "rig_sent r' = rig_sent r \<and> dials_fresh r' \<and> length (rg_dials r) \<le> Suc (length (rg_dials r'))"
  proof (cases "rg_dials r")
    case Nil
    then show ?thesis using assms by (simp add: rig_dial_def)
  next
    case (Cons d ds)
    have f: "rc_out c = []" if "d = Inr c" for c using assms(2) unfolding dials_fresh_def Cons that [symmetric] by (metis that list.set_intros(1))
    have "dials_fresh (r\<lparr>rg_dials := ds, rg_conn := q\<rparr>)" "dials_fresh (r\<lparr>rg_dials := ds\<rparr>)" for q
      using assms(2) Cons by (simp_all add: dials_fresh_def)
    moreover have "r' = (case d of Inl _ \<Rightarrow> r\<lparr>rg_dials := ds\<rparr> | Inr c \<Rightarrow> r\<lparr>rg_dials := ds, rg_conn := Some c\<rparr>)"
      using assms(3) Cons by (simp add: rig_dial_def split: sum.splits)
    ultimately show ?thesis using f assms(1) Cons by (simp add: rig_sent_def split: sum.splits)
  qed
  then show "rig_sent r' = rig_sent r" "dials_fresh r'" "length (rg_dials r) \<le> Suc (length (rg_dials r'))" by blast+
qed

lemma cmdLoop_sends:
  "rig_cmdLoop n line res r = (res', r') \<Longrightarrow> dials_fresh r \<Longrightarrow>
   \<exists>k \<le> n. rig_sent r' = rig_sent r @ replicate k line \<and> length (rg_dials r) \<le> length (rg_dials r') + n"
proof (induction n arbitrary: res r)
  case 0
  then show ?case by simp
next
  case (Suc n)
  have go: "\<exists>k \<le> Suc n. rig_sent r' = rig_sent q @ replicate k line \<and> length (rg_dials q) \<le> length (rg_dials r') + n"
    if c: "rg_conn q = Some c" "dials_fresh q"
      "(case tryCmd line c q of ((resp, None), r) \<Rightarrow> ((resp, None), r) | (res, r) \<Rightarrow> rig_cmdLoop n line res r) = (res', r')" for q c
  proof -
    obtain t r1 where t: "tryCmd line c q = (t, r1)" by (cases "tryCmd line c q")
    note s = tryCmd_sends [OF c(1) t]
    show ?thesis
    proof (cases "snd t")
      case None
      then have "r' = r1" using c(3) t by (cases t) simp
      then show ?thesis using s by (auto intro: exI [of _ 0] exI [of _ 1])
    next
      case (Some e)
      then have "rig_cmdLoop n line t r1 = (res', r')" using c(3) t by (cases t) simp
      moreover have "dials_fresh r1" using c(2) s(2) by (simp add: dials_fresh_def)
      ultimately obtain k where k: "k \<le> n" "rig_sent r' = rig_sent r1 @ replicate k line" "length (rg_dials r1) \<le> length (rg_dials r') + n"
        using Suc.IH by blast
      from s(1) show ?thesis
      proof
        assume "rig_sent r1 = rig_sent q"
        then show ?thesis using k s(2) by (intro exI [of _ k]) simp
      next
        assume "rig_sent r1 = rig_sent q @ [line]"
        then show ?thesis using k s(2) by (intro exI [of _ "Suc k"]) simp
      qed
    qed
  qed
  show ?case
  proof (cases "rg_conn r")
    case (Some c)
    then show ?thesis using go [OF Some Suc.prems(2)] Suc.prems(1) by (fastforce simp: Let_def)
  next
    case None
    obtain e q where d: "rig_dial r = (e, q)" by (cases "rig_dial r")
    note q = rig_dial_sent [OF None Suc.prems(2) d]
    show ?thesis
    proof (cases "e = None \<and> rg_conn q \<noteq> None")
      case True
      then obtain c where "rg_conn q = Some c" by blast
      then show ?thesis using go [OF _ q(2), of c] Suc.prems(1) None True d q(1,3) by (fastforce simp: Let_def)
    next
      case False
      then have "r' = q" using Suc.prems(1) None d by (cases e) (auto simp: Let_def)
      then show ?thesis using q by (intro exI [of _ 0]) simp
    qed
  qed
qed

text \<open>Whatever the daemon does, a command is sent at most three times, nothing else is sent, and at most three
  connections are made.\<close>

theorem rig_cmd_bounded:
  assumes "rig_cmd line r = (res, r')" "dials_fresh r"
  shows "\<exists>k \<le> 3. rig_sent r' = rig_sent r @ replicate k line \<and> length (rg_dials r) \<le> length (rg_dials r') + 3"
  using cmdLoop_sends [OF assms(1) [unfolded rig_cmd_def] assms(2)] .

text \<open>A line of the daemon: without line ends inside; a carriage return at the end is removed.\<close>

definition answer_line :: "string \<Rightarrow> bool" where
  "answer_line l \<longleftrightarrow> LF \<notin> set l \<and> CR \<notin> set l"

lemma tp_ReadLine_line:
  assumes "pending rd = l @ e @ LF # rest" "answer_line l" "e = [] \<or> e = [CR]"
  shows "\<exists>rd'. tp_ReadLine rd = (Inr l, rd') \<and> pending rd' = rest \<and> br_end rd' = br_end rd"
proof -
  have "pending rd = (l @ e) @ LF # rest" "LF \<notin> set (l @ e)" using assms by (auto simp: answer_line_def)
  from ReadBytes_ok [OF this, of "[]"] obtain rd' where
    "rd_ReadBytes LF [] rd = (((l @ e) @ [LF], None), rd')" "pending rd' = rest" "br_end rd' = br_end rd" by auto
  moreover have "l \<noteq> [] \<Longrightarrow> last l \<noteq> CR" using assms(2) last_in_set by (fastforce simp: answer_line_def)
  ultimately show ?thesis using assms(3) by (auto simp: tp_ReadLine_def Let_def butlast_append)
qed

definition rig_ready :: "rigConn \<Rightarrow> bool" where
  "rig_ready c \<longleftrightarrow> \<not> rc_closed c \<and> rc_writes c = []"

lemma doCmd_line:
  assumes "rig_ready c" "pending (rc_rd c) = l @ e @ LF # rest" "answer_line l" "e = [] \<or> e = [CR]"
  shows "\<exists>rd. doCmd line c = ((l, toError l), c\<lparr>rc_rd := rd, rc_out := rc_out c @ [line]\<rparr>) \<and> pending rd = rest"
proof -
  obtain rd where "tp_ReadLine (rc_rd c) = (Inr l, rd)" "pending rd = rest" using tp_ReadLine_line [OF assms(2-4)] by blast
  then show ?thesis using assms(1) by (intro exI [of _ rd]) (cases c, simp add: doCmd_def rc_Cmd_def rig_ready_def)
qed

text \<open>A command that is not refused is sent once and answered with the next line of the daemon; the lines after it remain.\<close>

lemma rig_cmd_answer:
  assumes "rg_conn r = Some c" "rig_ready c" "pending (rc_rd c) = l @ e @ LF # rest" "answer_line l" "e = [] \<or> e = [CR]" "toError l = None"
  shows "\<exists>rd. rig_cmd line r = ((l, None), r\<lparr>rg_conn := Some (c\<lparr>rc_rd := rd, rc_out := rc_out c @ [line]\<rparr>)\<rparr>) \<and> pending rd = rest"
  using doCmd_line [OF assms(2-5), of line] assms(1,6) by (auto simp: rig_cmd_def tryCmd_def numeral_3_eq_3 Let_def)

text \<open>A command that the daemon refuses is sent three times, and the third answer is the one reported.\<close>

theorem refused_command_repeated:
  assumes "rg_conn r = Some c" "rig_ready c"
    and "pending (rc_rd c) = a1 @ LF # a2 @ LF # a3 @ LF # rest" "answer_line a1" "answer_line a2" "answer_line a3"
    and "toError a1 = Some (CodeErr n1)" "toError a2 = Some (CodeErr n2)" "toError a3 = Some (CodeErr n3)"
  shows "\<exists>r'. rig_cmd line r = ((a3, Some (CodeErr n3)), r') \<and> rig_sent r' = rig_sent r @ [line, line, line]"
proof -
  let ?on = "\<lambda>rd out. c\<lparr>rc_rd := rd, rc_out := out\<rparr>"
  have ready: "rig_ready (?on rd out)" for rd out using assms(2) by (simp add: rig_ready_def)
  have retry: "rig_cmdLoop (Suc n) line res q = rig_cmdLoop n line (l, toError l) (q\<lparr>rg_conn := Some (?on rd (out @ [line]))\<rparr>)"
    if "rg_conn q = Some (?on rd0 out)" "doCmd line (?on rd0 out) = ((l, toError l), ?on rd (out @ [line]))" "toError l = Some (CodeErr m)"
    for n res q rd0 rd out l m using that by (simp add: tryCmd_def Let_def)
  obtain rd1 where 1: "doCmd line c = ((a1, toError a1), ?on rd1 (rc_out c @ [line]))" "pending rd1 = a2 @ LF # a3 @ LF # rest"
    using doCmd_line [of c a1 "[]" _ line] assms(2,3,4) by auto
  obtain rd2 where 2: "doCmd line (?on rd1 (rc_out c @ [line])) = ((a2, toError a2), ?on rd2 (rc_out c @ [line] @ [line]))" "pending rd2 = a3 @ LF # rest"
    using doCmd_line [OF ready, where l = a2 and e = "[]" and rd1 = rd1 and out1 = "rc_out c @ [line]" and line = line] 1(2) assms(5) by auto
  obtain rd3 where 3: "doCmd line (?on rd2 (rc_out c @ [line] @ [line])) = ((a3, toError a3), ?on rd3 (rc_out c @ [line] @ [line] @ [line]))"
    using doCmd_line [OF ready, where l = a3 and e = "[]" and rd1 = rd2 and out1 = "rc_out c @ [line] @ [line]" and line = line] 2(2) assms(6) by auto
  let ?q = "\<lambda>rd out. r\<lparr>rg_conn := Some (?on rd out)\<rparr>"
  have c: "c = ?on (rc_rd c) (rc_out c)" by simp
  have "rig_cmdLoop 3 line ([], None) r = rig_cmdLoop 2 line (a1, toError a1) (?q rd1 (rc_out c @ [line]))"
    using retry [where q = r and ?rd0.0 = "rc_rd c" and out = "rc_out c" and l = a1 and rd = rd1 and m = n1 and n = 2] assms(1,7) 1(1) by (simp add: numeral_3_eq_3 numeral_2_eq_2)
  also have "\<dots> = rig_cmdLoop 1 line (a2, toError a2) (?q rd2 (rc_out c @ [line] @ [line]))"
    using retry [where q = "?q rd1 (rc_out c @ [line])" and ?rd0.0 = rd1 and out = "rc_out c @ [line]" and l = a2 and rd = rd2 and m = n2 and n = 1] assms(8) 2(1) by (simp add: numeral_2_eq_2)
  also have "\<dots> = ((a3, toError a3), ?q rd3 (rc_out c @ [line] @ [line] @ [line]))"
    using retry [where q = "?q rd2 (rc_out c @ [line] @ [line])" and ?rd0.0 = rd2 and out = "rc_out c @ [line] @ [line]" and l = a3 and rd = rd3 and m = n3 and n = 0] assms(9) 3 by simp
  finally show ?thesis using assms(1,9) by (simp add: rig_cmd_def rig_sent_def)
qed

text \<open>The frequency that the daemon prints is the one returned, for each of the oscillators.\<close>

lemma GetFreq_printed:
  assumes "rg_conn r = Some c" "rig_ready c" "pending (rc_rd c) = printInt f @ LF # rest" "0 \<le> f" "f < 2 ^ 63"
  shows "\<exists>r'. GetFreq v r = ((f, None), r') \<and> rig_sent r' = rig_sent r @ [vfo_format v (CHR 0x5C # ''get_freq'')]"
proof -
  have "visible ch" if "ch \<in> set (printInt f)" for ch using that assms(4) printNat_visible [of 10] by (simp add: printInt_def)
  then have a: "answer_line (printInt f)" by (force simp: answer_line_def visible_def)
  have "digit_val (CHR ''R'') \<noteq> Some d" if "d < 10" for d using that by (simp add: digit_val_def)
  then have "CHR ''R'' \<notin> set (printInt f)" using printNat_digits [of 10 "CHR ''R''" "nat f"] digit_val_char assms(4) by (fastforce simp: printInt_def)
  then have "\<not> HasPrefix (printInt f) ''RPRT ''" by (cases "printInt f") (auto simp: HasPrefix_def)
  then have t: "toError (printInt f) = None" by (simp add: toError_def)
  have s: "sprintfD s [] = s" for s by (cases "(s, [] :: int list)" rule: sprintfD.cases) auto
  show ?thesis
    using rig_cmd_answer [OF assms(1,2), of "printInt f" "[]" rest "vfo_format v (CHR 0x5C # ''get_freq'')"] assms a t Atoi_printInt [OF assms(4,5)]
    by (fastforce simp: GetFreq_def vfo_cmd_def s rig_sent_def)
qed

end
