(* ===== verification/Spec2Isabelle.thy ===== *)
theory Spec2Isabelle
  imports Mailbox_Laws Agwpe_Conn Ardop_Tnc Transport Rigctld
begin

text \<open>
  A verification of wl2k-go (\<^verbatim>\<open>src/\<close>), a Go library for the Winlink 2000 radio mail system: message exchange with the B2
  forwarding protocol, the compression it uses, a mailbox in a directory, and the modems and networks it runs over.

  \<^bold>\<open>The program.\<close> A session (\<^verbatim>\<open>src/fbb\<close>) runs over a connection. Both stations send a handshake; then they take turns. In its
  turn a station asks its mailbox handler (\<^verbatim>\<open>src/mailbox\<close>) for outbound messages, proposes up to five, reads the answers, and
  transfers the accepted ones, compressed with \<^verbatim>\<open>src/lzhuf\<close>; the other station asks its handler for the answers, and stores what
  arrives. The connection comes from a transport: TCP with a login (\<^verbatim>\<open>src/transport/telnet\<close>), an AGWPE packet engine
  (\<^verbatim>\<open>src/transport/ax25/agwpe\<close>), a TNC on a serial line or the AX.25 sockets of Linux (\<^verbatim>\<open>src/transport/ax25\<close>), or an ARDOP modem
  (\<^verbatim>\<open>src/transport/ardop\<close>).

  \<^bold>\<open>Conventions.\<close> A Go slice, array or string is a list of bytes or values; structs are records, constants and functions
  keep their names. \<open>None\<close> as the result of an operation is a panic, \<open>Inl\<close> an error value. Integers have their width where
  it matters (\<open>16 word\<close> for checksums and frame lengths, \<open>8 word\<close> and \<open>32 word\<close> for headers and MD5). Loops are recursive
  functions with a termination proof; those whose end depends on an invariant of the data (in the compressor) are partial
  functions to an option type, in which not returning is \<open>None\<close> as well, and it is proved that they return. There is no
  fuel. Input that has still to arrive is part of the state: the bytes of a connection, the frames a modem will send, the answers a wait will end with. A theorem for all such
  states is a theorem for every behaviour of the other side. Code from outside the repository (gzip, the charset package, the
  clock and the random source, case tables beyond ASCII) is an argument or a field of an environment record, and a theorem that
  depends on it says on what.

  \<^bold>\<open>Go.\<close> \<open>Go_Prelude\<close>: array accesses, bytes, bits, the collections of simplification rules. \<open>Go_Strings\<close>: the parts
  of \<^verbatim>\<open>strings\<close>, \<^verbatim>\<open>strconv\<close>, \<^verbatim>\<open>utf8\<close> and \<^verbatim>\<open>fmt\<close> that are used. \<open>Go_Path\<close>: paths, and a file system of directories and files
  with faults per path. \<open>Go_Bufio\<close>: buffered readers over a connection that delivers its bytes in segments, and the case mappings.
  \<open>Go_Outcome\<close>: calls that panic, wait for ever, or return.

  \<^bold>\<open>Compression\<close> (\<^verbatim>\<open>src/lzhuf\<close>). \<open>Lzhuf_Crc\<close> has the checksum with its table, shown equal to polynomial division, and the bursts it
  detects. \<open>Lzhuf_Bits\<close> has the bit writer and reader, \<open>Lzhuf_Tree\<close> the adaptive Huffman tree in its arrays, with the invariant
  every update keeps and the table of weights it refines, \<open>Lzhuf_Char\<close> the coding of characters and positions; the locale
  \<open>symbol_code\<close> derives the round trip of a stream from the round trip of one symbol and is interpreted on both. \<open>Lzhuf_Dict\<close>
  has the search trees over the ring buffer, \<open>Lzhuf_Codec\<close> the writer and the reader with headers and buffers. \<open>Lzhuf_Links\<close>,
  \<open>Lzhuf_Window\<close>, \<open>Lzhuf_Compress\<close> and \<open>Lzhuf_Roundtrip\<close> show that the trees stay linked, that the writer never panics and that
  its loops end, and that the reader returns what was written. This last result is for data of up to 3867 bytes: up to there
  the weights guarantee Huffman codes of at most sixteen bits, the width of the code register. The reader never panics on any
  input.

  \<^bold>\<open>Protocol\<close> (\<^verbatim>\<open>src/fbb\<close>). \<open>Fbb_Lines\<close> models \<^verbatim>\<open>helpers.go\<close> and the connection, \<open>Fbb_Proposal\<close> and \<open>Fbb_Transfer\<close> the proposals,
  answers and transfers of \<^verbatim>\<open>proposal.go\<close> and \<^verbatim>\<open>b2f.go\<close>, \<open>Fbb_Mime\<close> and \<open>Fbb_Header\<close> the header with encoded words, \<open>Fbb_Message\<close>
  \<^verbatim>\<open>message.go\<close> and \<^verbatim>\<open>message_body.go\<close>, \<open>Fbb_Secure\<close> the login response and message ids with MD5 and base 32 written out,
  \<open>Fbb_Handshake\<close> the session and the handshake, \<open>Fbb_Session\<close> the turns and the exchange. Each of them has its round trips and
  the panics that input of the other side can cause. \<open>Fbb_Codec\<close> connects proposals with the compressor, \<open>Fbb_Exchange\<close> puts the two
  ends of a turn together, and \<open>Fbb_Handler\<close> states what a session expects of a mailbox as the locale \<open>mailbox_contract\<close>, in which
  the laws of a turn are proved.

  \<^bold>\<open>Mailbox\<close> (\<^verbatim>\<open>src/mailbox\<close>). \<open>Mailbox\<close> models every operation of \<^verbatim>\<open>syncdir.go\<close> over the file system and interprets
  \<open>mailbox_contract\<close>. \<open>Mailbox_Laws\<close> shows what a user sees: a composed message is offered, what was sent is not offered again,
  what was received stays in the inbox, whatever happens to the mailbox afterwards, and is not accepted again while its file can
  be opened. The theorem of this theory combines all of it for two stations.

  \<^bold>\<open>AGWPE\<close> (\<^verbatim>\<open>src/transport/ax25/agwpe\<close>). \<open>Agwpe_Frame\<close> has the frames, \<open>Agwpe_Demux\<close> the demultiplexer as a transition system in which
  its goroutine and those of its clients take steps in any order, with the invariant that determines what each client gets, and
  where the goroutine can be stuck. A frame is handed directly to a client only if one waits for it at the channel.
  \<open>Agwpe_Conn\<close> has ports and connections: dialing, listening, and the flow control of writes.

  \<^bold>\<open>ARDOP\<close> (\<^verbatim>\<open>src/transport/ardop\<close>). \<open>Ardop_Crc\<close> has the checksum and exactly which bursts it detects, \<open>Ardop_Frame\<close> the frames over
  TCP and serial lines and the messages of the TNC, \<open>Ardop_Tnc\<close> the control loop and the operations on TNC and connection. An
  operation that waits lets the loop handle frames until it gets its message; for the reads, \<open>conn_step\<close> has the loop and the
  reader run independently of each other. The buffer of a reader has 4096 bytes. In \<open>Fbb_Lines\<close> the buffer of a connection
  is not bounded, as nothing depends on where it is refilled.

  \<^bold>\<open>Other transports and the radio.\<close> \<open>Transport\<close> has the URLs and the list of dialers (\<^verbatim>\<open>src/transport\<close>) and the login of the telnet
  transport on both sides, with what is lost in the buffer of its reader. \<open>Rigctld\<close> has the client of the daemon that controls a
  radio (\<^verbatim>\<open>src/rigcontrol/hamlib/rigctld.go\<close>), with how often a command is sent.

  \<^bold>\<open>Not modelled.\<close> Loggers, status updates, deadlines and timeouts as times: they do not influence the data. \<open>Date\<close>, \<open>SetDate\<close>, \<open>Charset\<close>
  and \<open>Body\<close> of a message need the time and media type parsers. The broadcaster of \<^verbatim>\<open>ctrl_broadcast.go\<close> is represented by the rule
  that a waiting operation is told of every message. Position reports (\<^verbatim>\<open>src/catalog\<close>) print floating point numbers. \<^verbatim>\<open>libhamlib.go\<close> calls
  C, \<^verbatim>\<open>ax25_linux.go\<close> and its neighbours the kernel, and \<^verbatim>\<open>kenwood.go\<close> writes to a serial port with pauses.
\<close>

section \<open>Two stations\<close>

lemma example_offer:
  obtains y p where "DirHandler_GetOutbound example_gzip_env [] example_sender = Some [y]" "sendable example_gzip_env Wl2kProposal y" "m_body y = ''Hello''"
    "outbound example_gzip_env (Some (dirHandler example_gzip_env)) b2_Session example_sender = Some [p]" "p_mid p = ''TJKYEIMMHSRB''" "p_code p = Wl2kProposal"
proof -
  let ?e = example_gzip_env
  obtain h where h: "\<forall>k. h_values h k = h_values (m_header example_mail) k" "header_ok h"
    "Outbox ?e example_sender =
       Some (Inr [example_mail\<lparr>m_header := Header_Set ''X-FilePath'' (Join [Join [''/m'', DIR_OUTBOX], ''TJKYEIMMHSRB.b2f'']) h\<rparr>])"
    by (rule example_outbox)
  let ?m = "example_mail\<lparr>m_header := Header_Set ''X-FilePath'' (Join [Join [''/m'', DIR_OUTBOX], ''TJKYEIMMHSRB.b2f'']) h\<rparr>"
  define y where "y = in_header (Header_Del ''X-Unread'') (in_header (Header_Del ''X-FilePath'') (in_header (Header_Del ''X-P2POnly'') ?m))"
  have priv: "h_values (m_header example_mail) k = []" if "k \<in> {''X-Unread'', ''X-Filepath'', ''X-P2ponly''}" for k
    using that by (auto simp: h_values_def example_mail_def)
  have "h_values (m_header ?m) ''X-P2ponly'' = []"
    using priv [of "''X-P2ponly''"] h(1) by (simp add: Header_Set_def private_keys h_values_update)
  then have "Header_Get (m_header ?m) ''X-P2POnly'' \<noteq> ''true''" unfolding Header_Get_def private_keys get_def by simp
  then have g: "DirHandler_GetOutbound ?e [] example_sender = Some [y]"
    using h(3) by (simp add: DirHandler_GetOutbound_def Outbox_def selectOutbound_def isDeferred_def example_sender_handler example_box_handler y_def)
  have ho: "header_ok (m_header y)" using offered_header_ok [OF h(2)] by (simp add: y_def)
  have sm: "same_message example_mail y"
    using priv h(1) by (auto simp: same_message_def y_def Header_Set_def Header_Del_def private_keys h_values_update) (auto simp: h_values_def delete_conv' update_conv')
  have sy: "sendable ?e Wl2kProposal y" by (rule same_message_sendable [OF sm ho example_mail_sendable])
  have vy: "Validate ?e y = None" using same_message_Validate [OF sm] example_mail_valid by simp
  obtain bs where "Bytes ?e y = Inr bs" using sy ReadFrom_Bytes [of ?e y] by (auto simp: sendable_def)
  moreover obtain buf where "lzhufCompress bs = Some buf" using lzhufCompress_ok [of bs] by blast
  ultimately obtain p where p: "Message_Proposal ?e Wl2kProposal y = Some (Inr (p, None))" "p_code p = Wl2kProposal"
    using vy by (cases "Subject ?e y = []") (simp_all add: Message_Proposal_def NewProposal_def prop_codes Let_def)
  have "outbound ?e (Some (dirHandler ?e)) b2_Session example_sender = Some [p]"
    using g p(1) vy b2_Session_code by (simp add: outbound_def dirHandler_def b2_Session_def example_Session_def NewSession_def Let_def sortProposals_def)
  moreover have "p_mid p = ''TJKYEIMMHSRB''" using Message_Proposal_mid [OF p(1)] same_message_MID [OF sm] example_mail_MID by simp
  ultimately show thesis using that [OF g sy _ _ _ p(2)] sm by (simp add: same_message_def example_mail_def)
qed

lemma b2_Session_simps:
  "s_remoteFW b2_Session = []" "Sent (s_trafficStats b2_Session) = []" "Received (s_trafficStats b2_Session) = []" "\<not> s_remoteNoMsgs b2_Session"
  by (simp_all add: b2_Session_def example_Session_def NewSession_def Let_def)

lemma example_answer: "p_mid q = ''TJKYEIMMHSRB'' \<Longrightarrow> DirHandler_GetInboundAnswer q example_box = Accept"
proof -
  have "Join [''/m'', DIR_INBOX, ''TJKYEIMMHSRB.b2f''] \<noteq> []" by (rule Join_nonempty) simp
  moreover have "locate (Join [''/m'', DIR_INBOX, ''TJKYEIMMHSRB.b2f'']) = (True, [''m'', ''in'', ''TJKYEIMMHSRB.b2f''])"
    using locate_box_file(1) [of "''TJKYEIMMHSRB.b2f''" example_box] by (simp add: example_box_handler example_loc plain_name_def)
  ultimately show "p_mid q = ''TJKYEIMMHSRB'' \<Longrightarrow> DirHandler_GetInboundAnswer q example_box = Accept"
    by (simp add: DirHandler_GetInboundAnswer_def example_box_handler Ext_def os_Open_def Let_def example_box_fs fs_lookup_def fs_blocked_iff)
qed

text \<open>A turn that succeeds and one that fails, with a mailbox that has a message to send.\<close>

theorem sent_not_offered_again_witness:
  "\<exists>s' c' b'. handleOutbound example_gzip_env (Some (dirHandler example_gzip_env)) b2_Session (fresh_conn (''FS +'' @ CR # ''FF'')) example_sender =
      Some ((False, None), s', c', b') \<and> Sent (s_trafficStats s') = [''TJKYEIMMHSRB''] \<and> outbox_ok example_gzip_env b' \<and>
    (case DirHandler_GetOutbound example_gzip_env [] b' of None \<Rightarrow> True | Some msgs \<Rightarrow> ''TJKYEIMMHSRB'' \<notin> MID ` set msgs)"
proof -
  let ?e = example_gzip_env and ?c = "fresh_conn (''FS +'' @ CR # ''FF'')"
  obtain y p where o: "DirHandler_GetOutbound ?e [] example_sender = Some [y]" "sendable ?e Wl2kProposal y" "m_body y = ''Hello''"
      "outbound ?e (Some (dirHandler ?e)) b2_Session example_sender = Some [p]" "p_mid p = ''TJKYEIMMHSRB''" "p_code p = Wl2kProposal"
    by (rule example_offer)
  have ready: "box_ready ?e example_sender" by (rule example_sender_box)
  then have ok: "outbox_ok ?e example_sender" by (simp add: box_ready_def)
  have off: "MID ` set [y] \<subseteq> outbox_offers example_sender" by (rule GetOutbound_offers [OF ok o(1)])
  have a: "answerAll (Some (\<lambda>p. GetInboundAnswer (dirHandler ?e) p example_box)) [] (map wire_part [p]) = (1, [(wire_part p)\<lparr>p_answer := Accept\<rparr>])"
    using o(5,6) example_answer [of "wire_part p"] by (simp add: answerFor_def wire_part_def Let_def prop_codes dirHandler_def)
  have good: "\<forall>x \<in> set [y]. \<forall>z. same_message x z \<and> message_ok ?e z \<longrightarrow> storable ?e z"
    using off same_message_MID by (auto simp: storable_def outbox_offers_def)
  obtain s' c' b' where h: "handleOutbound ?e (Some (dirHandler ?e)) b2_Session ?c example_sender = Some ((False, None), s', c', b')"
      "Sent (s_trafficStats s') = [''TJKYEIMMHSRB'']"
  proof -
    have g: "GetOutbound (dirHandler ?e) (s_remoteFW b2_Session) example_sender = Some [y]" using o(1) by (simp add: b2_Session_simps dirHandler_def)
    have x: "\<forall>x \<in> set [y]. sendable ?e (highestPropCode ?e b2_Session) x" "distinct (map MID [y])" "[p] = take MaxBlockSize [p]"
        "\<forall>p. is_answer (GetInboundAnswer (dirHandler ?e) p example_box)" "(0::nat) < 1" "[Accept] = map p_answer [(wire_part p)\<lparr>p_answer := Accept\<rparr>]"
        "[p] = accepted [Accept] [p]" "line_ok ?c" "c_in ?c = ''FS '' @ [Accept] @ CR # CHR ''F'' # ''F''"
      using o(2) b2_Session_code by (simp_all add: dir_answers MaxBlockSize_def line_ok_def fresh_conn_def Accept_def)
    show ?thesis using mail_delivered [OF dir_sender_ok ready off g x(1,2) o(4) x(3,4) dir_receiver_ok example_box_ready good a x(5-9)]
      by (elim exE conjE) (rule that, assumption, erule trans, simp (no_asm) add: b2_Session_simps o(5))
  qed
  obtain mids where m: "outbox_ok ?e b'" "Sent (s_trafficStats s') = Sent (s_trafficStats b2_Session) @ mids"
      "\<forall>fws msgs. DirHandler_GetOutbound ?e fws b' = Some msgs \<longrightarrow> set mids \<inter> MID ` set msgs = {}"
    using sent_not_offered_again [OF ok h(1)] by (elim exE conjE) (rule that)
  have "mids = [''TJKYEIMMHSRB'']" using m(2) h(2) b2_Session_simps(2) by simp
  then have "''TJKYEIMMHSRB'' \<notin> MID ` set msgs" if "DirHandler_GetOutbound ?e [] b' = Some msgs" for msgs
    using that m(3) [rule_format, of "[]" msgs] by simp
  then show ?thesis using h m(1) by (auto split: option.splits)
qed


text \<open>C1. Two stations with directory mailboxes that work: an outbound turn of one answered by the other. The sender reports
  the accepted messages as sent and its outbox offers none of them any more. The other station, reading what was written,
  reports the same messages as received, and each can be read from its inbox, marked as unread, with the body, the
  attachments and the header values it was sent with. The messages offered are well-formed, with titles that fit the length
  byte of a transfer, and are compressed with lzhuf, which is known to work up to 3867 bytes, or with a gzip that
  decompresses what it compressed.\<close>

theorem mailboxes_exchange:
  assumes "box_ready env b" "box_ready env rb"
    and "DirHandler_GetOutbound env (s_remoteFW s) b = Some msgs" "\<forall>x \<in> set msgs. sendable env (highestPropCode env s) x"
    and "outbound env (Some (dirHandler env)) s b = Some ps" "qs = take MaxBlockSize ps"
    and "answerAll (Some (\<lambda>p. DirHandler_GetInboundAnswer p rb)) [] (map wire_part qs) = (n, props)" "0 < n"
    and "as = map p_answer props" "acc = accepted as qs"
    and "line_ok c" "c_in c = ''FS '' @ as @ CR # CHR ''F'' # nxt"
  shows "\<exists>s' c' b'. handleOutbound env (Some (dirHandler env)) s c b = Some ((False, None), s', c', b') \<and>
    Sent (s_trafficStats s') = Sent (s_trafficStats s) @ map p_mid acc \<and>
    (\<forall>p \<in> set acc. p_mid p \<notin> outbox_offers b') \<and>
    (\<forall>rc rs rest. line_ok rc \<longrightarrow> c_in rc = drop (length (c_out c)) (c_out c') @ rest \<longrightarrow>
      (\<exists>rs' rb'. handleInbound env (Some (dirHandler env)) rs rc rb =
         Some ((False, None), rs', rc\<lparr>c_in := rest, c_out := c_out rc @ ''FS '' @ as @ [CR]\<rparr>, rb') \<and>
         Received (s_trafficStats rs') = Received (s_trafficStats rs) @ map p_mid acc \<and>
         (\<forall>p \<in> set acc. \<exists>x \<in> set msgs. \<exists>y. MID x = p_mid p \<and>
           OpenMessage env (Join [MBoxPath (mb_handler rb), DIR_INBOX, p_mid p @ Ext]) (mb_fs rb') = Some (Inr y) \<and> arrived x y)))"
proof -
  let ?h = "dirHandler env"
  have ok: "outbox_ok env b" using assms(1) by (simp add: box_ready_def)
  have off: "MID ` set msgs \<subseteq> outbox_offers b" by (rule GetOutbound_offers [OF ok assms(3)])
  have dist: "distinct (map MID msgs)" by (rule GetOutbound_distinct [OF assms(1,3)])
  have good: "\<forall>x \<in> set msgs. \<forall>y. same_message x y \<and> message_ok env y \<longrightarrow> storable env y"
    using off same_message_MID by (auto simp: storable_def outbox_offers_def)
  have g: "GetOutbound ?h (s_remoteFW s) b = Some msgs" using assms(3) by (simp add: dirHandler_def)
  have a: "answerAll (Some (\<lambda>p. GetInboundAnswer ?h p rb)) [] (map wire_part qs) = (n, props)"
    using assms(7) by (simp add: dirHandler_def)
  note so = dir_sender_ok [of env s]
  have da: "\<forall>p. is_answer (GetInboundAnswer ?h p rb)" by (simp add: dir_answers)
  have dacc: "distinct (map p_mid acc)"
  proof -
    have "distinct (map p_mid qs)" using outbound_from(1) [OF assms(5) g dist] assms(6) by (metis distinct_take take_map)
    then show ?thesis unfolding assms(10) by (rule accepted_distinct)
  qed
  obtain s' c' b' where out: "handleOutbound env (Some ?h) s c b = Some ((False, None), s', c', b')"
      "Sent (s_trafficStats s') = Sent (s_trafficStats s) @ map p_mid acc"
    and inb: "\<And>rc rs rest. line_ok rc \<Longrightarrow> c_in rc = drop (length (c_out c)) (c_out c') @ rest \<Longrightarrow>
      \<exists>rs' xs. handleInbound env (Some ?h) rs rc rb =
         Some ((False, None), rs', rc\<lparr>c_in := rest, c_out := c_out rc @ ''FS '' @ as @ [CR]\<rparr>, putAll ?h xs rb) \<and>
         list_all2 (\<lambda>p y. \<exists>x \<in> set msgs. MID x = p_mid p \<and> same_message x y \<and> message_ok env y) acc xs \<and>
         Received (s_trafficStats rs') = Received (s_trafficStats rs) @ map p_mid acc"
    using mail_delivered [OF so assms(1) off g assms(4) dist assms(5,6) da dir_receiver_ok assms(2) good a assms(8-12)] by auto
  have settled: "p_mid p \<notin> outbox_offers b'" if "p \<in> set acc" for p
    using dir.handleOutbound_settles [OF ok out(1)] out(2) that by auto
  have recv: "\<exists>rs' rb'. handleInbound env (Some ?h) rs rc rb =
         Some ((False, None), rs', rc\<lparr>c_in := rest, c_out := c_out rc @ ''FS '' @ as @ [CR]\<rparr>, rb') \<and>
         Received (s_trafficStats rs') = Received (s_trafficStats rs) @ map p_mid acc \<and>
         (\<forall>p \<in> set acc. \<exists>x \<in> set msgs. \<exists>y. MID x = p_mid p \<and>
           OpenMessage env (Join [MBoxPath (mb_handler rb), DIR_INBOX, p_mid p @ Ext]) (mb_fs rb') = Some (Inr y) \<and> arrived x y)"
    if line: "line_ok rc" "c_in rc = drop (length (c_out c)) (c_out c') @ rest" for rc rs rest
  proof -
    obtain rs' xs where r: "handleInbound env (Some ?h) rs rc rb =
         Some ((False, None), rs', rc\<lparr>c_in := rest, c_out := c_out rc @ ''FS '' @ as @ [CR]\<rparr>, putAll ?h xs rb)"
      "list_all2 (\<lambda>p y. \<exists>x \<in> set msgs. MID x = p_mid p \<and> same_message x y \<and> message_ok env y) acc xs"
      "Received (s_trafficStats rs') = Received (s_trafficStats rs) @ map p_mid acc" using inb [OF line] by blast
    have "\<exists>x \<in> set msgs. \<exists>y. MID x = p_mid p \<and>
      OpenMessage env (Join [MBoxPath (mb_handler rb), DIR_INBOX, p_mid p @ Ext]) (mb_fs (putAll ?h xs rb)) = Some (Inr y) \<and> arrived x y"
      if "p \<in> set acc" for p
      using received_readable [OF assms(2) r(2) good dacc that] .
    then show ?thesis using r by blast
  qed
  show ?thesis using out settled recv by blast
qed

theorem mailboxes_exchange_witness:
  "\<exists>s' c' b' rs' rb'. handleOutbound example_gzip_env (Some (dirHandler example_gzip_env)) b2_Session (fresh_conn (''FS +'' @ CR # ''FF'')) example_sender =
      Some ((False, None), s', c', b') \<and> Sent (s_trafficStats s') = [''TJKYEIMMHSRB''] \<and>
    handleInbound example_gzip_env (Some (dirHandler example_gzip_env)) b2_Session (fresh_conn (c_out c')) example_box =
      Some ((False, None), rs', (fresh_conn [])\<lparr>c_out := ''FS +'' @ [CR]\<rparr>, rb') \<and> Received (s_trafficStats rs') = [''TJKYEIMMHSRB''] \<and>
    (\<exists>y. OpenMessage example_gzip_env (Join [''/m'', DIR_INBOX, ''TJKYEIMMHSRB.b2f'']) (mb_fs rb') = Some (Inr y) \<and> m_body y = ''Hello'')"
proof -
  let ?e = example_gzip_env and ?c = "fresh_conn (''FS +'' @ CR # ''FF'')"
  obtain y p where o: "DirHandler_GetOutbound ?e [] example_sender = Some [y]" "sendable ?e Wl2kProposal y" "m_body y = ''Hello''"
      "outbound ?e (Some (dirHandler ?e)) b2_Session example_sender = Some [p]" "p_mid p = ''TJKYEIMMHSRB''" "p_code p = Wl2kProposal"
    by (rule example_offer)
  note s = b2_Session_simps
  have ready: "box_ready ?e example_sender" by (rule example_sender_box)
  have a: "answerAll (Some (\<lambda>p. DirHandler_GetInboundAnswer p example_box)) [] (map wire_part [p]) = (1, [(wire_part p)\<lparr>p_answer := Accept\<rparr>])"
    using o(5,6) example_answer [of "wire_part p"] by (simp add: answerFor_def wire_part_def Let_def prop_codes)
  note run = mailboxes_exchange [OF ready example_box_ready _ _ o(4) _ a,
    where msgs = "[y]" and as = "[Accept]" and acc = "[p]" and c = ?c and nxt = "''F''"]
  obtain s' c' b' where 1: "handleOutbound ?e (Some (dirHandler ?e)) b2_Session ?c example_sender = Some ((False, None), s', c', b')"
      "Sent (s_trafficStats s') = [''TJKYEIMMHSRB'']"
    and 2: "\<And>rc rs rest. line_ok rc \<Longrightarrow> c_in rc = drop (length (c_out ?c)) (c_out c') @ rest \<Longrightarrow>
      \<exists>rs' rb'. handleInbound ?e (Some (dirHandler ?e)) rs rc example_box =
         Some ((False, None), rs', rc\<lparr>c_in := rest, c_out := c_out rc @ ''FS '' @ [Accept] @ [CR]\<rparr>, rb') \<and>
         Received (s_trafficStats rs') = Received (s_trafficStats rs) @ [''TJKYEIMMHSRB''] \<and>
         (\<exists>z. OpenMessage ?e (Join [''/m'', DIR_INBOX, ''TJKYEIMMHSRB.b2f'']) (mb_fs rb') = Some (Inr z) \<and> arrived y z)"
    using run o(1,2,5) s b2_Session_code by (simp add: MaxBlockSize_def line_ok_def fresh_conn_def Accept_def example_box_handler Ext_def) blast
  show ?thesis using 1 2 [of "fresh_conn (c_out c')" "[]" b2_Session] o(3) s
    by (fastforce simp: line_ok_def fresh_conn_def Accept_def arrived_def)
qed

end
